(* ===== verification/IIS_Prelude.thy ===== *)
theory IIS_Prelude
  imports Main "HOL-Library.Word" "HOL-Library.Monad_Syntax"
begin

unbundle bit_operations_syntax

section \<open>Shared types, error codes and memory\<close>

text \<open>
  The vocabulary of the development: the Win32 integer types at their widths, the error codes
  and \<open>HRESULT\<close> tests the sources use, and memory blocks as lists whose out-of-range accesses
  are the value \<open>None\<close>. A function of type \<open>'a option\<close> returns \<open>None\<close> exactly when the code it
  models would read or write outside a block (or through a NULL pointer), so a theorem that
  the result is \<open>Some\<close> is a memory-safety statement.
\<close>

subsection \<open>Integers, characters and strings\<close>

type_synonym BYTE = "8 word"
type_synonym ACHAR = "8 word"
type_synonym WCHAR = "16 word"
type_synonym DWORD = "32 word"
type_synonym ULONGLONG = "64 word"
type_synonym HRESULT = "32 word"

text \<open>Wide strings are lists of \<open>WCHAR\<close>; \<open>L ''abc''\<close> is the literal \<open>L"abc"\<close>.\<close>

type_synonym wstr = "WCHAR list"

definition L :: "string \<Rightarrow> wstr" where
  "L s = map of_char s"

lemma L_simps [simp]:
  "L [] = []"
  "L (c # s) = of_char c # L s"
  "L (s @ t) = L s @ L t"
  by (simp_all add: L_def)

lemma length_L [simp]: "length (L s) = length s"
  by (simp add: L_def)

subsection \<open>Error codes\<close>

text \<open>
  The constants and macros of \<open>winerror.h\<close> the sources use. \<open>FAILED\<close> looks at the sign bit only;
  a bare Win32 code such as \<open>ERROR_BAD_ENVIRONMENT\<close> is positive and therefore counts as success
  unless it goes through \<open>HRESULT_FROM_WIN32\<close>.
\<close>

definition S_OK :: HRESULT where "S_OK = 0"
definition E_FAIL :: HRESULT where "E_FAIL = 0x80004005"
definition E_UNEXPECTED :: HRESULT where "E_UNEXPECTED = 0x8000FFFF"
definition E_OUTOFMEMORY :: HRESULT where "E_OUTOFMEMORY = 0x8007000E"
definition E_INVALIDARG :: HRESULT where "E_INVALIDARG = 0x80070057"

definition ERROR_SUCCESS :: DWORD where "ERROR_SUCCESS = 0"
definition ERROR_FILE_NOT_FOUND :: DWORD where "ERROR_FILE_NOT_FOUND = 2"
definition ERROR_NOT_ENOUGH_MEMORY :: DWORD where "ERROR_NOT_ENOUGH_MEMORY = 8"
definition ERROR_BAD_ENVIRONMENT :: DWORD where "ERROR_BAD_ENVIRONMENT = 10"
definition ERROR_INVALID_DATA :: DWORD where "ERROR_INVALID_DATA = 13"
definition ERROR_INVALID_PARAMETER :: DWORD where "ERROR_INVALID_PARAMETER = 87"
definition ERROR_BUFFER_OVERFLOW :: DWORD where "ERROR_BUFFER_OVERFLOW = 111"
definition ERROR_INSUFFICIENT_BUFFER :: DWORD where "ERROR_INSUFFICIENT_BUFFER = 122"
definition ERROR_ALREADY_EXISTS :: DWORD where "ERROR_ALREADY_EXISTS = 183"
definition ERROR_ARITHMETIC_OVERFLOW :: DWORD where "ERROR_ARITHMETIC_OVERFLOW = 534"

definition FAILED :: "HRESULT \<Rightarrow> bool" where
  "FAILED hr \<longleftrightarrow> sint hr < 0"

abbreviation SUCCEEDED :: "HRESULT \<Rightarrow> bool" where
  "SUCCEEDED hr \<equiv> \<not> FAILED hr"

definition HRESULT_FROM_WIN32 :: "DWORD \<Rightarrow> HRESULT" where
  "HRESULT_FROM_WIN32 x =
     (if sint x \<le> 0 then x else (x AND 0xFFFF) OR push_bit 16 7 OR 0x80000000)"

definition MAXDWORD :: nat where "MAXDWORD = 4294967295"

text \<open>
  Sizes that are compared and cast between widths are natural numbers; the casts and the
  arithmetic that can wrap around are written out. \<open>SIZE_T\<close> has 64 bits (the x64 build).
\<close>

definition u32 :: "nat \<Rightarrow> nat" where "u32 n = n mod 4294967296"
definition u64 :: "nat \<Rightarrow> nat" where "u64 n = n mod 18446744073709551616"

lemma u32_small [simp]: "n < 4294967296 \<Longrightarrow> u32 n = n"
  by (simp add: u32_def)

lemma u64_small [simp]: "n < 18446744073709551616 \<Longrightarrow> u64 n = n"
  by (simp add: u64_def)

named_theorems hresult_defs \<open>the constants and tests of HRESULT values\<close>

lemmas hresult_consts [hresult_defs] =
  S_OK_def E_FAIL_def E_UNEXPECTED_def E_OUTOFMEMORY_def E_INVALIDARG_def
  ERROR_SUCCESS_def ERROR_FILE_NOT_FOUND_def ERROR_NOT_ENOUGH_MEMORY_def
  ERROR_BAD_ENVIRONMENT_def ERROR_INVALID_DATA_def ERROR_INVALID_PARAMETER_def
  ERROR_BUFFER_OVERFLOW_def ERROR_INSUFFICIENT_BUFFER_def ERROR_ALREADY_EXISTS_def
  ERROR_ARITHMETIC_OVERFLOW_def FAILED_def HRESULT_FROM_WIN32_def

lemma succeeded_S_OK [simp]: "SUCCEEDED S_OK"
  by (simp add: hresult_defs)

lemma failed_hresults [simp]:
  "FAILED E_FAIL" "FAILED E_UNEXPECTED" "FAILED E_OUTOFMEMORY" "FAILED E_INVALIDARG"
  "FAILED (HRESULT_FROM_WIN32 ERROR_FILE_NOT_FOUND)"
  "FAILED (HRESULT_FROM_WIN32 ERROR_NOT_ENOUGH_MEMORY)"
  "FAILED (HRESULT_FROM_WIN32 ERROR_BAD_ENVIRONMENT)"
  "FAILED (HRESULT_FROM_WIN32 ERROR_INVALID_DATA)"
  "FAILED (HRESULT_FROM_WIN32 ERROR_INVALID_PARAMETER)"
  "FAILED (HRESULT_FROM_WIN32 ERROR_INSUFFICIENT_BUFFER)"
  "FAILED (HRESULT_FROM_WIN32 ERROR_ALREADY_EXISTS)"
  "FAILED (HRESULT_FROM_WIN32 ERROR_ARITHMETIC_OVERFLOW)"
  by (simp_all add: hresult_defs)

subsection \<open>Memory blocks\<close>

definition load_at :: "'a list \<Rightarrow> nat \<Rightarrow> 'a option" where
  "load_at b i = (if i < length b then Some (b ! i) else None)"

definition store_at :: "'a list \<Rightarrow> nat \<Rightarrow> 'a \<Rightarrow> 'a list option" where
  "store_at b i x = (if i < length b then Some (b[i := x]) else None)"

text \<open>\<open>memcpy\<close> of \<open>xs\<close> to offset \<open>i\<close> of the block \<open>b\<close>.\<close>

definition store_block :: "'a list \<Rightarrow> nat \<Rightarrow> 'a list \<Rightarrow> 'a list option" where
  "store_block b i xs =
     (if i + length xs \<le> length b then Some (take i b @ xs @ drop (i + length xs) b) else None)"

lemma load_at_Some [simp]: "i < length b \<Longrightarrow> load_at b i = Some (b ! i)"
  by (simp add: load_at_def)

lemma store_at_Some [simp]: "i < length b \<Longrightarrow> store_at b i x = Some (b[i := x])"
  by (simp add: store_at_def)

lemma store_block_Some [simp]:
  "i + length xs \<le> length b \<Longrightarrow>
   store_block b i xs = Some (take i b @ xs @ drop (i + length xs) b)"
  by (simp add: store_block_def)

lemma store_at_length: "store_at b i x = Some b' \<Longrightarrow> length b' = length b"
  by (auto simp: store_at_def split: if_splits)

subsection \<open>Results that must exist\<close>

text \<open>
  \<open>returns r P\<close>: the computation does not fault and its result satisfies \<open>P\<close>. It distributes over
  the monadic composition, which is how the proofs follow the code.
\<close>

definition returns :: "'a option \<Rightarrow> ('a \<Rightarrow> bool) \<Rightarrow> bool" where
  "returns r P \<longleftrightarrow> (case r of None \<Rightarrow> False | Some x \<Rightarrow> P x)"

lemma returns_simps [simp]: "returns (Some x) P = P x" "\<not> returns None P"
  by (simp_all add: returns_def)

lemma returns_bind [simp]: "returns (r \<bind> f) P = returns r (\<lambda>x. returns (f x) P)"
  by (cases r) simp_all

lemma returns_map_option [simp]: "returns (map_option f r) P = returns r (\<lambda>x. P (f x))"
  by (cases r) simp_all

lemma returns_mono: "returns r P \<Longrightarrow> (\<And>x. r = Some x \<Longrightarrow> P x \<Longrightarrow> Q x) \<Longrightarrow> returns r Q"
  by (cases r) simp_all

lemma returnsE:
  assumes "returns r P"
  obtains x where "r = Some x" "P x"
  using assms by (cases r) simp_all

lemma returns_pairE:
  assumes "returns r (\<lambda>(a, b). P a b)"
  obtains a b where "r = Some (a, b)" "P a b"
  using assms by (cases r) auto

lemma returns_tripleE:
  assumes "returns r (\<lambda>(a, b, c). P a b c)"
  obtains a b c where "r = Some (a, b, c)" "P a b c"
  using assms by (cases r) auto

lemma returns_iff: "returns r P \<longleftrightarrow> (\<exists>x. r = Some x \<and> P x)"
  by (cases r) simp_all

text \<open>
  \<open>returns_if c r P\<close>: a result satisfies \<open>P\<close> whenever there is one, and when \<open>c\<close> holds there is one. With \<open>c\<close> for the
  conditions under which an operation ends without a fault, one proof covers both statements.
\<close>

definition returns_if :: "bool \<Rightarrow> 'a option \<Rightarrow> ('a \<Rightarrow> bool) \<Rightarrow> bool" where
  "returns_if c r P \<longleftrightarrow> (case r of None \<Rightarrow> \<not> c | Some x \<Rightarrow> P x)"

lemma returns_if_simps [simp]: "returns_if c (Some x) P = P x" "returns_if c None P = (\<not> c)"
  by (simp_all add: returns_if_def)

lemma returns_if_bind [simp]: "returns_if c (r \<bind> f) P = returns_if c r (\<lambda>x. returns_if c (f x) P)"
  by (cases r) simp_all

lemma returns_if_map_option [simp]: "returns_if c (map_option f r) P = returns_if c r (\<lambda>x. P (f x))"
  by (cases r) simp_all

lemma returns_if_mono: "returns_if c r P \<Longrightarrow> (\<And>x. r = Some x \<Longrightarrow> P x \<Longrightarrow> Q x) \<Longrightarrow> returns_if c r Q"
  by (cases r) simp_all

lemma returns_returns_if: "returns r P \<Longrightarrow> returns_if c r P"
  by (cases r) simp_all

lemma returns_ifI: "(c \<Longrightarrow> r \<noteq> None) \<Longrightarrow> (\<And>x. r = Some x \<Longrightarrow> P x) \<Longrightarrow> returns_if c r P"
  by (cases r) auto

lemma returns_ifD: "returns_if c r P \<Longrightarrow> c \<Longrightarrow> returns r P"
  by (cases r) simp_all

lemma returns_if_tripleE:
  assumes "returns_if c r (\<lambda>(x, y, z). P x y z)"
  obtains "r = None" "\<not> c" | x y z where "r = Some (x, y, z)" "P x y z"
  using assms by (cases r) auto

subsection \<open>Lists\<close>

lemma take_Suc_update [simp]: "i < length b \<Longrightarrow> take (Suc i) (b[i := x]) = take i b @ [x]"
  by (simp add: take_Suc_conv_app_nth)

lemma drop_update_beyond [simp]: "i < n \<Longrightarrow> drop n (b[i := x]) = drop n b"
  by simp

lemma takeWhile_prefix_stop:
  "\<forall>x \<in> set xs. P x \<Longrightarrow> \<not> P y \<Longrightarrow> takeWhile P (xs @ y # ys) = xs"
  by (induction xs) auto

lemma dropWhile_prefix_stop:
  "\<forall>x \<in> set xs. P x \<Longrightarrow> \<not> P y \<Longrightarrow> dropWhile P (xs @ y # ys) = y # ys"
  by (induction xs) auto

lemma update_two:
  assumes "Suc i < length b"
  shows "b[i := x, Suc i := y] = take i b @ x # y # drop (Suc (Suc i)) b"
proof -
  have "take (Suc (Suc i)) (b[i := x, Suc i := y]) = take i b @ [x, y]"
    using assms by simp
  then show ?thesis
    using append_take_drop_id [of "Suc (Suc i)" "b[i := x, Suc i := y]"] by simp
qed

lemma last_two:
  assumes "2 \<le> length s"
  shows "s ! (length s - 1) = last s" "s ! (length s - 2) = last (butlast s)"
proof -
  show "s ! (length s - 1) = last s" using assms by (subst last_conv_nth) auto
  have "butlast s \<noteq> []" using assms by (auto simp flip: length_greater_0_conv)
  then show "s ! (length s - 2) = last (butlast s)"
    using assms by (subst last_conv_nth) (auto simp: nth_butlast numeral_2_eq_2)
qed

lemma replicate_2: "replicate 2 x = [x, x]"
  by (simp add: numeral_2_eq_2)

lemma four_more:
  assumes "length s = 4 * Suc k"
  obtains c0 c1 c2 c3 cs where "s = c0 # c1 # c2 # c3 # cs" "length cs = 4 * k"
  using assms by (auto simp: length_Suc_conv numeral_eq_Suc)

lemma length_takeWhile_lt: "c \<in> set xs \<Longrightarrow> length (takeWhile (\<lambda>x. x \<noteq> c) xs) < length xs"
  by (induction xs) auto

lemma nth_before_takeWhile: "k < length (takeWhile P xs) \<Longrightarrow> P (xs ! k)"
  by (metis nth_mem set_takeWhileD takeWhile_nth)

lemma in_set_drop_iff: "c \<in> set (drop i xs) \<longleftrightarrow> (\<exists>j. i \<le> j \<and> j < length xs \<and> xs ! j = c)"
proof
  assume "c \<in> set (drop i xs)"
  then obtain n where "n < length xs - i" "xs ! (i + n) = c" by (auto simp: in_set_conv_nth)
  then show "\<exists>j. i \<le> j \<and> j < length xs \<and> xs ! j = c" by (intro exI [of _ "i + n"]) auto
next
  assume "\<exists>j. i \<le> j \<and> j < length xs \<and> xs ! j = c"
  then obtain j where "i \<le> j" "j < length xs" "xs ! j = c" by blast
  then show "c \<in> set (drop i xs)" by (auto simp: in_set_conv_nth intro!: exI [of _ "j - i"])
qed

subsection \<open>Words\<close>

lemma unat_Suc_32: "unat (w :: DWORD) < MAXDWORD \<Longrightarrow> unat (w + 1) = Suc (unat w)"
  by (simp add: unat_word_ariths MAXDWORD_def)

lemma unat_of_nat_32: "n < 2 ^ 32 \<Longrightarrow> unat (word_of_nat n :: DWORD) = n"
  by (simp add: unat_of_nat)

lemma unat_lt_32: "unat (w :: DWORD) < 4294967296"
  using unsigned_less [where 'a = nat, of w] by simp

lemma word_eq_of_unat: "unat w = n \<Longrightarrow> w = word_of_nat n"
  by (metis of_nat_unat ucast_id)

lemma mod_4_word:
  fixes w :: DWORD
  assumes "w mod 4 = 0" "w \<noteq> 0"
  obtains k where "unat w = 4 * k" "0 < k"
proof -
  have "unat w mod 4 = 0" using assms(1) by (simp add: word_unat_eq_iff unat_mod)
  then obtain k where k: "unat w = 4 * k" by auto
  with assms(2) have "0 < k" by (cases k) (auto simp: unat_eq_0)
  with k that show thesis by blast
qed

end
