(* ===== verification/Base64.thy ===== *)
theory Base64
  imports IIS_Prelude
begin

section \<open>Base64 encoding and decoding (IISLib/base64.cpp)\<close>

text \<open>
  The two routines of \<open>IISLib/base64.cpp\<close>, over characters of any width: the wide-character
  pair works on \<open>WCHAR\<close>, the narrow pair on \<open>ACHAR\<close>. The caller's output buffer is \<open>None\<close> for
  NULL; the result is a status code, the buffer after the call and the value stored through
  the size pointer. Every write goes through \<open>store_at\<close>, so a result \<open>Some\<close> means that no
  byte outside the caller's buffer was touched. Arithmetic on the sizes is 32-bit.
\<close>

subsection \<open>Tables\<close>

definition rgchEncodeTable :: "'c::len word list" where
  "rgchEncodeTable =
     map of_char ''ABCDEFGHIJKLMNOPQRSTUVWXYZabcdefghijklmnopqrstuvwxyz0123456789+/''"

definition NA :: BYTE where "NA = 255"

definition rgbDecodeTable :: "BYTE list" where
  "rgbDecodeTable =
     replicate 43 NA @ [62, NA, NA, NA, 63] @
     map word_of_nat [52..<62] @ [NA, NA, NA, 0, NA, NA] @
     [NA] @ map word_of_nat [0..<26] @ replicate 5 NA @
     [NA] @ map word_of_nat [26..<52] @ replicate 5 NA"

definition DECODE :: "'c::len word \<Rightarrow> BYTE" where
  "DECODE x = (if unat x < 128 then rgbDecodeTable ! unat x else NA)"

subsection \<open>Encoding\<close>

record 'c b64_result =
  status :: DWORD
  buffer :: "'c list option"
  count :: DWORD

text \<open>\<open>(ib < cbDecodedBufferSize) ? pbDecodedBuffer[ib++] : 0\<close>, on the bytes not yet read.\<close>

fun next_byte :: "BYTE list \<Rightarrow> BYTE \<times> BYTE list" where
  "next_byte [] = (0, [])"
| "next_byte (b # bs) = (b, bs)"

text \<open>The four indices of a cluster; operands are promoted to \<open>int\<close> as in C.\<close>

definition int_of_byte :: "BYTE \<Rightarrow> 32 word" where
  "int_of_byte b = ucast b"

definition cluster_indices :: "BYTE \<Rightarrow> BYTE \<Rightarrow> BYTE \<Rightarrow> nat list" where
  "cluster_indices b0 b1 b2 =
     (let i0 = int_of_byte b0; i1 = int_of_byte b1; i2 = int_of_byte b2
      in map unat
           [drop_bit 2 i0,
            (push_bit 4 i0 AND 0x30) OR (drop_bit 4 i1 AND 0x0f),
            (push_bit 2 i1 AND 0x3c) OR (drop_bit 6 i2 AND 0x03),
            i2 AND 0x3f])"

definition cluster_chars :: "BYTE \<Rightarrow> BYTE \<Rightarrow> BYTE \<Rightarrow> 'c::len word list" where
  "cluster_chars b0 b1 b2 = map (\<lambda>i. rgchEncodeTable ! i) (cluster_indices b0 b1 b2)"

text \<open>
  \<open>psz[ich++] = c\<close> for each character, each followed by the check
  \<open>if (ich >= cchEncodedStringSize) return ERROR_BUFFER_OVERFLOW\<close>: the flag says whether all
  checks passed.
\<close>

fun emit :: "DWORD \<Rightarrow> 'c list \<Rightarrow> 'c list \<Rightarrow> DWORD \<Rightarrow> (bool \<times> 'c list \<times> DWORD) option" where
  "emit cap [] out ich = Some (True, out, ich)"
| "emit cap (c # cs) out ich = do {
     out' \<leftarrow> store_at out (unat ich) c;
     (if cap \<le> ich + 1 then Some (False, out', ich + 1) else emit cap cs out' (ich + 1))
   }"

function encode_loop :: "DWORD \<Rightarrow> BYTE list \<Rightarrow> 'c::len word list \<Rightarrow> DWORD \<Rightarrow>
    (bool \<times> 'c word list \<times> DWORD) option" where
  "encode_loop cap [] out ich = Some (True, out, ich)"
| "encode_loop cap (b0 # bs) out ich =
     (let (b1, bs1) = next_byte bs; (b2, bs2) = next_byte bs1
      in do {
        (ok, out', ich') \<leftarrow> emit cap (cluster_chars b0 b1 b2) out ich;
        (if ok then encode_loop cap bs2 out' ich' else Some (False, out', ich'))
      })"
  by pat_completeness auto

lemma next_byte_length: "length (snd (next_byte bs)) \<le> length bs"
  by (cases bs) auto

termination encode_loop
proof (relation "measure (\<lambda>(cap, bs, out, ich). length bs)", goal_cases)
  case 1
  show ?case by simp
next
  case (2 cap b0 bs out ich x b1 bs1 y b2 bs2)
  then have "length bs2 \<le> length bs1" "length bs1 \<le> length bs"
    using next_byte_length by (metis snd_conv)+
  then show ?case by simp
qed

text \<open>
  The switch after the loop: \<open>case 1\<close> falls through to \<open>case 2\<close>.
\<close>

definition pad_tail :: "DWORD \<Rightarrow> 'c::len word list \<Rightarrow> DWORD \<Rightarrow> 'c word list option" where
  "pad_tail cb out ich =
     (if cb mod 3 = 0 then Some out
      else if cb mod 3 = 1 then do {
        out' \<leftarrow> store_at out (unat (ich - 2)) (of_char (CHR ''=''));
        store_at out' (unat (ich - 1)) (of_char (CHR ''=''))
      }
      else store_at out (unat (ich - 1)) (of_char (CHR ''='')))"

definition encoded_size :: "DWORD \<Rightarrow> DWORD" where
  "encoded_size cb = 1 + (cb + 2) div 3 * 4"

definition encode_with :: "BYTE list \<Rightarrow> 'c::len word list option \<Rightarrow> DWORD \<Rightarrow>
    'c word b64_result option" where
  "encode_with data out cch =
     (let cb = word_of_nat (length data); cchEncoded = encoded_size cb;
          ret = (\<lambda>s b. Some \<lparr>status = s, buffer = b, count = cchEncoded\<rparr>)
      in if cch = 0 \<and> out = None then ret ERROR_SUCCESS out
         else if cch < cchEncoded then ret ERROR_INSUFFICIENT_BUFFER out
         else do {
           buf \<leftarrow> out;
           (ok, buf1, ich) \<leftarrow> encode_loop cch data buf 0;
           (if \<not> ok then ret ERROR_BUFFER_OVERFLOW (Some buf1)
            else do {
              buf2 \<leftarrow> pad_tail cb buf1 ich;
              buf3 \<leftarrow> store_at buf2 (unat ich) 0;
              ret ERROR_SUCCESS (Some buf3)
            })
         })"

definition Base64Encode :: "BYTE list \<Rightarrow> wstr option \<Rightarrow> DWORD \<Rightarrow> WCHAR b64_result option" where
  "Base64Encode = encode_with"

definition Base64EncodeA :: "BYTE list \<Rightarrow> ACHAR list option \<Rightarrow> DWORD \<Rightarrow> ACHAR b64_result option" where
  "Base64EncodeA = encode_with"

text \<open>What the caller must supply: a buffer of at least the announced size, or NULL with size 0.\<close>

definition buffer_ok :: "'a list option \<Rightarrow> DWORD \<Rightarrow> bool" where
  "buffer_ok out cch = (case out of None \<Rightarrow> cch = 0 | Some b \<Rightarrow> unat cch \<le> length b)"

subsection \<open>Decoding\<close>

text \<open>The three bytes of a cluster; the stores truncate the \<open>int\<close> to \<open>BYTE\<close>.\<close>

definition out_byte0 :: "BYTE \<Rightarrow> BYTE \<Rightarrow> BYTE" where
  "out_byte0 b0 b1 = ucast (push_bit 2 (int_of_byte b0) OR drop_bit 4 (int_of_byte b1))"

definition out_byte1 :: "BYTE \<Rightarrow> BYTE \<Rightarrow> BYTE" where
  "out_byte1 b1 b2 = ucast (push_bit 4 (int_of_byte b1) OR drop_bit 2 (int_of_byte b2))"

definition out_byte2 :: "BYTE \<Rightarrow> BYTE \<Rightarrow> BYTE" where
  "out_byte2 b2 b3 = ucast (push_bit 6 (int_of_byte b2) OR int_of_byte b3)"

fun decode_loop :: "DWORD \<Rightarrow> 'c::len word list \<Rightarrow> BYTE list \<Rightarrow> DWORD \<Rightarrow>
    (bool \<times> BYTE list \<times> DWORD) option" where
  "decode_loop cbDecoded [] buf ib = Some (True, buf, ib)"
| "decode_loop cbDecoded (c0 # c1 # c2 # c3 # cs) buf ib =
     (let b0 = DECODE c0; b1 = DECODE c1; b2 = DECODE c2; b3 = DECODE c3
      in if NA = b0 \<or> NA = b1 \<or> NA = b2 \<or> NA = b3 then Some (False, buf, ib)
         else do {
           buf1 \<leftarrow> store_at buf (unat ib) (out_byte0 b0 b1);
           (if ib + 1 < cbDecoded then do {
              buf2 \<leftarrow> store_at buf1 (unat (ib + 1)) (out_byte1 b1 b2);
              (if ib + 2 < cbDecoded then do {
                 buf3 \<leftarrow> store_at buf2 (unat (ib + 2)) (out_byte2 b2 b3);
                 decode_loop cbDecoded cs buf3 (ib + 3)
               }
               else decode_loop cbDecoded cs buf2 (ib + 2))
            }
            else decode_loop cbDecoded cs buf1 (ib + 1))
         })"
| "decode_loop cbDecoded _ buf ib = None"

text \<open>The characters before the terminating NUL are \<open>str\<close>; their number is truncated to a DWORD.\<close>

definition decoded_size :: "'c::len word list \<Rightarrow> DWORD \<Rightarrow> DWORD" where
  "decoded_size str cch =
     (let full = (cch + 3) div 4 * 3
      in if str ! unat (cch - 1) = of_char (CHR ''='')
         then (if str ! unat (cch - 2) = of_char (CHR ''='') then full - 2 else full - 1)
         else full)"

definition decode_with :: "'c::len word list \<Rightarrow> BYTE list option \<Rightarrow> DWORD \<Rightarrow>
    BYTE b64_result option" where
  "decode_with str out cb =
     (let cch = word_of_nat (length str) :: DWORD
      in if cch = 0 \<or> cch mod 4 \<noteq> 0
         then Some \<lparr>status = ERROR_INVALID_PARAMETER, buffer = out, count = 0\<rparr>
         else let cbDecoded = decoded_size str cch;
                  ret = (\<lambda>s b. Some \<lparr>status = s, buffer = b, count = cbDecoded\<rparr>)
              in if cb = 0 \<and> out = None then ret ERROR_SUCCESS out
                 else if cb < cbDecoded then ret ERROR_INSUFFICIENT_BUFFER out
                 else do {
                   buf \<leftarrow> out;
                   (ok, buf1, ib) \<leftarrow> decode_loop cbDecoded (take (unat cch) str) buf 0;
                   ret (if ok then ERROR_SUCCESS else ERROR_INVALID_PARAMETER) (Some buf1)
                 })"

definition Base64Decode :: "wstr \<Rightarrow> BYTE list option \<Rightarrow> DWORD \<Rightarrow> BYTE b64_result option" where
  "Base64Decode = decode_with"

definition Base64DecodeA :: "ACHAR list \<Rightarrow> BYTE list option \<Rightarrow> DWORD \<Rightarrow> BYTE b64_result option" where
  "Base64DecodeA = decode_with"

subsection \<open>Memory safety of the encoder\<close>

lemma emit_ok:
  assumes "unat cap \<le> length out" "unat ich + length cs < unat cap"
  shows "emit cap cs out ich =
    Some (True, take (unat ich) out @ cs @ drop (unat ich + length cs) out, ich + word_of_nat (length cs))"
  using assms
proof (induction cs arbitrary: out ich)
  case Nil
  then show ?case by simp
next
  case (Cons c cs)
  have "unat ich < MAXDWORD"
    using Cons.prems unat_lt_32 [of cap] by (simp add: MAXDWORD_def)
  then have s: "unat (ich + 1) = Suc (unat ich)" by (rule unat_Suc_32)
  have "\<not> cap \<le> ich + 1"
    using Cons.prems s by (simp add: word_le_nat_alt)
  then show ?case
    using Cons.prems s Cons.IH [of "out[unat ich := c]" "ich + 1"]
    by (simp add: algebra_simps)
qed

lemma emit_safe:
  assumes "unat cap \<le> length out" "ich < cap"
  shows "\<exists>ok out' ich'. emit cap cs out ich = Some (ok, out', ich') \<and>
    length out' = length out \<and> (ok \<longrightarrow> ich' < cap \<and> unat ich' = unat ich + length cs)"
  using assms
proof (induction cs arbitrary: out ich)
  case Nil
  then show ?case by (auto intro: exI [of _ True])
next
  case (Cons c cs)
  from Cons.prems have lt: "unat ich < unat cap" by (simp add: word_less_nat_alt)
  then have "unat ich < MAXDWORD" using unat_lt_32 [of cap] by (simp add: MAXDWORD_def)
  then have s: "unat (ich + 1) = Suc (unat ich)" by (rule unat_Suc_32)
  show ?case
  proof (cases "cap \<le> ich + 1")
    case True
    then show ?thesis using Cons.prems lt by (auto intro: exI [of _ False])
  next
    case False
    with Cons.prems lt s Cons.IH [of "out[unat ich := c]" "ich + 1"] show ?thesis
      by (auto simp: not_le)
  qed
qed

lemma length_cluster_chars [simp]: "length (cluster_chars b0 b1 b2) = 4"
  by (simp add: cluster_chars_def cluster_indices_def Let_def)

lemma encode_loop_safe:
  assumes "unat cap \<le> length out" "ich < cap"
  shows "\<exists>ok out' ich'. encode_loop cap bs out ich = Some (ok, out', ich') \<and>
    length out' = length out \<and> (ok \<longrightarrow> ich' < cap \<and> (bs \<noteq> [] \<longrightarrow> 4 \<le> unat ich') \<and> unat ich \<le> unat ich')"
  using assms
proof (induction cap bs out ich rule: encode_loop.induct)
  case (1 cap out ich)
  then show ?case by (auto intro: exI [of _ True])
next
  case (2 cap b0 bs out ich)
  obtain b1 bs1 where n1: "next_byte bs = (b1, bs1)" by force
  obtain b2 bs2 where n2: "next_byte bs1 = (b2, bs2)" by force
  obtain ok out1 ich1 where e: "emit cap (cluster_chars b0 b1 b2) out ich = Some (ok, out1, ich1)"
    and l: "length out1 = length out" and ok: "ok \<longrightarrow> ich1 < cap \<and> unat ich1 = unat ich + 4"
    using emit_safe [OF "2.prems", of "cluster_chars b0 b1 b2"] by auto
  show ?case
  proof (cases ok)
    case False
    then show ?thesis using n1 n2 e l by (auto intro: exI [of _ False])
  next
    case True
    with ok l have "ich1 < cap" "unat cap \<le> length out1" "unat ich1 = unat ich + 4"
      using "2.prems" by auto
    then show ?thesis
      using True n1 n2 e l "2.IH" [OF n1 [symmetric] refl n2 [symmetric] refl e refl refl True]
      by fastforce
  qed
qed

lemma encoded_size_pos: "0 < unat (encoded_size cb)"
proof -
  have "odd (encoded_size cb)"
    by (simp add: encoded_size_def)
  then have "encoded_size cb \<noteq> 0" by auto
  then show ?thesis by (simp add: unat_gt_0)
qed

lemma pad_tail_safe:
  assumes "cb mod 3 \<noteq> 0 \<Longrightarrow> 2 \<le> unat ich" "unat ich \<le> length out"
  shows "\<exists>out'. pad_tail cb out ich = Some out' \<and> length out' = length out"
proof (cases "cb mod 3 = 0")
  case True
  then show ?thesis by (simp add: pad_tail_def)
next
  case False
  with assms have "2 \<le> unat ich" by simp
  then have "(2 :: DWORD) \<le> ich" by (simp add: word_le_nat_alt)
  then have "unat (ich - 2) = unat ich - 2" "unat (ich - 1) = unat ich - 1"
    using \<open>2 \<le> unat ich\<close> by (simp_all add: unat_sub word_le_nat_alt)
  with \<open>2 \<le> unat ich\<close> assms False show ?thesis by (simp add: pad_tail_def)
qed

text \<open>
  C36: for any data and any buffer of the announced size, \<open>Base64Encode\<close> never writes outside the
  caller's buffer, also where the computed size wraps around.
\<close>

theorem Base64Encode_memory_safe:
  assumes "buffer_ok out cch"
  shows "\<exists>r. Base64Encode data out cch = Some r"
proof (cases out)
  case None
  with assms show ?thesis by (simp add: buffer_ok_def Base64Encode_def encode_with_def Let_def)
next
  case (Some b)
  let ?cb = "word_of_nat (length data) :: DWORD"
  show ?thesis
  proof (cases "cch < encoded_size ?cb")
    case True
    with Some show ?thesis by (simp add: Base64Encode_def encode_with_def Let_def)
  next
    case False
    then have "0 < cch" using encoded_size_pos [of ?cb]
      by (metis not_le word_le_nat_alt word_gt_0_no le_zero_eq unat_0 word_neq_0_conv neq0_conv)
    moreover have "unat cch \<le> length b" using assms Some by (simp add: buffer_ok_def)
    ultimately obtain ok b1 ich where loop: "encode_loop cch data b 0 = Some (ok, b1, ich)"
      and len: "length b1 = length b" and ok: "ok \<longrightarrow> ich < cch \<and> (data \<noteq> [] \<longrightarrow> 4 \<le> unat ich)"
      using encode_loop_safe [of cch b 0 data] by auto
    show ?thesis
    proof (cases ok)
      case True
      have "?cb mod 3 \<noteq> 0 \<Longrightarrow> 2 \<le> unat ich" using ok True by (cases data) auto
      moreover have "unat ich < length b1"
        using ok True len assms Some by (simp add: word_less_nat_alt buffer_ok_def)
      ultimately obtain b2 where "pad_tail ?cb b1 ich = Some b2" "length b2 = length b1"
        using pad_tail_safe [of ?cb ich b1] by auto
      with \<open>unat ich < length b1\<close> Some loop True False show ?thesis
        by (simp add: Base64Encode_def encode_with_def Let_def)
    qed (use Some loop False in \<open>simp add: Base64Encode_def encode_with_def Let_def\<close>)
  qed
qed

lemma Base64Encode_memory_safe_witness:
  "\<exists>r. Base64Encode [1, 2, 3, 4] (Some (replicate 9 7)) 9 = Some r"
  by (rule Base64Encode_memory_safe) (simp add: buffer_ok_def)

subsection \<open>What the encoder writes\<close>

text \<open>
  The reference encoding: each three bytes give four characters, a final group of one or two
  bytes gives two or three characters and is completed by \<open>=\<close>. \<open>b64_raw\<close> is the text before
  the padding characters replace its tail.
\<close>

fun b64_raw :: "BYTE list \<Rightarrow> 'c::len word list" where
  "b64_raw [] = []"
| "b64_raw [b0] = cluster_chars b0 0 0"
| "b64_raw [b0, b1] = cluster_chars b0 b1 0"
| "b64_raw (b0 # b1 # b2 # bs) = cluster_chars b0 b1 b2 @ b64_raw bs"

fun b64_string :: "BYTE list \<Rightarrow> 'c::len word list" where
  "b64_string [] = []"
| "b64_string [b0] = take 2 (cluster_chars b0 0 0) @ map of_char ''==''"
| "b64_string [b0, b1] = take 3 (cluster_chars b0 b1 0) @ map of_char ''=''"
| "b64_string (b0 # b1 # b2 # bs) = cluster_chars b0 b1 b2 @ b64_string bs"

lemma div3_step: "(5 + m) div 3 = Suc (Suc (Suc m) div 3)"
  using div_add_self2 [of 3 "Suc (Suc m)"] by simp

lemma length_b64_raw [simp]: "length (b64_raw bs) = 4 * ((length bs + 2) div 3)"
  by (induction bs rule: b64_raw.induct) (simp_all add: div3_step)

lemma length_b64_string [simp]: "length (b64_string bs) = 4 * ((length bs + 2) div 3)"
  by (induction bs rule: b64_string.induct) (simp_all add: div3_step)

lemma encode_loop_ok:
  assumes "unat cap \<le> length out" "unat ich + length (b64_raw bs) < unat cap"
  shows "encode_loop cap bs out ich =
    Some (True, take (unat ich) out @ b64_raw bs @ drop (unat ich + length (b64_raw bs)) out,
          ich + word_of_nat (length (b64_raw bs)))"
  using assms
proof (induction bs arbitrary: out ich rule: b64_raw.induct)
  case 1
  then show ?case by simp
next
  case (2 b0)
  then show ?case using emit_ok [of cap out ich "cluster_chars b0 0 0"] by simp
next
  case (3 b0 b1)
  then show ?case using emit_ok [of cap out ich "cluster_chars b0 b1 0"] by simp
next
  case (4 b0 b1 b2 bs)
  let ?out = "take (unat ich) out @ cluster_chars b0 b1 b2 @ drop (unat ich + 4) out"
  have lt: "unat ich + 4 + length (b64_raw bs) < unat cap"
    using 4 by simp
  then have u: "unat (ich + 4) = unat ich + 4"
    using unat_lt_32 [of cap] by (simp add: unat_word_ariths)
  have "unat cap \<le> length ?out" using 4 lt by simp
  with 4 lt u show ?case
    using emit_ok [of cap out ich "cluster_chars b0 b1 b2"] "4.IH" [of ?out "ich + 4"]
    by (simp add: algebra_simps)
qed

lemma encoded_size_nat:
  assumes "n \<le> 3221225469"
  shows "unat (encoded_size (word_of_nat n)) = 4 * ((n + 2) div 3) + 1"
proof -
  have a: "unat (word_of_nat n + 2 :: DWORD) = n + 2"
    using assms unat_of_nat_32 [of n] by (simp add: unat_word_ariths)
  then have b: "unat ((word_of_nat n + 2 :: DWORD) div 3) = (n + 2) div 3"
    by (simp add: unat_div)
  define d where "d = (word_of_nat n + 2 :: DWORD) div 3"
  have "unat d \<le> 1073741823" using assms b by (simp add: d_def)
  then have "unat (1 + d * 4) = 1 + 4 * unat d"
    by (simp add: unat_word_ariths)
  then show ?thesis
    using b by (simp add: encoded_size_def d_def)
qed

definition npad :: "nat \<Rightarrow> nat" where
  "npad n = (if n mod 3 = 0 then 0 else 3 - n mod 3)"

lemma npad_le: "npad n \<le> 2"
  by (simp add: npad_def) presburger

lemma npad_add3 [simp]: "npad (Suc (Suc (Suc n))) = npad n"
  by (simp add: npad_def mod_Suc)

lemma b64_string_pad:
  "b64_string bs = take (length (b64_raw bs :: 'c::len word list) - npad (length bs)) (b64_raw bs)
     @ replicate (npad (length bs)) (of_char (CHR ''='') :: 'c word)"
proof (induction bs rule: b64_raw.induct)
  case (4 b0 b1 b2 bs)
  show ?case
  proof (cases "bs = []")
    case True
    then show ?thesis by (simp add: npad_def)
  next
    case False
    then have "4 \<le> length (b64_raw bs :: 'c word list)"
      by (cases bs) auto
    then have "npad (length bs) \<le> length (b64_raw bs :: 'c word list)"
      using npad_le [of "length bs"] by linarith
    with 4 show ?thesis by simp
  qed
qed (simp_all add: npad_def replicate_2)

subsection \<open>The bits of a cluster\<close>

lemma mask_consts:
  "(0x30 :: 32 word) = push_bit 4 (mask 2)" "(0x0f :: 32 word) = mask 4"
  "(0x3c :: 32 word) = push_bit 2 (mask 4)" "(0x03 :: 32 word) = mask 2" "(0x3f :: 32 word) = mask 6"
  by (simp_all add: mask_eq_exp_minus_1)

lemma cluster_index_bits:
  "cluster_indices b0 b1 b2 =
   map unat [drop_bit 2 (int_of_byte b0),
     (push_bit 4 (int_of_byte b0) AND push_bit 4 (mask 2)) OR (drop_bit 4 (int_of_byte b1) AND mask 4),
     (push_bit 2 (int_of_byte b1) AND push_bit 2 (mask 4)) OR (drop_bit 6 (int_of_byte b2) AND mask 2),
     int_of_byte b2 AND mask 6]"
  by (simp only: cluster_indices_def Let_def mask_consts)

lemma Suc_Suc_diff_2: "\<not> n < 2 \<Longrightarrow> Suc (Suc (n - 2)) = n"
  by simp

lemma byte0: "ucast (push_bit 2 (drop_bit 2 (int_of_byte b0)) OR
     drop_bit 4 ((push_bit 4 (int_of_byte b0) AND push_bit 4 (mask 2)) OR (drop_bit 4 (int_of_byte b1) AND mask 4))) = b0"
  unfolding int_of_byte_def
  by (rule bit_word_eqI) (auto simp: bit_simps Suc_Suc_diff_2)
lemma byte1: "ucast (push_bit 4 ((push_bit 4 (int_of_byte b0) AND push_bit 4 (mask 2)) OR (drop_bit 4 (int_of_byte b1) AND mask 4))
   OR drop_bit 2 ((push_bit 2 (int_of_byte b1) AND push_bit 2 (mask 4)) OR (drop_bit 6 (int_of_byte b2) AND mask 2))) = b1"
  unfolding int_of_byte_def
  by (rule bit_word_eqI) (auto simp: bit_simps Suc_Suc_diff_2)
lemma byte2: "ucast (push_bit 6 ((push_bit 2 (int_of_byte b1) AND push_bit 2 (mask 4)) OR (drop_bit 6 (int_of_byte b2) AND mask 2))
   OR (int_of_byte b2 AND mask 6)) = b2"
  unfolding int_of_byte_def
  by (rule bit_word_eqI) (auto simp: bit_simps Suc_Suc_diff_2)

lemma cluster_index_bound: "i \<in> set (cluster_indices b0 b1 b2) \<Longrightarrow> i < 64"
proof -
  have *: "unat w < 64" if "w AND mask 6 = w" for w :: "32 word"
    using and_mask_less_size [of 6 w] that by (simp add: word_size word_less_nat_alt)
  have "drop_bit 2 (int_of_byte b0) AND mask 6 = drop_bit 2 (int_of_byte b0)"
    by (rule bit_word_eqI) (auto simp: bit_simps int_of_byte_def dest: bit_imp_le_length)
  moreover have "((push_bit 4 (int_of_byte b0) AND push_bit 4 (mask 2)) OR
      (drop_bit 4 (int_of_byte b1) AND mask 4)) AND mask 6 =
    (push_bit 4 (int_of_byte b0) AND push_bit 4 (mask 2)) OR (drop_bit 4 (int_of_byte b1) AND mask 4)"
    by (rule bit_word_eqI) (auto simp: bit_simps)
  moreover have "((push_bit 2 (int_of_byte b1) AND push_bit 2 (mask 4)) OR
      (drop_bit 6 (int_of_byte b2) AND mask 2)) AND mask 6 =
    (push_bit 2 (int_of_byte b1) AND push_bit 2 (mask 4)) OR (drop_bit 6 (int_of_byte b2) AND mask 2)"
    by (rule bit_word_eqI) (auto simp: bit_simps)
  moreover have "(int_of_byte b2 AND mask 6) AND mask 6 = int_of_byte b2 AND mask 6"
    by (rule bit_word_eqI) (auto simp: bit_simps)
  ultimately show "i \<in> set (cluster_indices b0 b1 b2) \<Longrightarrow> i < 64"
    unfolding cluster_index_bits by (auto intro: *)
qed

lemma int_of_byte_of_nat: "n < 256 \<Longrightarrow> int_of_byte (word_of_nat n) = word_of_nat n"
  by (simp add: int_of_byte_def word_unat_eq_iff unsigned_ucast_eq unat_of_nat take_bit_eq_mod)

lemma cluster_indices_4:
  obtains i0 i1 i2 i3 where
    "cluster_indices b0 b1 b2 = [i0, i1, i2, i3]" "i0 < 64" "i1 < 64" "i2 < 64" "i3 < 64"
    "out_byte0 (word_of_nat i0) (word_of_nat i1) = b0"
    "out_byte1 (word_of_nat i1) (word_of_nat i2) = b1"
    "out_byte2 (word_of_nat i2) (word_of_nat i3) = b2"
proof -
  obtain w0 w1 w2 w3 where w: "cluster_indices b0 b1 b2 = map unat [w0, w1, w2, w3]"
    and d: "w0 = drop_bit 2 (int_of_byte b0)"
      "w1 = (push_bit 4 (int_of_byte b0) AND push_bit 4 (mask 2)) OR (drop_bit 4 (int_of_byte b1) AND mask 4)"
      "w2 = (push_bit 2 (int_of_byte b1) AND push_bit 2 (mask 4)) OR (drop_bit 6 (int_of_byte b2) AND mask 2)"
      "w3 = int_of_byte b2 AND mask 6"
    using cluster_index_bits by metis
  have b: "unat w0 < 64" "unat w1 < 64" "unat w2 < 64" "unat w3 < 64"
    using cluster_index_bound [of _ b0 b1 b2] by (simp_all add: w)
  then have i: "int_of_byte (word_of_nat (unat w)) = w" if "w \<in> {w0, w1, w2, w3}" for w
    using that int_of_byte_of_nat [of "unat w"] by auto
  show thesis
  proof (rule that [OF _ b])
    show "cluster_indices b0 b1 b2 = [unat w0, unat w1, unat w2, unat w3]" by (simp add: w)
    show "out_byte0 (word_of_nat (unat w0)) (word_of_nat (unat w1)) = b0"
      by (simp only: out_byte0_def i insert_iff simp_thms) (simp only: d byte0)
    show "out_byte1 (word_of_nat (unat w1)) (word_of_nat (unat w2)) = b1"
      by (simp only: out_byte1_def i insert_iff simp_thms) (simp only: d byte1)
    show "out_byte2 (word_of_nat (unat w2)) (word_of_nat (unat w3)) = b2"
      by (simp only: out_byte2_def i insert_iff simp_thms) (simp only: d byte2)
  qed
qed

subsection \<open>What the decoder reads\<close>

text \<open>
  The decoder relies on the two tables being inverse and on the alphabet avoiding the
  padding character and NUL; the interface is proved for both character widths.
\<close>

locale b64_alphabet =
  fixes tbl :: "'c::len word list"
  assumes tbl: "tbl = rgchEncodeTable"
    and dec_tbl: "i < 64 \<Longrightarrow> DECODE (tbl ! i) = word_of_nat i"
    and tbl_not_pad: "i < 64 \<Longrightarrow> tbl ! i \<noteq> of_char (CHR ''='')"
    and tbl_not_nul: "i < 64 \<Longrightarrow> tbl ! i \<noteq> 0"
    and pad_not_nul: "(of_char (CHR ''='') :: 'c word) \<noteq> 0"
    and dec_pad: "DECODE (of_char (CHR ''='') :: 'c word) = 0"
begin

lemma of_nat_not_NA: "i < 64 \<Longrightarrow> NA \<noteq> word_of_nat i"
  by (simp add: NA_def word_unat_eq_iff unat_of_nat take_bit_eq_mod)

lemma NA_not_0: "NA \<noteq> 0"
  by (simp add: NA_def)

lemma dec_61: "DECODE (61 :: 'c word) = 0"
  using dec_pad by simp

lemma dec_rgch: "i < 64 \<Longrightarrow> DECODE (rgchEncodeTable ! i :: 'c word) = word_of_nat i"
  using dec_tbl tbl by simp

lemma decode_loop_string:
  assumes "unat cb \<le> length buf" "unat ib + length bs = unat cb"
  shows "decode_loop cb (b64_string bs :: 'c word list) buf ib =
    Some (True, take (unat ib) buf @ bs @ drop (unat ib + length bs) buf, ib + word_of_nat (length bs))"
  using assms
proof (induction bs arbitrary: buf ib rule: b64_string.induct)
  case 1
  then show ?case by simp
next
  case (2 b0)
  obtain i0 i1 i2 i3 where c: "cluster_indices b0 0 0 = [i0, i1, i2, i3]" "i0 < 64" "i1 < 64"
    "out_byte0 (word_of_nat i0) (word_of_nat i1) = b0"
    by (rule cluster_indices_4)
  have s: "unat (ib + 1) = Suc (unat ib)"
    using 2 unat_lt_32 [of cb] by (intro unat_Suc_32) (simp add: MAXDWORD_def)
  then have l: "\<not> ib + 1 < cb" using 2 by (simp add: word_less_nat_alt)
  have "unat ib < length buf" using 2 by simp
  then have "buf[unat ib := b0] = take (unat ib) buf @ b0 # drop (Suc (unat ib)) buf"
    by (rule upd_conv_take_nth_drop)
  with 2 c l show ?case
    by (simp add: cluster_chars_def Let_def dec_rgch of_nat_not_NA dec_61 NA_not_0)
next
  case (3 b0 b1)
  obtain i0 i1 i2 i3 where c: "cluster_indices b0 b1 0 = [i0, i1, i2, i3]" "i0 < 64" "i1 < 64" "i2 < 64"
    "out_byte0 (word_of_nat i0) (word_of_nat i1) = b0" "out_byte1 (word_of_nat i1) (word_of_nat i2) = b1"
    by (rule cluster_indices_4)
  have s: "unat (ib + 1) = Suc (unat ib)" "unat (ib + 2) = Suc (Suc (unat ib))"
    using 3 unat_lt_32 [of cb] by (simp_all add: unat_word_ariths)
  then have l: "ib + 1 < cb" "\<not> ib + 2 < cb" using 3 by (simp_all add: word_less_nat_alt)
  have "Suc (unat ib) < length buf" using 3 by simp
  note upd = update_two [OF this, of b0 b1]
  with 3 c s l upd show ?case
    by (simp add: cluster_chars_def Let_def dec_rgch of_nat_not_NA dec_61 NA_not_0 numeral_3_eq_3)
next
  case (4 b0 b1 b2 bs)
  obtain i0 i1 i2 i3 where c: "cluster_indices b0 b1 b2 = [i0, i1, i2, i3]" "i0 < 64" "i1 < 64" "i2 < 64" "i3 < 64"
    "out_byte0 (word_of_nat i0) (word_of_nat i1) = b0" "out_byte1 (word_of_nat i1) (word_of_nat i2) = b1"
    "out_byte2 (word_of_nat i2) (word_of_nat i3) = b2"
    by (rule cluster_indices_4)
  have s: "unat (ib + 1) = Suc (unat ib)" "unat (ib + 2) = Suc (Suc (unat ib))" "unat (ib + 3) = unat ib + 3"
    using 4 unat_lt_32 [of cb] by (simp_all add: unat_word_ariths)
  then have l: "ib + 1 < cb" "ib + 2 < cb" using 4 by (simp_all add: word_less_nat_alt)
  let ?buf = "buf[unat ib := b0, Suc (unat ib) := b1, Suc (Suc (unat ib)) := b2]"
  have "take (unat ib + 3) ?buf = take (unat ib) buf @ [b0, b1, b2]"
    using 4 by (simp add: numeral_3_eq_3)
  with 4 c s l "4.IH" [of ?buf "ib + 3"] show ?case
    by (simp add: cluster_chars_def Let_def dec_rgch of_nat_not_NA algebra_simps)
qed

end

interpretation wide: b64_alphabet "rgchEncodeTable :: WCHAR list"
proof
  have "\<forall>i \<in> set [0..<64]. DECODE (rgchEncodeTable ! i :: WCHAR) = word_of_nat i" by code_simp
  then show "i < 64 \<Longrightarrow> DECODE (rgchEncodeTable ! i :: WCHAR) = word_of_nat i" for i by simp
  have "\<forall>i \<in> set [0..<64]. (rgchEncodeTable ! i :: WCHAR) \<noteq> of_char (CHR ''='')" by code_simp
  then show "i < 64 \<Longrightarrow> (rgchEncodeTable ! i :: WCHAR) \<noteq> of_char (CHR ''='')" for i by simp
  have "\<forall>i \<in> set [0..<64]. (rgchEncodeTable ! i :: WCHAR) \<noteq> 0" by code_simp
  then show "i < 64 \<Longrightarrow> (rgchEncodeTable ! i :: WCHAR) \<noteq> 0" for i by simp
  show "(of_char (CHR ''='') :: WCHAR) \<noteq> 0" "DECODE (of_char (CHR ''='') :: WCHAR) = 0" by code_simp+
qed simp

interpretation narrow: b64_alphabet "rgchEncodeTable :: ACHAR list"
proof
  have "\<forall>i \<in> set [0..<64]. DECODE (rgchEncodeTable ! i :: ACHAR) = word_of_nat i" by code_simp
  then show "i < 64 \<Longrightarrow> DECODE (rgchEncodeTable ! i :: ACHAR) = word_of_nat i" for i by simp
  have "\<forall>i \<in> set [0..<64]. (rgchEncodeTable ! i :: ACHAR) \<noteq> of_char (CHR ''='')" by code_simp
  then show "i < 64 \<Longrightarrow> (rgchEncodeTable ! i :: ACHAR) \<noteq> of_char (CHR ''='')" for i by simp
  have "\<forall>i \<in> set [0..<64]. (rgchEncodeTable ! i :: ACHAR) \<noteq> 0" by code_simp
  then show "i < 64 \<Longrightarrow> (rgchEncodeTable ! i :: ACHAR) \<noteq> 0" for i by simp
  show "(of_char (CHR ''='') :: ACHAR) \<noteq> 0" "DECODE (of_char (CHR ''='') :: ACHAR) = 0" by code_simp+
qed simp

lemma encode_loop_count:
  assumes "encode_loop cap bs out ich = Some (True, out', ich')" "unat cap \<le> length out" "ich < cap"
  shows "unat ich + length (b64_raw bs :: 'c::len word list) < unat cap"
  using assms
proof (induction bs arbitrary: out ich rule: b64_raw.induct)
  case 1
  then show ?case by (simp add: word_less_nat_alt)
next
  case (2 b0)
  with emit_safe [of cap out ich "cluster_chars b0 0 0"] show ?case
    by (auto simp: word_less_nat_alt split: if_splits)
next
  case (3 b0 b1)
  with emit_safe [of cap out ich "cluster_chars b0 b1 0"] show ?case
    by (auto simp: word_less_nat_alt split: if_splits)
next
  case (4 b0 b1 b2 bs)
  from emit_safe [OF 4(3,4), of "cluster_chars b0 b1 b2"] obtain ok o1 i1 where
    e: "emit cap (cluster_chars b0 b1 b2) out ich = Some (ok, o1, i1)" "length o1 = length out"
      "ok \<longrightarrow> i1 < cap \<and> unat i1 = unat ich + 4" by auto
  with 4(2) have "ok" "encode_loop cap bs o1 i1 = Some (True, out', ich')" by (auto split: if_splits)
  with "4.IH" [of o1 i1] 4(3,4) e show ?case by simp
qed

context b64_alphabet
begin

lemma cluster_char_props:
  "c \<in> set (cluster_chars b0 b1 b2 :: 'c word list) \<Longrightarrow> c \<noteq> of_char (CHR ''='')"
  using tbl_not_pad cluster_index_bound [of _ b0 b1 b2] by (auto simp: cluster_chars_def tbl)

lemma cluster_char_not_nul: "c \<in> set (cluster_chars b0 b1 b2 :: 'c word list) \<Longrightarrow> c \<noteq> 0"
  using tbl_not_nul cluster_index_bound [of _ b0 b1 b2] by (auto simp: cluster_chars_def tbl)

lemma b64_string_not_nul: "c \<in> set (b64_string bs :: 'c word list) \<Longrightarrow> c \<noteq> 0"
  by (induction bs rule: b64_string.induct)
     (use cluster_char_not_nul pad_not_nul in \<open>auto dest!: in_set_takeD\<close>)

lemma b64_string_tail:
  assumes "bs \<noteq> []"
  shows "(last (b64_string bs) = (of_char (CHR ''='') :: 'c word) \<longleftrightarrow> length bs mod 3 \<noteq> 0) \<and>
    (last (butlast (b64_string bs)) = (of_char (CHR ''='') :: 'c word) \<longleftrightarrow> length bs mod 3 = 1)"
  using assms
proof (induction bs rule: b64_string.induct)
  case (2 b0)
  then show ?case by (simp add: butlast_append)
next
  case (3 b0 b1)
  obtain i0 i1 i2 i3 where "cluster_indices b0 b1 0 = [i0, i1, i2, i3]" "i2 < 64"
    by (rule cluster_indices_4)
  then show ?case using tbl_not_pad [of i2] tbl by (simp add: cluster_chars_def)
next
  case (4 b0 b1 b2 bs)
  show ?case
  proof (cases "bs = []")
    case True
    obtain i0 i1 i2 i3 where "cluster_indices b0 b1 b2 = [i0, i1, i2, i3]" "i2 < 64" "i3 < 64"
      by (rule cluster_indices_4)
    with True show ?thesis
      using tbl_not_pad [of i2] tbl_not_pad [of i3] tbl by (simp add: cluster_chars_def)
  next
    case False
    then have "1 < length (b64_string bs :: 'c word list)" by (cases bs) auto
    then have "b64_string bs \<noteq> ([] :: 'c word list)" "butlast (b64_string bs) \<noteq> ([] :: 'c word list)"
      by (auto simp flip: length_greater_0_conv)
    moreover have "length (b0 # b1 # b2 # bs) mod 3 = length bs mod 3"
      using mod_add_self2 [of "length bs" 3] by simp
    ultimately show ?thesis using 4 False by (simp add: butlast_append)
  qed
qed simp

lemma decoded_size_string:
  assumes "bs \<noteq> []" "length bs \<le> 3221225469"
  shows "unat (decoded_size (b64_string bs :: 'c word list)
           (word_of_nat (length (b64_string bs :: 'c word list)))) = length bs"
proof -
  let ?s = "b64_string bs :: 'c word list"
  define k where "k = (length bs + 2) div 3"
  have "0 < length bs" using assms by simp
  then have k: "0 < k" "k \<le> 1073741823" using assms unfolding k_def by presburger+
  have len: "length ?s = 4 * k" by (simp add: k_def)
  define w where "w = (word_of_nat (4 * k) :: DWORD)"
  have w: "unat w = 4 * k" unfolding w_def using k by (intro unat_of_nat_32) simp
  have i: "unat (w - 1) = length ?s - 1" "unat (w - 2) = length ?s - 2"
    using w k len by (simp_all add: unat_sub word_le_nat_alt)
  have n: "?s ! unat (w - 1) = last ?s" "?s ! unat (w - 2) = last (butlast ?s)"
    unfolding i using k len by (intro last_two, simp)+
  have f: "unat ((w + 3) div 4 * 3) = 3 * k"
  proof -
    have "unat ((w + 3) div 4) = k" using w k by (simp add: unat_div unat_word_ariths)
    then show ?thesis using k by (simp add: unat_word_ariths)
  qed
  then have f12: "unat ((w + 3) div 4 * 3 - 1) = 3 * k - 1" "unat ((w + 3) div 4 * 3 - 2) = 3 * k - 2"
    using k by (simp_all add: unat_sub word_le_nat_alt)
  have "unat (decoded_size ?s w) =
      (if length bs mod 3 \<noteq> 0 then if length bs mod 3 = 1 then 3 * k - 2 else 3 * k - 1 else 3 * k)"
    using b64_string_tail [OF assms(1)] f f12 unfolding decoded_size_def Let_def n by auto
  also have "\<dots> = length bs"
    unfolding k_def using \<open>0 < length bs\<close> by presburger
  finally show ?thesis by (simp only: len w_def)
qed
end

subsection \<open>Functional correctness\<close>

lemma Base64Encode_correct:
  assumes "length data \<le> 3221225469" "unat cch \<le> length b"
    and "4 * ((length data + 2) div 3) + 1 \<le> unat cch"
  shows "Base64Encode data (Some b) cch = Some
    \<lparr>status = ERROR_SUCCESS,
     buffer = Some (b64_string data @ 0 # drop (4 * ((length data + 2) div 3) + 1) b),
     count = word_of_nat (4 * ((length data + 2) div 3) + 1)\<rparr>"
proof -
  define n where "n = 4 * ((length data + 2) div 3)"
  define cb where "cb = (word_of_nat (length data) :: DWORD)"
  let ?raw = "b64_raw data :: WCHAR list"
  have lr: "length ?raw = n" by (simp add: n_def)
  have nb: "n \<le> 4294967292" using assms(1) by (simp add: n_def)
  have nlen: "n < length b" "n < unat cch" using assms unfolding n_def by linarith+
  have un: "unat (word_of_nat n :: DWORD) = n" using nb by (intro unat_of_nat_32) simp
  have es: "unat (encoded_size cb) = n + 1"
    using encoded_size_nat [of "length data"] assms(1) by (simp add: cb_def n_def)
  then have es': "encoded_size cb = word_of_nat (n + 1)"
    by (metis word_eq_of_unat)
  have le: "\<not> cch < encoded_size cb" using es assms(3) by (simp add: word_less_nat_alt n_def)
  have "0 < cch" using assms(3) by (auto simp: word_gt_0)
  have loop: "encode_loop cch data b 0 = Some (True, ?raw @ drop n b, word_of_nat n)"
    using encode_loop_ok [of cch b 0 data] assms(2) nlen unfolding n_def length_b64_raw by simp
  have m: "unat (cb mod 3) = length data mod 3"
    using assms(1) unat_of_nat_32 [of "length data"] by (simp add: cb_def unat_mod)
  have m: "cb mod 3 = 0 \<longleftrightarrow> length data mod 3 = 0" "cb mod 3 = 1 \<longleftrightarrow> length data mod 3 = 1"
    unfolding m [symmetric] by (simp_all only: word_unat_eq_iff unat_0 unat_1)
  have pad: "pad_tail cb (?raw @ drop n b) (word_of_nat n) = Some (b64_string data @ drop n b)"
  proof (cases "length data mod 3 = 0")
    case True
    then show ?thesis
      using m b64_string_pad [of data, where 'c = 16] by (simp add: pad_tail_def npad_def lr)
  next
    case False
    then have "data \<noteq> []" by auto
    then have n4: "4 \<le> n" unfolding n_def by (cases data) auto
    then have u: "unat (word_of_nat n - 1 :: DWORD) = n - 1" "unat (word_of_nat n - 2 :: DWORD) = n - 2"
      using un by (simp_all add: unat_sub word_le_nat_alt)
    have s2: "n - 1 < length (?raw @ drop n b)" "n - 2 < length (?raw @ drop n b)"
      using n4 lr by simp_all
    have t1: "?raw[n - 1 := p] = take (n - 1) ?raw @ [p]" for p
      using n4 lr upd_conv_take_nth_drop [of "n - 1" ?raw p] by simp
    have t2: "?raw[n - 2 := p, n - 1 := q] = take (n - 2) ?raw @ [p, q]" for p q
    proof -
      have "Suc (n - 2) = n - 1" "Suc (n - 2) < length ?raw" using n4 lr by simp_all
      then show ?thesis using update_two [of "n - 2" ?raw p q] n4 lr by simp
    qed
    have "pad_tail cb (?raw @ drop n b) (word_of_nat n) =
        Some ((if length data mod 3 = 1 then ?raw[n - 2 := of_char (CHR ''=''), n - 1 := of_char (CHR ''='')]
               else ?raw[n - 1 := of_char (CHR ''='')]) @ drop n b)"
      using False m s2 n4 lr by (simp add: pad_tail_def u list_update_append1)
    moreover have "b64_string data = (if length data mod 3 = 1
        then ?raw[n - 2 := of_char (CHR ''=''), n - 1 := of_char (CHR ''='')]
        else ?raw[n - 1 := of_char (CHR ''='')])"
    proof (cases "length data mod 3 = 1")
      case True
      then have "npad (length data) = 2" by (simp add: npad_def)
      with True show ?thesis unfolding t2 by (subst b64_string_pad) (simp add: lr replicate_2 del: length_b64_raw)
    next
      case 2: False
      with False have "npad (length data) = 1" unfolding npad_def by presburger
      with 2 show ?thesis unfolding t1 by (subst b64_string_pad) (simp only: lr if_False, simp)
    qed
    ultimately show ?thesis by simp
  qed
  have "store_at (b64_string data @ drop n b) n 0 = Some (b64_string data @ 0 # drop (n + 1) b)"
    using nlen by (simp add: n_def Cons_nth_drop_Suc [symmetric] list_update_append)
  then show ?thesis
    using loop pad le \<open>0 < cch\<close> un es' unfolding Base64Encode_def encode_with_def cb_def [symmetric] Let_def
    by (simp add: n_def)
qed

lemma decode_loop_safe:
  assumes "length s = 4 * k" "unat cb \<le> length buf" "unat ib + 3 * k \<le> unat cb + 2"
  shows "\<exists>ok buf' ib'. decode_loop cb s buf ib = Some (ok, buf', ib') \<and> length buf' = length buf"
  using assms
proof (induction k arbitrary: s buf ib)
  case (Suc k)
  obtain c0 c1 c2 c3 cs where s: "s = c0 # c1 # c2 # c3 # cs" "length cs = 4 * k"
    by (rule four_more [OF Suc.prems(1)])
  have i: "unat ib + 3 * k + 1 \<le> unat cb"
    using Suc.prems(3) by simp
  then have lt: "unat ib < length buf" "unat ib < unat cb" using Suc.prems(2) by linarith+
  have u1: "unat (ib + 1) = Suc (unat ib)"
    using lt unat_lt_32 [of cb] by (intro unat_Suc_32) (simp add: MAXDWORD_def)
  have l1: "Suc (unat ib) < unat cb" "unat (ib + 2) = Suc (Suc (unat ib))" if "ib + 1 < cb"
    using that u1 unat_lt_32 [of cb] unat_Suc_32 [of "ib + 1"]
    by (simp_all add: word_less_nat_alt MAXDWORD_def algebra_simps)
  have l2: "Suc (Suc (unat ib)) < unat cb" "unat (ib + 3) = Suc (Suc (Suc (unat ib)))"
    if "ib + 1 < cb" "ib + 2 < cb"
    using that l1 unat_lt_32 [of cb] unat_Suc_32 [of "ib + 2"]
    by (simp_all add: word_less_nat_alt MAXDWORD_def algebra_simps)
  have IH: "\<exists>ok buf'. (\<exists>ib'. decode_loop cb cs b i = Some (ok, buf', ib')) \<and> length buf' = length buf"
    if "length b = length buf" "unat i \<le> unat ib + 3" for b i
    using Suc.IH [of cs b i] that s Suc.prems i by auto
  show ?case
    using i lt u1 l1 l2 Suc.prems(2) IH
    by (auto simp: s Let_def)
qed auto

lemma decoded_size_ge:
  assumes "unat cch = 4 * k" "0 < k"
  shows "3 * k \<le> unat (decoded_size str cch) + 2"
proof -
  have k: "4 * k < 4294967296" using assms unat_lt_32 [of cch] by simp
  then have "unat ((cch + 3) div 4) = k" using assms by (simp add: unat_div unat_word_ariths)
  then have "unat ((cch + 3) div 4 * 3) = 3 * k" using k by (simp add: unat_word_ariths)
  then have "unat ((cch + 3) div 4 * 3) = 3 * k" "unat ((cch + 3) div 4 * 3 - 1) = 3 * k - 1"
    "unat ((cch + 3) div 4 * 3 - 2) = 3 * k - 2"
    using assms(2) by (simp_all add: unat_sub word_le_nat_alt)
  then show ?thesis by (auto simp: decoded_size_def Let_def)
qed

text \<open>
  C37: for any NUL-terminated string, base64 or not, and any buffer of the announced size,
  \<open>Base64Decode\<close> never writes outside the caller's buffer.
\<close>

theorem Base64Decode_memory_safe:
  assumes "buffer_ok out cb"
  shows "\<exists>r. Base64Decode str out cb = Some r"
proof -
  define cch where "cch = (word_of_nat (length str) :: DWORD)"
  show ?thesis
  proof (cases "cch \<noteq> 0 \<and> cch mod 4 = 0 \<and> \<not> (cb = 0 \<and> out = None) \<and> decoded_size str cch \<le> cb")
    case False
    then show ?thesis
      by (auto simp: Base64Decode_def decode_with_def Let_def cch_def not_less)
  next
    case True
    then have c: "cch mod 4 = 0" "cch \<noteq> 0" by blast+
    obtain k where k: "unat cch = 4 * k" "0 < k" by (rule mod_4_word [OF c])
    then have size: "3 * k \<le> unat (decoded_size str cch) + 2" by (rule decoded_size_ge)
    obtain b where b: "out = Some b" "unat cb \<le> length b"
      using assms True by (auto simp: buffer_ok_def split: option.splits)
    have "unat cch \<le> length str"
      by (simp add: cch_def unat_of_nat)
    then have len: "length (take (unat cch) str) = 4 * k" using k by simp
    have "unat (decoded_size str cch) \<le> length b" using True b(2) by (simp add: word_le_nat_alt)
    then obtain ok b' ib where
      "decode_loop (decoded_size str cch) (take (unat cch) str) b 0 = Some (ok, b', ib)"
      using decode_loop_safe [OF len, of "decoded_size str cch" b 0] size by auto
    then show ?thesis
      using True b by (auto simp: Base64Decode_def decode_with_def Let_def cch_def [symmetric])
  qed
qed

lemma Base64Decode_memory_safe_witness:
  "\<exists>r. Base64Decode (L ''=AQ=A=!='') (Some (replicate 9 7)) 9 = Some r"
  by (rule Base64Decode_memory_safe) (simp add: buffer_ok_def)

text \<open>
  C40: for data of 3221225470 bytes or more the 32-bit size computation wraps around; the code
  then reports \<open>ERROR_BUFFER_OVERFLOW\<close>, from the checks inside the loop which the comment in
  the source calls redundant.
\<close>

theorem Base64Encode_wraps:
  assumes "3221225470 \<le> length data" "length data < 2 ^ 32"
    and "encoded_size (word_of_nat (length data)) \<le> cch" "unat cch \<le> length b"
  shows "\<exists>b'. Base64Encode data (Some b) cch = Some
    \<lparr>status = ERROR_BUFFER_OVERFLOW, buffer = Some b',
     count = encoded_size (word_of_nat (length data))\<rparr>"
proof -
  let ?cb = "word_of_nat (length data) :: DWORD"
  have "0 < unat cch" using encoded_size_pos [of ?cb] assms(3) by (simp add: word_le_nat_alt)
  then have "0 < cch" by (simp add: word_less_nat_alt)
  then obtain ok b' ich where loop: "encode_loop cch data b 0 = Some (ok, b', ich)"
    using encode_loop_safe [OF assms(4), of 0 data] by auto
  have "\<not> ok"
  proof
    assume ok
    with encode_loop_count [of cch data b 0 b' ich] loop assms(4) \<open>0 < cch\<close>
    have "4 * ((length data + 2) div 3) < unat cch" by simp
    with unat_lt_32 [of cch] have "4 * ((length data + 2) div 3) < 4294967296" by linarith
    with assms(1) show False by presburger
  qed
  with loop assms(3) \<open>0 < cch\<close> show ?thesis
    unfolding Base64Encode_def encode_with_def Let_def by (simp add: linorder_not_less [symmetric])
qed

lemma Base64Encode_wraps_witness:
  "\<exists>b'. Base64Encode (replicate 3221225470 0) (Some [0]) 1 = Some
    \<lparr>status = ERROR_BUFFER_OVERFLOW, buffer = Some b',
     count = encoded_size (word_of_nat (length (replicate 3221225470 (0 :: BYTE))))\<rparr>"
  by (rule Base64Encode_wraps) (simp_all add: encoded_size_def word_le_nat_alt)

lemma Base64Decode_string:
  assumes "data \<noteq> []" "length data \<le> 3221225469" "length data \<le> unat cb" "unat cb \<le> length b"
  shows "Base64Decode (b64_string data) (Some b) cb = Some
    \<lparr>status = ERROR_SUCCESS, buffer = Some (data @ drop (length data) b), count = word_of_nat (length data)\<rparr>"
proof -
  let ?s = "b64_string data :: wstr"
  define cch where "cch = (word_of_nat (length ?s) :: DWORD)"
  define cbd where "cbd = decoded_size ?s cch"
  define k where "k = (length data + 2) div 3"
  have "0 < length data" using assms by simp
  then have k: "0 < k" "k \<le> 1073741823" using assms unfolding k_def by presburger+
  have u: "unat cch = 4 * k"
    using k unat_of_nat_32 [of "4 * k"] by (simp add: cch_def k_def)
  then have c: "cch \<noteq> 0" "cch mod 4 = 0"
    using k by (auto simp: word_unat_eq_iff unat_mod)
  have d: "unat cbd = length data"
    using wide.decoded_size_string [OF assms(1,2)] by (simp only: cbd_def cch_def)
  then have d': "cbd = word_of_nat (length data)" by (metis word_eq_of_unat)
  have le: "\<not> cb < cbd" using d assms(3) by (simp add: word_less_nat_alt)
  have t: "take (unat cch) ?s = ?s" using u by (simp add: k_def)
  have "decode_loop cbd ?s b 0 = Some (True, data @ drop (length data) b, word_of_nat (length data))"
    using wide.decode_loop_string [of cbd b 0 data] d assms(3,4) by simp
  with c le t d' show ?thesis
    unfolding Base64Decode_def decode_with_def Let_def cch_def [symmetric] cbd_def [symmetric] by simp
qed

lemma Base64Decode_nothing:
  "Base64Decode [] out cb = Some \<lparr>status = ERROR_INVALID_PARAMETER, buffer = out, count = 0\<rparr>"
  by (simp add: Base64Decode_def decode_with_def)

text \<open>
  C2: encoding data (up to the largest size that does not wrap around) into a buffer of the documented
  size succeeds; decoding the string written there returns the data when there are any. For no data the
  string is empty, and the decoder refuses it with \<open>ERROR_INVALID_PARAMETER\<close>.
\<close>

theorem Base64_round_trip:
  assumes "length data \<le> 3221225469" "4 * ((length data + 2) div 3) + 1 \<le> unat cch" "unat cch \<le> length b"
    and "length data \<le> unat cb" "unat cb \<le> length d"
  shows "\<exists>e. Base64Encode data (Some b) cch = Some
      \<lparr>status = ERROR_SUCCESS, buffer = Some e, count = word_of_nat (4 * ((length data + 2) div 3) + 1)\<rparr> \<and>
    Base64Decode (takeWhile (\<lambda>c. c \<noteq> 0) e) (Some d) cb = Some
      (if data = [] then \<lparr>status = ERROR_INVALID_PARAMETER, buffer = Some d, count = 0\<rparr>
       else \<lparr>status = ERROR_SUCCESS, buffer = Some (data @ drop (length data) d), count = word_of_nat (length data)\<rparr>)"
proof -
  let ?e = "b64_string data @ 0 # drop (4 * ((length data + 2) div 3) + 1) b"
  have t: "takeWhile (\<lambda>c. c \<noteq> 0) ?e = b64_string data"
    using takeWhile_prefix_stop [of "b64_string data" "\<lambda>c. c \<noteq> 0" 0] wide.b64_string_not_nul by auto
  have e: "data = [] \<Longrightarrow> b64_string data = ([] :: wstr)" by simp
  show ?thesis
    using Base64Encode_correct [OF assms(1,3,2)] Base64Decode_string [OF _ assms(1,4,5)] Base64Decode_nothing t e
    by (intro exI [of _ ?e]) auto
qed

lemma Base64_round_trip_witness:
  "\<exists>e. Base64Encode [222, 173, 190, 239] (Some (replicate 9 7)) 9 = Some
      \<lparr>status = ERROR_SUCCESS, buffer = Some e, count = word_of_nat (4 * ((length [222, 173, 190, 239 :: BYTE] + 2) div 3) + 1)\<rparr> \<and>
    Base64Decode (takeWhile (\<lambda>c. c \<noteq> 0) e) (Some [1, 2, 3, 4, 5]) 5 = Some
      \<lparr>status = ERROR_SUCCESS, buffer = Some [222, 173, 190, 239, 5], count = 4\<rparr>"
  using Base64_round_trip [of "[222, 173, 190, 239]" 9 "replicate 9 7" 5 "[1, 2, 3, 4, 5]"] by simp

end
