(* ===== verification/StrBuf.thy ===== *)
theory StrBuf
  imports IIS_Prelude
begin

section \<open>Growable buffers and strings (IISLib/buffer.h, stringu.h, stringu.cpp)\<close>

text \<open>
  \<open>BUFFER_T\<close> is a block with an inline first allocation; \<open>STRU\<close> is a wide string in such a
  block together with its cached length. The block is the list of its elements, so an access
  outside it is a fault (\<open>None\<close>). The process heap is the parameter \<open>heap\<close>: the contents of the
  block \<open>HeapAlloc\<close> returns for a size in bytes, or \<open>None\<close> when it returns NULL. Methods return the
  \<open>HRESULT\<close> and the object after the call. Case folding, white space, code page conversion and
  printf formatting belong to the operating system and the C library and are parameters.
\<close>

subsection \<open>BUFFER_T\<close>

record 'c BUFFER_T =
  m_cbBuffer :: nat
  m_fHeapAllocated :: bool
  m_pBuffer :: "'c list"

text \<open>
  \<open>HeapReAlloc\<close> keeps the old contents as the prefix of the new block; for the first heap
  block the code copies them itself. \<open>cb\<close> is the size of an element.
\<close>

definition BUFFER_Resize :: "nat \<Rightarrow> (nat \<Rightarrow> 'c::zero list option) \<Rightarrow> nat \<Rightarrow> bool \<Rightarrow> 'c BUFFER_T \<Rightarrow>
    bool \<times> 'c BUFFER_T" where
  "BUFFER_Resize cb heap cbNewSize fZeroMemoryBeyondOldSize B =
     (if cbNewSize \<le> m_cbBuffer B then (True, B)
      else if MAXDWORD < cbNewSize then (False, B)
      else case heap cbNewSize of
        None \<Rightarrow> (False, B)
      | Some block \<Rightarrow>
         (let fresh = (if fZeroMemoryBeyondOldSize then replicate (cbNewSize div cb) 0 else block);
              old = m_pBuffer B
          in (True, B\<lparr>m_fHeapAllocated := True,
                      m_pBuffer := old @ drop (length old) fresh,
                      m_cbBuffer := u32 cbNewSize\<rparr>)))"

definition heap_ok :: "nat \<Rightarrow> (nat \<Rightarrow> 'c list option) \<Rightarrow> bool" where
  "heap_ok cb heap \<longleftrightarrow> (\<forall>n block. heap n = Some block \<longrightarrow> length block = n div cb)"

text \<open>An allocator that never fails.\<close>

definition heap_total :: "(nat \<Rightarrow> 'c list option) \<Rightarrow> bool" where
  "heap_total heap \<longleftrightarrow> (\<forall>n. heap n \<noteq> None)"

definition buffer_inv :: "nat \<Rightarrow> 'c BUFFER_T \<Rightarrow> bool" where
  "buffer_inv cb B \<longleftrightarrow> m_cbBuffer B \<le> MAXDWORD \<and> length (m_pBuffer B) = m_cbBuffer B div cb"

subsection \<open>STRU: representation and queries\<close>

record STRU =
  m_Buff :: "WCHAR BUFFER_T"
  m_cchLen :: nat

type_synonym wheap = "nat \<Rightarrow> wstr option"

definition STRSAFE_MAX_CCH :: nat where "STRSAFE_MAX_CCH = 2147483647"

definition STRU_new :: STRU where
  "STRU_new =
     \<lparr>m_Buff = \<lparr>m_cbBuffer = 2, m_fHeapAllocated = False, m_pBuffer = [0]\<rparr>, m_cchLen = 0\<rparr>"

text \<open>The constructor over a caller's array (\<open>STACK_STRU\<close>), whose first element is NUL.\<close>

definition STRU_init :: "wstr \<Rightarrow> STRU" where
  "STRU_init pbInit =
     \<lparr>m_Buff = \<lparr>m_cbBuffer = u32 (2 * length pbInit), m_fHeapAllocated = False, m_pBuffer = pbInit\<rparr>,
      m_cchLen = 0\<rparr>"

abbreviation QueryStr :: "STRU \<Rightarrow> wstr" where
  "QueryStr s \<equiv> m_pBuffer (m_Buff s)"

abbreviation QuerySize :: "STRU \<Rightarrow> nat" where
  "QuerySize s \<equiv> m_cbBuffer (m_Buff s)"

definition IsEmpty :: "STRU \<Rightarrow> bool" where
  "IsEmpty s \<longleftrightarrow> m_cchLen s = 0"

definition QueryCB :: "STRU \<Rightarrow> nat" where
  "QueryCB s = u32 (m_cchLen s * 2)"

definition QueryCCH :: "STRU \<Rightarrow> nat" where
  "QueryCCH s = m_cchLen s"

definition QuerySizeCCH :: "STRU \<Rightarrow> nat" where
  "QuerySizeCCH s = QuerySize s div 2"

text \<open>The characters of a NUL-terminated block; \<open>None\<close> when there is no NUL in it.\<close>

fun cstr :: "'c::zero list \<Rightarrow> 'c list option" where
  "cstr [] = None"
| "cstr (c # cs) = (if c = 0 then Some [] else map_option (Cons c) (cstr cs))"

text \<open>\<open>StringCchLengthW\<close> of \<open>strsafe.h\<close>: at most \<open>cchMax\<close> characters are inspected.\<close>

definition StringCchLengthW :: "'c::zero list \<Rightarrow> nat \<Rightarrow> HRESULT \<times> nat" where
  "StringCchLengthW b cchMax =
     (if STRSAFE_MAX_CCH < cchMax then (E_INVALIDARG, 0)
      else case cstr (take cchMax b) of None \<Rightarrow> (E_INVALIDARG, 0) | Some s \<Rightarrow> (S_OK, length s))"

subsection \<open>STRU: operations\<close>

definition set_str :: "STRU \<Rightarrow> wstr \<Rightarrow> STRU" where
  "set_str s b = s\<lparr>m_Buff := (m_Buff s)\<lparr>m_pBuffer := b\<rparr>\<rparr>"

definition STRU_Reset :: "STRU \<Rightarrow> STRU option" where
  "STRU_Reset s = do {
     b \<leftarrow> store_at (QueryStr s) 0 0;
     Some ((set_str s b)\<lparr>m_cchLen := 0\<rparr>)
   }"

definition STRU_Resize :: "wheap \<Rightarrow> nat \<Rightarrow> STRU \<Rightarrow> HRESULT \<times> STRU" where
  "STRU_Resize heap cchSize s =
     (if MAXDWORD < u64 (cchSize * 2) then (HRESULT_FROM_WIN32 ERROR_ARITHMETIC_OVERFLOW, s)
      else let (ok, B) = BUFFER_Resize 2 heap (u64 (cchSize * 2)) False (m_Buff s)
           in (if ok then S_OK else E_OUTOFMEMORY, s\<lparr>m_Buff := B\<rparr>))"

definition SyncWithBuffer :: "STRU \<Rightarrow> HRESULT \<times> STRU" where
  "SyncWithBuffer s =
     (let (hr, size) = StringCchLengthW (QueryStr s) (QuerySizeCCH s)
      in if SUCCEEDED hr then (hr, s\<lparr>m_cchLen := u32 size\<rparr>) else (hr, s))"

text \<open>\<open>AuxAppend\<close> of \<open>cbStr\<close> bytes at byte offset \<open>cbOffset\<close>.\<close>

definition AuxAppend :: "wheap \<Rightarrow> wstr \<Rightarrow> nat \<Rightarrow> nat \<Rightarrow> STRU \<Rightarrow> (HRESULT \<times> STRU) option" where
  "AuxAppend heap pStr cbStr cbOffset s =
     (let cb64NewSize = u64 (cbOffset + cbStr + 2)
      in if MAXDWORD < cb64NewSize then Some (HRESULT_FROM_WIN32 ERROR_ARITHMETIC_OVERFLOW, s)
         else
           let (ok, B) = (if QuerySize s < cb64NewSize
                          then BUFFER_Resize 2 heap cb64NewSize False (m_Buff s)
                          else (True, m_Buff s))
           in if \<not> ok then Some (E_OUTOFMEMORY, s\<lparr>m_Buff := B\<rparr>)
              else if length pStr < cbStr div 2 then None
              else do {
                b \<leftarrow> store_block (m_pBuffer B) (cbOffset div 2) (take (cbStr div 2) pStr);
                b' \<leftarrow> store_at b (u32 (u32 cbStr + cbOffset) div 2) 0;
                Some (S_OK, \<lparr>m_Buff = B\<lparr>m_pBuffer := b'\<rparr>, m_cchLen = u32 (u32 cbStr + cbOffset) div 2\<rparr>)
              })"

definition STRU_CopyN :: "wheap \<Rightarrow> wstr \<Rightarrow> nat \<Rightarrow> STRU \<Rightarrow> (HRESULT \<times> STRU) option" where
  "STRU_CopyN heap pszCopy cchLen s = AuxAppend heap pszCopy (u64 (cchLen * 2)) 0 s"

definition STRU_AppendN :: "wheap \<Rightarrow> wstr \<Rightarrow> nat \<Rightarrow> STRU \<Rightarrow> (HRESULT \<times> STRU) option" where
  "STRU_AppendN heap pszAppend cchLen s =
     (if cchLen = 0 then Some (S_OK, s)
      else AuxAppend heap pszAppend (u64 (cchLen * 2)) (QueryCB s) s)"

text \<open>The overloads taking a NUL-terminated string (here without its terminator).\<close>

definition STRU_Copy :: "wheap \<Rightarrow> wstr \<Rightarrow> STRU \<Rightarrow> (HRESULT \<times> STRU) option" where
  "STRU_Copy heap pszCopy s =
     (let (hr, cch) = StringCchLengthW (pszCopy @ [0]) STRSAFE_MAX_CCH
      in if FAILED hr then Some (hr, s) else STRU_CopyN heap (pszCopy @ [0]) cch s)"

definition STRU_Append :: "wheap \<Rightarrow> wstr \<Rightarrow> STRU \<Rightarrow> (HRESULT \<times> STRU) option" where
  "STRU_Append heap pszAppend s =
     (let (hr, cch) = StringCchLengthW (pszAppend @ [0]) STRSAFE_MAX_CCH
      in if FAILED hr then Some (hr, s) else STRU_AppendN heap (pszAppend @ [0]) cch s)"

text \<open>The overloads taking another \<open>STRU\<close>.\<close>

definition STRU_CopyS :: "wheap \<Rightarrow> STRU \<Rightarrow> STRU \<Rightarrow> (HRESULT \<times> STRU) option" where
  "STRU_CopyS heap rhs s = STRU_CopyN heap (QueryStr rhs) (QueryCCH rhs) s"

definition STRU_AppendS :: "wheap \<Rightarrow> STRU \<Rightarrow> STRU \<Rightarrow> (HRESULT \<times> STRU) option" where
  "STRU_AppendS heap rhs s = STRU_AppendN heap (QueryStr rhs) (QueryCCH rhs) s"

definition CopyToBuffer :: "STRU \<Rightarrow> wstr \<Rightarrow> nat \<Rightarrow> (HRESULT \<times> wstr \<times> nat) option" where
  "CopyToBuffer s pszBuffer cb =
     (let cbNeeded = u32 (QueryCB s + 2)
      in if cb < cbNeeded then Some (HRESULT_FROM_WIN32 ERROR_INSUFFICIENT_BUFFER, pszBuffer, cbNeeded)
         else if length (QueryStr s) < cbNeeded div 2 then None
         else do {
           b \<leftarrow> store_block pszBuffer 0 (take (cbNeeded div 2) (QueryStr s));
           Some (S_OK, b, cbNeeded)
         })"

definition SetLen :: "nat \<Rightarrow> STRU \<Rightarrow> (HRESULT \<times> STRU) option" where
  "SetLen cchLen s =
     (if QuerySizeCCH s \<le> cchLen then Some (HRESULT_FROM_WIN32 ERROR_INVALID_PARAMETER, s)
      else do {
        b \<leftarrow> store_at (QueryStr s) cchLen 0;
        Some (S_OK, (set_str s b)\<lparr>m_cchLen := cchLen\<rparr>)
      })"

subsection \<open>STRU: appending an array of strings\<close>

text \<open>
  The first loop: every pointer is checked and the sizes in bytes are summed up (with two bytes
  for the terminator) until they exceed \<open>MAXDWORD\<close>.
\<close>

fun strings_total :: "wstr option list \<Rightarrow> nat \<Rightarrow> HRESULT + nat" where
  "strings_total [] cbStringsTotal = Inr cbStringsTotal"
| "strings_total (None # ps) cbStringsTotal = Inl E_INVALIDARG"
| "strings_total (Some p # ps) cbStringsTotal =
     (let (hr, cch) = StringCchLengthW (p @ [0]) STRSAFE_MAX_CCH
      in if FAILED hr then Inl hr
         else if MAXDWORD < cbStringsTotal + 2 * cch then Inl (HRESULT_FROM_WIN32 ERROR_ARITHMETIC_OVERFLOW)
         else strings_total ps (cbStringsTotal + 2 * cch))"

definition STRSAFE_E_INSUFFICIENT_BUFFER :: HRESULT where
  "STRSAFE_E_INSUFFICIENT_BUFFER = 0x8007007A"

text \<open>
  \<open>StringCchCopyExW\<close> to offset \<open>off\<close> with \<open>cchDest\<close> characters of room: the result code, the block,
  the offset of the end of the copy and the room left.
\<close>

definition StringCchCopyExW :: "wstr \<Rightarrow> nat \<Rightarrow> nat \<Rightarrow> wstr \<Rightarrow> (HRESULT \<times> wstr \<times> nat \<times> nat) option" where
  "StringCchCopyExW b off cchDest src =
     (if cchDest = 0 \<or> STRSAFE_MAX_CCH < cchDest then Some (E_INVALIDARG, b, off, cchDest)
      else let n = min (length src) (cchDest - 1)
           in do {
             b' \<leftarrow> store_block b off (take n src @ [0]);
             Some (if length src < cchDest then S_OK else STRSAFE_E_INSUFFICIENT_BUFFER,
                   b', off + n, cchDest - n)
           })"

text \<open>The second loop; a failed copy resynchronises the length and returns.\<close>

fun copy_strings :: "wstr option list \<Rightarrow> nat \<Rightarrow> nat \<Rightarrow> STRU \<Rightarrow> (HRESULT \<times> STRU) option" where
  "copy_strings [] off cchRemaining s = Some (S_OK, s)"
| "copy_strings (None # ps) off cchRemaining s = None"
| "copy_strings (Some p # ps) off cchRemaining s = do {
     (hr, b, off', rest) \<leftarrow> StringCchCopyExW (QueryStr s) off cchRemaining p;
     (let s' = set_str s b
      in if FAILED hr
         then (let (hr2, s2) = SyncWithBuffer s' in Some (if FAILED hr2 then hr2 else hr, s2))
         else copy_strings ps off' rest s')
   }"

definition AuxAppendArray :: "wheap \<Rightarrow> wstr option list \<Rightarrow> STRU \<Rightarrow> (HRESULT \<times> STRU) option" where
  "AuxAppendArray heap rgpszStrings s =
     (case strings_total rgpszStrings 2 of
        Inl hr \<Rightarrow> Some (hr, s)
      | Inr cbStringsTotal \<Rightarrow>
         (let cbBufSizeRequired = QueryCB s + cbStringsTotal
          in if MAXDWORD < cbBufSizeRequired then Some (HRESULT_FROM_WIN32 ERROR_ARITHMETIC_OVERFLOW, s)
             else
               let (ok, B) = (if QuerySize s < cbBufSizeRequired
                              then BUFFER_Resize 2 heap cbBufSizeRequired False (m_Buff s)
                              else (True, m_Buff s));
                   s1 = s\<lparr>m_Buff := B\<rparr>
               in if \<not> ok then Some (E_OUTOFMEMORY, s1)
                  else do {
                    (hr, s2) \<leftarrow> copy_strings rgpszStrings (QueryCCH s1) (QuerySizeCCH s1 - QueryCCH s1) s1;
                    (if FAILED hr then Some (hr, s2)
                     else Some (S_OK, s2\<lparr>m_cchLen := u32 cbBufSizeRequired div 2 - 1\<rparr>))
                  }))"

definition STRU_CopyArray :: "wheap \<Rightarrow> wstr option list \<Rightarrow> STRU \<Rightarrow> (HRESULT \<times> STRU) option" where
  "STRU_CopyArray heap rgpszStrings s = do {
     s1 \<leftarrow> STRU_Reset s;
     AuxAppendArray heap rgpszStrings s1
   }"

definition STRU_AppendArray :: "wheap \<Rightarrow> wstr option list \<Rightarrow> STRU \<Rightarrow> (HRESULT \<times> STRU) option" where
  "STRU_AppendArray = AuxAppendArray"

subsection \<open>STRU: appending narrow strings\<close>

text \<open>
  \<open>MultiByteToWideChar\<close> is the parameter \<open>mbtwc\<close>: given the bytes and the room in characters it
  returns the converted text, or the error left in \<open>GetLastError\<close>; what it returns fits into the
  room.
\<close>

type_synonym code_page = "BYTE list \<Rightarrow> nat \<Rightarrow> DWORD + wstr"

definition AuxAppendA :: "wheap \<Rightarrow> code_page \<Rightarrow> BYTE list option \<Rightarrow> nat \<Rightarrow> STRU \<Rightarrow>
    (HRESULT \<times> STRU) option" where
  "AuxAppendA heap mbtwc pStr cbOffset s =
     (case pStr of
        None \<Rightarrow> Some (E_INVALIDARG, s)
      | Some str \<Rightarrow>
         (let cbStr = length str
          in if cbStr = 0 then Some (S_OK, s)
             else
               let cb64NewSize = u64 (cbOffset + cbStr * 2 + 2);
                   grow = QuerySize s < cb64NewSize
               in if grow \<and> MAXDWORD < cb64NewSize
                  then Some (HRESULT_FROM_WIN32 ERROR_ARITHMETIC_OVERFLOW, s)
                  else
                    let (ok, B) = (if grow then BUFFER_Resize 2 heap cb64NewSize False (m_Buff s)
                                   else (True, m_Buff s));
                        cchBuffer = (m_cbBuffer B - cbOffset - 2) div 2
                    in if \<not> ok then Some (E_OUTOFMEMORY, s\<lparr>m_Buff := B\<rparr>)
                       else case mbtwc str cchBuffer of
                         Inl err \<Rightarrow> Some (HRESULT_FROM_WIN32 err, s\<lparr>m_Buff := B\<rparr>)
                       | Inr w \<Rightarrow>
                          (let cchLen = length w + cbOffset div 2
                           in do {
                             b \<leftarrow> store_block (m_pBuffer B) (cbOffset div 2) w;
                             b' \<leftarrow> store_at b cchLen 0;
                             Some (S_OK, \<lparr>m_Buff = B\<lparr>m_pBuffer := b'\<rparr>, m_cchLen = cchLen\<rparr>)
                           })))"

definition STRU_CopyA :: "wheap \<Rightarrow> code_page \<Rightarrow> BYTE list option \<Rightarrow> STRU \<Rightarrow> (HRESULT \<times> STRU) option" where
  "STRU_CopyA heap mbtwc pszCopyA s = AuxAppendA heap mbtwc pszCopyA 0 s"

definition STRU_AppendA :: "wheap \<Rightarrow> code_page \<Rightarrow> BYTE list option \<Rightarrow> STRU \<Rightarrow> (HRESULT \<times> STRU) option" where
  "STRU_AppendA heap mbtwc pszAppendA s =
     (if pszAppendA = Some [] then Some (S_OK, s)
      else AuxAppendA heap mbtwc pszAppendA (QueryCB s) s)"

subsection \<open>STRU: trimming and searching\<close>

text \<open>The backward loop of \<open>Trim\<close>: white space at the end is overwritten with NUL.\<close>

fun trim_back :: "('c::zero \<Rightarrow> bool) \<Rightarrow> nat \<Rightarrow> 'c list \<Rightarrow> ('c list \<times> nat) option" where
  "trim_back iswspace 0 b = Some (b, 0)"
| "trim_back iswspace (Suc ixString) b = do {
     c \<leftarrow> load_at b ixString;
     (if iswspace c then do {
        b' \<leftarrow> store_at b ixString 0;
        trim_back iswspace ixString b'
      }
      else Some (b, Suc ixString))
   }"

text \<open>The forward loop counts the leading white space among the first \<open>n\<close> characters.\<close>

fun count_leading :: "('c \<Rightarrow> bool) \<Rightarrow> nat \<Rightarrow> 'c list \<Rightarrow> nat option" where
  "count_leading iswspace 0 b = Some 0"
| "count_leading iswspace (Suc n) [] = None"
| "count_leading iswspace (Suc n) (c # b) =
     (if iswspace c then map_option Suc (count_leading iswspace n b) else Some 0)"

definition Trim :: "(WCHAR \<Rightarrow> bool) \<Rightarrow> STRU \<Rightarrow> STRU option" where
  "Trim iswspace s = do {
     (b, cchTempLength) \<leftarrow> trim_back iswspace (m_cchLen s) (QueryStr s);
     cchLeadingWhitespace \<leftarrow> count_leading iswspace cchTempLength b;
     (let cchNewLength = cchTempLength - cchLeadingWhitespace
      in if cchNewLength = 0 then do {
           s1 \<leftarrow> STRU_Reset (set_str s b);
           Some (snd (SyncWithBuffer s1))
         }
         else if 0 < cchLeadingWhitespace then do {
           b1 \<leftarrow> store_block b 0 (take cchNewLength (drop cchLeadingWhitespace b));
           b2 \<leftarrow> store_at b1 cchNewLength 0;
           Some (snd (SyncWithBuffer (set_str s b2)))
         }
         else Some (snd (SyncWithBuffer (set_str s b))))
   }"

text \<open>\<open>CompareStringOrdinal\<close> over equal-length texts, with the system's case folding table.\<close>

definition ordinal_equal :: "(WCHAR \<Rightarrow> WCHAR) \<Rightarrow> bool \<Rightarrow> wstr \<Rightarrow> wstr \<Rightarrow> bool" where
  "ordinal_equal upcase fIgnoreCase a b \<longleftrightarrow>
     (if fIgnoreCase then map upcase a = map upcase b else a = b)"

definition Equals :: "(WCHAR \<Rightarrow> WCHAR) \<Rightarrow> STRU \<Rightarrow> wstr option \<Rightarrow> bool \<Rightarrow> bool" where
  "Equals upcase s pszRhs fIgnoreCase =
     (case pszRhs of None \<Rightarrow> False
      | Some rhs \<Rightarrow> ordinal_equal upcase fIgnoreCase (take (QueryCCH s) (QueryStr s)) rhs)"

definition StartsWith :: "(WCHAR \<Rightarrow> WCHAR) \<Rightarrow> STRU \<Rightarrow> wstr option \<Rightarrow> bool \<Rightarrow> bool" where
  "StartsWith upcase s pwszPrefix fIgnoreCase =
     (case pwszPrefix of None \<Rightarrow> False
      | Some p \<Rightarrow>
         (let (hr, cchPrefix) = StringCchLengthW (p @ [0]) STRSAFE_MAX_CCH
          in if FAILED hr \<or> m_cchLen s < cchPrefix then False
             else ordinal_equal upcase fIgnoreCase (take cchPrefix (QueryStr s)) (take cchPrefix p)))"

definition EndsWith :: "(WCHAR \<Rightarrow> WCHAR) \<Rightarrow> STRU \<Rightarrow> wstr option \<Rightarrow> bool \<Rightarrow> bool" where
  "EndsWith upcase s pwszSuffix fIgnoreCase =
     (case pwszSuffix of None \<Rightarrow> False
      | Some p \<Rightarrow>
         (let (hr, cchSuffix) = StringCchLengthW (p @ [0]) STRSAFE_MAX_CCH;
              ixOffset = m_cchLen s - cchSuffix
          in if FAILED hr \<or> m_cchLen s < cchSuffix then False
             else ordinal_equal upcase fIgnoreCase
                    (take cchSuffix (drop ixOffset (QueryStr s))) (take cchSuffix p)))"

text \<open>\<open>wcschr\<close>, \<open>wcsrchr\<close> and \<open>wcsstr\<close> over a NUL-terminated text; the terminator can be searched for.\<close>

fun wcschr :: "'c::zero list \<Rightarrow> 'c \<Rightarrow> nat option" where
  "wcschr [] c = None"
| "wcschr (x # xs) c =
     (if x = c then Some 0 else if x = 0 then None else map_option Suc (wcschr xs c))"

fun wcsrchr :: "'c::zero list \<Rightarrow> 'c \<Rightarrow> nat option" where
  "wcsrchr [] c = None"
| "wcsrchr (x # xs) c =
     (case (if x = 0 then None else wcsrchr xs c) of
        Some i \<Rightarrow> Some (Suc i)
      | None \<Rightarrow> if x = c then Some 0 else None)"

fun starts_with :: "'c list \<Rightarrow> 'c list \<Rightarrow> bool" where
  "starts_with xs [] = True"
| "starts_with [] (p # ps) = False"
| "starts_with (x # xs) (p # ps) = (x = p \<and> starts_with xs ps)"

fun wcsstr :: "'c::zero list \<Rightarrow> 'c list \<Rightarrow> nat option" where
  "wcsstr [] p = (if p = [] then Some 0 else None)"
| "wcsstr (x # xs) p =
     (if starts_with (x # xs) p then Some 0
      else if x = 0 then None else map_option Suc (wcsstr xs p))"

text \<open>\<open>SizeTToInt\<close> leaves \<open>-1\<close> in the result when the index does not fit an \<open>INT\<close>.\<close>

definition index_result :: "nat \<Rightarrow> nat option \<Rightarrow> int" where
  "index_result dwStartIndex r =
     (case r of None \<Rightarrow> - 1
      | Some i \<Rightarrow> if dwStartIndex + i \<le> 2147483647 then int (dwStartIndex + i) else - 1)"

definition IndexOf :: "STRU \<Rightarrow> WCHAR \<Rightarrow> nat \<Rightarrow> int" where
  "IndexOf s charValue dwStartIndex =
     (if QueryCCH s \<le> dwStartIndex then - 1
      else index_result dwStartIndex (wcschr (drop dwStartIndex (QueryStr s)) charValue))"

definition IndexOfStr :: "STRU \<Rightarrow> wstr option \<Rightarrow> nat \<Rightarrow> int" where
  "IndexOfStr s pwszValue dwStartIndex =
     (case pwszValue of None \<Rightarrow> - 1
      | Some v \<Rightarrow>
         if QueryCCH s \<le> dwStartIndex then - 1
         else index_result dwStartIndex (wcsstr (drop dwStartIndex (QueryStr s)) v))"

definition LastIndexOf :: "STRU \<Rightarrow> WCHAR \<Rightarrow> nat \<Rightarrow> int" where
  "LastIndexOf s charValue dwStartIndex =
     (if QueryCCH s \<le> dwStartIndex then - 1
      else index_result dwStartIndex (wcsrchr (drop dwStartIndex (QueryStr s)) charValue))"

subsection \<open>STRU: formatting and environment expansion\<close>

text \<open>
  \<open>_vsnwprintf_s\<close> with \<open>count\<close> one less than the size of the block. \<open>out\<close> is the formatted text, or
  \<open>None\<close> for a formatting error; too long a text is cut off and reported as \<open>-1\<close>.
\<close>

definition vsnwprintf_s :: "'c::zero list \<Rightarrow> nat \<Rightarrow> 'c list option \<Rightarrow> (int \<times> 'c list) option" where
  "vsnwprintf_s b cchSize out =
     (case out of
        None \<Rightarrow> do { b' \<leftarrow> store_at b 0 0; Some (- 1, b') }
      | Some t \<Rightarrow>
         (let n = min (length t) (cchSize - 1)
          in do {
            b' \<leftarrow> store_block b 0 (take n t @ [0]);
            Some (if length t \<le> cchSize - 1 then int (length t) else - 1, b')
          }))"

definition vscwprintf :: "'c list option \<Rightarrow> int" where
  "vscwprintf out = (case out of None \<Rightarrow> - 1 | Some t \<Rightarrow> int (length t))"

definition reset_if_failed :: "HRESULT \<Rightarrow> STRU \<Rightarrow> (HRESULT \<times> STRU) option" where
  "reset_if_failed hr s =
     (if FAILED hr then do { s' \<leftarrow> STRU_Reset s; Some (hr, s') } else Some (hr, s))"

text \<open>The code after the output fitted: the last character is set to NUL and the length recomputed.\<close>

definition terminate_and_sync :: "STRU \<Rightarrow> (HRESULT \<times> STRU) option" where
  "terminate_and_sync s = do {
     b \<leftarrow> store_at (QueryStr s) (QuerySizeCCH s - 1) 0;
     (let (hr, s') = SyncWithBuffer (set_str s b) in reset_if_failed hr s')
   }"

definition SafeVsnwprintf :: "wheap \<Rightarrow> wstr option \<Rightarrow> STRU \<Rightarrow> (HRESULT \<times> STRU) option" where
  "SafeVsnwprintf heap out s = do {
     (cchOutput, b) \<leftarrow> vsnwprintf_s (QueryStr s) (QuerySizeCCH s) out;
     (let s1 = set_str s b
      in if cchOutput = - 1
         then
           let cchNeeded = vscwprintf out
           in if 64 * 1024 < cchNeeded then reset_if_failed (HRESULT_FROM_WIN32 ERROR_INVALID_DATA) s1
              else
                let (hr, s2) = STRU_Resize heap (nat (cchNeeded + 1)) s1
                in if FAILED hr then reset_if_failed hr s2
                   else do {
                     (cchOutput2, b2) \<leftarrow> vsnwprintf_s (QueryStr s2) (QuerySizeCCH s2) out;
                     (if cchOutput2 = - 1
                      then reset_if_failed (HRESULT_FROM_WIN32 ERROR_INVALID_DATA) (set_str s2 b2)
                      else terminate_and_sync (set_str s2 b2))
                   }
         else terminate_and_sync s1)
   }"

text \<open>
  \<open>ExpandEnvironmentStringsW\<close>: \<open>expand\<close> is the expansion of the source, or the error code. The
  number returned counts the terminator; nothing is promised about the block when it is too small.
\<close>

definition ExpandEnvironmentStringsW :: "(wstr \<Rightarrow> DWORD + wstr) \<Rightarrow> wstr \<Rightarrow> wstr \<Rightarrow> nat \<Rightarrow>
    (nat \<times> DWORD \<times> wstr) option" where
  "ExpandEnvironmentStringsW expand src b cchSize =
     (case expand src of
        Inl err \<Rightarrow> Some (0, err, b)
      | Inr t \<Rightarrow>
         if cchSize < length t + 1 then Some (length t + 1, ERROR_SUCCESS, b)
         else do { b' \<leftarrow> store_block b 0 (t @ [0]); Some (length t + 1, ERROR_SUCCESS, b') })"

definition CopyAndExpandEnvironmentStrings :: "wheap \<Rightarrow> (wstr \<Rightarrow> DWORD + wstr) \<Rightarrow> wstr \<Rightarrow> STRU \<Rightarrow>
    (HRESULT \<times> STRU) option" where
  "CopyAndExpandEnvironmentStrings heap expand pszSource s = do {
     s0 \<leftarrow> STRU_Reset s;
     (n, err, b) \<leftarrow> ExpandEnvironmentStringsW expand pszSource (QueryStr s0) (QuerySizeCCH s0);
     (let s1 = set_str s0 b
      in if n = 0 then Some (HRESULT_FROM_WIN32 err, s1)
         else if QuerySizeCCH s1 < n
         then
           let (hr, s2) = STRU_Resize heap n s1
           in if FAILED hr then Some (hr, s2)
              else do {
                (n2, err2, b2) \<leftarrow> ExpandEnvironmentStringsW expand pszSource (QueryStr s2) (QuerySizeCCH s2);
                (let s3 = set_str s2 b2
                 in if n2 = 0 \<or> QuerySizeCCH s3 < n2 then Some (HRESULT_FROM_WIN32 err2, s3)
                    else Some (SyncWithBuffer s3))
              }
         else Some (SyncWithBuffer s1))
   }"

definition ExpandEnvironmentVariables :: "wheap \<Rightarrow> (wstr \<Rightarrow> DWORD + wstr) \<Rightarrow> wstr option \<Rightarrow> STRU \<Rightarrow>
    (HRESULT \<times> STRU) option" where
  "ExpandEnvironmentVariables heap expand pszString s =
     (case pszString of
        None \<Rightarrow> Some (HRESULT_FROM_WIN32 ERROR_INVALID_PARAMETER, s)
      | Some src \<Rightarrow> do {
          (n, err, b) \<leftarrow> ExpandEnvironmentStringsW expand src (QueryStr s) (QuerySizeCCH s);
          (let s1 = set_str s b
           in if n = 0 then Some (HRESULT_FROM_WIN32 err, s1)
              else if QuerySizeCCH s1 < n
              then
                let (hr, s2) = STRU_Resize heap (u32 (u64 (u32 (n + 1) * 2))) s1
                in if FAILED hr then Some (hr, s2)
                   else do {
                     (n2, err2, b2) \<leftarrow> ExpandEnvironmentStringsW expand src (QueryStr s2) (QuerySizeCCH s2);
                     (let s3 = set_str s2 b2
                      in if n2 = 0 \<or> QuerySizeCCH s3 < n2 then Some (HRESULT_FROM_WIN32 err2, s3)
                         else Some (S_OK, snd (SyncWithBuffer s3)))
                   }
              else Some (S_OK, snd (SyncWithBuffer s1)))
        })"

subsection \<open>The representation invariant\<close>

definition stru_inv :: "STRU \<Rightarrow> bool" where
  "stru_inv s \<longleftrightarrow> buffer_inv 2 (m_Buff s) \<and> m_cchLen s < length (QueryStr s) \<and>
     QueryStr s ! m_cchLen s = 0"

definition str_text :: "STRU \<Rightarrow> wstr" where
  "str_text s = take (m_cchLen s) (QueryStr s)"

lemma stru_invD:
  assumes "stru_inv s"
  shows "QuerySize s \<le> MAXDWORD" "length (QueryStr s) = QuerySize s div 2"
    "m_cchLen s < length (QueryStr s)" "QueryStr s ! m_cchLen s = 0"
    "QuerySizeCCH s = length (QueryStr s)" "QueryCB s = 2 * m_cchLen s" "m_cchLen s < 2147483647"
proof -
  show *: "QuerySize s \<le> MAXDWORD" "length (QueryStr s) = QuerySize s div 2"
    "m_cchLen s < length (QueryStr s)" "QueryStr s ! m_cchLen s = 0"
    using assms by (simp_all add: stru_inv_def buffer_inv_def)
  then show "QuerySizeCCH s = length (QueryStr s)" by (simp add: QuerySizeCCH_def)
  have "QuerySize s div 2 \<le> 2147483647" using *(1) by (simp add: MAXDWORD_def)
  with * show l: "m_cchLen s < 2147483647" by linarith
  then show "QueryCB s = 2 * m_cchLen s" by (simp add: QueryCB_def)
qed

lemma stru_inv_new [simp]: "stru_inv STRU_new" "str_text STRU_new = []"
  by (simp_all add: stru_inv_def buffer_inv_def STRU_new_def MAXDWORD_def str_text_def)

lemma length_str_text: "stru_inv s \<Longrightarrow> length (str_text s) = m_cchLen s"
  using stru_invD(3) [of s] by (simp add: str_text_def)

lemma BUFFER_Resize_spec:
  assumes "buffer_inv cb B" "heap_ok cb heap" "BUFFER_Resize cb heap n z B = (ok, B')"
  shows "buffer_inv cb B'" "\<not> ok \<Longrightarrow> B' = B" "ok \<Longrightarrow> n \<le> m_cbBuffer B'"
    "take (length (m_pBuffer B)) (m_pBuffer B') = m_pBuffer B"
    "length (m_pBuffer B) \<le> length (m_pBuffer B')"
proof -
  have le: "m_cbBuffer B div cb \<le> n div cb" if "\<not> n \<le> m_cbBuffer B"
    using that by (intro div_le_mono) simp
  with assms show "buffer_inv cb B'" "\<not> ok \<Longrightarrow> B' = B" "ok \<Longrightarrow> n \<le> m_cbBuffer B'"
    "take (length (m_pBuffer B)) (m_pBuffer B') = m_pBuffer B"
    "length (m_pBuffer B) \<le> length (m_pBuffer B')"
    by (auto simp: BUFFER_Resize_def buffer_inv_def heap_ok_def Let_def MAXDWORD_def
        split: if_splits option.splits)
qed

lemma BUFFER_Resize_ok:
  "n \<le> MAXDWORD \<Longrightarrow> heap n \<noteq> None \<Longrightarrow> fst (BUFFER_Resize cb heap n z B)"
  by (auto simp: BUFFER_Resize_def Let_def)

lemma AuxAppend_spec:
  assumes "stru_inv s" "heap_ok 2 heap" "k \<le> m_cchLen s" "length xs < 4611686018427387904"
  shows "returns (AuxAppend heap (xs @ ys) (2 * length xs) (2 * k) s) (\<lambda>(hr, s'). stru_inv s' \<and>
    (if SUCCEEDED hr then hr = S_OK \<and> str_text s' = take k (str_text s) @ xs else s' = s) \<and>
    (2 * (k + length xs + 1) \<le> MAXDWORD \<and> heap (2 * (k + length xs + 1)) \<noteq> None \<longrightarrow> hr = S_OK))"
proof -
  note s = stru_invD [OF assms(1)]
  let ?n = "2 * (k + length xs + 1)"
  have u: "u64 (2 * k + 2 * length xs + 2) = ?n"
    using s(3,7) assms(3,4) by simp
  obtain ok B where B: "(if QuerySize s < ?n then BUFFER_Resize 2 heap ?n False (m_Buff s)
      else (True, m_Buff s)) = (ok, B)" by force
  have inv: "buffer_inv 2 (m_Buff s)" using assms(1) by (simp add: stru_inv_def)
  have BS: "buffer_inv 2 B" "\<not> ok \<Longrightarrow> B = m_Buff s" "ok \<Longrightarrow> ?n \<le> m_cbBuffer B"
    "take (length (QueryStr s)) (m_pBuffer B) = QueryStr s"
    using BUFFER_Resize_spec [OF inv assms(2), of ?n False ok B] B inv by (auto split: if_splits)
  show ?thesis
  proof (cases "MAXDWORD < ?n")
    case True
    then show ?thesis using u assms(1) by (auto simp: AuxAppend_def Let_def)
  next
    case False
    show ?thesis
    proof (cases ok)
      case False
      then have "heap ?n = None"
        using B BUFFER_Resize_ok [of ?n heap 2 False "m_Buff s"] \<open>\<not> MAXDWORD < ?n\<close> by (force split: if_splits)
      with False show ?thesis using BS(2) assms(1) \<open>\<not> MAXDWORD < ?n\<close> unfolding AuxAppend_def Let_def u B by simp
    next
      case True
      have len: "k + length xs < length (m_pBuffer B)"
        using BS(1,3) True by (simp add: buffer_inv_def)
      have w: "u32 (u32 (2 * length xs) + 2 * k) div 2 = k + length xs"
        using False by (simp add: MAXDWORD_def)
      have t: "take k (m_pBuffer B) = take k (str_text s)"
        using assms(3) s(3) arg_cong [OF BS(4), of "take k"] by (simp add: str_text_def)
      let ?b = "(take k (m_pBuffer B) @ xs @ drop (k + length xs) (m_pBuffer B))[k + length xs := 0]"
      let ?s = "\<lparr>m_Buff = B\<lparr>m_pBuffer := ?b\<rparr>, m_cchLen = k + length xs\<rparr>"
      have "AuxAppend heap (xs @ ys) (2 * length xs) (2 * k) s = Some (S_OK, ?s)"
        using True False len w unfolding AuxAppend_def Let_def u B by simp
      moreover have "stru_inv ?s"
        using BS(1) len by (simp add: stru_inv_def buffer_inv_def)
      moreover have "str_text ?s = take k (str_text s) @ xs"
        using len unfolding t [symmetric] by (simp add: str_text_def)
      ultimately show ?thesis by auto
    qed
  qed
qed

lemma cstr_nul_free: "0 \<notin> set xs \<Longrightarrow> cstr (xs @ 0 # ys) = Some xs"
  by (induction xs) auto

lemma cstr_no_nul: "0 \<notin> set xs \<Longrightarrow> cstr xs = None"
  by (induction xs) auto

lemma cstr_length: "cstr b = Some t \<Longrightarrow> length t < length b \<and> b ! length t = 0 \<and> t = take (length t) b"
  by (induction b arbitrary: t) (auto split: if_splits)

lemma StringCchLengthW_nul_free:
  assumes "0 \<notin> set xs"
  shows "StringCchLengthW (xs @ [0]) STRSAFE_MAX_CCH =
    (if length xs < STRSAFE_MAX_CCH then (S_OK, length xs) else (E_INVALIDARG, 0))"
proof (cases "length xs < STRSAFE_MAX_CCH")
  case True
  then have "take STRSAFE_MAX_CCH (xs @ [0]) = xs @ [0]" by simp
  with True show ?thesis using cstr_nul_free [OF assms, of "[]"] by (simp add: StringCchLengthW_def)
next
  case False
  then have "cstr (take STRSAFE_MAX_CCH (xs @ [0])) = None"
    using assms by (intro cstr_no_nul) (auto dest: in_set_takeD)
  with False show ?thesis by (simp add: StringCchLengthW_def)
qed

subsection \<open>The interface of a string buffer\<close>

locale string_buffer =
  fixes inv :: "'h \<Rightarrow> 's \<Rightarrow> bool"
    and content :: "'s \<Rightarrow> wstr"
    and copy :: "'h \<Rightarrow> wstr \<Rightarrow> 's \<Rightarrow> (HRESULT \<times> 's) option"
    and append :: "'h \<Rightarrow> wstr \<Rightarrow> 's \<Rightarrow> (HRESULT \<times> 's) option"
  assumes copy_law: "inv h s \<Longrightarrow> 0 \<notin> set x \<Longrightarrow>
      returns (copy h x s) (\<lambda>(hr, s'). inv h s' \<and> (if SUCCEEDED hr then content s' = x else s' = s))"
    and append_law: "inv h s \<Longrightarrow> 0 \<notin> set x \<Longrightarrow>
      returns (append h x s) (\<lambda>(hr, s'). inv h s' \<and> (if SUCCEEDED hr then content s' = content s @ x else s' = s))"
begin

text \<open>The callers' pattern: append one part after the other and leave at the first failure.\<close>

fun append_all :: "'h \<Rightarrow> wstr list \<Rightarrow> 's \<Rightarrow> (HRESULT \<times> 's) option" where
  "append_all h [] s = Some (S_OK, s)"
| "append_all h (x # xs) s = do {
     (hr, s') \<leftarrow> append h x s;
     (if FAILED hr then Some (hr, s') else append_all h xs s')
   }"

lemma append_all_spec:
  assumes "inv h s" "\<forall>x \<in> set xs. 0 \<notin> set x"
  shows "returns (append_all h xs s) (\<lambda>(hr, s'). inv h s' \<and>
    (\<exists>n \<le> length xs. content s' = content s @ concat (take n xs) \<and> (SUCCEEDED hr \<longrightarrow> n = length xs)))"
  using assms
proof (induction xs arbitrary: s)
  case Nil
  then show ?case by simp
next
  case (Cons x xs)
  obtain hr s1 where s1: "append h x s = Some (hr, s1)" "inv h s1"
    "if SUCCEEDED hr then content s1 = content s @ x else s1 = s"
    using append_law [of h s x] Cons.prems by (auto elim: returnsE)
  show ?case
  proof (cases "FAILED hr")
    case True
    with s1 show ?thesis by (auto intro: exI [of _ 0])
  next
    case False
    with s1 Cons.IH [of s1] Cons.prems obtain hr' s' n where
      "append_all h xs s1 = Some (hr', s')" "inv h s'" "n \<le> length xs"
      "content s' = content s1 @ concat (take n xs)" "SUCCEEDED hr' \<longrightarrow> n = length xs" by (auto elim!: returnsE)
    with False s1 show ?thesis by (auto intro: exI [of _ "Suc n"])
  qed
qed

end

definition stru_ok :: "wheap \<Rightarrow> STRU \<Rightarrow> bool" where
  "stru_ok heap s \<longleftrightarrow> heap_ok 2 heap \<and> stru_inv s"

interpretation stru: string_buffer stru_ok str_text STRU_Copy STRU_Append
proof
  fix heap s and x :: wstr
  assume s: "stru_ok heap s" and x: "0 \<notin> set x"
  show "returns (STRU_Copy heap x s) (\<lambda>(hr, s'). stru_ok heap s' \<and>
      (if SUCCEEDED hr then str_text s' = x else s' = s))"
    using AuxAppend_spec [of s heap 0 x "[0]"] s StringCchLengthW_nul_free [OF x]
    by (auto simp: STRU_Copy_def STRU_CopyN_def stru_ok_def STRSAFE_MAX_CCH_def mult.commute elim!: returns_mono)
  show "returns (STRU_Append heap x s) (\<lambda>(hr, s'). stru_ok heap s' \<and>
      (if SUCCEEDED hr then str_text s' = str_text s @ x else s' = s))"
    using AuxAppend_spec [of s heap "m_cchLen s" x "[0]"] s StringCchLengthW_nul_free [OF x]
      stru_invD(6) [of s] length_str_text [of s]
    by (auto simp: STRU_Append_def STRU_AppendN_def stru_ok_def STRSAFE_MAX_CCH_def mult.commute elim!: returns_mono)
qed

subsection \<open>Operations on the buffer in place\<close>

lemma set_str_simps [simp]:
  "QueryStr (set_str s b) = b" "m_cchLen (set_str s b) = m_cchLen s"
  "QuerySize (set_str s b) = QuerySize s" "QuerySizeCCH (set_str s b) = QuerySizeCCH s"
  by (simp_all add: set_str_def QuerySizeCCH_def)

lemma set_str_set_str [simp]: "set_str (set_str s b) b' = set_str s b'"
  by (simp add: set_str_def)

lemma buffer_inv_set_str [simp]:
  "length b = length (QueryStr s) \<Longrightarrow> buffer_inv 2 (m_Buff (set_str s b)) = buffer_inv 2 (m_Buff s)"
  by (simp add: set_str_def buffer_inv_def)

lemma stru_inv_buffer: "stru_inv s \<Longrightarrow> buffer_inv 2 (m_Buff s)"
  by (simp add: stru_inv_def)

lemma store_at_0 [simp]: "b \<noteq> [] \<Longrightarrow> store_at b 0 x = Some (b[0 := x])"
  by (simp add: store_at_def)

lemma STRU_Reset_spec:
  assumes "buffer_inv 2 (m_Buff s)" "QueryStr s \<noteq> []"
  shows "returns (STRU_Reset s) (\<lambda>s'. stru_inv s' \<and> str_text s' = [] \<and>
    QueryStr s' = (QueryStr s)[0 := 0] \<and> QuerySize s' = QuerySize s)"
proof -
  obtain c cs where "QueryStr s = c # cs" using assms(2) by (cases "QueryStr s") auto
  then show ?thesis
    using assms by (simp add: STRU_Reset_def stru_inv_def buffer_inv_def set_str_def str_text_def)
qed

lemma SyncWithBuffer_at:
  assumes "buffer_inv 2 (m_Buff s)" "QueryStr s = xs @ 0 # ys" "0 \<notin> set xs"
  shows "SyncWithBuffer s = (S_OK, s\<lparr>m_cchLen := length xs\<rparr>)" "stru_inv (s\<lparr>m_cchLen := length xs\<rparr>)"
    "str_text (s\<lparr>m_cchLen := length xs\<rparr>) = xs"
proof -
  have len: "length (QueryStr s) = QuerySizeCCH s" "QuerySize s \<le> 4294967295"
    using assms(1) by (simp_all add: buffer_inv_def QuerySizeCCH_def MAXDWORD_def)
  then have le: "QuerySizeCCH s \<le> 2147483647" by (simp add: QuerySizeCCH_def)
  have "cstr (take (QuerySizeCCH s) (QueryStr s)) = Some xs"
    using cstr_nul_free [OF assms(3)] assms(2) by (simp add: len(1) [symmetric])
  moreover have "length xs < 4294967296" using assms(2) len le by simp
  ultimately show "SyncWithBuffer s = (S_OK, s\<lparr>m_cchLen := length xs\<rparr>)"
    using le by (simp add: SyncWithBuffer_def StringCchLengthW_def STRSAFE_MAX_CCH_def)
  show "stru_inv (s\<lparr>m_cchLen := length xs\<rparr>)" "str_text (s\<lparr>m_cchLen := length xs\<rparr>) = xs"
    using assms(1,2) by (simp_all add: stru_inv_def str_text_def)
qed

lemma split_at_nul:
  assumes "0 \<in> set (b :: wstr)"
  obtains xs ys where "b = xs @ 0 # ys" "0 \<notin> set xs"
  using split_list_first [OF assms] by blast

lemma SyncWithBuffer_inv:
  assumes "buffer_inv 2 (m_Buff s)" "0 \<in> set (QueryStr s)"
  shows "stru_inv (snd (SyncWithBuffer s))" "fst (SyncWithBuffer s) = S_OK"
  using SyncWithBuffer_at [OF assms(1)] by (auto intro: split_at_nul [OF assms(2)])

lemma SetLen_spec:
  assumes "stru_inv s"
  shows "returns (SetLen n s) (\<lambda>(hr, s'). stru_inv s' \<and>
    (if SUCCEEDED hr then n < QuerySizeCCH s \<and> str_text s' = take n (QueryStr s) else QuerySizeCCH s \<le> n \<and> s' = s))"
  using stru_invD [OF assms] assms
  by (simp add: SetLen_def stru_inv_def buffer_inv_def set_str_def str_text_def)

lemma CopyToBuffer_spec:
  assumes "stru_inv s" "cb div 2 \<le> length b"
  shows "returns (CopyToBuffer s b cb) (\<lambda>(hr, b', n). n = 2 * m_cchLen s + 2 \<and>
    (if SUCCEEDED hr then b' = str_text s @ 0 # drop (Suc (m_cchLen s)) b else cb < n \<and> b' = b))"
proof -
  note s = stru_invD [OF assms(1)]
  have "take (Suc (m_cchLen s)) (QueryStr s) = str_text s @ [0]"
    using s(3,4) by (simp add: str_text_def take_Suc_conv_app_nth)
  moreover have "Suc (m_cchLen s) \<le> length b" if "\<not> cb < 2 * m_cchLen s + 2"
    using that assms(2) by linarith
  ultimately show ?thesis using s length_str_text [OF assms(1)] by (simp add: CopyToBuffer_def Let_def)
qed

subsection \<open>Trim\<close>

lemma trim_back_spec:
  assumes "n < length b" "b ! n = 0"
  shows "\<exists>b' m. trim_back ws n b = Some (b', m) \<and> m \<le> n \<and> length b' = length b \<and> b' ! m = 0 \<and>
    take m b' = rev (dropWhile ws (rev (take n b)))"
  using assms
proof (induction n arbitrary: b)
  case (Suc n)
  show ?case
  proof (cases "ws (b ! n)")
    case True
    with Suc.prems Suc.IH [of "b[n := 0]"] show ?thesis
      by (auto simp: take_Suc_conv_app_nth)
  next
    case False
    with Suc.prems show ?thesis by (simp add: take_Suc_conv_app_nth)
  qed
qed simp

lemma count_leading_spec:
  "n \<le> length b \<Longrightarrow> count_leading ws n b = Some (length (takeWhile ws (take n b)))"
  by (induction ws n b rule: count_leading.induct) auto

definition trimmed :: "('c \<Rightarrow> bool) \<Rightarrow> 'c list \<Rightarrow> 'c list" where
  "trimmed ws xs = dropWhile ws (rev (dropWhile ws (rev xs)))"

lemma split_at: "m < length b \<Longrightarrow> b ! m = x \<Longrightarrow> b = take m b @ x # drop (Suc m) b"
  by (metis id_take_nth_drop)

lemma Trim_run:
  assumes "stru_inv s"
  shows "\<exists>s1 ys. Trim ws s = Some (snd (SyncWithBuffer s1)) \<and> buffer_inv 2 (m_Buff s1) \<and>
    QueryStr s1 = trimmed ws (str_text s) @ 0 # ys"
proof -
  note s = stru_invD [OF assms(1)]
  obtain b m where b: "trim_back ws (m_cchLen s) (QueryStr s) = Some (b, m)" "m \<le> m_cchLen s"
    "length b = length (QueryStr s)" "b ! m = 0" and t: "take m b = rev (dropWhile ws (rev (str_text s)))"
    using trim_back_spec [OF s(3,4), of ws] by (auto simp: str_text_def)
  have m: "m < length b" "b \<noteq> []" using b s(3) by auto
  let ?t = "take m b" let ?k = "length (takeWhile ws ?t)" let ?w = "take (m - ?k) (drop ?k b)"
  have drop: "dropWhile ws ?t = drop ?k ?t" by (rule dropWhile_eq_drop)
  have rest: "trimmed ws (str_text s) = ?w"
    by (simp only: trimmed_def t [symmetric] drop drop_take)
  have lrest: "length ?w = m - ?k" using m by simp
  have c: "count_leading ws m b = Some ?k" using m by (intro count_leading_spec) simp
  have inv: "buffer_inv 2 (m_Buff (set_str s b'))" if "length b' = length b" for b'
    using stru_inv_buffer [OF assms(1)] that b(3) by simp
  consider "m - ?k = 0" | "m - ?k \<noteq> 0" "0 < ?k" | "m - ?k \<noteq> 0" "?k = 0" by blast
  then show ?thesis
  proof cases
    case 1
    have "QueryStr (set_str s b) \<noteq> []" using m by simp
    from STRU_Reset_spec [OF inv [OF refl] this] obtain s1
      where "STRU_Reset (set_str s b) = Some s1" "stru_inv s1" "QueryStr s1 = b[0 := 0]"
      by (auto elim: returnsE)
    moreover have "b[0 := 0] = 0 # drop 1 b" using m by (cases b) auto
    ultimately show ?thesis
      using b(1) c 1 stru_inv_buffer [of s1] unfolding rest Trim_def by (auto simp: Let_def)
  next
    case 2
    let ?b = "?w @ 0 # drop (Suc (m - ?k)) b"
    have "store_block b 0 ?w = Some (?w @ drop (m - ?k) b)" using m lrest by simp
    moreover have "store_at (?w @ drop (m - ?k) b) (m - ?k) 0 = Some ?b"
      using m lrest 2 by (simp add: list_update_append Cons_nth_drop_Suc [symmetric])
    ultimately have "Trim ws s = Some (snd (SyncWithBuffer (set_str s ?b)))"
      using b(1) c 2 unfolding Trim_def by (simp add: Let_def set_str_def)
    moreover have "length ?b = length b" using m lrest 2 by simp
    ultimately show ?thesis using inv [of ?b] unfolding rest by auto
  next
    case 3
    then have "Trim ws s = Some (snd (SyncWithBuffer (set_str s b)))"
      using b(1) c unfolding Trim_def by (simp add: Let_def)
    moreover have "b = ?w @ 0 # drop (Suc m) b" using 3(2) split_at [OF m(1) b(4)] by simp
    ultimately show ?thesis using inv [OF refl] unfolding rest by (metis set_str_simps(1))
  qed
qed

lemma Trim_spec:
  assumes "stru_inv s" "0 \<notin> set (str_text s)"
  shows "returns (Trim ws s) (\<lambda>s'. stru_inv s' \<and> str_text s' = trimmed ws (str_text s))"
proof -
  have "0 \<notin> set (trimmed ws (str_text s))"
    using assms(2) by (auto simp: trimmed_def dest!: set_dropWhileD)
  with Trim_run [OF assms(1), of ws] SyncWithBuffer_at show ?thesis by fastforce
qed

lemma Trim_inv: "stru_inv s \<Longrightarrow> returns (Trim ws s) stru_inv"
  using Trim_run [of s ws] SyncWithBuffer_inv(1) by fastforce

subsection \<open>Appending an array of strings\<close>

lemma strings_total_spec:
  assumes "\<forall>p \<in> set ps. \<forall>x. p = Some x \<longrightarrow> 0 \<notin> set x" "2 \<le> acc"
  shows "case strings_total ps acc of
      Inl hr \<Rightarrow> FAILED hr \<and> (None \<in> set ps \<or> MAXDWORD < acc + 2 * length (concat (map the ps)))
    | Inr n \<Rightarrow> None \<notin> set ps \<and> n = acc + 2 * length (concat (map the ps))"
  using assms
proof (induction ps arbitrary: acc)
  case (Cons p ps)
  show ?case
  proof (cases p)
    case (Some x)
    have "STRSAFE_MAX_CCH \<le> length x \<Longrightarrow> MAXDWORD < acc + 2 * length x"
      using Cons.prems(2) by (simp add: STRSAFE_MAX_CCH_def MAXDWORD_def)
    with Some show ?thesis
      using StringCchLengthW_nul_free [of x] Cons.IH [of "acc + 2 * length x"] Cons.prems
      by (auto simp: Let_def split: sum.splits if_splits)
  qed simp
qed simp

lemma copy_strings_spec:
  assumes "None \<notin> set ps" "off < length (QueryStr s)" "QueryStr s ! off = 0"
    and "rest = length (QueryStr s) - off" "length (concat (map the ps)) < rest" "rest \<le> STRSAFE_MAX_CCH"
  shows "copy_strings ps off rest s = Some (S_OK, set_str s
    (take off (QueryStr s) @ concat (map the ps) @ 0 # drop (Suc (off + length (concat (map the ps)))) (QueryStr s)))"
  using assms
proof (induction ps arbitrary: off rest s)
  case Nil
  then show ?case using split_at [OF Nil(2,3)] by (simp add: set_str_def flip: split_at [OF Nil(2,3)])
next
  case (Cons q ps)
  then obtain p where q: "q = Some p" by (cases q) auto
  let ?b = "take off (QueryStr s) @ p @ 0 # drop (Suc (off + length p)) (QueryStr s)"
  have lt: "off + length p < length (QueryStr s)" using Cons.prems q by simp
  then have lb: "length ?b = length (QueryStr s)" by simp
  have c: "StringCchCopyExW (QueryStr s) off rest p = Some (S_OK, ?b, off + length p, rest - length p)"
    using Cons.prems q by (simp add: StringCchCopyExW_def Let_def)
  have "copy_strings ps (off + length p) (rest - length p) (set_str s ?b) = Some (S_OK, set_str (set_str s ?b)
    (take (off + length p) ?b @ concat (map the ps) @ 0 # drop (Suc (off + length p + length (concat (map the ps)))) ?b))"
    using Cons.IH [of "off + length p" "set_str s ?b" "rest - length p"] Cons.prems q lt lb
    unfolding set_str_simps by (simp add: nth_append)
  with c lt q show ?case by (simp add: ac_simps)
qed

lemma AuxAppendArray_spec:
  assumes "stru_ok heap s" "\<forall>p \<in> set ps. \<forall>x. p = Some x \<longrightarrow> 0 \<notin> set x"
  shows "returns (AuxAppendArray heap ps s) (\<lambda>(hr, s'). stru_ok heap s' \<and>
    (if SUCCEEDED hr then None \<notin> set ps \<and> str_text s' = str_text s @ concat (map the ps) else s' = s) \<and>
    (None \<notin> set ps \<and> 2 * (length (str_text s @ concat (map the ps)) + 1) \<le> MAXDWORD \<and> heap_total heap
      \<longrightarrow> hr = S_OK))"
proof (cases "strings_total ps 2")
  case (Inl hr)
  then show ?thesis using assms strings_total_spec [OF assms(2), of 2] length_str_text [of s]
    by (auto simp: AuxAppendArray_def stru_ok_def)
next
  case (Inr total)
  let ?t = "concat (map the ps)"
  have inv: "stru_inv s" "heap_ok 2 heap" using assms(1) by (simp_all add: stru_ok_def)
  note s = stru_invD [OF inv(1)]
  have total: "None \<notin> set ps" "total = 2 + 2 * length ?t"
    using strings_total_spec [OF assms(2), of 2] Inr by (simp, simp)
  define n where "n = 2 * m_cchLen s + total"
  obtain ok B where B: "(if QuerySize s < n then BUFFER_Resize 2 heap n False (m_Buff s)
      else (True, m_Buff s)) = (ok, B)" by force
  have BS: "buffer_inv 2 B" "\<not> ok \<Longrightarrow> B = m_Buff s" "ok \<Longrightarrow> n \<le> m_cbBuffer B"
    "take (length (QueryStr s)) (m_pBuffer B) = QueryStr s" "length (QueryStr s) \<le> length (m_pBuffer B)"
    using BUFFER_Resize_spec [OF stru_inv_buffer [OF inv(1)] inv(2), of n False ok B] B
      stru_inv_buffer [OF inv(1)] by (auto split: if_splits)
  show ?thesis
  proof (cases "MAXDWORD < n \<or> \<not> ok")
    case True
    have "n = 2 * (length (str_text s @ ?t) + 1)"
      using length_str_text [OF inv(1)] by (simp add: n_def total)
    moreover have "MAXDWORD < n \<or> heap n = None"
      using True B BUFFER_Resize_ok [of n heap 2 False "m_Buff s"] by (force split: if_splits)
    ultimately have "\<not> (2 * (length (str_text s @ ?t) + 1) \<le> MAXDWORD \<and> heap_total heap)"
      by (auto simp: heap_total_def)
    with True show ?thesis using assms(1) BS(2)
      unfolding AuxAppendArray_def Inr sum.case s(6) n_def [symmetric] Let_def B by auto
  next
    case False
    let ?s1 = "s\<lparr>m_Buff := B\<rparr>"
    have lb: "length (m_pBuffer B) = QuerySizeCCH ?s1" "m_cbBuffer B \<le> 4294967295"
      using BS(1) by (simp_all add: buffer_inv_def QuerySizeCCH_def MAXDWORD_def)
    then have le: "length (m_pBuffer B) \<le> 2147483647" by (simp add: QuerySizeCCH_def)
    have fit: "m_cchLen s + length ?t < length (m_pBuffer B)"
      using BS(1,3) False by (simp add: n_def total buffer_inv_def)
    have agree: "take (m_cchLen s) (m_pBuffer B) = str_text s" "m_pBuffer B ! m_cchLen s = 0"
      using s(3,4) arg_cong [OF BS(4), of "take (m_cchLen s)"] arg_cong [OF BS(4), of "\<lambda>l. l ! m_cchLen s"]
      by (simp_all add: str_text_def)
    let ?b = "str_text s @ ?t @ 0 # drop (Suc (m_cchLen s + length ?t)) (m_pBuffer B)"
    have "copy_strings ps (m_cchLen s) (QuerySizeCCH ?s1 - m_cchLen s) ?s1 = Some (S_OK, set_str ?s1 ?b)"
      using copy_strings_spec [OF total(1), of "m_cchLen s" ?s1] fit agree le lb(1)
      by (simp add: STRSAFE_MAX_CCH_def)
    moreover have "u32 n div 2 - 1 = m_cchLen s + length ?t"
      using False by (simp add: n_def total MAXDWORD_def)
    moreover have "stru_inv ((set_str ?s1 ?b)\<lparr>m_cchLen := m_cchLen s + length ?t\<rparr>)"
      using BS(1) fit length_str_text [OF inv(1)]
      by (simp add: stru_inv_def buffer_inv_def set_str_def nth_append)
    moreover have "str_text ((set_str ?s1 ?b)\<lparr>m_cchLen := m_cchLen s + length ?t\<rparr>) = str_text s @ ?t"
      using length_str_text [OF inv(1)] by (simp add: str_text_def [of "_\<lparr>m_cchLen := _\<rparr>"] set_str_def)
    ultimately show ?thesis using False inv(2) total(1)
      unfolding AuxAppendArray_def Inr sum.case s(6) n_def [symmetric] Let_def B
      by (simp add: QueryCCH_def stru_ok_def)
  qed
qed

subsection \<open>Narrow strings, formatting and environment expansion\<close>

text \<open>The conversion writes at least one and at most as many characters as it was given room for.\<close>

definition code_page_ok :: "code_page \<Rightarrow> bool" where
  "code_page_ok mbtwc \<longleftrightarrow> (\<forall>str n w. mbtwc str n = Inr w \<longrightarrow> w \<noteq> [] \<and> length w \<le> n)"

lemma AuxAppendA_spec:
  assumes "stru_ok heap s" "code_page_ok mbtwc" "k \<le> m_cchLen s" "length str < 4611686018427387904"
  shows "returns (AuxAppendA heap mbtwc (Some str) (2 * k) s) (\<lambda>(hr, s'). stru_ok heap s' \<and>
    (str_text s' = str_text s \<or>
     (\<exists>n w. mbtwc str n = Inr w \<and> length str \<le> n \<and> hr = S_OK \<and> str_text s' = take k (str_text s) @ w)))"
proof (cases "str = []")
  case True
  then show ?thesis using assms by (simp add: AuxAppendA_def)
next
  case False
  have inv: "stru_inv s" "heap_ok 2 heap" using assms(1) by (simp_all add: stru_ok_def)
  note s = stru_invD [OF inv(1)]
  define n where "n = 2 * k + 2 * length str + 2"
  have u: "u64 (2 * k + length str * 2 + 2) = n"
    using s(7) assms(3,4) by (simp add: n_def)
  obtain ok B where B: "(if QuerySize s < n then BUFFER_Resize 2 heap n False (m_Buff s)
      else (True, m_Buff s)) = (ok, B)" by force
  have BS: "buffer_inv 2 B" "\<not> ok \<Longrightarrow> B = m_Buff s" "ok \<Longrightarrow> n \<le> m_cbBuffer B"
    "take (length (QueryStr s)) (m_pBuffer B) = QueryStr s" "length (QueryStr s) \<le> length (m_pBuffer B)"
    using BUFFER_Resize_spec [OF stru_inv_buffer [OF inv(1)] inv(2), of n False ok B] B
      stru_inv_buffer [OF inv(1)] by (auto split: if_splits)
  have same: "stru_inv (s\<lparr>m_Buff := B\<rparr>)" "str_text (s\<lparr>m_Buff := B\<rparr>) = str_text s"
    using BS(1,5) s(3,4) arg_cong [OF BS(4), of "take (m_cchLen s)"] arg_cong [OF BS(4), of "\<lambda>l. l ! m_cchLen s"]
    by (simp_all add: stru_inv_def str_text_def)
  consider "QuerySize s < n \<and> MAXDWORD < n" | "\<not> (QuerySize s < n \<and> MAXDWORD < n)" "\<not> ok"
    | "\<not> (QuerySize s < n \<and> MAXDWORD < n)" ok by blast
  then show ?thesis
  proof cases
    case 1
    then show ?thesis using False assms(1) u by (simp add: AuxAppendA_def Let_def)
  next
    case 2
    then show ?thesis using False assms(1) same inv(2)
      unfolding AuxAppendA_def option.case Let_def u B by (simp add: stru_ok_def)
  next
    case 3
    let ?room = "(m_cbBuffer B - 2 * k - 2) div 2"
    have len: "length (m_pBuffer B) = m_cbBuffer B div 2" "n \<le> m_cbBuffer B"
      using BS(1,3) 3 by (simp_all add: buffer_inv_def)
    have room: "k + ?room < length (m_pBuffer B)" "length str \<le> ?room" using len by (simp_all add: n_def)
    show ?thesis
    proof (cases "mbtwc str ?room")
      case (Inl err)
      then show ?thesis using False 3 same inv
        unfolding AuxAppendA_def option.case Let_def u B by (simp add: stru_ok_def)
    next
      case (Inr w)
      then have w: "length w \<le> ?room" using assms(2) by (auto simp: code_page_ok_def)
      have t: "take k (m_pBuffer B) = take k (str_text s)"
        using assms(3) s(3) arg_cong [OF BS(4), of "take k"] by (simp add: str_text_def)
      let ?b = "(take k (m_pBuffer B) @ w @ drop (k + length w) (m_pBuffer B))[k + length w := 0]"
      let ?s = "\<lparr>m_Buff = B\<lparr>m_pBuffer := ?b\<rparr>, m_cchLen = k + length w\<rparr>"
      have fit: "k + length w < length (m_pBuffer B)" using room w by linarith
      then have "AuxAppendA heap mbtwc (Some str) (2 * k) s = Some (S_OK, ?s)"
        using False 3 Inr unfolding AuxAppendA_def option.case Let_def u B if_not_P [OF 3(1)] by (simp add: add.commute)
      moreover have "stru_inv ?s" using BS(1) fit by (simp add: stru_inv_def buffer_inv_def)
      moreover have "str_text ?s = take k (str_text s) @ w"
        using fit unfolding t [symmetric] by (simp add: str_text_def)
      ultimately show ?thesis using inv(2) Inr room(2) by (auto simp: stru_ok_def)
    qed
  qed
qed

lemma STRU_Resize_spec:
  assumes "buffer_inv 2 (m_Buff s)" "heap_ok 2 heap" "n < 4294967296" "STRU_Resize heap n s = (hr, s')"
  shows "buffer_inv 2 (m_Buff s')" "m_cchLen s' = m_cchLen s"
    "take (length (QueryStr s)) (QueryStr s') = QueryStr s" "length (QueryStr s) \<le> length (QueryStr s')"
    "SUCCEEDED hr \<Longrightarrow> n \<le> QuerySizeCCH s'"
proof -
  obtain ok B where B: "BUFFER_Resize 2 heap (2 * n) False (m_Buff s) = (ok, B)" by force
  note R = BUFFER_Resize_spec [OF assms(1,2) B]
  have u: "u64 (n * 2) = 2 * n" using assms(3) by simp
  have d: "2 * n \<le> m \<Longrightarrow> n \<le> m div 2" for m by linarith
  show "buffer_inv 2 (m_Buff s')" "m_cchLen s' = m_cchLen s"
    "take (length (QueryStr s)) (QueryStr s') = QueryStr s" "length (QueryStr s) \<le> length (QueryStr s')"
    "SUCCEEDED hr \<Longrightarrow> n \<le> QuerySizeCCH s'"
    using assms(1,4) R d unfolding STRU_Resize_def u Let_def B
    by (auto simp: QuerySizeCCH_def split: if_splits)
qed

lemma STRU_Resize_inv:
  assumes "stru_inv s" "heap_ok 2 heap" "n < 4294967296" "STRU_Resize heap n s = (hr, s')"
  shows "stru_inv s'" "str_text s' = str_text s"
proof -
  note R = STRU_Resize_spec [OF stru_inv_buffer [OF assms(1)] assms(2-4)]
  show "stru_inv s'" "str_text s' = str_text s"
    using R(1,2,4) stru_invD(3,4) [OF assms(1)] arg_cong [OF R(3), of "take (m_cchLen s)"]
      arg_cong [OF R(3), of "\<lambda>l. l ! m_cchLen s"]
    by (simp_all add: stru_inv_def str_text_def)
qed

lemma reset_if_failed_spec:
  assumes "buffer_inv 2 (m_Buff s)" "QueryStr s \<noteq> []" "FAILED hr"
  shows "returns (reset_if_failed hr s) (\<lambda>(hr', s'). hr' = hr \<and> stru_inv s' \<and> str_text s' = [])"
  using STRU_Reset_spec [OF assms(1,2)] assms(3)
  by (auto simp: reset_if_failed_def elim!: returns_mono)

lemma terminate_and_sync_spec:
  assumes "buffer_inv 2 (m_Buff s)" "QueryStr s = t @ 0 # ys" "0 \<notin> set t"
  shows "returns (terminate_and_sync s) (\<lambda>(hr, s'). hr = S_OK \<and> stru_inv s' \<and> str_text s' = t)"
proof -
  let ?n = "QuerySizeCCH s - 1"
  have n: "QuerySizeCCH s = length t + Suc (length ys)"
    using assms(1,2) by (simp add: buffer_inv_def QuerySizeCCH_def)
  have "(t @ 0 # ys)[?n := 0] = t @ 0 # (if ys = [] then [] else ys[length ys - 1 := 0])"
    unfolding n by (cases ys) (simp_all add: list_update_append)
  then obtain zs where z: "(t @ 0 # ys)[?n := 0] = t @ 0 # zs" "length zs = length ys" by simp
  have st: "store_at (QueryStr s) ?n 0 = Some (t @ 0 # zs)"
    using z n assms(2) by (simp add: store_at_def)
  have "buffer_inv 2 (m_Buff (set_str s (t @ 0 # zs)))" using assms(1,2) z(2) by simp
  from SyncWithBuffer_at [OF this _ assms(3), of zs] st show ?thesis
    by (simp add: terminate_and_sync_def reset_if_failed_def)
qed

lemma vsnwprintf_s_spec:
  assumes "length b = n" "0 < n"
  shows "returns (vsnwprintf_s b n out) (\<lambda>(r, b'). length b' = n \<and>
    (r = - 1 \<longleftrightarrow> out = None \<or> n \<le> length (the out)) \<and>
    (r \<noteq> - 1 \<longrightarrow> (\<exists>ys. b' = the out @ 0 # ys)))"
proof (cases out)
  case None
  with assms show ?thesis by (auto simp: vsnwprintf_s_def)
next
  case (Some t)
  obtain x xs where "b = x # xs" using assms by (cases b) auto
  with Some assms(1) show ?thesis by (auto simp: vsnwprintf_s_def Let_def)
qed

lemma SafeVsnwprintf_spec:
  assumes "stru_ok heap s" "\<And>t. out = Some t \<Longrightarrow> 0 \<notin> set t"
  shows "returns (SafeVsnwprintf heap out s) (\<lambda>(hr, s'). stru_ok heap s' \<and>
    (if SUCCEEDED hr then out = Some (str_text s') else str_text s' = []))"
proof -
  have inv: "stru_inv s" "heap_ok 2 heap" using assms(1) by (simp_all add: stru_ok_def)
  have b: "buffer_inv 2 (m_Buff s)" "length (QueryStr s) = QuerySizeCCH s" "0 < QuerySizeCCH s"
    using stru_invD [OF inv(1)] stru_inv_buffer [OF inv(1)] by simp_all
  obtain r b1 where v: "vsnwprintf_s (QueryStr s) (QuerySizeCCH s) out = Some (r, b1)"
    and b1: "length b1 = length (QueryStr s)" "r = - 1 \<longleftrightarrow> out = None \<or> QuerySizeCCH s \<le> length (the out)"
      "r \<noteq> - 1 \<longrightarrow> (\<exists>ys. b1 = the out @ 0 # ys)"
    using vsnwprintf_s_spec [OF b(2,3), of out] b(2) by (auto elim!: returnsE)
  let ?s1 = "set_str s b1"
  have s1: "buffer_inv 2 (m_Buff ?s1)" "QueryStr ?s1 \<noteq> []" using b b1 by auto
  show ?thesis
  proof (cases "r = - 1")
    case False
    then obtain t ys where "out = Some t" "b1 = t @ 0 # ys" using b1 by auto
    then show ?thesis
      using v False inv(2) terminate_and_sync_spec [OF s1(1), of t ys] assms(2)
      by (auto simp: SafeVsnwprintf_def stru_ok_def elim!: returns_mono)
  next
    case r: True
    show ?thesis
    proof (cases "64 * 1024 < vscwprintf out")
      case True
      then show ?thesis
        using v r inv(2) reset_if_failed_spec [OF s1, of "HRESULT_FROM_WIN32 ERROR_INVALID_DATA"]
        by (auto simp: SafeVsnwprintf_def stru_ok_def elim!: returns_mono)
    next
      case False
      let ?n = "nat (vscwprintf out + 1)"
      have n: "?n < 4294967296" using False by simp
      obtain hr s2 where R: "STRU_Resize heap ?n ?s1 = (hr, s2)" by force
      note RS = STRU_Resize_spec [OF s1(1) inv(2) n R]
      have s2: "QueryStr s2 \<noteq> []" using RS(4) s1(2) by auto
      show ?thesis
      proof (cases "FAILED hr")
        case True
        then show ?thesis
          using v r False R inv(2) reset_if_failed_spec [OF RS(1) s2 True]
          by (auto simp: SafeVsnwprintf_def stru_ok_def Let_def elim!: returns_mono)
      next
        case ok: False
        have b2: "length (QueryStr s2) = QuerySizeCCH s2" "0 < QuerySizeCCH s2"
          using RS(1) s2 by (auto simp: buffer_inv_def QuerySizeCCH_def simp flip: length_greater_0_conv)
        obtain r2 b3 where v2: "vsnwprintf_s (QueryStr s2) (QuerySizeCCH s2) out = Some (r2, b3)"
          and b3: "length b3 = length (QueryStr s2)" "r2 = - 1 \<longleftrightarrow> out = None \<or> QuerySizeCCH s2 \<le> length (the out)"
            "r2 \<noteq> - 1 \<longrightarrow> (\<exists>ys. b3 = the out @ 0 # ys)"
          using vsnwprintf_s_spec [OF b2, of out] b2 by (auto elim!: returnsE)
        have s3: "buffer_inv 2 (m_Buff (set_str s2 b3))" "QueryStr (set_str s2 b3) \<noteq> []"
          using RS(1) b3(1) s2 by auto
        have run: "SafeVsnwprintf heap out s =
            (if r2 = - 1 then reset_if_failed (HRESULT_FROM_WIN32 ERROR_INVALID_DATA) (set_str s2 b3)
             else terminate_and_sync (set_str s2 b3))"
          using v r False R ok v2 by (simp add: SafeVsnwprintf_def Let_def)
        show ?thesis
        proof (cases "r2 = - 1")
          case True
          then show ?thesis
            using run inv(2) reset_if_failed_spec [OF s3, of "HRESULT_FROM_WIN32 ERROR_INVALID_DATA"]
            by (auto simp: stru_ok_def elim!: returns_mono)
        next
          case False
          then obtain t ys where "out = Some t" "b3 = t @ 0 # ys" using b3 by auto
          then show ?thesis
            using run False inv(2) terminate_and_sync_spec [OF s3(1), of t ys] assms(2)
            by (auto simp: stru_ok_def elim!: returns_mono)
        qed
      qed
    qed
  qed
qed

definition expand_ok :: "(wstr \<Rightarrow> DWORD + wstr) \<Rightarrow> bool" where
  "expand_ok expand \<longleftrightarrow> (\<forall>src t. expand src = Inr t \<longrightarrow> 0 \<notin> set t \<and> length t < 4294967295)"

text \<open>The common step of both routines: expand into the block and resynchronise when it fits.\<close>

lemma expand_step:
  assumes "stru_inv s" "expand_ok expand"
  shows "returns (ExpandEnvironmentStringsW expand src (QueryStr s) (QuerySizeCCH s)) (\<lambda>(n, err, b).
     (case expand src of Inl e \<Rightarrow> n = 0 \<and> err = e | Inr t \<Rightarrow> n = length t + 1) \<and>
     (if n = 0 \<or> QuerySizeCCH s < n then set_str s b = s
      else \<exists>s'. SyncWithBuffer (set_str s b) = (S_OK, s') \<and> stru_inv s' \<and> Inr (str_text s') = expand src))"
proof (cases "expand src")
  case (Inl e)
  then show ?thesis by (simp add: ExpandEnvironmentStringsW_def set_str_def)
next
  case (Inr t)
  show ?thesis
  proof (cases "QuerySizeCCH s < length t + 1")
    case True
    with Inr show ?thesis by (simp add: ExpandEnvironmentStringsW_def set_str_def)
  next
    case False
    let ?b = "t @ 0 # drop (Suc (length t)) (QueryStr s)"
    have l: "length ?b = length (QueryStr s)" using False stru_invD(5) [OF assms(1)] by simp
    have "0 \<notin> set t" using assms(2) Inr by (auto simp: expand_ok_def)
    with SyncWithBuffer_at [of "set_str s ?b" t "drop (Suc (length t)) (QueryStr s)"] l stru_inv_buffer [OF assms(1)]
    show ?thesis using Inr False stru_invD(5) [OF assms(1)]
      by (simp add: ExpandEnvironmentStringsW_def)
  qed
qed

lemma CopyAndExpandEnvironmentStrings_spec:
  assumes "stru_ok heap s" "expand_ok expand"
  shows "returns (CopyAndExpandEnvironmentStrings heap expand src s) (\<lambda>(hr, s'). stru_ok heap s' \<and>
    (Inr (str_text s') = expand src \<or> str_text s' = []))"
proof -
  have inv: "stru_inv s" "heap_ok 2 heap" using assms(1) by (simp_all add: stru_ok_def)
  have "QueryStr s \<noteq> []" using stru_invD(3) [OF inv(1)] by auto
  then obtain s0 where s0: "STRU_Reset s = Some s0" "stru_inv s0" "str_text s0 = []"
    using STRU_Reset_spec [OF stru_inv_buffer [OF inv(1)]] by (auto elim: returnsE)
  obtain n err b where E: "ExpandEnvironmentStringsW expand src (QueryStr s0) (QuerySizeCCH s0) = Some (n, err, b)"
    and n: "case expand src of Inl e \<Rightarrow> n = 0 \<and> err = e | Inr t \<Rightarrow> n = length t + 1"
    and fit: "if n = 0 \<or> QuerySizeCCH s0 < n then set_str s0 b = s0
      else \<exists>s'. SyncWithBuffer (set_str s0 b) = (S_OK, s') \<and> stru_inv s' \<and> Inr (str_text s') = expand src"
    using expand_step [OF s0(2) assms(2), of src] by (auto elim!: returnsE)
  show ?thesis
  proof (cases "n \<noteq> 0 \<and> QuerySizeCCH s0 < n")
    case False
    then show ?thesis using s0 E fit inv(2)
      by (auto simp: CopyAndExpandEnvironmentStrings_def Let_def stru_ok_def)
  next
    case True
    then have same: "set_str s0 b = s0" using fit by simp
    have n32: "n < 4294967296" using n assms(2) True by (auto simp: expand_ok_def split: sum.splits)
    obtain hr s2 where R: "STRU_Resize heap n s0 = (hr, s2)" by force
    note RS = STRU_Resize_inv [OF s0(2) inv(2) n32 R]
    obtain n2 err2 b2 where E2: "ExpandEnvironmentStringsW expand src (QueryStr s2) (QuerySizeCCH s2) = Some (n2, err2, b2)"
      and fit2: "if n2 = 0 \<or> QuerySizeCCH s2 < n2 then set_str s2 b2 = s2
        else \<exists>s'. SyncWithBuffer (set_str s2 b2) = (S_OK, s') \<and> stru_inv s' \<and> Inr (str_text s') = expand src"
      using expand_step [OF RS(1) assms(2), of src] by (auto elim!: returnsE)
    show ?thesis using s0 E True R E2 fit2 RS inv(2)
      by (auto simp: CopyAndExpandEnvironmentStrings_def Let_def stru_ok_def same split: if_splits)
  qed
qed

lemma ExpandEnvironmentVariables_spec:
  assumes "stru_ok heap s" "expand_ok expand"
  shows "returns (ExpandEnvironmentVariables heap expand (Some src) s) (\<lambda>(hr, s'). stru_ok heap s' \<and>
    (Inr (str_text s') = expand src \<or> str_text s' = str_text s))"
proof -
  have inv: "stru_inv s" "heap_ok 2 heap" using assms(1) by (simp_all add: stru_ok_def)
  obtain n err b where E: "ExpandEnvironmentStringsW expand src (QueryStr s) (QuerySizeCCH s) = Some (n, err, b)"
    and fit: "if n = 0 \<or> QuerySizeCCH s < n then set_str s b = s
      else \<exists>s'. SyncWithBuffer (set_str s b) = (S_OK, s') \<and> stru_inv s' \<and> Inr (str_text s') = expand src"
    using expand_step [OF inv(1) assms(2), of src] by (auto elim!: returnsE)
  show ?thesis
  proof (cases "n \<noteq> 0 \<and> QuerySizeCCH s < n")
    case False
    then show ?thesis using E fit inv
      by (auto simp: ExpandEnvironmentVariables_def Let_def stru_ok_def)
  next
    case True
    then have same: "set_str s b = s" using fit by simp
    let ?n = "u32 (u64 (u32 (n + 1) * 2))"
    have n32: "?n < 4294967296" by (simp add: u32_def)
    obtain hr s2 where R: "STRU_Resize heap ?n s = (hr, s2)" by force
    note RS = STRU_Resize_inv [OF inv(1) inv(2) n32 R]
    obtain n2 err2 b2 where E2: "ExpandEnvironmentStringsW expand src (QueryStr s2) (QuerySizeCCH s2) = Some (n2, err2, b2)"
      and fit2: "if n2 = 0 \<or> QuerySizeCCH s2 < n2 then set_str s2 b2 = s2
        else \<exists>s'. SyncWithBuffer (set_str s2 b2) = (S_OK, s') \<and> stru_inv s' \<and> Inr (str_text s') = expand src"
      using expand_step [OF RS(1) assms(2), of src] by (auto elim!: returnsE)
    show ?thesis using E True R E2 fit2 RS inv(2)
      unfolding ExpandEnvironmentVariables_def option.case Let_def
      by (auto simp: stru_ok_def same split: if_splits)
  qed
qed

subsection \<open>Searching\<close>

lemma starts_with_take: "starts_with xs p \<longleftrightarrow> take (length p) xs = p"
  by (induction xs p rule: starts_with.induct) auto

lemma wcschr_spec:
  assumes "0 \<notin> set xs" "c \<noteq> 0"
  shows "wcschr (xs @ 0 # ys) c = (if c \<in> set xs then Some (length (takeWhile (\<lambda>x. x \<noteq> c) xs)) else None)"
  using assms by (induction xs) auto

lemma StartsWith_spec:
  assumes "stru_inv s" "0 \<notin> set p"
  shows "StartsWith upcase s (Some p) ic \<longleftrightarrow>
    length p \<le> length (str_text s) \<and> ordinal_equal upcase ic (take (length p) (str_text s)) p"
proof -
  have m: "m_cchLen s < STRSAFE_MAX_CCH" using stru_invD(7) [OF assms(1)] by (simp add: STRSAFE_MAX_CCH_def)
  show ?thesis
    using m StringCchLengthW_nul_free [OF assms(2)] length_str_text [OF assms(1)]
    by (auto simp: StartsWith_def str_text_def)
qed

lemma EndsWith_spec:
  assumes "stru_inv s" "0 \<notin> set p"
  shows "EndsWith upcase s (Some p) ic \<longleftrightarrow>
    length p \<le> length (str_text s) \<and>
    ordinal_equal upcase ic (drop (length (str_text s) - length p) (str_text s)) p"
proof -
  have m: "m_cchLen s < STRSAFE_MAX_CCH" using stru_invD(7) [OF assms(1)] by (simp add: STRSAFE_MAX_CCH_def)
  have "length p \<le> m_cchLen s \<Longrightarrow> take (length p) (drop (m_cchLen s - length p) (QueryStr s)) =
      drop (m_cchLen s - length p) (str_text s)"
    by (simp add: str_text_def drop_take)
  then show ?thesis
    using m StringCchLengthW_nul_free [OF assms(2)] length_str_text [OF assms(1)]
    by (auto simp: EndsWith_def Let_def)
qed

lemma IndexOf_spec:
  assumes "stru_inv s" "0 \<notin> set (str_text s)" "c \<noteq> 0"
  shows "IndexOf s c i =
    (let rest = drop i (str_text s)
     in if c \<in> set rest then int (i + length (takeWhile (\<lambda>x. x \<noteq> c) rest)) else - 1)"
proof (cases "i < m_cchLen s")
  case True
  note s = stru_invD [OF assms(1)]
  have "QueryStr s = str_text s @ 0 # drop (Suc (m_cchLen s)) (QueryStr s)"
    using split_at [OF s(3,4)] by (simp add: str_text_def)
  then have d: "drop i (QueryStr s) = drop i (str_text s) @ 0 # drop (Suc (m_cchLen s)) (QueryStr s)"
    using True length_str_text [OF assms(1)] by (metis drop_append diff_is_0_eq drop_0 less_imp_le)
  have "length (takeWhile (\<lambda>x. x \<noteq> c) (drop i (str_text s))) \<le> m_cchLen s - i"
    using length_takeWhile_le [of _ "drop i (str_text s)"] length_str_text [OF assms(1)] by simp
  then have "i + length (takeWhile (\<lambda>x. x \<noteq> c) (drop i (str_text s))) \<le> 2147483647"
    using s(7) True by linarith
  moreover have "0 \<notin> set (drop i (str_text s))" using assms(2) by (auto dest: in_set_dropD)
  ultimately show ?thesis
    using True wcschr_spec [OF _ assms(3), of "drop i (str_text s)"]
    by (simp add: IndexOf_def index_result_def QueryCCH_def d Let_def)
next
  case False
  then show ?thesis using length_str_text [OF assms(1)] by (simp add: IndexOf_def QueryCCH_def)
qed

subsection \<open>Any sequence of calls\<close>

datatype stru_call =
    CallCopy wstr
  | CallAppend wstr
  | CallCopyArray "wstr option list"
  | CallAppendArray "wstr option list"
  | CallCopyA "BYTE list option"
  | CallAppendA "BYTE list option"
  | CallReset
  | CallResize nat
  | CallSyncWithBuffer
  | CallSetLen nat
  | CallTrim
  | CallSafeVsnwprintf "wstr option"
  | CallCopyAndExpand wstr
  | CallExpand wstr

text \<open>What the types of the arguments guarantee: C strings hold no NUL, sizes have their width.\<close>

fun call_ok :: "stru_call \<Rightarrow> bool" where
  "call_ok (CallCopy x) = (0 \<notin> set x)"
| "call_ok (CallAppend x) = (0 \<notin> set x)"
| "call_ok (CallCopyArray ps) = (\<forall>x. Some x \<in> set ps \<longrightarrow> 0 \<notin> set x)"
| "call_ok (CallAppendArray ps) = (\<forall>x. Some x \<in> set ps \<longrightarrow> 0 \<notin> set x)"
| "call_ok (CallCopyA p) = (\<forall>x. p = Some x \<longrightarrow> length x < 4611686018427387904)"
| "call_ok (CallAppendA p) = (\<forall>x. p = Some x \<longrightarrow> length x < 4611686018427387904)"
| "call_ok (CallResize n) = (n < 4294967296)"
| "call_ok (CallSafeVsnwprintf p) = (\<forall>x. p = Some x \<longrightarrow> 0 \<notin> set x)"
| "call_ok _ = True"

fun stru_perform :: "wheap \<Rightarrow> (WCHAR \<Rightarrow> bool) \<Rightarrow> code_page \<Rightarrow> (wstr \<Rightarrow> DWORD + wstr) \<Rightarrow> stru_call \<Rightarrow>
    STRU \<Rightarrow> STRU option" where
  "stru_perform heap ws mb ex (CallCopy x) s = map_option snd (STRU_Copy heap x s)"
| "stru_perform heap ws mb ex (CallAppend x) s = map_option snd (STRU_Append heap x s)"
| "stru_perform heap ws mb ex (CallCopyArray ps) s = map_option snd (STRU_CopyArray heap ps s)"
| "stru_perform heap ws mb ex (CallAppendArray ps) s = map_option snd (STRU_AppendArray heap ps s)"
| "stru_perform heap ws mb ex (CallCopyA p) s = map_option snd (STRU_CopyA heap mb p s)"
| "stru_perform heap ws mb ex (CallAppendA p) s = map_option snd (STRU_AppendA heap mb p s)"
| "stru_perform heap ws mb ex CallReset s = STRU_Reset s"
| "stru_perform heap ws mb ex (CallResize n) s = Some (snd (STRU_Resize heap n s))"
| "stru_perform heap ws mb ex CallSyncWithBuffer s = Some (snd (SyncWithBuffer s))"
| "stru_perform heap ws mb ex (CallSetLen n) s = map_option snd (SetLen n s)"
| "stru_perform heap ws mb ex CallTrim s = Trim ws s"
| "stru_perform heap ws mb ex (CallSafeVsnwprintf p) s = map_option snd (SafeVsnwprintf heap p s)"
| "stru_perform heap ws mb ex (CallCopyAndExpand x) s = map_option snd (CopyAndExpandEnvironmentStrings heap ex x s)"
| "stru_perform heap ws mb ex (CallExpand x) s = map_option snd (ExpandEnvironmentVariables heap ex (Some x) s)"

fun stru_calls :: "wheap \<Rightarrow> (WCHAR \<Rightarrow> bool) \<Rightarrow> code_page \<Rightarrow> (wstr \<Rightarrow> DWORD + wstr) \<Rightarrow> stru_call list \<Rightarrow>
    STRU \<Rightarrow> STRU option" where
  "stru_calls heap ws mb ex [] s = Some s"
| "stru_calls heap ws mb ex (c # cs) s = do { s' \<leftarrow> stru_perform heap ws mb ex c s; stru_calls heap ws mb ex cs s' }"

lemma AuxAppendA_None [simp]: "AuxAppendA heap mb None k s = Some (E_INVALIDARG, s)"
  by (simp add: AuxAppendA_def)

lemma stru_perform_inv:
  assumes "stru_ok heap s" "code_page_ok mb" "expand_ok ex" "call_ok c"
  shows "returns (stru_perform heap ws mb ex c s) (stru_ok heap)"
proof -
  have inv: "stru_inv s" "heap_ok 2 heap" using assms(1) by (simp_all add: stru_ok_def)
  note buf = stru_inv_buffer [OF inv(1)]
  have ne: "QueryStr s \<noteq> []" using stru_invD(3) [OF inv(1)] by auto
  have nul: "0 \<in> set (QueryStr s)" using stru_invD(3,4) [OF inv(1)] by (metis nth_mem)
  have weaken: "returns r (\<lambda>(hr, s'). stru_ok heap s' \<and> P hr s') \<Longrightarrow> returns (map_option snd r) (stru_ok heap)"
    for r :: "(HRESULT \<times> STRU) option" and P by (auto elim!: returns_mono)
  show ?thesis
  proof (cases c)
    case (CallCopy x)
    then show ?thesis using weaken [OF stru.copy_law [OF assms(1)]] assms(4) by simp
  next
    case (CallAppend x)
    then show ?thesis using weaken [OF stru.append_law [OF assms(1)]] assms(4) by simp
  next
    case (CallCopyArray ps)
    have "returns (STRU_Reset s) (stru_ok heap)"
      using STRU_Reset_spec [OF buf ne] inv(2) by (auto simp: stru_ok_def elim!: returns_mono)
    then show ?thesis
      using CallCopyArray assms(4) weaken [OF AuxAppendArray_spec [of heap _ ps]]
      by (fastforce simp: STRU_CopyArray_def elim!: returns_mono)
  next
    case (CallAppendArray ps)
    then show ?thesis using weaken [OF AuxAppendArray_spec [OF assms(1), of ps]] assms(4)
      by (auto simp: STRU_AppendArray_def)
  next
    case (CallCopyA p)
    then show ?thesis
      using assms weaken [OF AuxAppendA_spec [OF assms(1,2), of 0]]
      by (cases p) (simp_all add: STRU_CopyA_def)
  next
    case (CallAppendA p)
    then show ?thesis
      using assms weaken [OF AuxAppendA_spec [OF assms(1,2), of "m_cchLen s"]] stru_invD(6) [OF inv(1)]
      by (cases p) (simp_all add: STRU_AppendA_def)
  next
    case CallReset
    then show ?thesis using STRU_Reset_spec [OF buf ne] inv(2) by (auto simp: stru_ok_def elim!: returns_mono)
  next
    case (CallResize n)
    then show ?thesis using STRU_Resize_inv(1) [OF inv, of n] assms(4) inv(2)
      by (cases "STRU_Resize heap n s") (simp add: stru_ok_def)
  next
    case CallSyncWithBuffer
    then show ?thesis using SyncWithBuffer_inv(1) [OF buf nul] inv(2) by (simp add: stru_ok_def)
  next
    case (CallSetLen n)
    then show ?thesis using SetLen_spec [OF inv(1), of n] inv(2)
      by (auto simp: stru_ok_def elim!: returns_mono)
  next
    case CallTrim
    then show ?thesis using Trim_inv [OF inv(1), of ws] inv(2)
      by (auto simp: stru_ok_def elim!: returns_mono)
  next
    case (CallSafeVsnwprintf p)
    then show ?thesis using weaken [OF SafeVsnwprintf_spec [OF assms(1), of p]] assms(4) by simp
  next
    case (CallCopyAndExpand x)
    then show ?thesis using weaken [OF CopyAndExpandEnvironmentStrings_spec [OF assms(1,3)]] by simp
  next
    case (CallExpand x)
    then show ?thesis using weaken [OF ExpandEnvironmentVariables_spec [OF assms(1,3)]] by simp
  qed
qed

text \<open>
  C8: whatever sequence of operations runs on a fresh string, with whatever the allocator, the
  code page and the environment return, no operation touches memory outside the buffer.
\<close>

theorem STRU_calls_safe:
  assumes "heap_ok 2 heap" "code_page_ok mb" "expand_ok ex" "\<forall>c \<in> set cs. call_ok c"
  shows "\<exists>s. stru_calls heap ws mb ex cs STRU_new = Some s \<and> stru_inv s"
proof -
  have "returns (stru_calls heap ws mb ex cs s) (stru_ok heap)" if "stru_ok heap s" for s
    using that assms(4)
  proof (induction cs arbitrary: s)
    case (Cons c cs)
    then show ?case
      using stru_perform_inv [OF Cons.prems(1) assms(2,3), of c ws] by (auto elim!: returns_mono)
  qed simp
  then show ?thesis using assms(1) by (auto simp: stru_ok_def returns_iff)
qed

text \<open>The parameters of the model can be as assumed.\<close>

definition zero_heap :: wheap where
  "zero_heap n = Some (replicate (n div 2) 0)"

definition latin1 :: code_page where
  "latin1 str n = (if str = [] \<or> n < length str then Inl ERROR_INSUFFICIENT_BUFFER else Inr (map ucast str))"

lemma zero_heap_ok [simp]: "heap_ok 2 zero_heap" "heap_total zero_heap"
  by (simp_all add: heap_ok_def heap_total_def zero_heap_def)

lemma latin1_ok [simp]: "code_page_ok latin1"
  by (simp add: code_page_ok_def latin1_def)

lemma STRU_calls_safe_witness:
  "\<exists>s. stru_calls zero_heap (\<lambda>c. c = 32) latin1 (\<lambda>src. Inr (L ''x''))
     [CallCopy (L '' ab ''), CallAppendA (Some [99]), CallTrim, CallExpand (L ''%TEMP%''), CallSetLen 0] STRU_new = Some s \<and> stru_inv s"
  by (rule STRU_calls_safe) (simp_all add: expand_ok_def)

lemma STRU_Append_spec:
  assumes "heap_ok 2 heap" "stru_inv s" "0 \<notin> set x"
  shows "returns (STRU_Append heap x s) (\<lambda>(hr, s'). stru_inv s' \<and>
    (if SUCCEEDED hr then str_text s' = str_text s @ x else s' = s) \<and>
    (2 * (length (str_text s @ x) + 1) \<le> MAXDWORD \<and> heap_total heap \<longrightarrow> SUCCEEDED hr))"
proof -
  have ok: "stru_ok heap s" using assms by (simp add: stru_ok_def)
  from stru.append_law [OF this assms(3)] obtain hr s' where
    r: "STRU_Append heap x s = Some (hr, s')" "stru_ok heap s'"
      "if SUCCEEDED hr then str_text s' = str_text s @ x else s' = s" by (auto elim: returnsE)
  have "SUCCEEDED hr" if "2 * (length (str_text s @ x) + 1) \<le> MAXDWORD" "heap_total heap"
    using that r(1) AuxAppend_spec [OF assms(2,1) order_refl, of x "[0]"] StringCchLengthW_nul_free [OF assms(3)]
      stru_invD(6) [OF assms(2)] length_str_text [OF assms(2)]
    by (auto simp: STRU_Append_def STRU_AppendN_def heap_total_def STRSAFE_MAX_CCH_def MAXDWORD_def mult.commute
        elim!: returnsE split: if_splits)
  with r show ?thesis by (simp add: stru_ok_def)
qed

lemma STRU_Copy_spec:
  assumes "heap_ok 2 heap" "stru_inv s" "0 \<notin> set x"
  shows "returns (STRU_Copy heap x s) (\<lambda>(hr, s'). stru_inv s' \<and>
    (if SUCCEEDED hr then str_text s' = x else s' = s) \<and>
    (2 * (length x + 1) \<le> MAXDWORD \<and> heap_total heap \<longrightarrow> SUCCEEDED hr))"
proof -
  have ok: "stru_ok heap s" using assms by (simp add: stru_ok_def)
  from stru.copy_law [OF this assms(3)] obtain hr s' where
    r: "STRU_Copy heap x s = Some (hr, s')" "stru_ok heap s'" "if SUCCEEDED hr then str_text s' = x else s' = s"
    by (auto elim: returnsE)
  have "SUCCEEDED hr" if "2 * (length x + 1) \<le> MAXDWORD" "heap_total heap"
    using that r(1) AuxAppend_spec [OF assms(2,1), of 0 x "[0]"] StringCchLengthW_nul_free [OF assms(3)]
    by (auto simp: STRU_Copy_def STRU_CopyN_def heap_total_def STRSAFE_MAX_CCH_def MAXDWORD_def mult.commute
        elim!: returnsE split: if_splits)
  with r show ?thesis by (simp add: stru_ok_def)
qed

text \<open>
  C20: \<open>Copy\<close> and \<open>Append\<close> either leave the string as it was and fail, or give exactly the copied
  or appended text; they do succeed when memory is available and the result fits a DWORD.
\<close>

theorem STRU_Append_correct:
  assumes "heap_ok 2 heap" "stru_inv s" "0 \<notin> set x"
  shows "returns (STRU_Append heap x s) (\<lambda>(hr, s'). stru_inv s' \<and>
    (if SUCCEEDED hr then str_text s' = str_text s @ x else s' = s) \<and>
    (2 * (length (str_text s @ x) + 1) \<le> MAXDWORD \<and> heap_total heap \<longrightarrow> SUCCEEDED hr))"
  by (rule STRU_Append_spec [OF assms])

lemma STRU_Append_correct_witness:
  "returns (STRU_Append zero_heap (L ''dotnet'') STRU_new) (\<lambda>(hr, s'). stru_inv s' \<and>
    (if SUCCEEDED hr then str_text s' = str_text STRU_new @ L ''dotnet'' else s' = STRU_new) \<and>
    (2 * (length (str_text STRU_new @ L ''dotnet'') + 1) \<le> MAXDWORD \<and> heap_total zero_heap \<longrightarrow> SUCCEEDED hr))"
  by (rule STRU_Append_correct) simp_all

text \<open>
  C21: \<open>Append\<close> of an array of strings is all or nothing and appends the concatenation; \<open>Copy\<close> of an
  array does the same on an empty string.
\<close>

theorem STRU_AppendArray_correct:
  assumes "heap_ok 2 heap" "stru_inv s" "\<forall>x. Some x \<in> set ps \<longrightarrow> 0 \<notin> set x"
  shows "returns (STRU_AppendArray heap ps s) (\<lambda>(hr, s'). stru_inv s' \<and>
    (if SUCCEEDED hr then None \<notin> set ps \<and> str_text s' = str_text s @ concat (map the ps) else s' = s) \<and>
    (None \<notin> set ps \<and> 2 * (length (str_text s @ concat (map the ps)) + 1) \<le> MAXDWORD \<and> heap_total heap
       \<longrightarrow> SUCCEEDED hr))"
proof -
  have "stru_ok heap s" "\<forall>p \<in> set ps. \<forall>x. p = Some x \<longrightarrow> 0 \<notin> set x" using assms by (auto simp: stru_ok_def)
  from AuxAppendArray_spec [OF this] show ?thesis
    unfolding STRU_AppendArray_def by (rule returns_mono) (auto simp: stru_ok_def)
qed

lemma STRU_AppendArray_correct_witness:
  "returns (STRU_AppendArray zero_heap [Some (L ''a''), Some (L ''/b'')] STRU_new) (\<lambda>(hr, s'). stru_inv s' \<and>
    (if SUCCEEDED hr then None \<notin> set [Some (L ''a''), Some (L ''/b'')] \<and>
       str_text s' = str_text STRU_new @ concat (map the [Some (L ''a''), Some (L ''/b'')]) else s' = STRU_new) \<and>
    (None \<notin> set [Some (L ''a''), Some (L ''/b'')] \<and>
     2 * (length (str_text STRU_new @ concat (map the [Some (L ''a''), Some (L ''/b'')])) + 1) \<le> MAXDWORD \<and>
     heap_total zero_heap \<longrightarrow> SUCCEEDED hr))"
  by (rule STRU_AppendArray_correct) auto

text \<open>
  C38: \<open>Trim\<close> removes exactly the leading and the trailing white space.
\<close>

theorem Trim_correct:
  assumes "stru_inv s" "0 \<notin> set (str_text s)"
  shows "\<exists>s'. Trim ws s = Some s' \<and> stru_inv s' \<and>
    str_text s' = dropWhile ws (rev (dropWhile ws (rev (str_text s))))"
  using Trim_spec [OF assms, of ws] by (auto simp: trimmed_def elim: returnsE)

lemma Trim_correct_witness:
  "\<exists>s'. Trim (\<lambda>c. c = 32) \<lparr>m_Buff = \<lparr>m_cbBuffer = 8, m_fHeapAllocated = True, m_pBuffer = [32, 97, 32, 0]\<rparr>, m_cchLen = 3\<rparr> = Some s' \<and>
    stru_inv s' \<and> str_text s' = dropWhile (\<lambda>c. c = 32) (rev (dropWhile (\<lambda>c. c = 32) (rev
      (str_text \<lparr>m_Buff = \<lparr>m_cbBuffer = 8, m_fHeapAllocated = True, m_pBuffer = [32, 97, 32, 0]\<rparr>, m_cchLen = 3\<rparr>))))"
  by (rule Trim_correct) (simp_all add: stru_inv_def buffer_inv_def MAXDWORD_def str_text_def numeral_3_eq_3)

text \<open>
  \<open>IndexOf\<close> of a character gives the first position at or after the start index, and -1 when
  there is none.
\<close>

theorem IndexOf_correct:
  assumes "stru_inv s" "0 \<notin> set (str_text s)" "c \<noteq> 0"
  shows "if \<exists>j. i \<le> j \<and> j < length (str_text s) \<and> str_text s ! j = c
    then \<exists>j. IndexOf s c i = int j \<and> i \<le> j \<and> j < length (str_text s) \<and> str_text s ! j = c \<and>
      (\<forall>k. i \<le> k \<and> k < j \<longrightarrow> str_text s ! k \<noteq> c)
    else IndexOf s c i = - 1"
proof -
  let ?r = "drop i (str_text s)" let ?n = "length (takeWhile (\<lambda>x. x \<noteq> c) ?r)"
  have mem: "c \<in> set ?r \<longleftrightarrow> (\<exists>j. i \<le> j \<and> j < length (str_text s) \<and> str_text s ! j = c)"
    by (rule in_set_drop_iff)
  note spec = IndexOf_spec [OF assms, of i]
  show ?thesis
  proof (cases "c \<in> set ?r")
    case False
    with spec have "IndexOf s c i = - 1" by (simp add: Let_def)
    with False mem show ?thesis by auto
  next
    case True
    then have n: "?n < length ?r" by (rule length_takeWhile_lt)
    then have "i + ?n < length (str_text s)" "str_text s ! (i + ?n) = c"
      using nth_length_takeWhile [OF n] by (simp_all add: add.commute)
    moreover have "str_text s ! k \<noteq> c" if "i \<le> k" "k < i + ?n" for k
      using nth_before_takeWhile [of "k - i" "\<lambda>x. x \<noteq> c" ?r] that n by simp
    moreover have "IndexOf s c i = int (i + ?n)" using spec True by (simp add: Let_def)
    ultimately have "\<exists>j. IndexOf s c i = int j \<and> i \<le> j \<and> j < length (str_text s) \<and> str_text s ! j = c \<and>
        (\<forall>k. i \<le> k \<and> k < j \<longrightarrow> str_text s ! k \<noteq> c)"
      by (intro exI [of _ "i + ?n"]) auto
    then show ?thesis using True mem by presburger
  qed
qed

lemma IndexOf_correct_witness:
  "if \<exists>j. 1 \<le> j \<and> j < length (str_text (STRU_init [46, 47, 46, 0]\<lparr>m_cchLen := 3\<rparr>)) \<and>
      str_text (STRU_init [46, 47, 46, 0]\<lparr>m_cchLen := 3\<rparr>) ! j = 46
    then \<exists>j. IndexOf (STRU_init [46, 47, 46, 0]\<lparr>m_cchLen := 3\<rparr>) 46 1 = int j \<and> 1 \<le> j \<and>
      j < length (str_text (STRU_init [46, 47, 46, 0]\<lparr>m_cchLen := 3\<rparr>)) \<and>
      str_text (STRU_init [46, 47, 46, 0]\<lparr>m_cchLen := 3\<rparr>) ! j = 46 \<and>
      (\<forall>k. 1 \<le> k \<and> k < j \<longrightarrow> str_text (STRU_init [46, 47, 46, 0]\<lparr>m_cchLen := 3\<rparr>) ! k \<noteq> 46)
    else IndexOf (STRU_init [46, 47, 46, 0]\<lparr>m_cchLen := 3\<rparr>) 46 1 = - 1"
  by (rule IndexOf_correct) (simp_all add: stru_inv_def buffer_inv_def MAXDWORD_def str_text_def STRU_init_def numeral_3_eq_3)

subsection \<open>Copying an empty narrow string\<close>

text \<open>
  \<open>CopyA\<close> of an empty string returns through the early exit of \<open>AuxAppendA\<close>: it reports success and
  leaves the previous text in place, unlike \<open>Copy\<close>.
\<close>

lemma STRU_CopyA_empty_keeps_text:
  "STRU_CopyA heap mb (Some []) s = Some (S_OK, s)"
  by (simp add: STRU_CopyA_def AuxAppendA_def)


end
