(* ===== verification/MultiSz.thy ===== *)
theory MultiSz
  imports StrBuf
begin

section \<open>Multi-strings (IISLib/multisz.cpp, multisza.cpp)\<close>

text \<open>
  A multi-string is a block holding NUL-terminated strings one after the other, ended by an empty
  string. \<open>MULTISZ\<close> and \<open>MULTISZA\<close> are the same code at two character widths; the model is
  written once, with \<open>cb\<close> for the size of a character in bytes (2 and 1). Offsets are in bytes as
  in the code; a result \<open>None\<close> is an access outside the block, the error code in a result is what
  \<open>GetLastError\<close> gives after a FALSE.
\<close>

subsection \<open>Representation\<close>

record 'c MULTISZ =
  mz_Buff :: "'c BUFFER_T"
  mz_cchLen :: nat
  mz_cStrings :: nat

definition INLINED_BUFFER_LEN :: nat where "INLINED_BUFFER_LEN = 32"
definition STR_SLOP :: nat where "STR_SLOP = 128"
definition MAXULONG :: nat where "MAXULONG = 4294967295"

definition ISWHITE :: "'c::len word \<Rightarrow> bool" where
  "ISWHITE ch \<longleftrightarrow> ch = 32 \<or> ch = 9 \<or> ch = 13"

abbreviation mz_str :: "'c MULTISZ \<Rightarrow> 'c list" where
  "mz_str M \<equiv> m_pBuffer (mz_Buff M)"

definition mz_set :: "'c MULTISZ \<Rightarrow> 'c list \<Rightarrow> 'c MULTISZ" where
  "mz_set M b = M\<lparr>mz_Buff := (mz_Buff M)\<lparr>m_pBuffer := b\<rparr>\<rparr>"

text \<open>\<open>CalcLength\<close>: the number of characters with the final NUL, and the number of strings.\<close>

function CalcLength_loop :: "'c::zero list \<Rightarrow> nat \<Rightarrow> nat \<Rightarrow> (nat \<times> nat) option" where
  "CalcLength_loop str count cchTotal =
     (case cstr str of
        None \<Rightarrow> None
      | Some s \<Rightarrow>
         if s = [] then Some (cchTotal, count)
         else CalcLength_loop (drop (Suc (length s)) str) (u32 (count + 1)) (u32 (cchTotal + length s + 1)))"
  by pat_completeness auto

lemma cstr_shorter: "cstr b = Some s \<Longrightarrow> length b - Suc (length s) < length b"
  by (cases b) auto

termination CalcLength_loop
  by (relation "measure (\<lambda>(str, _, _). length str)") (simp_all add: cstr_shorter)

declare CalcLength_loop.simps [simp del]

definition CalcLength :: "'c::zero list \<Rightarrow> (nat \<times> nat) option" where
  "CalcLength str = CalcLength_loop str 0 1"

subsection \<open>Operations\<close>

definition MULTISZ_Reset :: "'c::zero MULTISZ \<Rightarrow> 'c MULTISZ option" where
  "MULTISZ_Reset M = do {
     b \<leftarrow> store_at (mz_str M) 0 0;
     b' \<leftarrow> store_at b 1 0;
     Some ((mz_set M b')\<lparr>mz_cchLen := 2, mz_cStrings := 0\<rparr>)
   }"

text \<open>The default constructor over an inline block with some initial contents.\<close>

definition MULTISZ_new :: "nat \<Rightarrow> 'c::zero list \<Rightarrow> 'c MULTISZ option" where
  "MULTISZ_new cb inline =
     MULTISZ_Reset \<lparr>mz_Buff = \<lparr>m_cbBuffer = INLINED_BUFFER_LEN, m_fHeapAllocated = False, m_pBuffer = inline\<rparr>,
       mz_cchLen = 0, mz_cStrings = 0\<rparr>"

text \<open>The constructor over a caller's block, which does not call \<open>Reset\<close>.\<close>

definition MULTISZ_stack :: "nat \<Rightarrow> 'c list \<Rightarrow> 'c MULTISZ" where
  "MULTISZ_stack cb pbInit =
     \<lparr>mz_Buff = \<lparr>m_cbBuffer = u32 (cb * length pbInit), m_fHeapAllocated = False, m_pBuffer = pbInit\<rparr>,
      mz_cchLen = 0, mz_cStrings = 0\<rparr>"

definition mz_QueryCB :: "nat \<Rightarrow> 'c MULTISZ \<Rightarrow> nat" where
  "mz_QueryCB cb M = u32 (mz_cchLen M * cb)"

text \<open>The block of a live string in the caller's memory is \<open>pStr\<close>; its first \<open>cbStr\<close> bytes are appended.\<close>

definition MULTISZ_AuxAppend :: "nat \<Rightarrow> (nat \<Rightarrow> 'c::zero list option) \<Rightarrow> 'c list \<Rightarrow> nat \<Rightarrow> bool \<Rightarrow>
    'c MULTISZ \<Rightarrow> (DWORD option \<times> 'c MULTISZ) option" where
  "MULTISZ_AuxAppend cb heap pStr cbStr fAddSlop M =
     (let cbThis0 = mz_QueryCB cb M;
          cbThis = (if cbThis0 = 2 * cb then 0 else u32 (cbThis0 + 4294967296 - cb));
          cb64Required = u64 (cbThis + cbStr + 2 * cb)
      in if MAXULONG < cb64Required then Some (Some ERROR_ARITHMETIC_OVERFLOW, M)
         else
           let grow = m_cbBuffer (mz_Buff M) < u32 cb64Required;
               cb64AllocSize = u64 (cb64Required + (if fAddSlop then STR_SLOP else 0))
           in if grow \<and> MAXULONG < cb64AllocSize then Some (Some ERROR_ARITHMETIC_OVERFLOW, M)
              else
                let (ok, B) = (if grow then BUFFER_Resize cb heap (u32 cb64AllocSize) False (mz_Buff M)
                               else (True, mz_Buff M))
                in if \<not> ok then Some (Some ERROR_NOT_ENOUGH_MEMORY, M\<lparr>mz_Buff := B\<rparr>)
                   else if length pStr < cbStr div cb then None
                   else do {
                     b \<leftarrow> store_block (m_pBuffer B) (cbThis div cb) (take (cbStr div cb) pStr);
                     b1 \<leftarrow> store_at b ((cbThis + cbStr) div cb) 0;
                     b2 \<leftarrow> store_at b1 ((cbThis + cbStr) div cb + 1) 0;
                     (cchTotal, cStrings) \<leftarrow> CalcLength b2;
                     Some (None, \<lparr>mz_Buff = B\<lparr>m_pBuffer := b2\<rparr>, mz_cchLen = cchTotal, mz_cStrings = cStrings\<rparr>)
                   })"

definition MULTISZ_AppendN :: "nat \<Rightarrow> (nat \<Rightarrow> 'c::zero list option) \<Rightarrow> 'c list \<Rightarrow> nat \<Rightarrow> 'c MULTISZ \<Rightarrow>
    (DWORD option \<times> 'c MULTISZ) option" where
  "MULTISZ_AppendN cb heap pchInit cchLen M = MULTISZ_AuxAppend cb heap pchInit (u32 (cchLen * cb)) True M"

text \<open>The overload taking a NUL-terminated string, or NULL.\<close>

definition MULTISZ_Append :: "nat \<Rightarrow> (nat \<Rightarrow> 'c::zero list option) \<Rightarrow> 'c list option \<Rightarrow> 'c MULTISZ \<Rightarrow>
    (DWORD option \<times> 'c MULTISZ) option" where
  "MULTISZ_Append cb heap pchInit M =
     (case pchInit of
        None \<Rightarrow> Some (None, M)
      | Some x \<Rightarrow> MULTISZ_AuxAppend cb heap (x @ [0]) (u32 (u32 (length x) * cb)) True M)"

definition MULTISZ_Copy :: "nat \<Rightarrow> (nat \<Rightarrow> 'c::zero list option) \<Rightarrow> 'c MULTISZ \<Rightarrow> 'c MULTISZ \<Rightarrow>
    (DWORD option \<times> 'c MULTISZ) option" where
  "MULTISZ_Copy cb heap str M = do {
     M1 \<leftarrow> MULTISZ_Reset M;
     MULTISZ_AuxAppend cb heap (mz_str str) (mz_QueryCB cb str) False M1
   }"

text \<open>\<open>AuxInit\<close> from another multi-string's block; a failed allocation leaves the object as it was.\<close>

definition MULTISZ_AuxInit :: "nat \<Rightarrow> (nat \<Rightarrow> 'c::zero list option) \<Rightarrow> 'c list option \<Rightarrow> 'c MULTISZ \<Rightarrow>
    'c MULTISZ option" where
  "MULTISZ_AuxInit cb heap pInit M =
     (case pInit of
        None \<Rightarrow> MULTISZ_Reset M
      | Some p \<Rightarrow> do {
          (cchTotal, cStrings) \<leftarrow> CalcLength p;
          (let cbCopy = u32 (cchTotal * cb);
               (ok, B) = BUFFER_Resize cb heap cbCopy False (mz_Buff M)
           in if ok then do {
                b \<leftarrow> store_block (m_pBuffer B) 0 (take (cbCopy div cb) p);
                Some \<lparr>mz_Buff = B\<lparr>m_pBuffer := b\<rparr>, mz_cchLen = cbCopy div cb, mz_cStrings = cStrings\<rparr>
              }
              else Some (M\<lparr>mz_Buff := B\<rparr>))
        })"

definition MULTISZ_CopyToBuffer :: "'c MULTISZ \<Rightarrow> 'c list \<Rightarrow> nat \<Rightarrow> (DWORD option \<times> 'c list \<times> nat) option" where
  "MULTISZ_CopyToBuffer M lpszBuffer lpcch =
     (let cch = mz_cchLen M
      in if cch \<le> lpcch then
           if length (mz_str M) < cch then None
           else do {
             b \<leftarrow> store_block lpszBuffer 0 (take cch (mz_str M));
             Some (None, b, cch)
           }
         else Some (Some ERROR_INSUFFICIENT_BUFFER, lpszBuffer, cch))"

text \<open>The scans: \<open>same\<close> is \<open>wcscmp\<close> (equality) or \<open>_wcsicmp\<close>.\<close>

function Find_loop :: "('c::zero list \<Rightarrow> bool) \<Rightarrow> 'c list \<Rightarrow> bool option" where
  "Find_loop same b =
     (case cstr b of
        None \<Rightarrow> None
      | Some s \<Rightarrow>
         if s = [] then Some False
         else if same s then Some True
         else Find_loop same (drop (Suc (length s)) b))"
  by pat_completeness auto

termination Find_loop
  by (relation "measure (\<lambda>(_, b). length b)") (simp_all add: cstr_shorter)

declare Find_loop.simps [simp del]

definition FindString :: "'c::zero MULTISZ \<Rightarrow> 'c list \<Rightarrow> bool option" where
  "FindString M str = Find_loop (\<lambda>s. s = str) (mz_str M)"

definition FindStringNoCase :: "('c list \<Rightarrow> 'c list \<Rightarrow> bool) \<Rightarrow> 'c::zero MULTISZ \<Rightarrow> 'c list \<Rightarrow> bool option" where
  "FindStringNoCase icase M str = Find_loop (\<lambda>s. icase s str) (mz_str M)"

text \<open>\<open>First\<close> and \<open>Next\<close> return the rest of the block from a string on, or NULL at the end.\<close>

definition First :: "'c::zero list \<Rightarrow> 'c list option" where
  "First b = (if take 1 b = [0] then None else Some b)"

definition Next :: "'c::zero list \<Rightarrow> 'c list option option" where
  "Next cur = do { s \<leftarrow> cstr cur; Some (First (drop (Suc (length s)) cur)) }"

function Equals_loop :: "'c::zero list \<Rightarrow> 'c list \<Rightarrow> bool option" where
  "Equals_loop l r = do {
     s \<leftarrow> cstr l;
     t \<leftarrow> cstr r;
     (if s \<noteq> t then Some False
      else let l' = drop (Suc (length s)) l; r' = drop (Suc (length t)) r
           in case First l' of
                None \<Rightarrow> Some True
              | Some _ \<Rightarrow> Equals_loop l' r')
   }"
  by pat_completeness auto

termination Equals_loop
  by (relation "measure (\<lambda>(l, _). length l)") (simp_all add: cstr_shorter)

declare Equals_loop.simps [simp del]

definition MULTISZ_Equals :: "'c::zero MULTISZ \<Rightarrow> 'c MULTISZ \<Rightarrow> bool option" where
  "MULTISZ_Equals M R =
     (if mz_cStrings M \<noteq> mz_cStrings R then Some False
      else case First (mz_str M) of
             None \<Rightarrow> Some True
           | Some l \<Rightarrow> Equals_loop l (mz_str R))"

subsection \<open>Splitting a comma-delimited list\<close>

definition trim_entry :: "'c::len word list \<Rightarrow> 'c word list" where
  "trim_entry e = rev (dropWhile ISWHITE (rev (dropWhile ISWHITE e)))"

text \<open>The loop, on the text from \<open>pszCurrent\<close> on.\<close>

function split_loop :: "nat \<Rightarrow> (nat \<Rightarrow> 'c::len word list option) \<Rightarrow> bool \<Rightarrow> bool \<Rightarrow> 'c word list \<Rightarrow>
    'c word MULTISZ \<Rightarrow> (HRESULT \<times> 'c word MULTISZ) option" where
  "split_loop cb heap fTrimEntries fRemoveEmptyEntries cur M =
     (let pszNext = wcschr cur 44;
          raw = (case pszNext of None \<Rightarrow> cur | Some k \<Rightarrow> take k cur);
          entry = (if fTrimEntries then trim_entry raw else raw)
      in do {
        (err, M') \<leftarrow> (if entry \<noteq> [] \<or> \<not> fRemoveEmptyEntries
                      then MULTISZ_AppendN cb heap entry (length entry) M else Some (None, M));
        (case err of
           Some e \<Rightarrow> Some (HRESULT_FROM_WIN32 e, M')
         | None \<Rightarrow>
            (case pszNext of
               None \<Rightarrow> Some (S_OK, M')
             | Some k \<Rightarrow> if k < length cur
                         then split_loop cb heap fTrimEntries fRemoveEmptyEntries (drop (Suc k) cur) M'
                         else None))
      })"
  by pat_completeness auto

termination split_loop
  by (relation "measure (\<lambda>(_, _, _, _, cur, _). length cur)") auto

declare split_loop.simps [simp del]

definition SplitCommaDelimitedString_with :: "nat \<Rightarrow> (nat \<Rightarrow> 'c::len word list option) \<Rightarrow> 'c word list option \<Rightarrow>
    bool \<Rightarrow> bool \<Rightarrow> 'c word MULTISZ \<Rightarrow> (HRESULT \<times> 'c word MULTISZ) option" where
  "SplitCommaDelimitedString_with cb heap pszList fTrimEntries fRemoveEmptyEntries M =
     (case pszList of
        None \<Rightarrow> Some (HRESULT_FROM_WIN32 ERROR_INVALID_PARAMETER, M)
      | Some text \<Rightarrow> do {
          M1 \<leftarrow> MULTISZ_Reset M;
          split_loop cb heap fTrimEntries fRemoveEmptyEntries text M1
        })"

text \<open>The two instances.\<close>

definition SplitCommaDelimitedString :: "wheap \<Rightarrow> wstr option \<Rightarrow> bool \<Rightarrow> bool \<Rightarrow> WCHAR MULTISZ \<Rightarrow>
    (HRESULT \<times> WCHAR MULTISZ) option" where
  "SplitCommaDelimitedString = SplitCommaDelimitedString_with 2"

definition SplitCommaDelimitedStringA :: "(nat \<Rightarrow> ACHAR list option) \<Rightarrow> ACHAR list option \<Rightarrow> bool \<Rightarrow> bool \<Rightarrow>
    ACHAR MULTISZ \<Rightarrow> (HRESULT \<times> ACHAR MULTISZ) option" where
  "SplitCommaDelimitedStringA = SplitCommaDelimitedString_with 1"

definition MULTISZA_AuxAppend :: "(nat \<Rightarrow> ACHAR list option) \<Rightarrow> ACHAR list \<Rightarrow> nat \<Rightarrow> bool \<Rightarrow>
    ACHAR MULTISZ \<Rightarrow> (DWORD option \<times> ACHAR MULTISZ) option" where
  "MULTISZA_AuxAppend = MULTISZ_AuxAppend 1"

subsection \<open>The list of strings a block holds\<close>

definition msz_enc :: "'c::zero list list \<Rightarrow> 'c list" where
  "msz_enc ss = concat (map (\<lambda>s. s @ [0]) ss)"

definition msz_strings_ok :: "'c::zero list list \<Rightarrow> bool" where
  "msz_strings_ok ss \<longleftrightarrow> (\<forall>s \<in> set ss. s \<noteq> [] \<and> 0 \<notin> set s)"

lemma msz_enc_simps [simp]:
  "msz_enc [] = []" "msz_enc (s # ss) = s @ 0 # msz_enc ss" "msz_enc (ss @ ts) = msz_enc ss @ msz_enc ts"
  by (simp_all add: msz_enc_def)

lemma msz_strings_ok_simps [simp]:
  "msz_strings_ok []" "msz_strings_ok (s # ss) \<longleftrightarrow> s \<noteq> [] \<and> 0 \<notin> set s \<and> msz_strings_ok ss"
  "msz_strings_ok (ss @ ts) \<longleftrightarrow> msz_strings_ok ss \<and> msz_strings_ok ts"
  by (auto simp: msz_strings_ok_def)

lemma msz_enc_nonempty: "msz_strings_ok ss \<Longrightarrow> ss \<noteq> [] \<Longrightarrow> 2 \<le> length (msz_enc ss)"
  by (cases ss) (auto simp: neq_Nil_conv)

lemma cstr_at [simp]: "0 \<notin> set s \<Longrightarrow> cstr (s @ 0 # r) = Some s"
  by (rule cstr_nul_free)

lemma length_le_enc: "msz_strings_ok ss \<Longrightarrow> length ss \<le> length (msz_enc ss)"
  by (induction ss) auto

lemma CalcLength_loop_enc:
  assumes "msz_strings_ok ss" "cch + length (msz_enc ss) < 4294967296" "count + length ss < 4294967296"
  shows "CalcLength_loop (msz_enc ss @ 0 # r) count cch = Some (cch + length (msz_enc ss), count + length ss)"
  using assms
proof (induction ss arbitrary: count cch)
  case Nil
  then show ?case by (simp add: CalcLength_loop.simps)
next
  case (Cons s ss)
  then show ?case
    using Cons.IH [of "cch + length s + 1" "count + 1"] by (simp add: CalcLength_loop.simps [of "s @ _"])
qed

lemma CalcLength_enc:
  assumes "msz_strings_ok ss" "length (msz_enc ss) < 4294967295"
  shows "CalcLength (msz_enc ss @ 0 # r) = Some (length (msz_enc ss) + 1, length ss)"
  using CalcLength_loop_enc [of ss 1 0 r] assms length_le_enc [OF assms(1)] by (simp add: CalcLength_def)

lemma Find_loop_enc:
  "msz_strings_ok ss \<Longrightarrow> Find_loop same (msz_enc ss @ 0 # r) = Some (\<exists>s \<in> set ss. same s)"
  by (induction ss) (simp_all add: Find_loop.simps [of _ "_ @ _"] Find_loop.simps [of _ "0 # _"])

lemma First_enc: "msz_strings_ok ss \<Longrightarrow>
    First (msz_enc ss @ 0 # r) = (if ss = [] then None else Some (msz_enc ss @ 0 # r))"
  by (cases ss) (auto simp: First_def neq_Nil_conv)

lemma Equals_loop_enc:
  assumes "msz_strings_ok ss" "msz_strings_ok ts" "length ss = length ts" "ss \<noteq> []"
  shows "Equals_loop (msz_enc ss @ 0 # r) (msz_enc ts @ 0 # q) = Some (ss = ts)"
  using assms
proof (induction ss arbitrary: ts)
  case (Cons s ss)
  then obtain t us where ts: "ts = t # us" by (cases ts) auto
  with Cons First_enc [of ss r] Cons.IH [of us] show ?case
    by (cases "ss = []") (auto simp: Equals_loop.simps [of "s @ _"] Let_def)
qed simp

definition mz_inv :: "nat \<Rightarrow> 'c::zero MULTISZ \<Rightarrow> 'c list list \<Rightarrow> bool" where
  "mz_inv cb M ss \<longleftrightarrow> buffer_inv cb (mz_Buff M) \<and> 2 \<le> length (mz_str M) \<and> msz_strings_ok ss \<and>
     (\<exists>r. mz_str M = msz_enc ss @ 0 # r) \<and> mz_cStrings M = length ss \<and>
     (mz_cchLen M = length (msz_enc ss) + 1 \<or> ss = [] \<and> mz_cchLen M = 2)"

lemma MULTISZ_Reset_spec:
  assumes "buffer_inv cb (mz_Buff M)" "2 \<le> length (mz_str M)"
  shows "returns (MULTISZ_Reset M) (\<lambda>M'. mz_inv cb M' [])"
proof -
  obtain x y r where "mz_str M = x # y # r" using assms(2) by (auto simp: neq_Nil_conv Suc_le_length_iff numeral_2_eq_2)
  with assms show ?thesis
    by (simp add: MULTISZ_Reset_def mz_inv_def mz_set_def buffer_inv_def store_at_def)
qed

lemma mz_invD:
  assumes "mz_inv cb M ss" "0 < cb"
  shows "cb * (length (msz_enc ss) + 1) \<le> m_cbBuffer (mz_Buff M)" "m_cbBuffer (mz_Buff M) \<le> MAXDWORD"
    "length (mz_str M) = m_cbBuffer (mz_Buff M) div cb"
proof -
  have len: "length (mz_str M) = m_cbBuffer (mz_Buff M) div cb" using assms by (simp add: mz_inv_def buffer_inv_def)
  then show "length (mz_str M) = m_cbBuffer (mz_Buff M) div cb" .
  have "length (msz_enc ss) + 1 \<le> length (mz_str M)" using assms by (auto simp: mz_inv_def)
  then have "cb * (length (msz_enc ss) + 1) \<le> cb * (m_cbBuffer (mz_Buff M) div cb)"
    unfolding len by (rule mult_le_mono2)
  also have "\<dots> \<le> m_cbBuffer (mz_Buff M)" by simp
  finally show "cb * (length (msz_enc ss) + 1) \<le> m_cbBuffer (mz_Buff M)" .
  show "m_cbBuffer (mz_Buff M) \<le> MAXDWORD" using assms by (simp add: mz_inv_def buffer_inv_def)
qed

text \<open>The offset at which \<open>AuxAppend\<close> starts, however the empty state was reached.\<close>

lemma append_offset:
  assumes "mz_inv cb M ss" "cb \<in> {1, 2}"
  shows "(if mz_QueryCB cb M = 2 * cb then 0 else u32 (mz_QueryCB cb M + 4294967296 - cb)) = cb * length (msz_enc ss)"
proof (cases "ss = []")
  case True
  then have "mz_cchLen M = 1 \<or> mz_cchLen M = 2" using assms by (auto simp: mz_inv_def)
  with True assms(2) show ?thesis by (auto simp: mz_QueryCB_def u32_def)
next
  case False
  have le: "cb * (length (msz_enc ss) + 1) < 4294967296"
    using mz_invD(1,2) [OF assms(1)] assms(2) by (auto simp: MAXDWORD_def)
  have "mz_cchLen M = length (msz_enc ss) + 1" "2 \<le> length (msz_enc ss)"
    using assms(1) False msz_enc_nonempty [of ss] by (auto simp: mz_inv_def)
  with le assms(2) show ?thesis by (auto simp: mz_QueryCB_def u32_def)
qed

lemma MULTISZ_AuxAppend_spec:
  assumes "mz_inv cb M ss" "heap_ok cb heap" "cb \<in> {1, 2}" "0 \<notin> set x" "length x < 2147483648"
  shows "returns (MULTISZ_AuxAppend cb heap (x @ ys) (cb * length x) slop M) (\<lambda>(err, M').
    (if err = None then mz_inv cb M' (if x = [] then ss else ss @ [x]) else M' = M) \<and>
    err \<in> {None, Some ERROR_ARITHMETIC_OVERFLOW, Some ERROR_NOT_ENOUGH_MEMORY} \<and>
    (heap_total heap \<and> cb * (length (msz_enc ss) + length x + 2) + STR_SLOP \<le> MAXDWORD \<longrightarrow> err = None))"
proof -
  define k where "k = length (msz_enc ss)"
  define n where "n = cb * (k + length x + 2)"
  define a where "a = n + (if slop then STR_SLOP else 0)"
  have cb: "0 < cb" using assms(3) by auto
  note off = append_offset [OF assms(1,3), folded k_def]
  note D = mz_invD [OF assms(1) cb, folded k_def]
  have k: "cb * (k + 1) \<le> MAXDWORD" using D(1,2) by linarith
  then have n: "u64 (cb * k + cb * length x + 2 * cb) = n" "n < 9000000000"
    using assms(3,5) by (auto simp: n_def MAXDWORD_def)
  have a: "u64 a = a" "n \<le> a" "\<not> MAXULONG < n \<Longrightarrow> \<not> MAXULONG < a \<Longrightarrow> u32 n = n \<and> u32 a = a"
    using n(2) by (auto simp: a_def STR_SLOP_def MAXULONG_def)
  define grow where "grow \<longleftrightarrow> m_cbBuffer (mz_Buff M) < u32 n"
  have slop: "\<not> MAXULONG < n" "\<not> MAXULONG < a" if "n + STR_SLOP \<le> MAXDWORD"
    using that by (simp_all add: a_def MAXULONG_def MAXDWORD_def)
  consider (over) "MAXULONG < n \<or> grow \<and> MAXULONG < a" | (fit) "\<not> MAXULONG < n" "\<not> (grow \<and> MAXULONG < a)" by blast
  then show ?thesis
  proof cases
    case over
    then show ?thesis using slop
      unfolding MULTISZ_AuxAppend_def off Let_def n(1) a_def [symmetric] a(1) grow_def [symmetric]
      by (auto simp: n_def k_def)
  next
    case fit
    obtain ok B where B: "(if grow then BUFFER_Resize cb heap (u32 a) False (mz_Buff M) else (True, mz_Buff M)) = (ok, B)"
      by force
    have inv: "buffer_inv cb (mz_Buff M)" using assms(1) by (simp add: mz_inv_def)
    have BS: "buffer_inv cb B" "\<not> ok \<Longrightarrow> B = mz_Buff M" "ok \<Longrightarrow> n \<le> m_cbBuffer B"
      "take (length (mz_str M)) (m_pBuffer B) = mz_str M" "length (mz_str M) \<le> length (m_pBuffer B)"
      using BUFFER_Resize_spec [OF inv assms(2), of "u32 a" False ok B] B inv a fit
      by (auto simp: grow_def MAXULONG_def split: if_splits)
    show ?thesis
    proof (cases ok)
      case False
      have "grow" using B False by (auto split: if_splits)
      then have "\<not> (heap_total heap \<and> n + STR_SLOP \<le> MAXDWORD)"
        using BUFFER_Resize_ok [of "u32 a" heap cb False "mz_Buff M"] B False a(3) [OF fit(1)] fit
        by (auto simp: heap_total_def MAXULONG_def MAXDWORD_def)
      then show ?thesis using fit B False BS(2)
        unfolding MULTISZ_AuxAppend_def off Let_def n(1) a_def [symmetric] a(1) grow_def [symmetric]
        by (auto simp: n_def k_def)
    next
      case True
      have len: "length (m_pBuffer B) = m_cbBuffer B div cb" "k + length x + 2 \<le> m_cbBuffer B div cb"
        using BS(1,3) True cb by (simp_all add: buffer_inv_def n_def less_eq_div_iff_mult_less_eq mult.commute)
      have kb: "k < length (mz_str M)" "take k (mz_str M) = msz_enc ss"
        using assms(1) by (auto simp: mz_inv_def k_def)
      then have pre: "take k (m_pBuffer B) = msz_enc ss"
        using arg_cong [OF BS(4), of "take k"] by simp
      have d: "cb * k div cb = k" "cb * length x div cb = length x" "(cb * k + cb * length x) div cb = k + length x"
        using cb by (simp_all add: distrib_left [symmetric])
      let ?r = "drop (Suc (Suc (k + length x))) (m_pBuffer B)"
      have s1: "store_block (m_pBuffer B) k x = Some (msz_enc ss @ x @ drop (k + length x) (m_pBuffer B))"
        using len pre by simp
      have s2: "(msz_enc ss @ x @ drop (k + length x) (m_pBuffer B))[k + length x := 0, k + length x + 1 := 0] =
          msz_enc ss @ x @ 0 # 0 # ?r"
        using len update_two [of "k + length x" "msz_enc ss @ x @ drop (k + length x) (m_pBuffer B)" 0 0] k_def by simp
      obtain ss' r where ss': "ss' = (if x = [] then ss else ss @ [x])" "msz_enc ss @ x @ 0 # 0 # ?r = msz_enc ss' @ 0 # r"
        "msz_strings_ok ss'" "length (msz_enc ss') \<le> k + length x + 1"
        using assms(1,4) by (cases "x = []") (auto simp: mz_inv_def k_def)
      have "length (msz_enc ss') < 4294967295"
        using ss'(4) len BS(1) assms(3) by (auto simp: buffer_inv_def MAXDWORD_def)
      then have C: "CalcLength (msz_enc ss @ x @ 0 # 0 # ?r) = Some (length (msz_enc ss') + 1, length ss')"
        unfolding ss'(2) by (rule CalcLength_enc [OF ss'(3)])
      let ?M = "\<lparr>mz_Buff = B\<lparr>m_pBuffer := msz_enc ss @ x @ 0 # 0 # ?r\<rparr>, mz_cchLen = length (msz_enc ss') + 1, mz_cStrings = length ss'\<rparr>"
      have "MULTISZ_AuxAppend cb heap (x @ ys) (cb * length x) slop M = Some (None, ?M)"
        using fit True len C s1 s2 k_def
        unfolding MULTISZ_AuxAppend_def off Let_def n(1) a_def [symmetric] a(1) grow_def [symmetric] B d if_not_P [OF fit(2)]
        by simp
      moreover have "mz_inv cb ?M ss'"
      proof -
        have "length (msz_enc ss @ x @ 0 # 0 # ?r) = m_cbBuffer B div cb" using len k_def by simp
        moreover have "\<exists>r. msz_enc ss @ x @ 0 # 0 # ?r = msz_enc ss' @ 0 # r" using ss'(2) by blast
        ultimately show ?thesis using BS(1) len(2) ss'(3) by (simp add: mz_inv_def buffer_inv_def)
      qed
      ultimately show ?thesis using ss'(1) by simp
    qed
  qed
qed

subsection \<open>Splitting\<close>

text \<open>The reference: the entries between the separators.\<close>

fun split_on :: "'a \<Rightarrow> 'a list \<Rightarrow> 'a list list" where
  "split_on c [] = [[]]"
| "split_on c (x # xs) =
     (if x = c then [] # split_on c xs
      else case split_on c xs of [] \<Rightarrow> [[x]] | e # es \<Rightarrow> (x # e) # es)"

lemma split_on_nonempty: "split_on c xs \<noteq> []"
  by (induction xs) (auto split: list.splits)

lemma split_on_wcschr:
  "0 \<notin> set cur \<Longrightarrow> split_on c cur =
    (case wcschr cur c of None \<Rightarrow> [cur] | Some k \<Rightarrow> take k cur # split_on c (drop (Suc k) cur))"
  by (induction cur) (auto split: option.splits list.splits simp: split_on_nonempty)

lemma wcschr_less: "wcschr xs c = Some k \<Longrightarrow> k < length xs"
  by (induction xs arbitrary: k) (auto split: if_splits)

lemma set_trim_entry: "set (trim_entry e) \<subseteq> set e"
  unfolding trim_entry_def by (metis set_dropWhileD set_rev subsetI)

lemma length_trim_entry: "length (trim_entry e) \<le> length e"
  unfolding trim_entry_def
  by (metis length_dropWhile_le length_rev le_trans)

definition list_entries :: "bool \<Rightarrow> 'c::len word list \<Rightarrow> 'c word list list" where
  "list_entries fTrim text =
     filter (\<lambda>e. e \<noteq> []) (map (if fTrim then trim_entry else id) (split_on 44 text))"

lemma split_loop_spec:
  fixes cur :: "'c::len word list"
  assumes "mz_inv cb M ss" "heap_ok cb heap" "cb \<in> {1, 2}" "0 \<notin> set cur" "length cur < 2147483648"
  shows "returns (split_loop cb heap fTrim fRemove cur M) (\<lambda>(hr, M').
    (if SUCCEEDED hr then hr = S_OK \<and> mz_inv cb M' (ss @ list_entries fTrim cur)
     else \<exists>n. mz_inv cb M' (ss @ take n (list_entries fTrim cur))) \<and>
    (heap_total heap \<and> cb * (length (msz_enc ss) + length cur + 2) + STR_SLOP \<le> MAXDWORD \<longrightarrow> hr = S_OK))"
  using assms
proof (induction "length cur" arbitrary: cur M ss rule: less_induct)
  case less
  define raw where "raw = (case wcschr cur 44 of None \<Rightarrow> cur | Some k \<Rightarrow> take k cur)"
  define e where "e = (if fTrim then trim_entry raw else raw)"
  have raw: "set raw \<subseteq> set cur" "length raw \<le> length cur"
    by (auto simp: raw_def split: option.splits dest: in_set_takeD)
  have e: "0 \<notin> set e" "length e \<le> length raw"
    using raw less.prems(4) set_trim_entry [of raw] length_trim_entry [of raw] by (auto simp: e_def)
  have u: "u32 (length e * cb) = cb * length e"
    using e(2) raw(2) less.prems(3,5) by auto
  have entries: "list_entries fTrim cur = (if e = [] then [] else [e]) @
      (case wcschr cur 44 of None \<Rightarrow> [] | Some k \<Rightarrow> list_entries fTrim (drop (Suc k) cur))"
    using split_on_wcschr [OF less.prems(4), of 44]
    by (auto simp: list_entries_def e_def raw_def split: option.splits)
  let ?step = "if e \<noteq> [] \<or> \<not> fRemove then MULTISZ_AppendN cb heap e (length e) M else Some (None, M)"
  have "returns ?step (\<lambda>(err, M1). (if err = None then mz_inv cb M1 (ss @ (if e = [] then [] else [e])) else M1 = M) \<and>
      err \<in> {None, Some ERROR_ARITHMETIC_OVERFLOW, Some ERROR_NOT_ENOUGH_MEMORY} \<and>
      (heap_total heap \<and> cb * (length (msz_enc ss) + length e + 2) + STR_SLOP \<le> MAXDWORD \<longrightarrow> err = None))"
    using MULTISZ_AuxAppend_spec [OF less.prems(1-3) e(1), of "[]" True] e(2) raw(2) less.prems(1,5)
    by (auto simp: MULTISZ_AppendN_def u elim!: returns_mono split: if_splits)
  then obtain err M1 where step: "?step = Some (err, M1)"
    and s1: "if err = None then mz_inv cb M1 (ss @ (if e = [] then [] else [e])) else M1 = M"
      "err \<in> {None, Some ERROR_ARITHMETIC_OVERFLOW, Some ERROR_NOT_ENOUGH_MEMORY}"
      "heap_total heap \<and> cb * (length (msz_enc ss) + length e + 2) + STR_SLOP \<le> MAXDWORD \<longrightarrow> err = None"
    by (auto elim!: returnsE)
  have run: "split_loop cb heap fTrim fRemove cur M =
      (case err of Some x \<Rightarrow> Some (HRESULT_FROM_WIN32 x, M1)
       | None \<Rightarrow> (case wcschr cur 44 of None \<Rightarrow> Some (S_OK, M1)
         | Some k \<Rightarrow> if k < length cur then split_loop cb heap fTrim fRemove (drop (Suc k) cur) M1 else None))"
    by (subst split_loop.simps, unfold Let_def raw_def [symmetric] e_def [symmetric] step) simp
  show ?case
  proof (cases err)
    case (Some x)
    have "cb * (length (msz_enc ss) + length e + 2) \<le> cb * (length (msz_enc ss) + length cur + 2)"
      using e(2) raw(2) by (intro mult_le_mono2) simp
    then have "\<not> (heap_total heap \<and> cb * (length (msz_enc ss) + length cur + 2) + STR_SLOP \<le> MAXDWORD)"
      using s1(3) Some by (metis add_le_mono1 le_trans option.distinct(1))
    moreover have "\<exists>n. mz_inv cb M (ss @ take n (list_entries fTrim cur))"
      using less.prems(1) by (intro exI [of _ 0]) simp
    moreover have "FAILED (HRESULT_FROM_WIN32 x)" "M1 = M" using s1(1,2) Some by auto
    ultimately show ?thesis unfolding run Some option.case by auto
  next
    case None
    show ?thesis
    proof (cases "wcschr cur 44")
      case None
      with \<open>err = None\<close> s1(1) run entries show ?thesis by simp
    next
      case (Some k)
      then have k: "k < length cur" by (rule wcschr_less)
      have "length e \<le> k" using e(2) Some k by (simp add: raw_def)
      then have le: "cb * (length (msz_enc (ss @ (if e = [] then [] else [e]))) + length (drop (Suc k) cur) + 2)
          \<le> cb * (length (msz_enc ss) + length cur + 2)"
        using k by (intro mult_le_mono2) auto
      have "0 \<notin> set (drop (Suc k) cur)" "length (drop (Suc k) cur) < 2147483648" "length (drop (Suc k) cur) < length cur"
        using less.prems(4,5) k by (auto dest: in_set_dropD)
      note sub = this
      define ss1 where "ss1 = ss @ (if e = [] then [] else [e])"
      have "mz_inv cb M1 ss1" using s1(1) None by (simp add: ss1_def)
      from less.hyps [OF sub(3) this less.prems(2,3) sub(1,2)] obtain hr M2
        where r: "split_loop cb heap fTrim fRemove (drop (Suc k) cur) M1 = Some (hr, M2)"
        and P: "if SUCCEEDED hr then hr = S_OK \<and> mz_inv cb M2 (ss1 @ list_entries fTrim (drop (Suc k) cur))
          else \<exists>n. mz_inv cb M2 (ss1 @ take n (list_entries fTrim (drop (Suc k) cur)))"
        and fine: "heap_total heap \<and> cb * (length (msz_enc ss1) + length (drop (Suc k) cur) + 2) + STR_SLOP \<le> MAXDWORD \<longrightarrow> hr = S_OK"
        by (elim returnsE) (simp only: case_prod_beta, metis prod.collapse)
      have ok: "SUCCEEDED hr \<Longrightarrow> hr = S_OK \<and> mz_inv cb M2 (ss @ list_entries fTrim cur)"
        using P by (simp add: ss1_def entries Some)
      have bad: "FAILED hr \<Longrightarrow> \<exists>n. mz_inv cb M2 (ss @ (if e = [] then [] else [e]) @ take n (list_entries fTrim (drop (Suc k) cur)))"
        using P by (simp add: ss1_def)
      have "\<exists>n. mz_inv cb M2 (ss @ take n (list_entries fTrim cur))" if f: "FAILED hr"
      proof -
        obtain n where "mz_inv cb M2 (ss @ (if e = [] then [] else [e]) @ take n (list_entries fTrim (drop (Suc k) cur)))"
          using bad [OF f] by blast
        then have "mz_inv cb M2 (ss @ take (length (if e = [] then [] else [e]) + n) (list_entries fTrim cur))"
          by (simp add: entries Some)
        then show ?thesis by blast
      qed
      moreover have "hr = S_OK" if "heap_total heap" "cb * (length (msz_enc ss) + length cur + 2) + STR_SLOP \<le> MAXDWORD"
        using that le fine by (metis ss1_def add_le_mono1 le_trans)
      ultimately show ?thesis using ok unfolding run None option.case Some if_P [OF k] r by simp
    qed
  qed
qed

subsection \<open>Properties\<close>

lemma MULTISZ_Append_spec:
  assumes "mz_inv cb M ss" "heap_ok cb heap" "cb \<in> {1, 2}" "0 \<notin> set x" "length x < 2147483648"
  shows "returns (MULTISZ_Append cb heap (Some x) M) (\<lambda>(err, M').
    (if err = None then mz_inv cb M' (if x = [] then ss else ss @ [x]) else M' = M) \<and>
    (heap_total heap \<and> cb * (length (msz_enc ss) + length x + 2) + STR_SLOP \<le> MAXDWORD \<longrightarrow> err = None))"
proof -
  have u: "u32 (u32 (length x) * cb) = cb * length x" using assms(3,5) by auto
  show ?thesis
    using MULTISZ_AuxAppend_spec [OF assms, of "[0]" True]
    by (auto simp: MULTISZ_Append_def u elim!: returns_mono)
qed

text \<open>
  C27: \<open>Append\<close> on a multi-string, at both character widths, adds the string at the end of the list it
  holds (an empty string adds nothing), or fails and leaves it unchanged; it succeeds when memory
  is available and the size with its slop fits a DWORD. No store leaves the block.
\<close>

theorem MULTISZ_Append_correct:
  assumes "mz_inv cb M ss" "heap_ok cb heap" "cb \<in> {1, 2}" "0 \<notin> set x" "length x < 2147483648"
  shows "returns (MULTISZ_Append cb heap (Some x) M) (\<lambda>(err, M').
    (if err = None then mz_inv cb M' (if x = [] then ss else ss @ [x]) else M' = M) \<and>
    (heap_total heap \<and> cb * (length (msz_enc ss) + length x + 2) + STR_SLOP \<le> MAXDWORD \<longrightarrow> err = None))"
  by (rule MULTISZ_Append_spec [OF assms])

definition mz_sample :: "WCHAR MULTISZ" where
  "mz_sample = \<lparr>mz_Buff = \<lparr>m_cbBuffer = 8, m_fHeapAllocated = True, m_pBuffer = [97, 0, 0, 7]\<rparr>, mz_cchLen = 3, mz_cStrings = 1\<rparr>"

lemma mz_sample_inv: "mz_inv 2 mz_sample [[97]]"
  by (simp add: mz_inv_def mz_sample_def buffer_inv_def MAXDWORD_def)

lemma MULTISZ_Append_correct_witness:
  "returns (MULTISZ_Append 2 zero_heap (Some [98, 99]) mz_sample) (\<lambda>(err, M').
    (if err = None then mz_inv 2 M' (if [98, 99 :: WCHAR] = [] then [[97]] else [[97]] @ [[98, 99]]) else M' = mz_sample) \<and>
    (heap_total zero_heap \<and> 2 * (length (msz_enc [[97 :: WCHAR]]) + length [98, 99 :: WCHAR] + 2) + STR_SLOP \<le> MAXDWORD
      \<longrightarrow> err = None))"
  by (rule MULTISZ_Append_correct) (use mz_sample_inv in simp_all)

text \<open>
  Searching, comparing and exporting agree with the list of strings: \<open>FindString\<close> is membership,
  \<open>Equals\<close> is equality of the lists, \<open>CopyToBuffer\<close> writes the encoding when the buffer holds it.
\<close>

theorem MULTISZ_queries_correct:
  assumes "mz_inv cb M ss" "mz_inv cb R ts" "mz_cchLen M \<le> length buf"
  shows "FindString M x = Some (x \<in> set ss) \<and> FindStringNoCase icase M x = Some (\<exists>s \<in> set ss. icase s x) \<and>
    MULTISZ_Equals M R = Some (ss = ts) \<and>
    returns (MULTISZ_CopyToBuffer M buf n) (\<lambda>(err, b, cch). cch = mz_cchLen M \<and>
       (if mz_cchLen M \<le> n then err = None \<and> take (length (msz_enc ss) + 1) b = msz_enc ss @ [0] \<and> length b = length buf
        else err = Some ERROR_INSUFFICIENT_BUFFER \<and> b = buf))"
proof (intro conjI)
  obtain r where M: "mz_str M = msz_enc ss @ 0 # r" "msz_strings_ok ss" "mz_cStrings M = length ss" "2 \<le> length (mz_str M)"
    and len: "mz_cchLen M = length (msz_enc ss) + 1 \<or> ss = [] \<and> mz_cchLen M = 2"
    using assms(1) by (auto simp: mz_inv_def)
  obtain q where R: "mz_str R = msz_enc ts @ 0 # q" "msz_strings_ok ts" "mz_cStrings R = length ts"
    using assms(2) by (auto simp: mz_inv_def)
  show "FindString M x = Some (x \<in> set ss)" "FindStringNoCase icase M x = Some (\<exists>s \<in> set ss. icase s x)"
    using Find_loop_enc [OF M(2)] M(1) by (auto simp: FindString_def FindStringNoCase_def)
  show "MULTISZ_Equals M R = Some (ss = ts)"
    using First_enc [OF M(2), of r] Equals_loop_enc [OF M(2) R(2), of r q] M R
    by (cases "ss = []") (auto simp: MULTISZ_Equals_def)
  have "mz_cchLen M \<le> length (mz_str M)" using len M by auto
  moreover have "take (length (msz_enc ss) + 1) (take (mz_cchLen M) (mz_str M) @ z) = msz_enc ss @ [0]" for z
    using len M(1,4) by (auto simp: min_def)
  ultimately show "returns (MULTISZ_CopyToBuffer M buf n) (\<lambda>(err, b, cch). cch = mz_cchLen M \<and>
       (if mz_cchLen M \<le> n then err = None \<and> take (length (msz_enc ss) + 1) b = msz_enc ss @ [0] \<and> length b = length buf
        else err = Some ERROR_INSUFFICIENT_BUFFER \<and> b = buf))"
    using assms(3) by (simp add: MULTISZ_CopyToBuffer_def Let_def)
qed

lemma MULTISZ_queries_correct_witness:
  "FindString mz_sample [98] = Some ([98 :: WCHAR] \<in> set [[97]]) \<and>
    FindStringNoCase (\<lambda>a b. length a = length b) mz_sample [98] = Some (\<exists>s \<in> set [[97 :: WCHAR]]. length s = length [98 :: WCHAR]) \<and>
    MULTISZ_Equals mz_sample mz_sample = Some ([[97 :: WCHAR]] = [[97]]) \<and>
    returns (MULTISZ_CopyToBuffer mz_sample [1, 2, 3, 4] 4) (\<lambda>(err, b, cch). cch = mz_cchLen mz_sample \<and>
       (if mz_cchLen mz_sample \<le> 4 then err = None \<and>
          take (length (msz_enc [[97 :: WCHAR]]) + 1) b = msz_enc [[97]] @ [0] \<and> length b = length [1, 2, 3, 4 :: WCHAR]
        else err = Some ERROR_INSUFFICIENT_BUFFER \<and> b = [1, 2, 3, 4]))"
  by (rule MULTISZ_queries_correct [OF mz_sample_inv mz_sample_inv]) (simp add: mz_sample_def)

text \<open>
  C26: \<open>SplitCommaDelimitedString\<close> fills the multi-string with the non-empty (trimmed) entries between
  the commas, in order, or stops at an append that fails. \<open>fRemoveEmptyEntries\<close> makes no difference:
  appending an empty entry adds nothing, so empty entries are dropped in either case.
\<close>

theorem SplitCommaDelimitedString_correct:
  assumes "buffer_inv 2 (mz_Buff M)" "2 \<le> length (mz_str M)" "heap_ok 2 heap"
    and "0 \<notin> set text" "length text < 2147483648"
  shows "returns (SplitCommaDelimitedString heap (Some text) fTrim fRemove M) (\<lambda>(hr, M').
    (if SUCCEEDED hr then mz_inv 2 M' (list_entries fTrim text)
     else \<exists>n. mz_inv 2 M' (take n (list_entries fTrim text))) \<and>
    (heap_total heap \<and> 2 * (length text + 2) + STR_SLOP \<le> MAXDWORD \<longrightarrow> SUCCEEDED hr))"
proof -
  obtain M1 where M1: "MULTISZ_Reset M = Some M1" "mz_inv 2 M1 []"
    using MULTISZ_Reset_spec [OF assms(1,2)] by (auto elim: returnsE)
  show ?thesis
    using split_loop_spec [OF M1(2) assms(3) _ assms(4,5), of fTrim fRemove] M1(1)
    by (auto simp: SplitCommaDelimitedString_def SplitCommaDelimitedString_with_def elim!: returns_mono split: if_splits)
qed

lemma SplitCommaDelimitedString_correct_witness:
  "returns (SplitCommaDelimitedString zero_heap (Some (L ''a,, b'')) True False mz_sample) (\<lambda>(hr, M').
    (if SUCCEEDED hr then mz_inv 2 M' (list_entries True (L ''a,, b''))
     else \<exists>n. mz_inv 2 M' (take n (list_entries True (L ''a,, b'')))) \<and>
    (heap_total zero_heap \<and> 2 * (length (L ''a,, b'') + 2) + STR_SLOP \<le> MAXDWORD \<longrightarrow> SUCCEEDED hr))"
  by (rule SplitCommaDelimitedString_correct) (simp_all add: mz_sample_def buffer_inv_def MAXDWORD_def)

text \<open>
  A multi-string built over a caller's block (\<open>STACK_MULTISZ\<close>) and not reset first is unusable: the
  cached length 0 makes the start offset wrap around, and every append fails with
  \<open>ERROR_ARITHMETIC_OVERFLOW\<close>.
\<close>

theorem STACK_MULTISZ_append_fails:
  "length x < 2000000000 \<Longrightarrow> MULTISZ_Append 2 heap (Some x) (MULTISZ_stack 2 (pbInit :: wstr)) =
    Some (Some ERROR_ARITHMETIC_OVERFLOW, MULTISZ_stack 2 pbInit)"
  by (simp add: MULTISZ_Append_def MULTISZ_AuxAppend_def MULTISZ_stack_def mz_QueryCB_def MAXULONG_def Let_def)

lemma STACK_MULTISZ_append_fails_witness:
  "MULTISZ_Append 2 zero_heap (Some (L ''PATH'')) (MULTISZ_stack 2 (replicate 64 0 :: wstr)) =
    Some (Some ERROR_ARITHMETIC_OVERFLOW, MULTISZ_stack 2 (replicate 64 0))"
  by (rule STACK_MULTISZ_append_fails) simp

end
