(* ===== verification/HashFn.thy ===== *)
theory HashFn
  imports IIS_Prelude
begin

section \<open>Hash functions and primes (IISLib/hashfn.h, prime.h)\<close>

text \<open>
  The string hashes over 32-bit arithmetic and the bucket counts of the hash tables. A
  NUL-terminated string is the list of its characters without the terminator; the overloads
  that take a length read the first \<open>cch\<close> characters of a block and fault beyond it.
\<close>

subsection \<open>Scalar hashes\<close>

definition HASH_MULTIPLIER :: DWORD where "HASH_MULTIPLIER = 101"

definition HASH_MULTIPLY :: "DWORD \<Rightarrow> DWORD" where
  "HASH_MULTIPLY dw = dw * HASH_MULTIPLIER"

definition HashScramble :: "DWORD \<Rightarrow> DWORD" where
  "HashScramble dwHash = (314159269 * dwHash) mod 1000000007"

definition HashRandomizeBits :: "DWORD \<Rightarrow> DWORD" where
  "HashRandomizeBits dw =
     drop_bit 16 (dw * 1103515245 + 12345) OR ((dw * 69069 + 1) AND 0xffff0000)"

subsection \<open>String hashes\<close>

text \<open>One loop serves the narrow and the wide overloads; characters are zero-extended.\<close>

fun hash_chars :: "('c::len word \<Rightarrow> 'c word) \<Rightarrow> 'c word list \<Rightarrow> DWORD \<Rightarrow> DWORD" where
  "hash_chars f [] dwHash = dwHash"
| "hash_chars f (c # cs) dwHash = hash_chars f cs (HASH_MULTIPLY dwHash + ucast (f c))"

definition hash_block :: "('c::len word \<Rightarrow> 'c word) \<Rightarrow> 'c word list \<Rightarrow> nat \<Rightarrow> DWORD \<Rightarrow> DWORD option" where
  "hash_block f b cch dwHash = (if cch \<le> length b then Some (hash_chars f (take cch b) dwHash) else None)"

definition HashStringA :: "ACHAR list \<Rightarrow> DWORD \<Rightarrow> DWORD" where
  "HashStringA = hash_chars id"

definition HashStringNA :: "ACHAR list \<Rightarrow> nat \<Rightarrow> DWORD \<Rightarrow> DWORD option" where
  "HashStringNA = hash_block id"

definition HashString :: "wstr \<Rightarrow> DWORD \<Rightarrow> DWORD" where
  "HashString = hash_chars id"

definition HashStringN :: "wstr \<Rightarrow> nat \<Rightarrow> DWORD \<Rightarrow> DWORD option" where
  "HashStringN = hash_block id"

definition HashStringNoCaseA :: "ACHAR list \<Rightarrow> DWORD \<Rightarrow> DWORD" where
  "HashStringNoCaseA = hash_chars (\<lambda>c. c AND 0xDF)"

definition HashStringNoCaseNA :: "ACHAR list \<Rightarrow> nat \<Rightarrow> DWORD \<Rightarrow> DWORD option" where
  "HashStringNoCaseNA = hash_block (\<lambda>c. c AND 0xDF)"

definition HashStringNoCase :: "wstr \<Rightarrow> DWORD \<Rightarrow> DWORD" where
  "HashStringNoCase = hash_chars (\<lambda>c. c AND 0xFFDF)"

definition HashStringNoCaseN :: "wstr \<Rightarrow> nat \<Rightarrow> DWORD \<Rightarrow> DWORD option" where
  "HashStringNoCaseN = hash_block (\<lambda>c. c AND 0xFFDF)"

definition HashBlob :: "BYTE list \<Rightarrow> nat \<Rightarrow> DWORD \<Rightarrow> DWORD option" where
  "HashBlob = hash_block id"

subsection \<open>Primes\<close>

definition g_Primes :: "nat list" where
  "g_Primes =
     [3, 7, 11, 17, 23, 29, 37, 47, 59, 71, 89, 107, 131, 163, 197, 239, 293, 353, 431, 521, 631,
      761, 919, 1103, 1327, 1597, 1931, 2333, 2801, 3371, 4049, 4861, 5839, 7013, 8419, 10103,
      12143, 14591, 17519, 21023, 25229, 30293, 36353, 43627, 52361, 62851, 75431, 90523, 108631,
      130363, 156437, 187751, 225307, 270371, 324449, 389357, 467237, 560689, 672827, 807403,
      968897, 1162687, 1395263, 1674319, 2009191, 2411033, 2893249, 3471899, 4166287, 4999559,
      5999471, 7199369, 7849369, 8649369, 9249369, 10049369]"

text \<open>
  The trial division runs to \<open>dwMax\<close>, the integer part of the square root; for a DWORD the
  conversion to \<open>double\<close> is exact and \<open>Index \<le> dwMax\<close> says that the square of \<open>Index\<close> is at most the
  candidate. The numbers stay below \<open>2 ^ 32\<close>: the loops never reach a wrap-around.
\<close>

function no_divisor_from :: "nat \<Rightarrow> nat \<Rightarrow> bool" where
  "no_divisor_from n i =
     (if n < i * i then True
      else if n mod i = 0 then False
      else no_divisor_from n (i + 2))"
  by pat_completeness auto

termination no_divisor_from
proof (relation "measure (\<lambda>(n, i). n + 1 - i)", goal_cases)
  case (2 n i)
  then have "i \<le> n" by (metis le_trans linorder_not_less le_square)
  then show ?case by simp
qed simp

declare no_divisor_from.simps [simp del]

definition IsPrime :: "nat \<Rightarrow> bool" where
  "IsPrime dwCandidate =
     (if even dwCandidate then dwCandidate = 2 else no_divisor_from dwCandidate 3)"

function search_prime :: "nat \<Rightarrow> nat \<Rightarrow> nat" where
  "search_prime dwMinimum dwCandidate =
     (if dwCandidate < MAXDWORD then
        if IsPrime dwCandidate then dwCandidate else search_prime dwMinimum (dwCandidate + 2)
      else dwMinimum)"
  by pat_completeness auto

termination search_prime
  by (relation "measure (\<lambda>(m, c). MAXDWORD - c)") auto

declare search_prime.simps [simp del]

definition GetPrime :: "nat \<Rightarrow> nat" where
  "GetPrime dwMinimum =
     (case List.find (\<lambda>dwCandidate. dwMinimum \<le> dwCandidate) g_Primes of
        Some dwCandidate \<Rightarrow> dwCandidate
      | None \<Rightarrow> search_prime dwMinimum (if even dwMinimum then dwMinimum + 1 else dwMinimum))"

subsection \<open>The case-insensitive hash\<close>

text \<open>\<open>_wcsicmp\<close> in the C locale, in which only the letters A to Z have another case.\<close>

definition wlower :: "WCHAR \<Rightarrow> WCHAR" where
  "wlower c = (if 65 \<le> c \<and> c \<le> 90 then c + 32 else c)"

definition wcsicmp_equal :: "wstr \<Rightarrow> wstr \<Rightarrow> bool" where
  "wcsicmp_equal a b \<longleftrightarrow> map wlower a = map wlower b"

lemma hash_chars_map: "hash_chars f cs h = hash_chars id (map f cs) h"
  by (induction cs arbitrary: h) auto

lemma wlower_mask: "wlower c AND 0xFFDF = c AND 0xFFDF"
proof (cases "65 \<le> c \<and> c \<le> 90")
  case True
  then obtain n where n: "c = word_of_nat n" "65 \<le> n" "n \<le> 90"
    by (intro that [of "unat c"]) (simp_all add: word_le_nat_alt)
  have all: "\<forall>n \<in> set [65..<91]. ((word_of_nat n :: WCHAR) + 32) AND 0xFFDF = word_of_nat n AND 0xFFDF"
    by code_simp
  have "n \<in> set [65..<91]" using n by (simp only: set_upt atLeastLessThan_iff) simp
  with all n(1) have "c + 32 AND 0xFFDF = c AND 0xFFDF" by blast
  then show ?thesis using True by (simp add: wlower_def)
qed (auto simp: wlower_def)

lemma HashStringNoCase_equal:
  assumes "wcsicmp_equal a b"
  shows "HashStringNoCase a h = HashStringNoCase b h"
proof -
  have "map (\<lambda>c. c AND 0xFFDF) a = map (\<lambda>c. wlower c AND 0xFFDF) a"
    by (simp add: wlower_mask)
  also have "\<dots> = map (\<lambda>c. c AND 0xFFDF) (map wlower a)" by simp
  also have "\<dots> = map (\<lambda>c. c AND 0xFFDF) (map wlower b)"
    using assms by (simp only: wcsicmp_equal_def)
  also have "\<dots> = map (\<lambda>c. c AND 0xFFDF) b"
    by (simp add: wlower_mask)
  finally show ?thesis
    unfolding HashStringNoCase_def by (metis hash_chars_map)
qed

subsection \<open>What the primes table and the search give\<close>

lemma find_least:
  assumes "List.find (\<lambda>c. m \<le> c) xs = Some c"
  shows "m \<le> c" "c \<in> set xs"
  using assms by (auto simp: find_Some_iff)

lemma no_divisor_from_spec:
  assumes "no_divisor_from n i" "odd n" "odd i" "i \<le> d" "d dvd n" "odd d" "d * d \<le> n"
  shows False
  using assms
proof (induction n i rule: no_divisor_from.induct)
  case (1 n i)
  show ?case
  proof (cases "d = i")
    case True
    with 1 show ?thesis by (subst (asm) no_divisor_from.simps) (auto split: if_splits)
  next
    case False
    then have "i + 2 \<le> d" using 1(4,5,7) by presburger
    moreover have "\<not> n < i * i" using 1(5,8) by (meson le_trans mult_le_mono not_le)
    moreover have "no_divisor_from n (i + 2)" "n mod i \<noteq> 0"
      using 1(2) \<open>\<not> n < i * i\<close> by (subst (asm) no_divisor_from.simps, auto split: if_splits)+
    ultimately show ?thesis using 1 by auto
  qed
qed

text \<open>A number without a divisor up to its square root has none but itself and 1.\<close>

lemma IsPrime_sound:
  assumes "IsPrime n" "3 \<le> n" "d dvd n"
  shows "d = 1 \<or> d = n"
proof (rule ccontr)
  assume "\<not> ?thesis"
  then have d: "d \<noteq> 1" "d \<noteq> n" by auto
  have odd: "odd n" using assms(1,2) by (auto simp: IsPrime_def)
  then have nd: "no_divisor_from n 3" using assms(1) by (simp add: IsPrime_def)
  obtain e where e: "n = d * e" using assms(3) by blast
  have de: "odd d" "odd e" using odd e by auto
  have "e \<noteq> 1" using d e by auto
  then have "3 \<le> d" "3 \<le> e" using d de by (auto elim!: oddE)
  show False
  proof (cases "d * d \<le> n")
    case True
    with nd odd de \<open>3 \<le> d\<close> assms(3) no_divisor_from_spec [of n 3 d] show False by auto
  next
    case False
    then have "e < d" using e by (metis leI mult_le_mono2)
    then have "e * e \<le> n" using e by simp
    moreover have "e dvd n" using e by simp
    ultimately show False using nd odd de \<open>3 \<le> e\<close> no_divisor_from_spec [of n 3 e] by auto
  qed
qed

lemma search_prime_spec:
  assumes "search_prime m c = r" "m \<le> c" "3 \<le> c"
  shows "m \<le> r \<and> (r = m \<or> (\<forall>d. d dvd r \<longrightarrow> d = 1 \<or> d = r))"
  using assms
proof (induction m c rule: search_prime.induct)
  case (1 m c)
  show ?case
  proof (cases "c < MAXDWORD")
    case True
    show ?thesis
    proof (cases "IsPrime c")
      case True
      with \<open>c < MAXDWORD\<close> 1(2) have "r = c" by (simp add: search_prime.simps)
      with True 1(3,4) IsPrime_sound [of c] show ?thesis by auto
    next
      case False
      with \<open>c < MAXDWORD\<close> 1 show ?thesis by (simp add: search_prime.simps [of m c])
    qed
  next
    case False
    with 1(2) show ?thesis by (simp add: search_prime.simps)
  qed
qed

lemma GetPrime_ge: "m \<le> GetPrime m"
proof (cases "List.find (\<lambda>c. m \<le> c) g_Primes")
  case (Some c)
  with find_least [OF Some] show ?thesis by (simp add: GetPrime_def)
next
  case None
  moreover have "10049369 \<in> set g_Primes" by (simp add: g_Primes_def)
  ultimately have "10049369 < m" by (auto simp: find_None_iff not_le)
  with search_prime_spec [OF refl, of m "if even m then m + 1 else m"] None show ?thesis
    by (simp add: GetPrime_def split: if_splits)
qed

lemma GetPrime_pos: "0 < GetPrime m"
  using GetPrime_ge [of m] by (cases "m = 0") (simp_all add: GetPrime_def g_Primes_def)

definition prime_number :: "nat \<Rightarrow> bool" where
  "prime_number p \<longleftrightarrow> 1 < p \<and> (\<forall>d. d dvd p \<longrightarrow> d = 1 \<or> d = p)"

lemma no_divisor_from_complete:
  assumes "\<And>d. i \<le> d \<Longrightarrow> d dvd n \<Longrightarrow> d * d \<le> n \<Longrightarrow> False"
  shows "no_divisor_from n i"
  using assms
proof (induction n i rule: no_divisor_from.induct)
  case (1 n i)
  show ?case
  proof (cases "n < i * i")
    case False
    have "n mod i \<noteq> 0" using 1(2) [of i] False by (auto simp: mod_eq_0_iff_dvd)
    moreover have "no_divisor_from n (i + 2)" using 1(1) [OF False calculation] 1(2) by (meson add_leD1)
    ultimately show ?thesis by (subst no_divisor_from.simps) simp
  qed (subst no_divisor_from.simps, simp)
qed

text \<open>Among the odd numbers from 3 on, \<open>IsPrime\<close> accepts exactly the primes.\<close>

lemma IsPrime_iff:
  assumes "3 \<le> n" "odd n"
  shows "IsPrime n = prime_number n"
proof
  assume "IsPrime n"
  then show "prime_number n" using IsPrime_sound [OF _ assms(1)] assms(1) by (auto simp: prime_number_def)
next
  assume p: "prime_number n"
  have "False" if d: "3 \<le> d" "d dvd n" "d * d \<le> n" for d
  proof -
    have "d = n" using p d(1,2) by (auto simp: prime_number_def)
    then show False using d(1,3) by simp
  qed
  then have "no_divisor_from n 3" by (rule no_divisor_from_complete)
  then show "IsPrime n" using assms(2) by (simp add: IsPrime_def)
qed

lemma prime_number_odd:
  assumes "prime_number p" "3 \<le> p"
  shows "odd p"
proof
  assume "even p"
  then have "2 = p" using assms by (fastforce simp: prime_number_def)
  then show False using assms(2) by simp
qed

text \<open>The search gives the least prime from the first candidate on, below \<open>MAXDWORD\<close>.\<close>

lemma search_prime_least:
  assumes "odd c" "3 \<le> c"
  shows "if \<exists>p. c \<le> p \<and> p < MAXDWORD \<and> prime_number p
    then prime_number (search_prime m c) \<and> c \<le> search_prime m c \<and> (\<forall>p. c \<le> p \<and> prime_number p \<longrightarrow> search_prime m c \<le> p)
    else search_prime m c = m"
  using assms
proof (induction m c rule: search_prime.induct)
  case (1 m c)
  note P = IsPrime_iff [OF 1(3,2)]
  show ?case
  proof (cases "c < MAXDWORD \<and> \<not> prime_number c")
    case True
    have odd: "p \<noteq> Suc c" if "prime_number p" for p using prime_number_odd [OF that] 1(2,3) by auto
    have step: "(c \<le> p \<and> prime_number p) = (c + 2 \<le> p \<and> prime_number p)" for p
    proof
      assume a: "c \<le> p \<and> prime_number p"
      then have "p \<noteq> c" "p \<noteq> Suc c" using True odd by auto
      then show "c + 2 \<le> p \<and> prime_number p" using a by linarith
    qed simp
    have run: "search_prime m c = search_prime m (c + 2)" using True P by (simp add: search_prime.simps [of m c])
    have iff: "(\<exists>p. c \<le> p \<and> p < MAXDWORD \<and> prime_number p) = (\<exists>p. c + 2 \<le> p \<and> p < MAXDWORD \<and> prime_number p)"
      using step by blast
    have ih: "if \<exists>p. c + 2 \<le> p \<and> p < MAXDWORD \<and> prime_number p
      then prime_number (search_prime m (c + 2)) \<and> c + 2 \<le> search_prime m (c + 2) \<and> (\<forall>p. c + 2 \<le> p \<and> prime_number p \<longrightarrow> search_prime m (c + 2) \<le> p)
      else search_prime m (c + 2) = m"
      by (rule 1(1)) (use True P 1(2,3) in auto)
    show ?thesis
    proof (cases "\<exists>p. c + 2 \<le> p \<and> p < MAXDWORD \<and> prime_number p")
      case ex: True
      then show ?thesis unfolding run iff using ih step by (simp only: if_True) auto
    next
      case False
      then show ?thesis unfolding run iff using ih by (simp only: if_False)
    qed
  next
    case False
    then show ?thesis
    proof (cases "c < MAXDWORD")
      case True
      then have "search_prime m c = c" "prime_number c" using False P by (simp_all add: search_prime.simps [of m c])
      then show ?thesis using True by auto
    qed (auto simp: search_prime.simps [of m c])
  qed
qed

text \<open>The trial division on integers, for the evaluation of concrete cases.\<close>

function int_no_divisor :: "int \<Rightarrow> int \<Rightarrow> bool" where
  "int_no_divisor n i =
     (if i < 3 \<or> n < i * i then True else if n mod i = 0 then False else int_no_divisor n (i + 2))"
  by pat_completeness auto

termination
proof (relation "measure (\<lambda>(n, i). nat (n + 1 - i))", goal_cases)
  case (2 n i)
  then have "i * 1 \<le> i * i" by (intro mult_left_mono) auto
  then have "i \<le> n" using 2 by linarith
  then show ?case by simp
qed simp

declare int_no_divisor.simps [simp del]

lemma int_no_divisor_nat: "3 \<le> i \<Longrightarrow> int_no_divisor (int n) (int i) = no_divisor_from n i"
proof (induction n i rule: no_divisor_from.induct)
  case (1 n i)
  have a: "(int n < int i * int i) = (n < i * i)" by (simp flip: of_nat_mult)
  have b: "(int n mod int i = 0) = (n mod i = 0)" by (simp flip: zmod_int)
  have c: "int i + 2 = int (i + 2)" by simp
  show ?case unfolding int_no_divisor.simps [of "int n" "int i"] no_divisor_from.simps [of n i] a b c
    using 1 by auto
qed

text \<open>
  C39: \<open>GetPrime\<close> returns the least entry of the precomputed table that is not below the minimum, as long
  as there is one; beyond the table it returns the least prime from the minimum on that is below
  \<open>MAXDWORD\<close>, and the minimum itself when there is no such prime.
\<close>

theorem GetPrime_correct:
  "m \<le> GetPrime m \<and>
   (m \<le> 10049369 \<longrightarrow> GetPrime m \<in> set g_Primes \<and> (\<forall>c \<in> set g_Primes. m \<le> c \<longrightarrow> GetPrime m \<le> c)) \<and>
   (10049369 < m \<longrightarrow>
      (if \<exists>p. m \<le> p \<and> p < MAXDWORD \<and> prime_number p
       then prime_number (GetPrime m) \<and> (\<forall>p. m \<le> p \<and> prime_number p \<longrightarrow> GetPrime m \<le> p)
       else GetPrime m = m))"
proof (cases "List.find (\<lambda>c. m \<le> c) g_Primes")
  case (Some c)
  have max: "\<forall>c \<in> set g_Primes. c \<le> 10049369" by (simp add: g_Primes_def)
  have sorted: "sorted g_Primes" by (simp add: g_Primes_def)
  obtain i where i: "i < length g_Primes" "g_Primes ! i = c" "m \<le> c" "\<forall>j < i. \<not> m \<le> g_Primes ! j"
    using Some by (auto simp: find_Some_iff)
  have "c \<le> d" if d: "d \<in> set g_Primes" "m \<le> d" for d
  proof -
    obtain j where j: "j < length g_Primes" "g_Primes ! j = d" using d(1) by (auto simp: in_set_conv_nth)
    then have "i \<le> j" using i(4) d(2) not_le by blast
    then show ?thesis using sorted_nth_mono [OF sorted] i(2) j by metis
  qed
  moreover have "c \<in> set g_Primes" using i(1,2) by auto
  moreover have "\<not> 10049369 < m" using max i(3) calculation(2) by fastforce
  ultimately show ?thesis using Some i(3) by (simp add: GetPrime_def)
next
  case None
  moreover have "10049369 \<in> set g_Primes" by (simp add: g_Primes_def)
  ultimately have m: "10049369 < m" by (auto simp: find_None_iff not_le)
  let ?c = "if even m then m + 1 else m"
  have c: "odd ?c" "3 \<le> ?c" using m by auto
  have step: "(m \<le> p \<and> prime_number p) = (?c \<le> p \<and> prime_number p)" for p
    using prime_number_odd [of p] m by (cases "p = m") auto
  have iff: "(\<exists>p. m \<le> p \<and> p < MAXDWORD \<and> prime_number p) = (\<exists>p. ?c \<le> p \<and> p < MAXDWORD \<and> prime_number p)"
    using step by blast
  have run: "GetPrime m = search_prime m ?c" using None by (simp add: GetPrime_def)
  show ?thesis
    using search_prime_least [OF c, of m] m GetPrime_ge [of m] step unfolding iff run by (simp split: if_splits)
qed

lemma GetPrime_correct_witness:
  "GetPrime 10049390 = 10049393 \<and> prime_number (GetPrime 10049390)"
proof -
  have "int_no_divisor 10049393 3" by code_simp
  then have "IsPrime 10049393" using int_no_divisor_nat [of 3 10049393] by (simp add: IsPrime_def)
  then have p: "prime_number 10049393" by (simp add: IsPrime_iff)
  have "\<exists>p. 10049390 \<le> p \<and> p < MAXDWORD \<and> prime_number p" using p by (intro exI [of _ 10049393]) (simp add: MAXDWORD_def)
  then have g: "prime_number (GetPrime 10049390)" "GetPrime 10049390 \<le> 10049393" "10049390 \<le> GetPrime 10049390"
    using GetPrime_correct [of 10049390] p by auto
  have composite: "\<not> prime_number q" if "d dvd q" "d \<noteq> 1" "d \<noteq> q" for d q
    using that by (auto simp: prime_number_def)
  have "\<not> prime_number 10049390" by (rule composite [of 2]) simp_all
  moreover have "\<not> prime_number 10049391" by (rule composite [of 3]) simp_all
  moreover have "\<not> prime_number 10049392" by (rule composite [of 2]) simp_all
  ultimately have "GetPrime 10049390 \<noteq> 10049390" "GetPrime 10049390 \<noteq> 10049391" "GetPrime 10049390 \<noteq> 10049392"
    using g(1) by metis+
  then have "GetPrime 10049390 = 10049393" using g(2,3) by linarith
  then show ?thesis using g(1) by simp
qed

text \<open>
  The last four entries of the table of precomputed primes are composite, so for every minimum
  above 7199369 and up to 10049369 the number returned is not prime.
\<close>

theorem GetPrime_composite:
  assumes "7199369 < m" "m \<le> 10049369"
  shows "\<exists>d. d dvd GetPrime m \<and> 1 < d \<and> d < GetPrime m"
proof -
  have "GetPrime m \<in> {7849369, 8649369, 9249369, 10049369}"
    using assms by (simp add: GetPrime_def g_Primes_def)
  then have "11 dvd GetPrime m \<or> 3 dvd GetPrime m" "11 < GetPrime m" by auto
  then show ?thesis by (metis one_less_numeral_iff semiring_norm(76,77) less_trans numeral_less_iff semiring_norm(80))
qed

lemma GetPrime_composite_witness: "\<exists>d. d dvd GetPrime 8000000 \<and> 1 < d \<and> d < GetPrime 8000000"
  by (rule GetPrime_composite) simp_all

end
