(* ===== verification/HashTable.thy ===== *)
theory HashTable
  imports HashFn "HOL-Library.Multiset"
begin

section \<open>The hash table (IISLib/hashtable.h)\<close>

text \<open>
  \<open>HASH_TABLE\<close> is a template over a record and a key type whose hash, key extraction and key
  comparison are virtual functions. The model is polymorphic in both types and takes the virtual
  functions as a \<open>vtable\<close>. A bucket is the list of its nodes in chain order; the pointer to a
  previous node's next field is the length of the chain's prefix. \<open>_refs\<close> counts the calls of
  \<open>ReferenceRecord\<close> minus the calls of \<open>DereferenceRecord\<close> per record. The operations are the
  critical sections under the table lock; a result \<open>None\<close> is an access through a NULL bucket array.
\<close>

subsection \<open>State\<close>

record ('r, 'k) vtable =
  ExtractKey :: "'r \<Rightarrow> 'k"
  CalcKeyHash :: "'k \<Rightarrow> DWORD"
  EqualKeys :: "'k \<Rightarrow> 'k \<Rightarrow> bool"

record 'r HASH_NODE =
  nd_pRecord :: 'r
  nd_dwHash :: DWORD

record 'r HASH_TABLE =
  ht_ppBuckets :: "'r HASH_NODE list list option"
  ht_nBuckets :: nat
  ht_nItems :: nat
  ht_lockInited :: bool
  ht_refs :: "'r \<Rightarrow> int"

definition ReferenceRecord :: "'r \<Rightarrow> 'r HASH_TABLE \<Rightarrow> 'r HASH_TABLE" where
  "ReferenceRecord r T = T\<lparr>ht_refs := (ht_refs T)(r := ht_refs T r + 1)\<rparr>"

definition DereferenceRecord :: "'r \<Rightarrow> 'r HASH_TABLE \<Rightarrow> 'r HASH_TABLE" where
  "DereferenceRecord r T = T\<lparr>ht_refs := (ht_refs T)(r := ht_refs T r - 1)\<rparr>"

definition HASH_TABLE_new :: "'r HASH_TABLE" where
  "HASH_TABLE_new =
     \<lparr>ht_ppBuckets = None, ht_nBuckets = 0, ht_nItems = 0, ht_lockInited = False, ht_refs = (\<lambda>_. 0)\<rparr>"

definition Count :: "'r HASH_TABLE \<Rightarrow> nat" where
  "Count T = ht_nItems T"

definition IsInitialized :: "'r HASH_TABLE \<Rightarrow> bool" where
  "IsInitialized T \<longleftrightarrow> ht_ppBuckets T \<noteq> None"

text \<open>\<open>sizeof(HASH_NODE<_Record> *)\<close> on x64.\<close>

definition sizeof_ptr :: nat where "sizeof_ptr = 8"

text \<open>
  \<open>lock_hr\<close> is what \<open>_tableLock.Init\<close> returns and \<open>alloc\<close> whether the allocation succeeds. All
  failures run the code at \<open>Failed\<close>, which frees the bucket array if there is one.
\<close>

definition Initialize :: "HRESULT \<Rightarrow> bool \<Rightarrow> nat \<Rightarrow> 'r HASH_TABLE \<Rightarrow> HRESULT \<times> 'r HASH_TABLE" where
  "Initialize lock_hr alloc nBuckets T =
     (let Failed = (\<lambda>hr T'. (hr, T'\<lparr>ht_ppBuckets := None\<rparr>))
      in if nBuckets = 0 then Failed E_INVALIDARG T
         else if MAXDWORD div sizeof_ptr \<le> nBuckets then Failed E_INVALIDARG T
         else if ht_ppBuckets T \<noteq> None then Failed E_INVALIDARG T
         else if FAILED lock_hr then Failed lock_hr T
         else let T1 = T\<lparr>ht_lockInited := True\<rparr>
              in if \<not> alloc then Failed (HRESULT_FROM_WIN32 ERROR_NOT_ENOUGH_MEMORY) T1
                 else (S_OK, T1\<lparr>ht_ppBuckets := Some (replicate nBuckets []), ht_nBuckets := nBuckets\<rparr>))"

subsection \<open>Lookup\<close>

text \<open>Whether the key is found in the chain, and how many nodes precede the place where it is or belongs.\<close>

fun FindNode_loop :: "('r, 'k) vtable \<Rightarrow> 'k \<Rightarrow> DWORD \<Rightarrow> 'r HASH_NODE list \<Rightarrow> bool \<times> nat" where
  "FindNode_loop vt key dwHash [] = (False, 0)"
| "FindNode_loop vt key dwHash (n # ns) =
     (if nd_dwHash n = dwHash \<and> EqualKeys vt key (ExtractKey vt (nd_pRecord n)) then (True, 0)
      else if dwHash < nd_dwHash n then (False, 0)
      else (let (fFound, i) = FindNode_loop vt key dwHash ns in (fFound, Suc i)))"

text \<open>The bucket index, the flag and the position in the chain.\<close>

definition FindNodeInternal :: "('r, 'k) vtable \<Rightarrow> 'k \<Rightarrow> DWORD \<Rightarrow> 'r HASH_TABLE \<Rightarrow>
    (nat \<times> 'r HASH_NODE list \<times> bool \<times> nat) option" where
  "FindNodeInternal vt key dwHash T = do {
     bs \<leftarrow> ht_ppBuckets T;
     (if ht_nBuckets T = 0 then None
      else do {
        chain \<leftarrow> load_at bs (unat dwHash mod ht_nBuckets T);
        (let (fFound, i) = FindNode_loop vt key dwHash chain
         in Some (unat dwHash mod ht_nBuckets T, chain, fFound, i))
      })
   }"

definition FindKey :: "('r, 'k) vtable \<Rightarrow> 'k \<Rightarrow> 'r HASH_TABLE \<Rightarrow> ('r option \<times> 'r HASH_TABLE) option" where
  "FindKey vt key T = do {
     (b, chain, fFound, i) \<leftarrow> FindNodeInternal vt key (CalcKeyHash vt key) T;
     (if fFound then do {
        n \<leftarrow> load_at chain i;
        Some (Some (nd_pRecord n), ReferenceRecord (nd_pRecord n) T)
      }
      else Some (None, T))
   }"

subsection \<open>Insertion and rehashing\<close>

text \<open>The chain after \<open>*ppPreviousNodeNextPointer = pNewNode\<close>.\<close>

definition link_at :: "nat \<Rightarrow> 'r HASH_NODE \<Rightarrow> 'r HASH_NODE list \<Rightarrow> 'r HASH_NODE list" where
  "link_at i n chain = take i chain @ n # drop i chain"

definition set_chain :: "nat \<Rightarrow> 'r HASH_NODE list \<Rightarrow> 'r HASH_TABLE \<Rightarrow> 'r HASH_TABLE" where
  "set_chain b chain T = T\<lparr>ht_ppBuckets := map_option (\<lambda>bs. bs[b := chain]) (ht_ppBuckets T)\<rparr>"

text \<open>In the new table a node goes behind all nodes with a hash that is not larger.\<close>

fun rehash_insert :: "'r HASH_NODE \<Rightarrow> 'r HASH_NODE list \<Rightarrow> 'r HASH_NODE list" where
  "rehash_insert n [] = [n]"
| "rehash_insert n (m # ms) = (if nd_dwHash m \<le> nd_dwHash n then m # rehash_insert n ms else n # m # ms)"

fun rehash_chain :: "nat \<Rightarrow> 'r HASH_NODE list \<Rightarrow> 'r HASH_NODE list list \<Rightarrow> 'r HASH_NODE list list option" where
  "rehash_chain nBuckets [] bs = Some bs"
| "rehash_chain nBuckets (n # ns) bs = do {
     chain \<leftarrow> load_at bs (unat (nd_dwHash n) mod nBuckets);
     bs' \<leftarrow> store_at bs (unat (nd_dwHash n) mod nBuckets) (rehash_insert n chain);
     rehash_chain nBuckets ns bs'
   }"

fun rehash_all :: "nat \<Rightarrow> 'r HASH_NODE list list \<Rightarrow> 'r HASH_NODE list list \<Rightarrow> 'r HASH_NODE list list option" where
  "rehash_all nBuckets [] bs = Some bs"
| "rehash_all nBuckets (chain # rest) bs = do {
     bs' \<leftarrow> rehash_chain nBuckets chain bs;
     rehash_all nBuckets rest bs'
   }"

definition RehashTableIfNeeded :: "bool \<Rightarrow> 'r HASH_TABLE \<Rightarrow> 'r HASH_TABLE option" where
  "RehashTableIfNeeded alloc T =
     (let nNewBuckets = GetPrime (u32 (2 * ht_nBuckets T))
      in if ht_nItems T \<le> nNewBuckets then Some T
         else if 0xffffffff div sizeof_ptr \<le> nNewBuckets \<or> \<not> alloc then Some T
         else do {
           bs \<leftarrow> ht_ppBuckets T;
           bs' \<leftarrow> rehash_all nNewBuckets bs (replicate nNewBuckets []);
           Some (T\<lparr>ht_ppBuckets := Some bs', ht_nBuckets := nNewBuckets\<rparr>)
         })"

text \<open>
  \<open>alloc_node\<close> and \<open>alloc_buckets\<close> say whether the allocations succeed. The interlocked exchange
  succeeds at the first attempt here; its retries are the subject of a later section.
\<close>

definition InsertRecord :: "('r, 'k) vtable \<Rightarrow> bool \<Rightarrow> bool \<Rightarrow> 'r \<Rightarrow> 'r HASH_TABLE \<Rightarrow>
    (HRESULT \<times> 'r HASH_TABLE) option" where
  "InsertRecord vt alloc_node alloc_buckets pRecord T =
     (let key = ExtractKey vt pRecord; dwHash = CalcKeyHash vt key
      in if \<not> alloc_node then Some (HRESULT_FROM_WIN32 ERROR_NOT_ENOUGH_MEMORY, T)
         else do {
           (b, chain, fFound, i) \<leftarrow> FindNodeInternal vt key dwHash T;
           (if fFound then Some (HRESULT_FROM_WIN32 ERROR_ALREADY_EXISTS, T)
            else do {
              T' \<leftarrow> RehashTableIfNeeded alloc_buckets
                     ((ReferenceRecord pRecord
                        (set_chain b (link_at i \<lparr>nd_pRecord = pRecord, nd_dwHash = dwHash\<rparr> chain) T))
                      \<lparr>ht_nItems := u32 (ht_nItems T + 1)\<rparr>);
              Some (S_OK, T')
            })
         })"

subsection \<open>Deletion, iteration, clearing\<close>

definition DeleteKey :: "('r, 'k) vtable \<Rightarrow> 'k \<Rightarrow> 'r HASH_TABLE \<Rightarrow> 'r HASH_TABLE option" where
  "DeleteKey vt key T = do {
     (b, chain, fFound, i) \<leftarrow> FindNodeInternal vt key (CalcKeyHash vt key) T;
     (if fFound then do {
        n \<leftarrow> load_at chain i;
        Some ((DereferenceRecord (nd_pRecord n) (set_chain b (take i chain @ drop (Suc i) chain) T))
              \<lparr>ht_nItems := u32 (ht_nItems T + 4294967295)\<rparr>)
      }
      else Some T)
   }"

text \<open>One chain of \<open>DeleteIf\<close>: the nodes that stay, and the records dereferenced in order.\<close>

fun DeleteIf_chain :: "('r \<Rightarrow> bool) \<Rightarrow> 'r HASH_NODE list \<Rightarrow> 'r HASH_NODE list \<times> 'r list" where
  "DeleteIf_chain pfn [] = ([], [])"
| "DeleteIf_chain pfn (n # ns) =
     (let (keep, gone) = DeleteIf_chain pfn ns
      in if pfn (nd_pRecord n) then (keep, nd_pRecord n # gone) else (n # keep, gone))"

text \<open>The chains a loop over \<open>_nBuckets\<close> visits: none before the first initialisation.\<close>

definition ht_chains :: "'r HASH_TABLE \<Rightarrow> 'r HASH_NODE list list option" where
  "ht_chains T = (if ht_nBuckets T = 0 then Some [] else ht_ppBuckets T)"

definition DeleteIf :: "('r \<Rightarrow> bool) \<Rightarrow> 'r HASH_TABLE \<Rightarrow> 'r HASH_TABLE option" where
  "DeleteIf pfnDeleteIf T = do {
     bs \<leftarrow> ht_chains T;
     (let gone = concat (map (\<lambda>c. snd (DeleteIf_chain pfnDeleteIf c)) bs);
          keep = map (\<lambda>c. fst (DeleteIf_chain pfnDeleteIf c)) bs
      in Some (fold DereferenceRecord gone
           (T\<lparr>ht_ppBuckets := map_option (\<lambda>_. keep) (ht_ppBuckets T),
              ht_nItems := u32 (ht_nItems T + 4294967296 - length gone)\<rparr>)))
   }"

text \<open>\<open>Apply\<close> runs the callback over the records in bucket and chain order, threading the caller's state.\<close>

definition Apply :: "('r \<Rightarrow> 's \<Rightarrow> 's) \<Rightarrow> 'r HASH_TABLE \<Rightarrow> 's \<Rightarrow> 's option" where
  "Apply pfnApply T pvContext = do {
     bs \<leftarrow> ht_chains T;
     Some (fold (\<lambda>n. pfnApply (nd_pRecord n)) (concat bs) pvContext)
   }"

definition Clear :: "'r HASH_TABLE \<Rightarrow> 'r HASH_TABLE option" where
  "Clear T =
     (if \<not> ht_lockInited T then Some T
      else do {
        bs \<leftarrow> ht_chains T;
        Some ((fold (\<lambda>n. DereferenceRecord (nd_pRecord n)) (concat bs)
                (T\<lparr>ht_ppBuckets := map_option (\<lambda>_. map (\<lambda>_. []) bs) (ht_ppBuckets T)\<rparr>))
              \<lparr>ht_nItems := 0\<rparr>)
      })"

subsection \<open>The interface of the virtual functions\<close>

locale hash_key =
  fixes vt :: "('r, 'k) vtable"
  assumes eq_refl: "EqualKeys vt k k"
    and eq_sym: "EqualKeys vt k l \<Longrightarrow> EqualKeys vt l k"
    and eq_trans: "EqualKeys vt k l \<Longrightarrow> EqualKeys vt l m \<Longrightarrow> EqualKeys vt k m"
    and eq_hash: "EqualKeys vt k l \<Longrightarrow> CalcKeyHash vt k = CalcKeyHash vt l"

definition node_key :: "('r, 'k) vtable \<Rightarrow> 'r HASH_NODE \<Rightarrow> 'k" where
  "node_key vt n = ExtractKey vt (nd_pRecord n)"

definition node_ok :: "('r, 'k) vtable \<Rightarrow> nat \<Rightarrow> nat \<Rightarrow> 'r HASH_NODE \<Rightarrow> bool" where
  "node_ok vt nB b n \<longleftrightarrow> nd_dwHash n = CalcKeyHash vt (node_key vt n) \<and> unat (nd_dwHash n) mod nB = b"

definition chain_ok :: "('r, 'k) vtable \<Rightarrow> nat \<Rightarrow> nat \<Rightarrow> 'r HASH_NODE list \<Rightarrow> bool" where
  "chain_ok vt nB b chain \<longleftrightarrow> sorted (map nd_dwHash chain) \<and> (\<forall>n \<in> set chain. node_ok vt nB b n)"

definition distinct_keys :: "('r, 'k) vtable \<Rightarrow> 'r HASH_NODE list \<Rightarrow> bool" where
  "distinct_keys vt ns \<longleftrightarrow> sorted_wrt (\<lambda>m n. \<not> EqualKeys vt (node_key vt m) (node_key vt n)) ns"

definition buckets_inv :: "('r, 'k) vtable \<Rightarrow> nat \<Rightarrow> 'r HASH_NODE list list \<Rightarrow> bool" where
  "buckets_inv vt nB bs \<longleftrightarrow> length bs = nB \<and> (\<forall>b < nB. chain_ok vt nB b (bs ! b))"

definition ht_inv :: "('r, 'k) vtable \<Rightarrow> 'r HASH_TABLE \<Rightarrow> bool" where
  "ht_inv vt T \<longleftrightarrow> (case ht_ppBuckets T of None \<Rightarrow> False
     | Some bs \<Rightarrow> 0 < ht_nBuckets T \<and> buckets_inv vt (ht_nBuckets T) bs \<and>
         distinct_keys vt (concat bs) \<and> ht_nItems T = length (concat bs) \<and> ht_nItems T \<le> MAXDWORD \<and>
         ht_lockInited T)"

definition ht_records :: "'r HASH_TABLE \<Rightarrow> 'r list" where
  "ht_records T = (case ht_ppBuckets T of None \<Rightarrow> [] | Some bs \<Rightarrow> map nd_pRecord (concat bs))"

definition ht_lookup :: "('r, 'k) vtable \<Rightarrow> 'r HASH_TABLE \<Rightarrow> 'k \<Rightarrow> 'r option" where
  "ht_lookup vt T k = List.find (\<lambda>r. EqualKeys vt k (ExtractKey vt r)) (ht_records T)"

subsection \<open>Permutations\<close>

lemma sorted_wrt_mset:
  assumes "symp R" "sorted_wrt R xs" "mset xs = mset ys"
  shows "sorted_wrt R ys"
  using assms(2,3)
proof (induction xs arbitrary: ys)
  case (Cons x xs)
  then have "x \<in> set ys" by (metis list.set_intros(1) set_mset_mset)
  then obtain us vs where ys: "ys = us @ x # vs" by (auto simp: in_set_conv_decomp)
  with Cons.prems have m: "mset xs = mset (us @ vs)" by simp
  with Cons have "sorted_wrt R (us @ vs)" by simp
  moreover have "R x z" if "z \<in> set (us @ vs)" for z
    using that Cons.prems(1) m by (metis set_mset_mset sorted_wrt.simps(2))
  ultimately show ?case
    using assms(1) by (auto simp: ys sorted_wrt_append symp_def)
qed simp

lemma mset_concat_update:
  "b < length bs \<Longrightarrow> mset (concat (bs[b := c])) + mset (bs ! b) = mset (concat bs) + mset c"
  by (subst (2) id_take_nth_drop [of b bs]) (auto simp: upd_conv_take_nth_drop)

lemma mset_rehash_insert: "mset (rehash_insert n c) = add_mset n (mset c)"
  by (induction c) auto

lemma set_rehash_insert [simp]: "set (rehash_insert n c) = insert n (set c)"
  by (induction c) auto

lemma sorted_rehash_insert:
  "sorted (map nd_dwHash c) \<Longrightarrow> sorted (map nd_dwHash (rehash_insert n c))"
  by (induction c) auto

lemma buckets_inv_update:
  "buckets_inv vt nB bs \<Longrightarrow> chain_ok vt nB b c \<Longrightarrow> buckets_inv vt nB (bs[b := c])"
  by (cases "b < length bs") (auto simp: buckets_inv_def nth_list_update)

lemma chain_ok_rehash_insert:
  "chain_ok vt nB b c \<Longrightarrow> node_ok vt nB b n \<Longrightarrow> chain_ok vt nB b (rehash_insert n c)"
  by (simp add: chain_ok_def sorted_rehash_insert)

lemma rehash_chain_spec:
  assumes "buckets_inv vt nB bs" "0 < nB" "\<forall>n \<in> set ns. nd_dwHash n = CalcKeyHash vt (node_key vt n)"
  shows "returns (rehash_chain nB ns bs) (\<lambda>bs'. buckets_inv vt nB bs' \<and>
    mset (concat bs') = mset (concat bs) + mset ns)"
  using assms
proof (induction ns arbitrary: bs)
  case (Cons n ns)
  let ?b = "unat (nd_dwHash n) mod nB"
  have b: "?b < length bs" using Cons.prems by (simp add: buckets_inv_def)
  have "buckets_inv vt nB (bs[?b := rehash_insert n (bs ! ?b)])"
    using Cons.prems b by (intro buckets_inv_update chain_ok_rehash_insert) (auto simp: buckets_inv_def node_ok_def)
  moreover have "mset (concat (bs[?b := rehash_insert n (bs ! ?b)])) = add_mset n (mset (concat bs))"
    using mset_concat_update [OF b, of "rehash_insert n (bs ! ?b)"] by (simp add: mset_rehash_insert)
  ultimately show ?case
    using Cons.IH [of "bs[?b := rehash_insert n (bs ! ?b)]"] Cons.prems b by (auto elim!: returns_mono)
qed simp

lemma rehash_all_spec:
  assumes "buckets_inv vt nB bs" "0 < nB"
    and "\<forall>n \<in> set (concat cs). nd_dwHash n = CalcKeyHash vt (node_key vt n)"
  shows "returns (rehash_all nB cs bs) (\<lambda>bs'. buckets_inv vt nB bs' \<and>
    mset (concat bs') = mset (concat bs) + mset (concat cs))"
  using assms
proof (induction cs arbitrary: bs)
  case (Cons c cs)
  have "returns (rehash_chain nB c bs) (\<lambda>bs'. buckets_inv vt nB bs' \<and> mset (concat bs') = mset (concat bs) + mset c)"
    using Cons.prems by (intro rehash_chain_spec) auto
  then obtain bs1 where r: "rehash_chain nB c bs = Some bs1" "buckets_inv vt nB bs1"
    "mset (concat bs1) = mset (concat bs) + mset c" by (auto elim: returnsE)
  with Cons.IH [of bs1] Cons.prems show ?case by (auto elim!: returns_mono simp: ac_simps)
qed simp

lemma buckets_inv_empty: "buckets_inv vt nB (replicate nB [])"
  by (simp add: buckets_inv_def chain_ok_def)


definition same_content :: "'r HASH_TABLE \<Rightarrow> 'r HASH_TABLE \<Rightarrow> bool" where
  "same_content T T' \<longleftrightarrow> mset (ht_records T) = mset (ht_records T') \<and> ht_refs T' = ht_refs T \<and> ht_nItems T' = ht_nItems T"

context hash_key
begin

lemma distinct_keys_mset: "distinct_keys vt xs \<Longrightarrow> mset xs = mset ys \<Longrightarrow> distinct_keys vt ys"
  using sorted_wrt_mset [of "\<lambda>m n. \<not> EqualKeys vt (node_key vt m) (node_key vt n)" xs ys]
  by (auto simp: distinct_keys_def symp_def dest: eq_sym)

lemma RehashTableIfNeeded_spec:
  assumes "ht_inv vt T"
  shows "returns (RehashTableIfNeeded alloc T) (\<lambda>T'. ht_inv vt T' \<and> same_content T T')"
proof -
  obtain bs where bs: "ht_ppBuckets T = Some bs" "buckets_inv vt (ht_nBuckets T) bs" "distinct_keys vt (concat bs)"
    using assms by (auto simp: ht_inv_def split: option.splits)
  let ?n = "GetPrime (u32 (2 * ht_nBuckets T))"
  have "\<forall>n \<in> set (concat bs). nd_dwHash n = CalcKeyHash vt (node_key vt n)"
    using bs(2) by (fastforce simp: buckets_inv_def chain_ok_def node_ok_def in_set_conv_nth)
  from rehash_all_spec [OF buckets_inv_empty GetPrime_pos this, of "u32 (2 * ht_nBuckets T)"]
  obtain bs' where r: "rehash_all ?n bs (replicate ?n []) = Some bs'" "buckets_inv vt ?n bs'"
    "mset (concat bs') = mset (concat bs)" by (auto elim: returnsE)
  moreover have "distinct_keys vt (concat bs')" using distinct_keys_mset [OF bs(3)] r(3) by simp
  moreover have "length (concat bs') = length (concat bs)" using r(3) mset_eq_length by blast
  moreover have "mset (map nd_pRecord (concat bs')) = mset (map nd_pRecord (concat bs))" using r(3) by (simp only: mset_map)
  ultimately show ?thesis
    using assms bs GetPrime_pos [of "u32 (2 * ht_nBuckets T)"]
    by (auto simp: RehashTableIfNeeded_def Let_def ht_inv_def same_content_def ht_records_def)
qed

text \<open>The position \<open>FindNodeInternal\<close> computes in a chain.\<close>

lemma FindNode_loop_spec:
  assumes "chain_ok vt nB b chain" "FindNode_loop vt k (CalcKeyHash vt k) chain = (f, i)"
  shows "i \<le> length chain" "f \<Longrightarrow> i < length chain \<and> EqualKeys vt k (node_key vt (chain ! i))"
    "\<not> f \<Longrightarrow> \<forall>n \<in> set chain. \<not> EqualKeys vt k (node_key vt n)"
    "\<not> f \<Longrightarrow> (\<forall>n \<in> set (take i chain). nd_dwHash n \<le> CalcKeyHash vt k) \<and> (\<forall>n \<in> set (drop i chain). CalcKeyHash vt k < nd_dwHash n)"
proof -
  have "i \<le> length chain \<and> (f \<longrightarrow> i < length chain \<and> EqualKeys vt k (node_key vt (chain ! i))) \<and>
    (\<not> f \<longrightarrow> (\<forall>n \<in> set chain. \<not> EqualKeys vt k (node_key vt n)) \<and>
      (\<forall>n \<in> set (take i chain). nd_dwHash n \<le> CalcKeyHash vt k) \<and> (\<forall>n \<in> set (drop i chain). CalcKeyHash vt k < nd_dwHash n))"
    using assms
  proof (induction chain arbitrary: i)
    case (Cons n ns)
    have ok: "chain_ok vt nB b ns" "nd_dwHash n = CalcKeyHash vt (node_key vt n)"
      "\<forall>m \<in> set ns. nd_dwHash n \<le> nd_dwHash m" "\<forall>m \<in> set ns. nd_dwHash m = CalcKeyHash vt (node_key vt m)"
      using Cons.prems(1) by (auto simp: chain_ok_def node_ok_def)
    consider (hit) "nd_dwHash n = CalcKeyHash vt k" "EqualKeys vt k (node_key vt n)"
      | (stop) "\<not> (nd_dwHash n = CalcKeyHash vt k \<and> EqualKeys vt k (node_key vt n))" "CalcKeyHash vt k < nd_dwHash n"
      | (go) "\<not> (nd_dwHash n = CalcKeyHash vt k \<and> EqualKeys vt k (node_key vt n))" "\<not> CalcKeyHash vt k < nd_dwHash n"
      by blast
    then show ?case
    proof cases
      case hit
      with Cons.prems(2) show ?thesis by (auto simp: node_key_def)
    next
      case stop
      with Cons.prems(2) have r: "\<not> f" "i = 0" by (auto simp: node_key_def split: if_splits)
      have "\<forall>m \<in> set (n # ns). CalcKeyHash vt k < nd_dwHash m" using stop ok(3) by (auto intro: less_le_trans)
      moreover have "\<not> EqualKeys vt k (node_key vt m)" if "m \<in> set (n # ns)" for m
        using that calculation ok(2,4) eq_hash [of k "node_key vt m"] by auto
      ultimately show ?thesis using r by auto
    next
      case go
      with Cons.prems(2) obtain j where j: "FindNode_loop vt k (CalcKeyHash vt k) ns = (f, j)" "i = Suc j"
        by (auto simp: node_key_def split: if_splits prod.splits)
      have "\<not> EqualKeys vt k (node_key vt n)" using go(1) ok(2) eq_hash by auto
      with Cons.IH [OF ok(1) j(1)] j(2) go(2) show ?thesis by auto
    qed
  qed simp
  then show "i \<le> length chain" "f \<Longrightarrow> i < length chain \<and> EqualKeys vt k (node_key vt (chain ! i))"
    "\<not> f \<Longrightarrow> \<forall>n \<in> set chain. \<not> EqualKeys vt k (node_key vt n)"
    "\<not> f \<Longrightarrow> (\<forall>n \<in> set (take i chain). nd_dwHash n \<le> CalcKeyHash vt k) \<and> (\<forall>n \<in> set (drop i chain). CalcKeyHash vt k < nd_dwHash n)"
    by auto
qed

lemma FindNodeInternal_spec:
  assumes "ht_inv vt T"
  obtains bs b chain f i where "ht_ppBuckets T = Some bs" "b < length bs" "chain = bs ! b"
    "chain_ok vt (ht_nBuckets T) b chain" "b = unat (CalcKeyHash vt k) mod ht_nBuckets T"
    "FindNodeInternal vt k (CalcKeyHash vt k) T = Some (b, chain, f, i)"
    "FindNode_loop vt k (CalcKeyHash vt k) chain = (f, i)"
proof -
  obtain bs where bs: "ht_ppBuckets T = Some bs" "buckets_inv vt (ht_nBuckets T) bs" "0 < ht_nBuckets T"
    using assms by (auto simp: ht_inv_def split: option.splits)
  let ?b = "unat (CalcKeyHash vt k) mod ht_nBuckets T"
  have b: "?b < length bs" using bs by (simp add: buckets_inv_def)
  obtain f i where fi: "FindNode_loop vt k (CalcKeyHash vt k) (bs ! ?b) = (f, i)" by force
  have "chain_ok vt (ht_nBuckets T) ?b (bs ! ?b)" using bs by (simp add: buckets_inv_def)
  moreover have "FindNodeInternal vt k (CalcKeyHash vt k) T = Some (?b, bs ! ?b, f, i)"
    using bs(1,3) b fi by (simp add: FindNodeInternal_def)
  ultimately show thesis using that bs(1) b fi by blast
qed

text \<open>A record with the key anywhere in the table is in the bucket that was searched.\<close>

lemma in_bucket:
  assumes "ht_inv vt T" "ht_ppBuckets T = Some bs" "n \<in> set (concat bs)" "EqualKeys vt k (node_key vt n)"
  shows "n \<in> set (bs ! (unat (CalcKeyHash vt k) mod ht_nBuckets T))"
proof -
  obtain c where "c \<in> set bs" "n \<in> set c" using assms(3) by auto
  then obtain b where b: "b < length bs" "n \<in> set (bs ! b)" by (auto simp: in_set_conv_nth [of c])
  have "chain_ok vt (ht_nBuckets T) b (bs ! b)" using assms(1,2) b(1) by (auto simp: ht_inv_def buckets_inv_def)
  then have "nd_dwHash n = CalcKeyHash vt (node_key vt n)" "unat (nd_dwHash n) mod ht_nBuckets T = b"
    using b(2) by (auto simp: chain_ok_def node_ok_def)
  with b eq_hash [OF assms(4)] show ?thesis by auto
qed

lemma set_ht_records: "ht_ppBuckets T = Some bs \<Longrightarrow> set (ht_records T) = nd_pRecord ` set (concat bs)"
  by (simp add: ht_records_def)

lemma distinct_keys_unique:
  assumes "distinct_keys vt ns" "m \<in> set ns" "n \<in> set ns" "EqualKeys vt k (node_key vt m)" "EqualKeys vt k (node_key vt n)"
  shows "m = n"
proof -
  have "EqualKeys vt (node_key vt m) (node_key vt n)" "EqualKeys vt (node_key vt n) (node_key vt m)"
    using assms(4,5) eq_sym eq_trans by blast+
  moreover obtain i j where "i < length ns" "j < length ns" "m = ns ! i" "n = ns ! j"
    using assms(2,3) by (auto simp: in_set_conv_nth)
  ultimately show ?thesis
    using assms(1) by (cases i j rule: linorder_cases) (auto simp: distinct_keys_def sorted_wrt_iff_nth_less)
qed

lemma ht_lookup_iff:
  assumes "ht_inv vt T"
  shows "ht_lookup vt T k = Some r \<longleftrightarrow> r \<in> set (ht_records T) \<and> EqualKeys vt k (ExtractKey vt r)"
proof -
  obtain bs where bs: "ht_ppBuckets T = Some bs" "distinct_keys vt (concat bs)"
    using assms by (auto simp: ht_inv_def split: option.splits)
  have uniq: "r = s" if "r \<in> set (ht_records T)" "s \<in> set (ht_records T)"
    "EqualKeys vt k (ExtractKey vt r)" "EqualKeys vt k (ExtractKey vt s)" for r s
    using that distinct_keys_unique [OF bs(2)] unfolding set_ht_records [OF bs(1)]
    by (auto simp: node_key_def)
  show ?thesis
  proof
    assume "ht_lookup vt T k = Some r"
    then show "r \<in> set (ht_records T) \<and> EqualKeys vt k (ExtractKey vt r)"
      by (auto simp: ht_lookup_def find_Some_iff)
  next
    assume r: "r \<in> set (ht_records T) \<and> EqualKeys vt k (ExtractKey vt r)"
    then obtain s where s: "ht_lookup vt T k = Some s"
      by (cases "ht_lookup vt T k") (auto simp: ht_lookup_def find_None_iff)
    then have "s \<in> set (ht_records T)" "EqualKeys vt k (ExtractKey vt s)"
      by (auto simp: ht_lookup_def find_Some_iff)
    with uniq r s show "ht_lookup vt T k = Some r" by blast
  qed
qed

lemma ht_lookup_eqI:
  assumes "ht_inv vt T'"
    and "\<And>r. r \<in> set (ht_records T') \<and> EqualKeys vt k (ExtractKey vt r) \<longleftrightarrow> x = Some r"
  shows "ht_lookup vt T' k = x"
  using ht_lookup_iff [OF assms(1), of k] assms(2) by (cases x; cases "ht_lookup vt T' k") auto

lemma FindKey_spec:
  assumes "ht_inv vt T"
  shows "FindKey vt k T = Some (ht_lookup vt T k,
    case ht_lookup vt T k of None \<Rightarrow> T | Some r \<Rightarrow> ReferenceRecord r T)"
proof -
  obtain bs b chain f i where c: "ht_ppBuckets T = Some bs" "b < length bs" "chain = bs ! b"
    "chain_ok vt (ht_nBuckets T) b chain" "b = unat (CalcKeyHash vt k) mod ht_nBuckets T"
    "FindNodeInternal vt k (CalcKeyHash vt k) T = Some (b, chain, f, i)"
    "FindNode_loop vt k (CalcKeyHash vt k) chain = (f, i)"
    by (rule FindNodeInternal_spec [OF assms])
  note L = FindNode_loop_spec [OF c(4,7)]
  show ?thesis
  proof (cases f)
    case True
    let ?r = "nd_pRecord (chain ! i)"
    have "chain ! i \<in> set (concat bs)" using L(2) [OF True] c(2,3) by (auto intro: nth_mem)
    then have "ht_lookup vt T k = Some ?r"
      using L(2) [OF True] by (simp add: ht_lookup_iff [OF assms] set_ht_records [OF c(1)] node_key_def)
    with c(6) L(2) True show ?thesis by (simp add: FindKey_def)
  next
    case False
    have "ht_lookup vt T k = None"
      using L(3) [OF False] in_bucket [OF assms c(1)] c(3,5)
      by (intro ht_lookup_eqI [OF assms]) (auto simp: set_ht_records [OF c(1)] node_key_def)
    with c(6) False show ?thesis by (simp add: FindKey_def)
  qed
qed

lemma chain_ok_link:
  assumes "chain_ok vt nB b chain" "node_ok vt nB b n"
    "\<forall>m \<in> set (take i chain). nd_dwHash m \<le> nd_dwHash n" "\<forall>m \<in> set (drop i chain). nd_dwHash n < nd_dwHash m"
  shows "chain_ok vt nB b (link_at i n chain)"
proof -
  have "sorted (map nd_dwHash (take i chain @ drop i chain))" using assms(1) by (simp add: chain_ok_def)
  then have "sorted (map nd_dwHash (link_at i n chain))"
    using assms(3,4) unfolding link_at_def map_append sorted_append by (auto intro: less_imp_le)
  with assms(1,2) show ?thesis
    by (auto simp: chain_ok_def link_at_def dest: in_set_takeD in_set_dropD)
qed

lemma mset_link_at: "mset (link_at i n chain) = add_mset n (mset chain)"
  by (simp add: link_at_def) (metis append_take_drop_id mset_append)

lemma InsertRecord_spec:
  assumes "ht_inv vt T" "Count T < MAXDWORD"
  shows "returns (InsertRecord vt an ab r T) (\<lambda>(hr, T'). ht_inv vt T' \<and>
    (if SUCCEEDED hr then ht_lookup vt T (ExtractKey vt r) = None \<and> mset (ht_records T') = add_mset r (mset (ht_records T)) \<and>
       ht_refs T' = (ht_refs T)(r := ht_refs T r + 1) \<and> Count T' = Suc (Count T)
     else T' = T) \<and>
    (an \<longrightarrow> hr = (if ht_lookup vt T (ExtractKey vt r) = None then S_OK else HRESULT_FROM_WIN32 ERROR_ALREADY_EXISTS)))"
proof (cases an)
  case False
  with assms(1) show ?thesis by (simp add: InsertRecord_def Let_def)
next
  case True
  let ?k = "ExtractKey vt r"
  obtain bs b chain f i where c: "ht_ppBuckets T = Some bs" "b < length bs" "chain = bs ! b"
    "chain_ok vt (ht_nBuckets T) b chain" "b = unat (CalcKeyHash vt ?k) mod ht_nBuckets T"
    "FindNodeInternal vt ?k (CalcKeyHash vt ?k) T = Some (b, chain, f, i)"
    "FindNode_loop vt ?k (CalcKeyHash vt ?k) chain = (f, i)"
    by (rule FindNodeInternal_spec [OF assms(1)])
  note L = FindNode_loop_spec [OF c(4,7)]
  have lookup: "ht_lookup vt T ?k = None \<longleftrightarrow> \<not> f"
    using FindKey_spec [OF assms(1), of ?k] c(6) L(2) by (auto simp: FindKey_def)
  show ?thesis
  proof (cases f)
    case f: True
    with True c(6) lookup assms(1) show ?thesis by (auto simp: InsertRecord_def)
  next
    case f: False
    let ?n = "\<lparr>nd_pRecord = r, nd_dwHash = CalcKeyHash vt ?k\<rparr>"
    let ?bs = "bs[b := link_at i ?n chain]"
    let ?T1 = "(ReferenceRecord r (set_chain b (link_at i ?n chain) T))\<lparr>ht_nItems := u32 (ht_nItems T + 1)\<rparr>"
    have m: "mset (concat ?bs) = add_mset ?n (mset (concat bs))"
      using mset_concat_update [OF c(2), of "link_at i ?n chain"] c(3) by (simp add: mset_link_at)
    have len: "length (concat ?bs) = Suc (length (concat bs))"
      using arg_cong [OF m, of size] by (simp only: size_mset size_add_mset)
    have inv: "buckets_inv vt (ht_nBuckets T) bs" "distinct_keys vt (concat bs)" "ht_nItems T = length (concat bs)"
      using assms(1) c(1) by (simp_all add: ht_inv_def)
    have "\<not> EqualKeys vt ?k (node_key vt m)" if "m \<in> set (concat bs)" for m
      using in_bucket [OF assms(1) c(1) that, of ?k] L(3) [OF f] c(3,5) by blast
    then have "distinct_keys vt (?n # concat bs)"
      using inv(2) by (auto simp: distinct_keys_def node_key_def)
    then have "distinct_keys vt (concat ?bs)" by (rule distinct_keys_mset) (simp add: m)
    moreover have "buckets_inv vt (ht_nBuckets T) ?bs"
      using inv(1) c(4,5) L(4) [OF f] by (intro buckets_inv_update chain_ok_link) (auto simp: node_ok_def node_key_def)
    ultimately have inv1: "ht_inv vt ?T1"
      using assms c(1) inv(3) len by (simp add: ht_inv_def ReferenceRecord_def set_chain_def Count_def MAXDWORD_def)
    have rec: "mset (ht_records ?T1) = add_mset r (mset (ht_records T))"
      using arg_cong [OF m, of "image_mset nd_pRecord"] c(1) by (simp add: ht_records_def ReferenceRecord_def set_chain_def mset_map)
    have n1: "ht_nItems ?T1 = Suc (ht_nItems T)" using assms(2) by (simp add: Count_def MAXDWORD_def)
    have "InsertRecord vt an ab r T = RehashTableIfNeeded ab ?T1 \<bind> (\<lambda>T'. Some (S_OK, T'))"
      using True f c(6) by (simp add: InsertRecord_def Let_def)
    then show ?thesis
      using RehashTableIfNeeded_spec [OF inv1, of ab] lookup f rec n1
      by (auto simp: same_content_def Count_def ReferenceRecord_def set_chain_def elim!: returns_mono)
  qed
qed

end

subsection \<open>Deletion and references\<close>

text \<open>The references to a record beside the one the table holds for each of its entries.\<close>

definition ext_refs :: "'r HASH_TABLE \<Rightarrow> 'r \<Rightarrow> int" where
  "ext_refs T r = ht_refs T r - int (count (mset (ht_records T)) r)"

lemma same_content_ext_refs: "same_content T T' \<Longrightarrow> ext_refs T' = ext_refs T"
  by (auto simp: same_content_def ext_refs_def)

lemma fold_DereferenceRecord:
  "ht_refs (fold DereferenceRecord rs T) r = ht_refs T r - int (count (mset rs) r) \<and>
   ht_ppBuckets (fold DereferenceRecord rs T) = ht_ppBuckets T \<and> ht_nBuckets (fold DereferenceRecord rs T) = ht_nBuckets T \<and>
   ht_nItems (fold DereferenceRecord rs T) = ht_nItems T \<and> ht_lockInited (fold DereferenceRecord rs T) = ht_lockInited T"
  by (induction rs arbitrary: T) (auto simp: DereferenceRecord_def)

lemma DeleteIf_chain_filter:
  "DeleteIf_chain p c = (filter (\<lambda>n. \<not> p (nd_pRecord n)) c, map nd_pRecord (filter (\<lambda>n. p (nd_pRecord n)) c))"
  by (induction c) auto

lemma chain_ok_filter: "chain_ok vt nB b c \<Longrightarrow> chain_ok vt nB b (filter p c)"
  by (auto simp: chain_ok_def sorted_filter)

lemma distinct_keys_filter: "distinct_keys vt c \<Longrightarrow> distinct_keys vt (filter p c)"
  by (auto simp: distinct_keys_def sorted_wrt_filter)

lemma concat_map_filter: "concat (map (filter p) bs) = filter p (concat bs)"
  by (simp add: filter_concat)

lemma length_filter_split: "length (filter p xs) + length (filter (\<lambda>x. \<not> p x) xs) = length xs"
  by (induction xs) auto

lemma u32_diff: "a + b = n \<Longrightarrow> n \<le> MAXDWORD \<Longrightarrow> u32 (n + 4294967296 - a) = b"
proof -
  assume a: "a + b = n" "n \<le> MAXDWORD"
  then have "n + 4294967296 - a = b + 4294967296" by simp
  with a show ?thesis by (simp add: u32_def MAXDWORD_def)
qed

lemma concat_map_Nil [simp]: "concat (map (\<lambda>_. []) bs) = []"
  by (induction bs) auto

lemma ht_inv_chains: "ht_inv vt T \<Longrightarrow> ht_chains T = ht_ppBuckets T"
  by (auto simp: ht_inv_def ht_chains_def split: option.splits)

lemma ht_invE:
  assumes "ht_inv vt T"
  obtains bs where "ht_ppBuckets T = Some bs" "0 < ht_nBuckets T" "buckets_inv vt (ht_nBuckets T) bs"
    "distinct_keys vt (concat bs)" "ht_nItems T = length (concat bs)" "ht_nItems T \<le> MAXDWORD" "ht_lockInited T"
  using assms by (auto simp: ht_inv_def split: option.splits)

lemma DeleteIf_spec:
  assumes "ht_inv vt T"
  shows "returns (DeleteIf p T) (\<lambda>T'. ht_inv vt T' \<and> ht_records T' = filter (\<lambda>r. \<not> p r) (ht_records T) \<and>
    ext_refs T' = ext_refs T \<and> Count T' = length (ht_records T'))"
proof -
  obtain bs where bs: "ht_ppBuckets T = Some bs" "0 < ht_nBuckets T" "buckets_inv vt (ht_nBuckets T) bs"
    "distinct_keys vt (concat bs)" "ht_nItems T = length (concat bs)" "ht_nItems T \<le> MAXDWORD" "ht_lockInited T"
    by (rule ht_invE [OF assms])
  let ?q = "\<lambda>n. p (nd_pRecord n)"
  let ?keep = "map (filter (\<lambda>n. \<not> ?q n)) bs"
  let ?gone = "map nd_pRecord (filter ?q (concat bs))"
  let ?T' = "fold DereferenceRecord ?gone (T\<lparr>ht_ppBuckets := Some ?keep, ht_nItems := length (concat ?keep)\<rparr>)"
  have len: "length (filter ?q (concat bs)) + length (concat ?keep) = length (concat bs)"
    using length_filter_split [of ?q "concat bs"] by (simp only: concat_map_filter)
  then have "u32 (ht_nItems T + 4294967296 - length ?gone) = length (concat ?keep)"
    using u32_diff [of "length ?gone" "length (concat ?keep)"] bs(5,6) by simp
  moreover have "concat (map (\<lambda>c. snd (DeleteIf_chain p c)) bs) = ?gone"
    by (simp add: DeleteIf_chain_filter filter_concat map_concat comp_def)
  ultimately have res: "DeleteIf p T = Some ?T'"
    using bs(1) ht_inv_chains [OF assms] by (simp add: DeleteIf_def DeleteIf_chain_filter)
  have "buckets_inv vt (ht_nBuckets T) ?keep"
    using bs(3) by (auto simp: buckets_inv_def chain_ok_filter)
  moreover have "distinct_keys vt (concat ?keep)" using distinct_keys_filter [OF bs(4)] by (simp only: concat_map_filter)
  ultimately have "ht_inv vt ?T'"
    using bs len by (simp add: ht_inv_def fold_DereferenceRecord)
  moreover have rec: "ht_records ?T' = filter (\<lambda>r. \<not> p r) (ht_records T)"
    by (simp add: ht_records_def fold_DereferenceRecord bs(1) concat_map_filter filter_map comp_def)
  moreover have "Count ?T' = length (ht_records ?T')"
    by (simp add: ht_records_def fold_DereferenceRecord Count_def)
  moreover have "ext_refs ?T' r = ext_refs T r" for r
  proof -
    have "?gone = filter p (ht_records T)" by (simp add: ht_records_def bs(1) filter_map comp_def)
    moreover have "count (mset (ht_records T)) r = count (mset (filter p (ht_records T))) r + count (mset (filter (\<lambda>r. \<not> p r) (ht_records T))) r"
      by (induction "ht_records T") (simp_all flip: count_union add: mset_filter)
    ultimately show ?thesis
      unfolding ext_refs_def rec by (simp add: fold_DereferenceRecord)
  qed
  ultimately show ?thesis by (auto simp: res)
qed

lemma Clear_spec:
  assumes "ht_inv vt T"
  shows "returns (Clear T) (\<lambda>T'. ht_inv vt T' \<and> ht_records T' = [] \<and> ext_refs T' = ext_refs T \<and> Count T' = 0)"
proof -
  obtain bs where bs: "ht_ppBuckets T = Some bs" "0 < ht_nBuckets T" "buckets_inv vt (ht_nBuckets T) bs"
    "distinct_keys vt (concat bs)" "ht_nItems T = length (concat bs)" "ht_nItems T \<le> MAXDWORD" "ht_lockInited T"
    by (rule ht_invE [OF assms])
  let ?T' = "(fold DereferenceRecord (ht_records T) (T\<lparr>ht_ppBuckets := Some (map (\<lambda>_. []) bs)\<rparr>))\<lparr>ht_nItems := 0\<rparr>"
  have res: "Clear T = Some ?T'"
    using bs(1,7) ht_inv_chains [OF assms] by (simp add: Clear_def ht_records_def fold_map comp_def)
  have "ht_inv vt ?T'"
    using bs by (simp add: ht_inv_def fold_DereferenceRecord buckets_inv_def chain_ok_def distinct_keys_def)
  moreover have rec: "ht_records ?T' = []" by (simp add: ht_records_def fold_DereferenceRecord)
  moreover have "ext_refs ?T' = ext_refs T" unfolding ext_refs_def rec by (auto simp: fold_DereferenceRecord)
  ultimately show ?thesis by (simp add: res Count_def)
qed

context hash_key
begin

lemma DeleteKey_spec:
  assumes "ht_inv vt T"
  shows "returns (DeleteKey vt k T) (\<lambda>T'. ht_inv vt T' \<and> ext_refs T' = ext_refs T \<and>
    mset (ht_records T) = mset (ht_records T') + (case ht_lookup vt T k of None \<Rightarrow> {#} | Some r \<Rightarrow> {#r#}) \<and>
    Count T = Count T' + (case ht_lookup vt T k of None \<Rightarrow> 0 | Some r \<Rightarrow> 1))"
proof -
  obtain bs b chain f i where c: "ht_ppBuckets T = Some bs" "b < length bs" "chain = bs ! b"
    "chain_ok vt (ht_nBuckets T) b chain" "b = unat (CalcKeyHash vt k) mod ht_nBuckets T"
    "FindNodeInternal vt k (CalcKeyHash vt k) T = Some (b, chain, f, i)"
    "FindNode_loop vt k (CalcKeyHash vt k) chain = (f, i)"
    by (rule FindNodeInternal_spec [OF assms])
  note L = FindNode_loop_spec [OF c(4,7)]
  show ?thesis
  proof (cases f)
    case False
    then have "ht_lookup vt T k = None" using FindKey_spec [OF assms, of k] c(6) by (simp add: FindKey_def)
    with c(6) False assms show ?thesis by (simp add: DeleteKey_def)
  next
    case True
    let ?r = "nd_pRecord (chain ! i)"
    let ?chain = "take i chain @ drop (Suc i) chain"
    let ?T' = "(DereferenceRecord ?r (set_chain b ?chain T))\<lparr>ht_nItems := u32 (ht_nItems T + 4294967295)\<rparr>"
    have i: "i < length chain" using L(2) True by blast
    have res: "DeleteKey vt k T = Some ?T'" using c(6) True i by (simp add: DeleteKey_def)
    have look: "ht_lookup vt T k = Some ?r"
      using FindKey_spec [OF assms, of k] c(6) True i by (auto simp: FindKey_def)
    have "chain = take i chain @ chain ! i # drop (Suc i) chain" using i by (rule id_take_nth_drop)
    then have mc: "mset chain = add_mset (chain ! i) (mset ?chain)"
      by (metis mset.simps(2) mset_append union_mset_add_mset_right)
    have m: "mset (concat bs) = add_mset (chain ! i) (mset (concat (bs[b := ?chain])))"
      using mset_concat_update [OF c(2), of ?chain] mc c(3) by simp
    have inv: "buckets_inv vt (ht_nBuckets T) bs" "distinct_keys vt (concat bs)" "0 < ht_nBuckets T"
      "ht_nItems T = length (concat bs)" "length (concat bs) \<le> MAXDWORD" "ht_lockInited T"
      using assms c(1) by (auto elim: ht_invE)
    have "distinct_keys vt (chain ! i # concat (bs[b := ?chain]))"
      using inv(2) by (rule distinct_keys_mset) (simp only: m mset.simps)
    then have "distinct_keys vt (concat (bs[b := ?chain]))" by (simp add: distinct_keys_def)
    moreover have "chain_ok vt (ht_nBuckets T) b ?chain"
    proof -
      have "sorted (map nd_dwHash (take i chain @ chain ! i # drop (Suc i) chain))"
        using c(4) i by (simp flip: id_take_nth_drop add: chain_ok_def)
      then have "sorted (map nd_dwHash ?chain)" by (simp add: sorted_append)
      with c(4) show ?thesis by (auto simp: chain_ok_def dest: in_set_takeD in_set_dropD)
    qed
    moreover have len: "length (concat bs) = Suc (length (concat (bs[b := ?chain])))"
      using arg_cong [OF m, of size] by (simp only: size_mset size_add_mset)
    moreover have n: "u32 (ht_nItems T + 4294967295) = length (concat (bs[b := ?chain]))"
      using len inv(4,5) by (simp add: u32_def MAXDWORD_def)
    ultimately have "ht_inv vt ?T'"
      using inv c(1) by (simp add: ht_inv_def DereferenceRecord_def set_chain_def buckets_inv_update)
    moreover have rec: "mset (ht_records T) = add_mset ?r (mset (ht_records ?T'))"
      using arg_cong [OF m, of "image_mset nd_pRecord"] c(1)
      by (simp add: ht_records_def DereferenceRecord_def set_chain_def mset_map)
    moreover have "ext_refs ?T' = ext_refs T"
      unfolding ext_refs_def rec by (auto simp: DereferenceRecord_def set_chain_def)
    moreover have "Count T = Suc (Count ?T')" using n len inv(4) by (simp add: Count_def)
    ultimately show ?thesis by (simp add: res look)
  qed
qed

end

subsection \<open>The table as a finite map\<close>

context hash_key
begin

lemma ht_lookup_mset_cong:
  assumes "ht_inv vt T" "ht_inv vt T'" "mset (ht_records T') = mset (ht_records T)"
  shows "ht_lookup vt T' = ht_lookup vt T"
proof
  fix k
  have "set (ht_records T') = set (ht_records T)" using assms(3) by (metis set_mset_mset)
  then show "ht_lookup vt T' k = ht_lookup vt T k"
    by (intro ht_lookup_eqI [OF assms(2)]) (simp add: ht_lookup_iff [OF assms(1)])
qed

lemma InsertRecord_lookup:
  assumes "ht_inv vt T" "Count T < MAXDWORD"
  shows "returns (InsertRecord vt an ab r T) (\<lambda>(hr, T'). ht_inv vt T' \<and> ext_refs T' = ext_refs T \<and>
    (an \<longrightarrow> SUCCEEDED hr = (ht_lookup vt T (ExtractKey vt r) = None)) \<and>
    (if SUCCEEDED hr then ht_lookup vt T (ExtractKey vt r) = None \<and> Count T' = Suc (Count T) \<and>
       ht_lookup vt T' = (\<lambda>k. if EqualKeys vt k (ExtractKey vt r) then Some r else ht_lookup vt T k)
     else T' = T))"
proof -
  obtain hr T' where res: "InsertRecord vt an ab r T = Some (hr, T')" "ht_inv vt T'"
    and c: "if SUCCEEDED hr then ht_lookup vt T (ExtractKey vt r) = None \<and> mset (ht_records T') = add_mset r (mset (ht_records T)) \<and>
       ht_refs T' = (ht_refs T)(r := ht_refs T r + 1) \<and> Count T' = Suc (Count T) else T' = T"
    and hr: "an \<longrightarrow> hr = (if ht_lookup vt T (ExtractKey vt r) = None then S_OK else HRESULT_FROM_WIN32 ERROR_ALREADY_EXISTS)"
    by (rule returnsE [OF InsertRecord_spec [OF assms, of an ab r]]) (elim case_prodE conjE, rule that, simp_all only: prod.case conj_assoc)
  have "an \<longrightarrow> SUCCEEDED hr = (ht_lookup vt T (ExtractKey vt r) = None)" using hr by auto
  moreover have "ext_refs T' = ext_refs T"
  proof (cases "SUCCEEDED hr")
    case True
    then have "mset (ht_records T') = add_mset r (mset (ht_records T))" "ht_refs T' = (ht_refs T)(r := ht_refs T r + 1)"
      using c by simp_all
    then show ?thesis by (simp add: ext_refs_def fun_eq_iff)
  qed (use c in simp)
  moreover have "ht_lookup vt T' k = (if EqualKeys vt k (ExtractKey vt r) then Some r else ht_lookup vt T k)"
    if s: "SUCCEEDED hr" for k
  proof (rule ht_lookup_eqI [OF res(2)])
    fix q
    have m0: "mset (ht_records T') = add_mset r (mset (ht_records T))" using c s by simp
    have m: "set (ht_records T') = insert r (set (ht_records T))" "ht_lookup vt T (ExtractKey vt r) = None"
      using arg_cong [OF m0, of set_mset] by simp (use c s in simp)
    have no: "\<not> EqualKeys vt (ExtractKey vt r) (ExtractKey vt q)" if "q \<in> set (ht_records T)"
      using that m(2) ht_lookup_iff [OF assms(1), of "ExtractKey vt r" q] by auto
    have "EqualKeys vt k (ExtractKey vt q) \<Longrightarrow> EqualKeys vt k (ExtractKey vt r) \<Longrightarrow> EqualKeys vt (ExtractKey vt r) (ExtractKey vt q)"
      by (meson eq_sym eq_trans)
    then show "(q \<in> set (ht_records T') \<and> EqualKeys vt k (ExtractKey vt q)) =
       ((if EqualKeys vt k (ExtractKey vt r) then Some r else ht_lookup vt T k) = Some q)"
      using no m(1) ht_lookup_iff [OF assms(1), of k q] by (auto split: if_splits)
  qed
  ultimately show ?thesis using res c by auto
qed

lemma DeleteKey_lookup:
  assumes "ht_inv vt T"
  shows "returns (DeleteKey vt k T) (\<lambda>T'. ht_inv vt T' \<and> ext_refs T' = ext_refs T \<and> Count T' \<le> Count T \<and>
    Count T = Count T' + (case ht_lookup vt T k of None \<Rightarrow> 0 | Some r \<Rightarrow> 1) \<and>
    ht_lookup vt T' = (\<lambda>l. if EqualKeys vt l k then None else ht_lookup vt T l))"
proof -
  obtain T' where res: "DeleteKey vt k T = Some T'" "ht_inv vt T'" "ext_refs T' = ext_refs T"
    and c: "mset (ht_records T) = mset (ht_records T') + (case ht_lookup vt T k of None \<Rightarrow> {#} | Some r \<Rightarrow> {#r#})"
      "Count T = Count T' + (case ht_lookup vt T k of None \<Rightarrow> 0 | Some r \<Rightarrow> 1)"
    using DeleteKey_spec [OF assms, of k] by (auto elim: returnsE)
  have s: "set (ht_records T) = set (ht_records T') \<union> (case ht_lookup vt T k of None \<Rightarrow> {} | Some r \<Rightarrow> {r})"
    using arg_cong [OF c(1), of set_mset] by (simp split: option.splits)
  have gone: "\<not> EqualKeys vt k (ExtractKey vt q)" if "q \<in> set (ht_records T')" for q
  proof
    assume e: "EqualKeys vt k (ExtractKey vt q)"
    then have q: "ht_lookup vt T k = Some q" "ht_lookup vt T' k = Some q"
      using that s by (simp_all add: ht_lookup_iff [OF assms] ht_lookup_iff [OF res(2)])
    obtain bs where bs: "ht_ppBuckets T = Some bs" "distinct_keys vt (concat bs)" using assms by (auto elim: ht_invE)
    have "sorted_wrt (\<lambda>a b. \<not> EqualKeys vt (ExtractKey vt a) (ExtractKey vt b)) (ht_records T)"
      using bs by (simp add: ht_records_def distinct_keys_def sorted_wrt_map node_key_def)
    then have "sorted_wrt (\<lambda>a b. \<not> EqualKeys vt (ExtractKey vt a) (ExtractKey vt b)) (q # ht_records T')"
      using sorted_wrt_mset [of "\<lambda>a b. \<not> EqualKeys vt (ExtractKey vt a) (ExtractKey vt b)" "ht_records T" "q # ht_records T'"]
        c(1) q(1) by (auto simp: symp_def dest: eq_sym)
    then show False using that eq_refl by auto
  qed
  have "ht_lookup vt T' l = (if EqualKeys vt l k then None else ht_lookup vt T l)" for l
  proof (rule ht_lookup_eqI [OF res(2)])
    fix q
    have "EqualKeys vt l k \<Longrightarrow> EqualKeys vt l (ExtractKey vt q) \<Longrightarrow> EqualKeys vt k (ExtractKey vt q)"
      by (meson eq_sym eq_trans)
    moreover have "ht_lookup vt T k = Some q \<Longrightarrow> EqualKeys vt l (ExtractKey vt q) \<Longrightarrow> EqualKeys vt l k"
      unfolding ht_lookup_iff [OF assms] by (meson eq_sym eq_trans)
    ultimately show "(q \<in> set (ht_records T') \<and> EqualKeys vt l (ExtractKey vt q)) =
       ((if EqualKeys vt l k then None else ht_lookup vt T l) = Some q)"
      using gone [of q] s ht_lookup_iff [OF assms, of l q] by (auto split: if_splits option.splits)
  qed
  then show ?thesis using res c(2) by auto
qed

end

subsection \<open>The interface of the table's clients\<close>

text \<open>
  What the users of a table rely on: lookups after an insertion and a deletion, and that no
  operation changes the references held beside the table's own.
\<close>

locale record_table =
  fixes inv :: "'s \<Rightarrow> bool" and room :: "'s \<Rightarrow> bool"
    and lookup :: "'s \<Rightarrow> 'k \<Rightarrow> 'r option"
    and refs :: "'s \<Rightarrow> 'r \<Rightarrow> int"
    and key_of :: "'r \<Rightarrow> 'k" and same :: "'k \<Rightarrow> 'k \<Rightarrow> bool"
    and insert_rec :: "'r \<Rightarrow> 's \<Rightarrow> (HRESULT \<times> 's) option"
    and delete_key :: "'k \<Rightarrow> 's \<Rightarrow> 's option"
  assumes insert_law: "inv s \<Longrightarrow> room s \<Longrightarrow> returns (insert_rec r s) (\<lambda>(hr, s'). inv s' \<and> refs s' = refs s \<and>
      (if SUCCEEDED hr then lookup s (key_of r) = None \<and>
         lookup s' = (\<lambda>k. if same k (key_of r) then Some r else lookup s k)
       else s' = s))"
    and delete_law: "inv s \<Longrightarrow> returns (delete_key k s) (\<lambda>s'. inv s' \<and> refs s' = refs s \<and> (room s \<longrightarrow> room s') \<and>
      lookup s' = (\<lambda>l. if same l k then None else lookup s l))"
begin

text \<open>Wiping off an entry and adding another one with the same key.\<close>

definition replace :: "'r \<Rightarrow> 's \<Rightarrow> (HRESULT \<times> 's) option" where
  "replace r s = do { s' \<leftarrow> delete_key (key_of r) s; insert_rec r s' }"

lemma replace_spec:
  assumes "inv s" "room s"
  shows "returns (replace r s) (\<lambda>(hr, s'). inv s' \<and> refs s' = refs s \<and>
    lookup s' = (\<lambda>k. if same k (key_of r) then (if SUCCEEDED hr then Some r else None) else lookup s k))"
proof -
  obtain s1 where s1: "delete_key (key_of r) s = Some s1" "inv s1" "refs s1 = refs s" "room s1"
    "lookup s1 = (\<lambda>l. if same l (key_of r) then None else lookup s l)"
    using delete_law [OF assms(1), of "key_of r"] assms(2) by (auto elim: returnsE)
  obtain hr s2 where s2: "insert_rec r s1 = Some (hr, s2)" "inv s2" "refs s2 = refs s1"
    "if SUCCEEDED hr then lookup s2 = (\<lambda>k. if same k (key_of r) then Some r else lookup s1 k) else s2 = s1"
    using insert_law [OF s1(2,4), of r] by (auto elim!: returnsE split: if_splits)
  have "lookup s2 = (\<lambda>k. if same k (key_of r) then (if SUCCEEDED hr then Some r else None) else lookup s k)"
    using s2(4) s1(5) by (cases "FAILED hr") auto
  with s1 s2 show ?thesis by (simp add: replace_def)
qed

end

sublocale hash_key \<subseteq> table: record_table "ht_inv vt" "\<lambda>T. Count T < MAXDWORD" "ht_lookup vt" ext_refs
  "ExtractKey vt" "EqualKeys vt" "InsertRecord vt an ab" "DeleteKey vt" for an ab
proof
  show "returns (InsertRecord vt an ab r T) (\<lambda>(hr, T'). ht_inv vt T' \<and> ext_refs T' = ext_refs T \<and>
      (if SUCCEEDED hr then ht_lookup vt T (ExtractKey vt r) = None \<and>
         ht_lookup vt T' = (\<lambda>k. if EqualKeys vt k (ExtractKey vt r) then Some r else ht_lookup vt T k)
       else T' = T))" if "ht_inv vt T" "Count T < MAXDWORD" for T r
    using InsertRecord_lookup [OF that, of an ab r] by (auto elim!: returns_mono)
  show "returns (DeleteKey vt k T) (\<lambda>T'. ht_inv vt T' \<and> ext_refs T' = ext_refs T \<and>
      (Count T < MAXDWORD \<longrightarrow> Count T' < MAXDWORD) \<and>
      ht_lookup vt T' = (\<lambda>l. if EqualKeys vt l k then None else ht_lookup vt T l))" if "ht_inv vt T" for T k
    using DeleteKey_lookup [OF that, of k] by (auto elim!: returns_mono)
qed

subsection \<open>Properties of the table\<close>

text \<open>A table of numbers under themselves, for the witnesses.\<close>

definition id_vt :: "(DWORD, DWORD) vtable" where
  "id_vt = \<lparr>ExtractKey = id, CalcKeyHash = id, EqualKeys = (=)\<rparr>"

lemma hash_key_id_vt: "hash_key id_vt"
  by unfold_locales (simp_all add: id_vt_def)

lemma Initialize_spec:
  assumes "0 < n" "n < MAXDWORD div sizeof_ptr" "SUCCEEDED lock_hr"
  shows "\<exists>T. Initialize lock_hr True n HASH_TABLE_new = (S_OK, T) \<and> ht_inv vt T \<and> ht_records T = [] \<and> ht_refs T = (\<lambda>_. 0)"
proof -
  have "concat (replicate m ([] :: 'r HASH_NODE list)) = []" for m :: nat by (induction m) auto
  then show ?thesis
    using assms buckets_inv_empty [of vt n]
    by (simp add: Initialize_def HASH_TABLE_new_def ht_inv_def ht_records_def distinct_keys_def Let_def MAXDWORD_def)
qed

definition three_table :: "DWORD HASH_TABLE" where
  "three_table = snd (Initialize S_OK True 3 HASH_TABLE_new)"

lemma three_table_eq: "three_table =
    \<lparr>ht_ppBuckets = Some [[], [], []], ht_nBuckets = 3, ht_nItems = 0, ht_lockInited = True, ht_refs = (\<lambda>_. 0)\<rparr>"
  by (simp add: three_table_def Initialize_def Let_def HASH_TABLE_new_def MAXDWORD_def sizeof_ptr_def numeral_3_eq_3)

lemma three_table_ok [simp]: "ht_inv id_vt three_table" "Count three_table = 0" "ht_records three_table = []"
  using Initialize_spec [of 3 S_OK id_vt]
  by (auto simp: three_table_def sizeof_ptr_def MAXDWORD_def Initialize_def HASH_TABLE_new_def Count_def Let_def)

text \<open>
  C4: the table is a finite map from keys to records. Under its invariant \<open>FindKey\<close> returns the
  record of the key and takes a reference to it; \<open>InsertRecord\<close> adds a record exactly when its key is
  new and otherwise changes nothing; \<open>DeleteKey\<close> removes exactly the records of the key. All keep the
  invariant, the number of items and the balance of references, and no operation leaves a chain or
  the bucket array.
\<close>

theorem hash_table_refines_map:
  assumes "hash_key vt" "ht_inv vt T" "Count T < MAXDWORD"
  shows "FindKey vt k T = Some (ht_lookup vt T k, case ht_lookup vt T k of None \<Rightarrow> T | Some r \<Rightarrow> ReferenceRecord r T) \<and>
    returns (InsertRecord vt an ab r T) (\<lambda>(hr, T'). ht_inv vt T' \<and> ext_refs T' = ext_refs T \<and>
      (an \<longrightarrow> SUCCEEDED hr = (ht_lookup vt T (ExtractKey vt r) = None)) \<and>
      (if SUCCEEDED hr then ht_lookup vt T (ExtractKey vt r) = None \<and> Count T' = Suc (Count T) \<and>
         ht_lookup vt T' = (\<lambda>k. if EqualKeys vt k (ExtractKey vt r) then Some r else ht_lookup vt T k)
       else T' = T)) \<and>
    returns (DeleteKey vt k T) (\<lambda>T'. ht_inv vt T' \<and> ext_refs T' = ext_refs T \<and> Count T' \<le> Count T \<and>
      Count T = Count T' + (case ht_lookup vt T k of None \<Rightarrow> 0 | Some r \<Rightarrow> 1) \<and>
      ht_lookup vt T' = (\<lambda>l. if EqualKeys vt l k then None else ht_lookup vt T l))"
  using hash_key.FindKey_spec [OF assms(1,2)] hash_key.InsertRecord_lookup [OF assms] hash_key.DeleteKey_lookup [OF assms(1,2)]
  by blast

lemma hash_table_refines_map_witness:
  "FindKey id_vt 5 three_table = Some (ht_lookup id_vt three_table 5, case ht_lookup id_vt three_table 5 of None \<Rightarrow> three_table | Some r \<Rightarrow> ReferenceRecord r three_table) \<and>
    returns (InsertRecord id_vt True True 5 three_table) (\<lambda>(hr, T'). ht_inv id_vt T' \<and> ext_refs T' = ext_refs three_table \<and>
      (True \<longrightarrow> SUCCEEDED hr = (ht_lookup id_vt three_table (ExtractKey id_vt 5) = None)) \<and>
      (if SUCCEEDED hr then ht_lookup id_vt three_table (ExtractKey id_vt 5) = None \<and> Count T' = Suc (Count three_table) \<and>
         ht_lookup id_vt T' = (\<lambda>k. if EqualKeys id_vt k (ExtractKey id_vt 5) then Some 5 else ht_lookup id_vt three_table k)
       else T' = three_table)) \<and>
    returns (DeleteKey id_vt 5 three_table) (\<lambda>T'. ht_inv id_vt T' \<and> ext_refs T' = ext_refs three_table \<and> Count T' \<le> Count three_table \<and>
      Count three_table = Count T' + (case ht_lookup id_vt three_table 5 of None \<Rightarrow> 0 | Some r \<Rightarrow> 1) \<and>
      ht_lookup id_vt T' = (\<lambda>l. if EqualKeys id_vt l 5 then None else ht_lookup id_vt three_table l))"
  by (rule hash_table_refines_map) (simp_all add: hash_key_id_vt MAXDWORD_def)

text \<open>
  C22: growing the table moves every record into the bucket its hash belongs to: the invariant holds
  for the new number of buckets and the records, their number and their references are the old ones,
  so every lookup is unchanged.
\<close>

theorem RehashTableIfNeeded_correct:
  assumes "hash_key vt" "ht_inv vt T"
  shows "returns (RehashTableIfNeeded alloc T) (\<lambda>T'. ht_inv vt T' \<and> mset (ht_records T') = mset (ht_records T) \<and>
    ht_refs T' = ht_refs T \<and> Count T' = Count T \<and> ht_lookup vt T' = ht_lookup vt T)"
  using hash_key.RehashTableIfNeeded_spec [OF assms, of alloc] hash_key.ht_lookup_mset_cong [OF assms]
  by (auto simp: same_content_def Count_def elim!: returns_mono)

lemma RehashTableIfNeeded_correct_witness:
  "returns (RehashTableIfNeeded True three_table) (\<lambda>T'. ht_inv id_vt T' \<and> mset (ht_records T') = mset (ht_records three_table) \<and>
    ht_refs T' = ht_refs three_table \<and> Count T' = Count three_table \<and> ht_lookup id_vt T' = ht_lookup id_vt three_table)"
  by (rule RehashTableIfNeeded_correct) (simp_all add: hash_key_id_vt)

text \<open>
  C28: \<open>DeleteIf\<close> keeps exactly the records the predicate rejects, in their order, \<open>Clear\<close> leaves an
  empty table, and \<open>Apply\<close> calls the callback once for every record; each removed record is
  dereferenced once.
\<close>

theorem DeleteIf_Clear_Apply_correct:
  assumes "ht_inv vt T"
  shows "returns (DeleteIf p T) (\<lambda>T'. ht_inv vt T' \<and> ht_records T' = filter (\<lambda>r. \<not> p r) (ht_records T) \<and>
      ext_refs T' = ext_refs T \<and> Count T' = length (ht_records T')) \<and>
    returns (Clear T) (\<lambda>T'. ht_inv vt T' \<and> ht_records T' = [] \<and> ext_refs T' = ext_refs T \<and> Count T' = 0) \<and>
    Apply f T s = Some (fold f (ht_records T) s)"
proof (intro conjI)
  obtain bs where "ht_ppBuckets T = Some bs" by (rule ht_invE [OF assms])
  then show "Apply f T s = Some (fold f (ht_records T) s)"
    using ht_inv_chains [OF assms] by (simp add: Apply_def ht_records_def fold_map comp_def)
qed (rule DeleteIf_spec [OF assms] Clear_spec [OF assms])+

lemma DeleteIf_Clear_Apply_correct_witness:
  "returns (DeleteIf (\<lambda>r. r = 3) three_table) (\<lambda>T'. ht_inv id_vt T' \<and> ht_records T' = filter (\<lambda>r. \<not> r = 3) (ht_records three_table) \<and>
      ext_refs T' = ext_refs three_table \<and> Count T' = length (ht_records T')) \<and>
    returns (Clear three_table) (\<lambda>T'. ht_inv id_vt T' \<and> ht_records T' = [] \<and> ext_refs T' = ext_refs three_table \<and> Count T' = 0) \<and>
    Apply (\<lambda>r n. n + 1) three_table (0 :: nat) = Some (fold (\<lambda>r n. n + 1) (ht_records three_table) 0)"
  by (rule DeleteIf_Clear_Apply_correct) simp

text \<open>
  C29: a new table is empty and satisfies the invariant after its initialisation. Initialising a
  table in use fails, but the failure path frees the bucket array: every record is lost while the
  count and the number of buckets stay, and the next lookup goes through the NULL array.
\<close>

theorem Initialize_correct:
  assumes "0 < n" "n < MAXDWORD div sizeof_ptr" "SUCCEEDED lock_hr"
  shows "(\<exists>T. Initialize lock_hr True n HASH_TABLE_new = (S_OK, T) \<and> ht_inv vt T \<and> ht_records T = [] \<and> ht_refs T = (\<lambda>_. 0)) \<and>
    (ht_ppBuckets U \<noteq> None \<longrightarrow> (\<exists>U'. Initialize lock_hr True n U = (E_INVALIDARG, U') \<and>
       ht_records U' = [] \<and> Count U' = Count U \<and> ht_refs U' = ht_refs U \<and> FindKey vt k U' = None))"
  using Initialize_spec [OF assms, of vt] assms
  by (auto simp: Initialize_def Let_def ht_records_def Count_def FindKey_def FindNodeInternal_def)

lemma Initialize_correct_witness:
  "\<exists>U'. Initialize S_OK True 37 three_table = (E_INVALIDARG, U') \<and>
       ht_records U' = [] \<and> Count U' = Count three_table \<and> ht_refs U' = ht_refs three_table \<and> FindKey id_vt 5 U' = None"
  using Initialize_correct [of 37 S_OK id_vt three_table 5] by (simp add: MAXDWORD_def sizeof_ptr_def three_table_eq)

end
