(* ===== verification/HashConc.thy ===== *)
theory HashConc
  imports HashTable
begin

section \<open>Concurrent insertion (IISLib/hashtable.h)\<close>

text \<open>
  \<open>InsertRecord\<close> takes the table lock only in shared mode: several threads search the chains and link
  their nodes with \<open>InterlockedCompareExchangePointer\<close> at the same time. A thread's progress is a
  value of \<open>insert_pc\<close>; one step is one access to shared memory. \<open>ppPreviousNodeNextPointer\<close> is the
  node whose next pointer it is (\<open>None\<close> for the bucket), \<open>pNextNode\<close> the node (or NULL) read through
  it. Deletion and rehashing take the lock exclusively and cannot interleave with these steps.
\<close>

subsection \<open>Steps\<close>

datatype 'r insert_pc =
    Start 'r
  | Walk 'r nat "'r HASH_NODE option" "'r HASH_NODE option"
  | Linked 'r
  | Referenced 'r
  | Finished 'r HRESULT

fun next_of :: "'n list \<Rightarrow> 'n option \<Rightarrow> 'n option" where
  "next_of [] p = None"
| "next_of (x # xs) None = Some x"
| "next_of (x # xs) (Some p) = (if x = p then next_of xs None else next_of xs (Some p))"

fun link_after :: "'n \<Rightarrow> 'n option \<Rightarrow> 'n list \<Rightarrow> 'n list" where
  "link_after n None c = n # c"
| "link_after n (Some p) [] = []"
| "link_after n (Some p) (x # xs) = (if x = p then x # n # xs else x # link_after n (Some p) xs)"

text \<open>The compare-exchange: the node is linked if the pointer still is what the search read.\<close>

definition cas_link :: "'r \<Rightarrow> DWORD \<Rightarrow> nat \<Rightarrow> 'r HASH_NODE option \<Rightarrow> 'r HASH_NODE option \<Rightarrow>
    'r HASH_NODE list \<Rightarrow> 'r HASH_TABLE \<Rightarrow> 'r insert_pc \<times> 'r HASH_TABLE" where
  "cas_link r dwHash b pPrev pNextNode chain T =
     (if next_of chain pPrev = pNextNode
      then (Linked r, set_chain b (link_after \<lparr>nd_pRecord = r, nd_dwHash = dwHash\<rparr> pPrev chain) T)
      else (Start r, T))"

definition insert_step :: "('r, 'k) vtable \<Rightarrow> 'r insert_pc \<Rightarrow> 'r HASH_TABLE \<Rightarrow>
    ('r insert_pc \<times> 'r HASH_TABLE) option" where
  "insert_step vt pc T =
     (case pc of
        Start r \<Rightarrow> do {
          bs \<leftarrow> ht_ppBuckets T;
          chain \<leftarrow> load_at bs (unat (CalcKeyHash vt (ExtractKey vt r)) mod ht_nBuckets T);
          Some (Walk r (unat (CalcKeyHash vt (ExtractKey vt r)) mod ht_nBuckets T) None (next_of chain None), T)
        }
      | Walk r b pPrev pNode \<Rightarrow> do {
          bs \<leftarrow> ht_ppBuckets T;
          chain \<leftarrow> load_at bs b;
          (let key = ExtractKey vt r; dwHash = CalcKeyHash vt key
           in case pNode of
                None \<Rightarrow> Some (cas_link r dwHash b pPrev pNode chain T)
              | Some n \<Rightarrow>
                  if nd_dwHash n = dwHash \<and> EqualKeys vt key (ExtractKey vt (nd_pRecord n))
                  then Some (Finished r (HRESULT_FROM_WIN32 ERROR_ALREADY_EXISTS), T)
                  else if dwHash < nd_dwHash n then Some (cas_link r dwHash b pPrev pNode chain T)
                  else Some (Walk r b (Some n) (next_of chain (Some n)), T))
        }
      | Linked r \<Rightarrow> Some (Referenced r, ReferenceRecord r T)
      | Referenced r \<Rightarrow> Some (Finished r S_OK, T\<lparr>ht_nItems := u32 (ht_nItems T + 1)\<rparr>)
      | Finished r hr \<Rightarrow> None)"

record 'r inserting =
  in_table :: "'r HASH_TABLE"
  in_threads :: "'r insert_pc list"

inductive conc_step :: "('r, 'k) vtable \<Rightarrow> 'r inserting \<Rightarrow> 'r inserting \<Rightarrow> bool" for vt where
  step: "t < length (in_threads s) \<Longrightarrow> insert_step vt (in_threads s ! t) (in_table s) = Some (pc, T) \<Longrightarrow>
    conc_step vt s \<lparr>in_table = T, in_threads = (in_threads s)[t := pc]\<rparr>"

inductive conc_reachable :: "('r, 'k) vtable \<Rightarrow> 'r inserting \<Rightarrow> 'r inserting \<Rightarrow> bool" for vt s0 where
  init: "conc_reachable vt s0 s0"
| more: "conc_reachable vt s0 s \<Longrightarrow> conc_step vt s s' \<Longrightarrow> conc_reachable vt s0 s'"

inductive_cases conc_stepE: "conc_step vt s s'"

subsection \<open>Invariant\<close>

text \<open>
  A walking thread has passed only nodes with other keys and with hashes that are not larger than
  its own, up to and including the node \<open>pPrev\<close>; nodes that were linked between \<open>pPrev\<close> and the node
  read next have smaller hashes than the latter.
\<close>

fun passed :: "'n option \<Rightarrow> 'n list \<Rightarrow> 'n list" where
  "passed None c = []"
| "passed (Some p) [] = []"
| "passed (Some p) (x # xs) = (if x = p then [x] else x # passed (Some p) xs)"

fun pc_ok :: "('r, 'k) vtable \<Rightarrow> nat \<Rightarrow> 'r HASH_NODE list list \<Rightarrow> 'r insert_pc \<Rightarrow> bool" where
  "pc_ok vt nB bs (Walk r b pPrev pNode) \<longleftrightarrow>
     b = unat (CalcKeyHash vt (ExtractKey vt r)) mod nB \<and> set_option pPrev \<union> set_option pNode \<subseteq> set (bs ! b) \<and>
     (\<forall>n \<in> set (passed pPrev (bs ! b)). \<not> EqualKeys vt (ExtractKey vt r) (node_key vt n) \<and>
        nd_dwHash n \<le> CalcKeyHash vt (ExtractKey vt r)) \<and>
     (\<forall>n. pNode = Some n \<longrightarrow> (\<forall>m \<in> set (passed (Some n) (bs ! b)).
        m = n \<or> m \<in> set (passed pPrev (bs ! b)) \<or> nd_dwHash m < nd_dwHash n))"
| "pc_ok vt nB bs (Finished r hr) \<longleftrightarrow>
     hr = S_OK \<or> hr = HRESULT_FROM_WIN32 ERROR_ALREADY_EXISTS \<and>
       (\<exists>n \<in> set (concat bs). EqualKeys vt (ExtractKey vt r) (node_key vt n))"
| "pc_ok vt nB bs pc \<longleftrightarrow> True"

fun linked_record :: "'r insert_pc \<Rightarrow> 'r multiset" where
  "linked_record (Linked r) = {#r#}"
| "linked_record (Referenced r) = {#r#}"
| "linked_record (Finished r hr) = (if hr = S_OK then {#r#} else {#})"
| "linked_record pc = {#}"

fun referenced_record :: "'r insert_pc \<Rightarrow> 'r multiset" where
  "referenced_record (Referenced r) = {#r#}"
| "referenced_record (Finished r hr) = (if hr = S_OK then {#r#} else {#})"
| "referenced_record pc = {#}"

fun counted_record :: "'r insert_pc \<Rightarrow> 'r multiset" where
  "counted_record (Finished r hr) = (if hr = S_OK then {#r#} else {#})"
| "counted_record pc = {#}"

definition sum_threads :: "('r insert_pc \<Rightarrow> 'r multiset) \<Rightarrow> 'r insert_pc list \<Rightarrow> 'r multiset" where
  "sum_threads f pcs = sum_list (map f pcs)"

definition conc_inv :: "('r, 'k) vtable \<Rightarrow> 'r HASH_TABLE \<Rightarrow> 'r inserting \<Rightarrow> bool" where
  "conc_inv vt T0 s \<longleftrightarrow> (case ht_ppBuckets (in_table s) of None \<Rightarrow> False
     | Some bs \<Rightarrow>
         0 < ht_nBuckets (in_table s) \<and> buckets_inv vt (ht_nBuckets (in_table s)) bs \<and> distinct_keys vt (concat bs) \<and>
         ht_lockInited (in_table s) \<and>
         (\<forall>pc \<in> set (in_threads s). pc_ok vt (ht_nBuckets (in_table s)) bs pc) \<and>
         mset (map nd_pRecord (concat bs)) = mset (ht_records T0) + sum_threads linked_record (in_threads s) \<and>
         (\<forall>r. ht_refs (in_table s) r = ht_refs T0 r + int (count (sum_threads referenced_record (in_threads s)) r)) \<and>
         ht_nItems (in_table s) = ht_nItems T0 + size (sum_threads counted_record (in_threads s)) \<and>
         ht_nItems T0 + length (in_threads s) \<le> MAXDWORD)"

subsection \<open>Every step keeps the invariant\<close>

lemma bucket_hash:
  assumes "buckets_inv vt nB bs" "i < length bs" "m \<in> set (bs ! i)"
  shows "nd_dwHash m = CalcKeyHash vt (node_key vt m)" "unat (nd_dwHash m) mod nB = i"
proof -
  have "node_ok vt nB i m" using assms by (simp add: buckets_inv_def chain_ok_def)
  then show "nd_dwHash m = CalcKeyHash vt (node_key vt m)" "unat (nd_dwHash m) mod nB = i"
    unfolding node_ok_def by blast+
qed

lemma sum_threads_update:
  "t < length pcs \<Longrightarrow> sum_threads f (pcs[t := pc]) + f (pcs ! t) = sum_threads f pcs + f pc"
  unfolding sum_threads_def
  by (induction pcs arbitrary: t) (auto simp: less_Suc_eq_0_disj ac_simps)

lemma size_sum_threads: "size (sum_threads counted_record pcs) \<le> length pcs"
proof (induction pcs)
  case (Cons pc pcs)
  then show ?case by (cases pc) (auto simp: sum_threads_def)
qed (simp add: sum_threads_def)

lemma next_of_in: "next_of c p = Some n \<Longrightarrow> n \<in> set c"
  by (induction c p rule: next_of.induct) (auto split: if_splits)

lemma passed_next: "distinct c \<Longrightarrow> next_of c p = Some n \<Longrightarrow> set_option p \<subseteq> set c \<Longrightarrow>
   set (passed (Some n) c) = insert n (set (passed p c))"
proof (induction c p rule: next_of.induct)
  case (3 x xs p)
  have "n \<in> set xs" using "3.prems"(2) by (auto split: if_splits dest: next_of_in)
  with "3.prems"(1) have nx: "x \<noteq> n" by auto
  show ?case
  proof (cases "x = p")
    case True
    with 3 obtain ys where "xs = n # ys" by (cases xs) auto
    with True nx show ?thesis by (simp add: insert_commute)
  next
    case False
    with 3 nx show ?thesis by auto
  qed
qed auto

lemma mset_link_after: "set_option p \<subseteq> set c \<Longrightarrow> mset (link_after n p c) = add_mset n (mset c)"
  by (induction n p c rule: link_after.induct) auto

lemma link_after_split:
  assumes "distinct c" "set_option p \<subseteq> set c"
  shows "\<exists>us vs. c = us @ vs \<and> link_after n p c = us @ n # vs \<and> us = passed p c \<and>
    next_of c p = (case vs of [] \<Rightarrow> None | v # _ \<Rightarrow> Some v)"
  using assms
proof (induction n p c rule: link_after.induct)
  case (1 n c)
  then show ?case by (cases c) auto
next
  case (3 n p x xs)
  show ?case
  proof (cases "x = p")
    case True
    then show ?thesis by (intro exI [of _ "[x]"] exI [of _ xs]) (cases xs, auto)
  next
    case False
    with 3 obtain us vs where "xs = us @ vs" "link_after n (Some p) xs = us @ n # vs" "us = passed (Some p) xs"
      "next_of xs (Some p) = (case vs of [] \<Rightarrow> None | v # _ \<Rightarrow> Some v)" by auto
    with False show ?thesis by (intro exI [of _ "x # us"] exI [of _ vs]) auto
  qed
qed auto

lemma passed_append: "p \<in> set us \<Longrightarrow> passed (Some p) (us @ vs) = passed (Some p) us"
  "p \<notin> set us \<Longrightarrow> passed (Some p) (us @ vs) = us @ passed (Some p) vs"
  by (induction us) auto

lemma set_passed: "set (passed p c) \<subseteq> set c"
  by (induction p c rule: passed.induct) auto

lemma distinct_keys_distinct:
  assumes "hash_key vt" "distinct_keys vt ns"
  shows "distinct ns"
  using assms(2) hash_key.eq_refl [OF assms(1)] by (induction ns) (auto simp: distinct_keys_def)

lemma distinct_keys_bucket:
  assumes "distinct_keys vt (concat bs)" "b < length bs"
  shows "distinct_keys vt (bs ! b)"
proof -
  have "concat bs = concat (take b bs) @ bs ! b @ concat (drop (Suc b) bs)"
    using assms(2) by (metis concat.simps(2) concat_append id_take_nth_drop)
  with assms(1) show ?thesis by (simp add: distinct_keys_def sorted_wrt_append)
qed

lemma passed_link_split:
  assumes "distinct (us @ vs)" "n \<notin> set (us @ vs)" "q \<in> set (us @ vs)"
  shows "set (passed (Some q) (us @ n # vs)) =
    set (passed (Some q) (us @ vs)) \<union> (if q \<in> set vs then {n} else {})"
  using assms by (cases "q \<in> set us") (auto simp: passed_append)

lemma passed_link_between:
  assumes "distinct (us @ vs)" "n \<notin> set (us @ vs)" "set_option p \<subseteq> set (us @ vs)" "q \<in> set (us @ vs)"
    and "\<forall>m \<in> set vs. nd_dwHash n < nd_dwHash m"
    and "\<forall>m \<in> set (passed (Some q) (us @ vs)). m = q \<or> m \<in> set (passed p (us @ vs)) \<or> nd_dwHash m < nd_dwHash q"
  shows "\<forall>m \<in> set (passed (Some q) (us @ n # vs)). m = q \<or> m \<in> set (passed p (us @ n # vs)) \<or> nd_dwHash m < nd_dwHash q"
proof -
  have "set (passed p (us @ vs)) \<subseteq> set (passed p (us @ n # vs))"
    using passed_link_split [OF assms(1,2)] assms(3) by (cases p) auto
  with assms(5,6) show ?thesis
    unfolding passed_link_split [OF assms(1,2,4)] by (auto split: if_splits)
qed

text \<open>Another thread's new node does not disturb a walking thread.\<close>

lemma passed_link_after:
  assumes "distinct (us @ vs)" "n \<notin> set (us @ vs)" "set_option p \<subseteq> set (us @ vs)"
    and "sorted (map nd_dwHash (us @ n # vs))"
    and "\<forall>m \<in> set vs. nd_dwHash n < nd_dwHash m"
    and "\<forall>m \<in> set (passed p (us @ vs)). \<not> EqualKeys vt k (node_key vt m) \<and> nd_dwHash m \<le> CalcKeyHash vt k"
    and "EqualKeys vt k (node_key vt n) \<Longrightarrow> nd_dwHash n = CalcKeyHash vt k"
  shows "\<forall>m \<in> set (passed p (us @ n # vs)). \<not> EqualKeys vt k (node_key vt m) \<and> nd_dwHash m \<le> CalcKeyHash vt k"
proof (cases p)
  case (Some q)
  show ?thesis
  proof (cases "q \<in> set us")
    case True
    with assms(6) Some show ?thesis by (simp add: passed_append)
  next
    case False
    then have q: "q \<in> set vs" "q \<noteq> n" using assms(2,3) Some by auto
    then have eq: "passed p (us @ n # vs) = us @ n # passed (Some q) vs" "passed p (us @ vs) = us @ passed (Some q) vs"
      using False Some by (simp_all add: passed_append)
    have "q \<in> set (passed (Some q) vs)" using q(1) by (induction vs) auto
    then have "nd_dwHash q \<le> CalcKeyHash vt k" using assms(6) eq(2) by simp
    then have "nd_dwHash n < CalcKeyHash vt k" using assms(5) q(1) by (meson less_le_trans)
    then show ?thesis using assms(6,7) eq by auto
  qed
qed simp


lemma sum_threads_step:
  assumes "t < length pcs" "pcs ! t = pc0"
  shows "f pc = f pc0 \<Longrightarrow> sum_threads f (pcs[t := pc]) = sum_threads f pcs"
    and "f pc0 = {#} \<Longrightarrow> sum_threads f (pcs[t := pc]) = sum_threads f pcs + f pc"
  using sum_threads_update [OF assms(1), of f pc] assms(2) by auto

lemma pc_ok_same: "\<forall>pc \<in> set pcs. pc_ok vt nB bs pc \<Longrightarrow> pc_ok vt nB bs pc \<Longrightarrow> \<forall>q \<in> set (pcs[t := pc]). pc_ok vt nB bs q"
  using set_update_subset_insert [of pcs t pc] by blast

lemma conc_invE:
  assumes "conc_inv vt T0 s"
  obtains bs where "ht_ppBuckets (in_table s) = Some bs" "0 < ht_nBuckets (in_table s)"
    "buckets_inv vt (ht_nBuckets (in_table s)) bs" "distinct_keys vt (concat bs)" "ht_lockInited (in_table s)"
    "\<forall>pc \<in> set (in_threads s). pc_ok vt (ht_nBuckets (in_table s)) bs pc"
    "mset (map nd_pRecord (concat bs)) = mset (ht_records T0) + sum_threads linked_record (in_threads s)"
    "\<forall>r. ht_refs (in_table s) r = ht_refs T0 r + int (count (sum_threads referenced_record (in_threads s)) r)"
    "ht_nItems (in_table s) = ht_nItems T0 + size (sum_threads counted_record (in_threads s))"
    "ht_nItems T0 + length (in_threads s) \<le> MAXDWORD"
  using assms by (auto simp: conc_inv_def split: option.splits)

text \<open>The effect of a successful compare-exchange.\<close>

lemma cas_link_ok:
  assumes vt: "hash_key vt" and nB: "0 < nB" and bi: "buckets_inv vt nB bs" and dk: "distinct_keys vt (concat bs)"
    and w: "pc_ok vt nB bs (Walk r b p nx)" and b: "b < length bs"
    and nx: "next_of (bs ! b) p = nx" "\<forall>n. nx = Some n \<longrightarrow> CalcKeyHash vt (ExtractKey vt r) < nd_dwHash n"
    and n: "n = \<lparr>nd_pRecord = r, nd_dwHash = CalcKeyHash vt (ExtractKey vt r)\<rparr>"
  shows "buckets_inv vt nB (bs[b := link_after n p (bs ! b)])"
    and "distinct_keys vt (concat (bs[b := link_after n p (bs ! b)]))"
    and "mset (concat (bs[b := link_after n p (bs ! b)])) = add_mset n (mset (concat bs))"
    and "pc_ok vt nB bs pc \<Longrightarrow> pc_ok vt nB (bs[b := link_after n p (bs ! b)]) pc"
proof -
  let ?k = "ExtractKey vt r" and ?h = "CalcKeyHash vt (ExtractKey vt r)" and ?c = "bs ! b"
  have ck: "chain_ok vt nB b ?c" using bi b by (simp add: buckets_inv_def)
  have dc: "distinct ?c" by (rule distinct_keys_distinct [OF vt distinct_keys_bucket [OF dk b]])
  have p: "set_option p \<subseteq> set ?c" and bmod: "b = unat ?h mod nB"
    and w': "\<forall>m \<in> set (passed p ?c). \<not> EqualKeys vt ?k (node_key vt m) \<and> nd_dwHash m \<le> ?h"
    using w unfolding pc_ok.simps by blast+
  obtain us vs where c: "?c = us @ vs" "link_after n p ?c = us @ n # vs" "us = passed p ?c"
    "next_of ?c p = (case vs of [] \<Rightarrow> None | v # _ \<Rightarrow> Some v)"
    using link_after_split [OF dc p] by blast
  have us: "\<forall>m \<in> set us. \<not> EqualKeys vt ?k (node_key vt m) \<and> nd_dwHash m \<le> ?h" using w' c(3) by simp
  have vs: "\<forall>m \<in> set vs. ?h < nd_dwHash m"
  proof (cases vs)
    case (Cons v vs')
    then have "?h < nd_dwHash v" using nx c(4) by simp
    moreover have "\<forall>m \<in> set vs'. nd_dwHash v \<le> nd_dwHash m" using ck c(1) Cons by (auto simp: chain_ok_def sorted_append)
    ultimately show ?thesis using Cons by (auto intro: less_le_trans)
  qed simp
  have nk: "node_key vt n = ?k" "nd_dwHash n = ?h" by (simp_all add: n node_key_def)
  have hash: "nd_dwHash m = CalcKeyHash vt (node_key vt m) \<and> unat (nd_dwHash m) mod nB = i" if "m \<in> set (bs ! i)" "i < length bs" for m i
    using bucket_hash [OF bi that(2,1)] by blast
  have nokey: "\<not> EqualKeys vt ?k (node_key vt m)" if mc: "m \<in> set (concat bs)" for m
  proof
    assume e: "EqualKeys vt ?k (node_key vt m)"
    obtain ch where "ch \<in> set bs" "m \<in> set ch" using mc unfolding set_concat by blast
    then obtain i where i: "i < length bs" "m \<in> set (bs ! i)" by (metis in_set_conv_nth)
    then have "nd_dwHash m = ?h" using hash [OF i(2,1)] hash_key.eq_hash [OF vt e] by simp
    then have "i = b" using hash [OF i(2,1)] bmod by metis
    then have "m \<in> set us \<or> m \<in> set vs" using i c(1) by auto
    with us vs e \<open>nd_dwHash m = ?h\<close> show False by auto
  qed
  have "sorted (map nd_dwHash (us @ n # vs))"
    using ck c(1) us vs nk(2) by (auto simp: chain_ok_def sorted_append intro: less_imp_le)
  moreover have "node_ok vt nB b n" using bmod nk by (simp add: node_ok_def)
  ultimately have ck': "chain_ok vt nB b (link_after n p ?c)" using ck c(1,2) by (simp add: chain_ok_def)
  then show "buckets_inv vt nB (bs[b := link_after n p ?c])" by (intro buckets_inv_update [OF bi])
  show m: "mset (concat (bs[b := link_after n p ?c])) = add_mset n (mset (concat bs))"
    using mset_concat_update [OF b, of "link_after n p ?c"] mset_link_after [OF p, of n] by simp
  have "distinct_keys vt (n # concat bs)" using dk nokey nk(1) by (simp add: distinct_keys_def)
  then show "distinct_keys vt (concat (bs[b := link_after n p ?c]))"
    by (rule hash_key.distinct_keys_mset [OF vt]) (simp add: m)
  show "pc_ok vt nB (bs[b := link_after n p ?c]) pc" if ok: "pc_ok vt nB bs pc"
  proof (cases pc)
    case (Walk r' b' p' nx')
    show ?thesis
    proof (cases "b' = b")
      case False
      from ok show ?thesis unfolding Walk pc_ok.simps nth_list_update_neq [OF not_sym [OF False]] .
    next
      case True
      have "n \<notin> set (concat bs)" using nokey [of n] nk(1) hash_key.eq_refl [OF vt] by auto
      then have "n \<notin> set (us @ vs)" using c(1) b by (metis UN_I nth_mem set_concat)
      with dc c(1) have dcv: "distinct (us @ vs)" "n \<notin> set (us @ vs)" by simp_all
      have "\<forall>m \<in> set (passed p' (us @ n # vs)). \<not> EqualKeys vt (ExtractKey vt r') (node_key vt m) \<and> nd_dwHash m \<le> CalcKeyHash vt (ExtractKey vt r')"
      proof (rule passed_link_after [OF dcv])
        show "set_option p' \<subseteq> set (us @ vs)" "\<forall>m \<in> set (passed p' (us @ vs)). \<not> EqualKeys vt (ExtractKey vt r') (node_key vt m) \<and> nd_dwHash m \<le> CalcKeyHash vt (ExtractKey vt r')"
          using ok Walk True c(1) by auto
        show "sorted (map nd_dwHash (us @ n # vs))" using ck' c(2) by (simp add: chain_ok_def)
        show "\<forall>m \<in> set vs. nd_dwHash n < nd_dwHash m" using vs nk by simp
        show "nd_dwHash n = CalcKeyHash vt (ExtractKey vt r')" if "EqualKeys vt (ExtractKey vt r') (node_key vt n)"
          using that nk hash_key.eq_hash [OF vt that] by simp
      qed
      moreover have "\<forall>m \<in> set (passed (Some q) (us @ n # vs)). m = q \<or> m \<in> set (passed p' (us @ n # vs)) \<or> nd_dwHash m < nd_dwHash q"
        if "nx' = Some q" for q
        using ok Walk True c(1) that vs nk
        by (intro passed_link_between [OF dcv]) auto
      moreover have "set_option p' \<union> set_option nx' \<subseteq> set (us @ n # vs)" "b = unat (CalcKeyHash vt (ExtractKey vt r')) mod nB"
        using ok Walk True c(1) by auto
      moreover have e: "bs[b := link_after n p ?c] ! b = us @ n # vs" using b c(2) by simp
      ultimately show ?thesis unfolding Walk True pc_ok.simps e by blast
    qed
  next
    case (Finished r' hr)
    have "set (concat bs) \<subseteq> set (concat (bs[b := link_after n p ?c]))"
      using m by (metis set_mset_add_mset_insert set_mset_mset subset_insertI)
    with ok show ?thesis unfolding Finished pc_ok.simps by blast
  qed auto
qed


lemma conc_inv_frame:
  assumes inv: "conc_inv vt T0 s" and t: "t < length (in_threads s)" "in_threads s ! t = pc0"
    and bs: "ht_ppBuckets (in_table s) = Some bs"
    and ok: "pc_ok vt (ht_nBuckets (in_table s)) bs pc" "linked_record pc = linked_record pc0"
    and T: "ht_ppBuckets T = Some bs" "ht_nBuckets T = ht_nBuckets (in_table s)" "ht_lockInited T = ht_lockInited (in_table s)"
      "\<forall>r. ht_refs T r = ht_refs (in_table s) r + int (count (referenced_record pc) r) - int (count (referenced_record pc0) r)"
      "ht_nItems T + size (counted_record pc0) = ht_nItems (in_table s) + size (counted_record pc)"
  shows "conc_inv vt T0 \<lparr>in_table = T, in_threads = (in_threads s)[t := pc]\<rparr>"
proof -
  note u = sum_threads_update [OF t(1), of _ pc, unfolded t(2)]
  have l: "sum_threads linked_record ((in_threads s)[t := pc]) = sum_threads linked_record (in_threads s)"
    using u [of linked_record] ok(2) by simp
  have r: "count (sum_threads referenced_record ((in_threads s)[t := pc])) r + count (referenced_record pc0) r =
    count (sum_threads referenced_record (in_threads s)) r + count (referenced_record pc) r" for r
    using arg_cong [OF u [of referenced_record], of "\<lambda>m. count m r"] by simp
  have c: "size (sum_threads counted_record ((in_threads s)[t := pc])) + size (counted_record pc0) =
    size (sum_threads counted_record (in_threads s)) + size (counted_record pc)"
    using arg_cong [OF u [of counted_record], of size] by simp
  obtain bs' where I: "ht_ppBuckets (in_table s) = Some bs'" "0 < ht_nBuckets (in_table s)"
    "buckets_inv vt (ht_nBuckets (in_table s)) bs'" "distinct_keys vt (concat bs')" "ht_lockInited (in_table s)"
    "\<forall>pc \<in> set (in_threads s). pc_ok vt (ht_nBuckets (in_table s)) bs' pc"
    "mset (map nd_pRecord (concat bs')) = mset (ht_records T0) + sum_threads linked_record (in_threads s)"
    "\<forall>r. ht_refs (in_table s) r = ht_refs T0 r + int (count (sum_threads referenced_record (in_threads s)) r)"
    "ht_nItems (in_table s) = ht_nItems T0 + size (sum_threads counted_record (in_threads s))"
    "ht_nItems T0 + length (in_threads s) \<le> MAXDWORD"
    by (rule conc_invE [OF inv])
  have "ht_refs T r = ht_refs T0 r + int (count (sum_threads referenced_record ((in_threads s)[t := pc])) r)" for r
    using T(4) I(8) r [of r] by (smt (verit) of_nat_add)
  moreover have "ht_nItems T = ht_nItems T0 + size (sum_threads counted_record ((in_threads s)[t := pc]))"
    using T(5) I(9) c by simp
  ultimately show ?thesis
    using I(1-7,10) bs T(1-3) l pc_ok_same [OF I(6), of pc t] ok(1) unfolding conc_inv_def by simp
qed

lemma insert_step_inv:
  assumes vt: "hash_key vt" and inv: "conc_inv vt T0 s" and t: "t < length (in_threads s)"
    and st: "insert_step vt (in_threads s ! t) (in_table s) = Some (pc, T)"
  shows "conc_inv vt T0 \<lparr>in_table = T, in_threads = (in_threads s)[t := pc]\<rparr>"
proof -
  obtain bs where I: "ht_ppBuckets (in_table s) = Some bs" "0 < ht_nBuckets (in_table s)"
    "buckets_inv vt (ht_nBuckets (in_table s)) bs" "distinct_keys vt (concat bs)" "ht_lockInited (in_table s)"
    "\<forall>pc \<in> set (in_threads s). pc_ok vt (ht_nBuckets (in_table s)) bs pc"
    "mset (map nd_pRecord (concat bs)) = mset (ht_records T0) + sum_threads linked_record (in_threads s)"
    "\<forall>r. ht_refs (in_table s) r = ht_refs T0 r + int (count (sum_threads referenced_record (in_threads s)) r)"
    "ht_nItems (in_table s) = ht_nItems T0 + size (sum_threads counted_record (in_threads s))"
    "ht_nItems T0 + length (in_threads s) \<le> MAXDWORD"
    by (rule conc_invE [OF inv])
  have ok: "pc_ok vt (ht_nBuckets (in_table s)) bs (in_threads s ! t)" using I(6) t by simp
  have len: "length bs = ht_nBuckets (in_table s)" using I(3) by (simp add: buckets_inv_def)
  show ?thesis
  proof (cases "in_threads s ! t")
    case (Start r)
    then have "T = in_table s" "pc = Walk r (unat (CalcKeyHash vt (ExtractKey vt r)) mod ht_nBuckets T) None
        (next_of (bs ! (unat (CalcKeyHash vt (ExtractKey vt r)) mod ht_nBuckets T)) None)"
      using st I(1,2) len by (auto simp: insert_step_def)
    moreover have "distinct (bs ! i)" if "i < length bs" for i
      by (rule distinct_keys_distinct [OF vt distinct_keys_bucket [OF I(4) that]])
    ultimately show ?thesis
      using I(2) len
      by (intro conc_inv_frame [OF inv t Start I(1)]) (auto simp: I(1) passed_next dest: next_of_in)
  next
    case (Linked r)
    then have "T = ReferenceRecord r (in_table s)" "pc = Referenced r" using st by (auto simp: insert_step_def)
    then show ?thesis by (intro conc_inv_frame [OF inv t Linked I(1)]) (auto simp: I(1) ReferenceRecord_def)
  next
    case (Referenced r)
    have "size (counted_record (in_threads s ! t)) < 1" using Referenced by simp
    then have "size (sum_threads counted_record ((in_threads s)[t := Finished r S_OK])) = Suc (size (sum_threads counted_record (in_threads s)))"
      using arg_cong [OF sum_threads_update [OF t, of counted_record "Finished r S_OK"], of size] by simp
    then have "ht_nItems (in_table s) < MAXDWORD"
      using size_sum_threads [of "(in_threads s)[t := Finished r S_OK]"] I(9,10) by simp
    with Referenced have "T = (in_table s)\<lparr>ht_nItems := Suc (ht_nItems (in_table s))\<rparr>" "pc = Finished r S_OK"
      using st by (auto simp: insert_step_def MAXDWORD_def)
    then show ?thesis by (intro conc_inv_frame [OF inv t Referenced I(1)]) (auto simp: I(1))
  next
    case (Finished r hr)
    with st show ?thesis by (simp add: insert_step_def)
  next
    case (Walk r b p nx)
    have b: "b = unat (CalcKeyHash vt (ExtractKey vt r)) mod ht_nBuckets (in_table s)" "b < length bs"
      "set_option p \<union> set_option nx \<subseteq> set (bs ! b)"
      "\<forall>n \<in> set (passed p (bs ! b)). \<not> EqualKeys vt (ExtractKey vt r) (node_key vt n) \<and> nd_dwHash n \<le> CalcKeyHash vt (ExtractKey vt r)"
      "\<forall>n. nx = Some n \<longrightarrow> (\<forall>m \<in> set (passed (Some n) (bs ! b)). m = n \<or> m \<in> set (passed p (bs ! b)) \<or> nd_dwHash m < nd_dwHash n)"
      using ok I(2) len unfolding Walk pc_ok.simps by (blast, simp, blast+)
    have dc: "distinct (bs ! b)" by (rule distinct_keys_distinct [OF vt distinct_keys_bucket [OF I(4) b(2)]])
    let ?k = "ExtractKey vt r" and ?h = "CalcKeyHash vt (ExtractKey vt r)"
    let ?n = "\<lparr>nd_pRecord = r, nd_dwHash = ?h\<rparr>"
    have cas: ?thesis if c: "(pc, T) = cas_link r ?h b p nx (bs ! b) (in_table s)" "\<forall>n. nx = Some n \<longrightarrow> ?h < nd_dwHash n"
    proof (cases "next_of (bs ! b) p = nx")
      case False
      with c have "pc = Start r" "T = in_table s" by (simp_all add: cas_link_def)
      then show ?thesis by (intro conc_inv_frame [OF inv t Walk I(1)]) (auto simp: I(1))
    next
      case True
      let ?bs = "bs[b := link_after ?n p (bs ! b)]"
      have T: "pc = Linked r" "T = set_chain b (link_after ?n p (bs ! b)) (in_table s)"
        using c True by (simp_all add: cas_link_def)
      note K = cas_link_ok [OF vt I(2,3,4) ok [unfolded Walk] b(2) True c(2) refl]
      have "\<forall>q \<in> set ((in_threads s)[t := pc]). pc_ok vt (ht_nBuckets (in_table s)) ?bs q"
        using I(6) K(4) T(1) by (intro pc_ok_same) simp_all
      moreover have "mset (map nd_pRecord (concat ?bs)) = mset (ht_records T0) + sum_threads linked_record ((in_threads s)[t := pc])"
        using K(3) I(7) sum_threads_step(2) [OF t Walk, of linked_record pc] T(1) by (simp add: mset_map)
      moreover have "sum_threads referenced_record ((in_threads s)[t := pc]) = sum_threads referenced_record (in_threads s)"
        "sum_threads counted_record ((in_threads s)[t := pc]) = sum_threads counted_record (in_threads s)"
        using sum_threads_step(1) [OF t Walk] T(1) by simp_all
      ultimately show ?thesis
        using I K(1,2) unfolding conc_inv_def T(2) set_chain_def by simp
    qed
    show ?thesis
    proof (cases nx)
      case None
      then show ?thesis using cas st Walk I(1) b(2) by (simp add: insert_step_def Let_def)
    next
      case (Some n)
      have n: "n \<in> set (bs ! b)" using b(3) Some by simp
      then have nh: "nd_dwHash n = CalcKeyHash vt (node_key vt n)" by (rule bucket_hash(1) [OF I(3) b(2)])
      consider (hit) "nd_dwHash n = ?h" "EqualKeys vt ?k (node_key vt n)" | (stop) "\<not> (nd_dwHash n = ?h \<and> EqualKeys vt ?k (node_key vt n))" "?h < nd_dwHash n"
        | (go) "\<not> EqualKeys vt ?k (node_key vt n)" "nd_dwHash n \<le> ?h"
        using nh hash_key.eq_hash [OF vt, of ?k "node_key vt n"] by fastforce
      then show ?thesis
      proof cases
        case hit
        then have "pc = Finished r (HRESULT_FROM_WIN32 ERROR_ALREADY_EXISTS)" "T = in_table s"
          using st Walk I(1) b(2) Some by (simp_all add: insert_step_def Let_def node_key_def)
        moreover have "n \<in> set (concat bs)" using n b(2) by (metis UN_I nth_mem set_concat)
        ultimately show ?thesis using hit(2)
          by (intro conc_inv_frame [OF inv t Walk I(1)]) (auto simp: I(1) hresult_defs)
      next
        case stop
        then have "Some (cas_link r ?h b p nx (bs ! b) (in_table s)) = Some (pc, T)"
          using st Walk I(1) b(2) Some by (simp add: insert_step_def Let_def node_key_def del: de_Morgan_conj)
        with cas Some stop(2) show ?thesis by simp
      next
        case go
        then have T: "pc = Walk r b (Some n) (next_of (bs ! b) (Some n))" "T = in_table s"
          using st I(1) b(2) leD [OF go(2)] go(1) unfolding Walk Some by (simp_all add: insert_step_def Let_def node_key_def)
        have "\<not> EqualKeys vt ?k (node_key vt m) \<and> nd_dwHash m \<le> ?h" if m: "m \<in> set (passed (Some n) (bs ! b))" for m
        proof -
          consider "m = n" | "m \<in> set (passed p (bs ! b))" | "nd_dwHash m < nd_dwHash n" using b(5) Some m by blast
          then show ?thesis
          proof cases
            case 3
            have "m \<in> set (bs ! b)" using m by (rule subsetD [OF set_passed])
            then have "nd_dwHash m = CalcKeyHash vt (node_key vt m)" by (rule bucket_hash(1) [OF I(3) b(2)])
            moreover have lt: "nd_dwHash m < ?h" using 3 go(2) by (rule less_le_trans)
            ultimately have "CalcKeyHash vt (node_key vt m) \<noteq> ?h" by auto
            then have "\<not> EqualKeys vt ?k (node_key vt m)" using hash_key.eq_hash [OF vt, of ?k "node_key vt m"] by auto
            with lt show ?thesis by (simp add: less_imp_le)
          next
            case 1
            with go show ?thesis by simp
          qed (use b(4) in blast)
        qed
        moreover have "\<forall>q. next_of (bs ! b) (Some n) = Some q \<longrightarrow> (\<forall>m \<in> set (passed (Some q) (bs ! b)).
            m = q \<or> m \<in> set (passed (Some n) (bs ! b)) \<or> nd_dwHash m < nd_dwHash q)"
          using passed_next [OF dc] n by auto
        ultimately have "pc_ok vt (ht_nBuckets (in_table s)) bs pc"
          using b(1) n next_of_in [of "bs ! b" "Some n"] unfolding T(1) pc_ok.simps
          by (cases "next_of (bs ! b) (Some n)") simp_all
        then show ?thesis using T by (intro conc_inv_frame [OF inv t Walk I(1)]) (auto simp: I(1))
      qed
    qed
  qed
qed


fun pc_record :: "'r insert_pc \<Rightarrow> 'r" where
  "pc_record (Start r) = r"
| "pc_record (Walk r b p n) = r"
| "pc_record (Linked r) = r"
| "pc_record (Referenced r) = r"
| "pc_record (Finished r hr) = r"

lemma insert_step_record: "insert_step vt pc T = Some (pc', T') \<Longrightarrow> pc_record pc' = pc_record pc"
proof (cases pc)
  case (Walk r b p n)
  moreover have "cas_link r h b p n c T = (q, U) \<Longrightarrow> pc_record q = r" for h c q U by (auto simp: cas_link_def split: if_splits)
  moreover assume "insert_step vt pc T = Some (pc', T')"
  ultimately show ?thesis
    by (cases n) (auto simp: insert_step_def Let_def bind_eq_Some_conv split: if_splits)
qed (auto simp: insert_step_def bind_eq_Some_conv)

definition inserting_all :: "'r HASH_TABLE \<Rightarrow> 'r list \<Rightarrow> 'r inserting" where
  "inserting_all T rs = \<lparr>in_table = T, in_threads = map Start rs\<rparr>"

lemma sum_threads_start: "(\<And>r. f (Start r) = {#}) \<Longrightarrow> sum_threads f (map Start rs) = {#}"
  by (induction rs) (simp_all add: sum_threads_def)

lemma conc_inv_init:
  assumes "ht_inv vt T" "Count T + length rs \<le> MAXDWORD"
  shows "conc_inv vt T (inserting_all T rs)"
  using assms
  by (auto simp: conc_inv_def inserting_all_def ht_records_def Count_def sum_threads_start elim!: ht_invE)

lemma conc_reachable_inv:
  assumes "conc_reachable vt (inserting_all T rs) s" "hash_key vt" "ht_inv vt T" "Count T + length rs \<le> MAXDWORD"
  shows "conc_inv vt T s \<and> map pc_record (in_threads s) = rs"
  using assms(1)
proof (induction rule: conc_reachable.induct)
  case init
  then show ?case using conc_inv_init [OF assms(3,4)] by (simp add: inserting_all_def comp_def)
next
  case (more s s')
  from more.hyps(2) obtain t pc T' where st: "s' = \<lparr>in_table = T', in_threads = (in_threads s)[t := pc]\<rparr>"
    "t < length (in_threads s)" "insert_step vt (in_threads s ! t) (in_table s) = Some (pc, T')"
    by (elim conc_stepE) blast
  have "(map pc_record (in_threads s))[t := pc_record pc] = map pc_record (in_threads s)"
    using insert_step_record [OF st(3)] st(2) by (metis list_update_id map_update nth_map)
  then show ?case
    using insert_step_inv [OF assms(2) _ st(2,3)] more.IH by (simp add: st(1) map_update)
qed

lemma insert_step_progress:
  assumes "conc_inv vt T0 s" "pc \<in> set (in_threads s)"
  shows "insert_step vt pc (in_table s) \<noteq> None \<or> (\<exists>r hr. pc = Finished r hr)"
proof -
  obtain bs where I: "ht_ppBuckets (in_table s) = Some bs" "0 < ht_nBuckets (in_table s)"
    "buckets_inv vt (ht_nBuckets (in_table s)) bs" "pc_ok vt (ht_nBuckets (in_table s)) bs pc"
    using assms by (auto elim!: conc_invE)
  moreover have "length bs = ht_nBuckets (in_table s)" using I(3) by (simp add: buckets_inv_def)
  ultimately show ?thesis
    by (cases pc) (auto simp: insert_step_def Let_def split: option.splits)
qed

lemma all_finished:
  assumes vt: "hash_key vt" and T: "ht_inv vt T" and inv: "conc_inv vt T s"
    and fin: "\<forall>pc \<in> set (in_threads s). \<exists>r hr. pc = Finished r hr"
  shows "ht_inv vt (in_table s) \<and> ext_refs (in_table s) = ext_refs T \<and>
    mset (ht_records (in_table s)) = mset (ht_records T) + sum_threads linked_record (in_threads s) \<and>
    (\<forall>pc \<in> set (in_threads s). ht_lookup vt (in_table s) (ExtractKey vt (pc_record pc)) \<noteq> None)"
proof -
  obtain bs where I: "ht_ppBuckets (in_table s) = Some bs" "0 < ht_nBuckets (in_table s)"
    "buckets_inv vt (ht_nBuckets (in_table s)) bs" "distinct_keys vt (concat bs)" "ht_lockInited (in_table s)"
    "\<forall>pc \<in> set (in_threads s). pc_ok vt (ht_nBuckets (in_table s)) bs pc"
    "mset (map nd_pRecord (concat bs)) = mset (ht_records T) + sum_threads linked_record (in_threads s)"
    "\<forall>r. ht_refs (in_table s) r = ht_refs T r + int (count (sum_threads referenced_record (in_threads s)) r)"
    "ht_nItems (in_table s) = ht_nItems T + size (sum_threads counted_record (in_threads s))"
    "ht_nItems T + length (in_threads s) \<le> MAXDWORD"
    by (rule conc_invE [OF inv])
  have same: "sum_threads referenced_record (in_threads s) = sum_threads linked_record (in_threads s)"
    "sum_threads counted_record (in_threads s) = sum_threads linked_record (in_threads s)"
    using fin unfolding sum_threads_def by (auto intro!: arg_cong [of _ _ sum_list] map_cong)
  have rec: "ht_records (in_table s) = map nd_pRecord (concat bs)" by (simp add: ht_records_def I(1))
  have nT: "ht_nItems T = length (ht_records T)" using T by (auto simp: ht_records_def elim!: ht_invE)
  have "ht_nItems (in_table s) = length (concat bs)"
    using arg_cong [OF I(7), of size] I(9) nT unfolding same by simp
  moreover have "ht_nItems (in_table s) \<le> MAXDWORD"
    using I(9,10) size_sum_threads [of "in_threads s"] by simp
  ultimately have inv': "ht_inv vt (in_table s)" using I by (simp add: ht_inv_def)
  moreover have "ext_refs (in_table s) = ext_refs T"
    using I(8) unfolding ext_refs_def rec I(7) same by (simp add: fun_eq_iff)
  moreover have "ht_lookup vt (in_table s) (ExtractKey vt (pc_record pc)) \<noteq> None" if pc: "pc \<in> set (in_threads s)" for pc
  proof -
    obtain r hr where f: "pc = Finished r hr" using fin pc by blast
    have "\<exists>q \<in> set (ht_records (in_table s)). EqualKeys vt (ExtractKey vt r) (ExtractKey vt q)"
    proof (cases "hr = S_OK")
      case True
      have "r \<in># sum_threads linked_record (in_threads s)"
        using pc unfolding f True sum_threads_def by (induction "in_threads s") (auto simp: in_set_conv_decomp)
      then have "r \<in># mset (ht_records (in_table s))" unfolding rec I(7) by simp
      then show ?thesis using hash_key.eq_refl [OF vt] by auto
    next
      case False
      with I(6) pc f obtain n where "n \<in> set (concat bs)" "EqualKeys vt (ExtractKey vt r) (node_key vt n)"
        by fastforce
      then show ?thesis unfolding rec by (auto simp: node_key_def)
    qed
    then show ?thesis
      by (auto simp: ht_lookup_def find_None_iff f)
  qed
  ultimately show ?thesis using I(7) rec by simp
qed

text \<open>Executing a schedule, the list of the threads that take the next step.\<close>

fun run_schedule :: "('r, 'k) vtable \<Rightarrow> nat list \<Rightarrow> 'r inserting \<Rightarrow> 'r inserting option" where
  "run_schedule vt [] s = Some s"
| "run_schedule vt (t # ts) s =
     (if t < length (in_threads s)
      then do {
        (pc, T) \<leftarrow> insert_step vt (in_threads s ! t) (in_table s);
        run_schedule vt ts \<lparr>in_table = T, in_threads = (in_threads s)[t := pc]\<rparr>
      }
      else None)"

lemma run_schedule_steps: "conc_reachable vt s0 s \<Longrightarrow> run_schedule vt ts s = Some s' \<Longrightarrow> conc_reachable vt s0 s'"
  by (induction ts arbitrary: s)
    (auto simp: bind_eq_Some_conv split: if_splits intro: conc_reachable.more conc_step.intros)

lemmas run_schedule_reachable = run_schedule_steps [OF conc_reachable.init]

text \<open>Two threads insert the same key; the second one loses the exchange, retries and finds the first one's node.\<close>

lemma two_threads: "\<exists>s. run_schedule id_vt [0, 1, 0, 1, 1, 1, 0, 0] (inserting_all three_table [5, 5]) = Some s \<and>
    in_threads s = [Finished 5 S_OK, Finished 5 (HRESULT_FROM_WIN32 ERROR_ALREADY_EXISTS)]"
  unfolding three_table_eq inserting_all_def
  by (simp add: insert_step_def id_vt_def cas_link_def set_chain_def ReferenceRecord_def)

subsection \<open>Properties\<close>

text \<open>
  C5: however the steps of any number of concurrent insertions interleave, no thread faults or gets
  stuck, and when all of them have returned the table satisfies its invariant (sorted chains, distinct
  keys, exact item count), holds exactly the old records and those of the threads that returned
  \<open>S_OK\<close>, owns one reference for each, and every key that was to be inserted can be found.
\<close>

theorem concurrent_inserts_correct:
  assumes "hash_key vt" "ht_inv vt T" "Count T + length rs \<le> MAXDWORD"
    and "conc_reachable vt (inserting_all T rs) s"
  shows "(\<forall>pc \<in> set (in_threads s). insert_step vt pc (in_table s) \<noteq> None \<or> (\<exists>r hr. pc = Finished r hr)) \<and>
    map pc_record (in_threads s) = rs \<and>
    ((\<forall>pc \<in> set (in_threads s). \<exists>r hr. pc = Finished r hr) \<longrightarrow>
       ht_inv vt (in_table s) \<and> ext_refs (in_table s) = ext_refs T \<and>
       mset (ht_records (in_table s)) = mset (ht_records T) + sum_threads linked_record (in_threads s) \<and>
       (\<forall>pc \<in> set (in_threads s). ht_lookup vt (in_table s) (ExtractKey vt (pc_record pc)) \<noteq> None))"
  using conc_reachable_inv [OF assms(4,1,2,3)] insert_step_progress all_finished [OF assms(1,2)] by blast

lemma concurrent_inserts_correct_witness:
  "\<exists>s. run_schedule id_vt [0, 1, 0, 1, 1, 1, 0, 0] (inserting_all three_table [5, 5]) = Some s \<and>
    in_threads s = [Finished 5 S_OK, Finished 5 (HRESULT_FROM_WIN32 ERROR_ALREADY_EXISTS)] \<and>
    ht_inv id_vt (in_table s) \<and> ht_lookup id_vt (in_table s) (ExtractKey id_vt 5) \<noteq> None"
proof -
  obtain s where s: "run_schedule id_vt [0, 1, 0, 1, 1, 1, 0, 0] (inserting_all three_table [5, 5]) = Some s"
    "in_threads s = [Finished 5 S_OK, Finished 5 (HRESULT_FROM_WIN32 ERROR_ALREADY_EXISTS)]"
    using two_threads by blast
  have "ht_inv id_vt (in_table s) \<and> ht_lookup id_vt (in_table s) (ExtractKey id_vt 5) \<noteq> None"
    using concurrent_inserts_correct [OF hash_key_id_vt three_table_ok(1), of "[5, 5]" s] run_schedule_reachable [OF s(1)] s(2)
    by (simp add: MAXDWORD_def)
  with s show ?thesis by blast
qed

end
