(* ===== verification/EnvVars.thy ===== *)
theory EnvVars
  imports MultiSz HashTable
begin

section \<open>Environment variables (CommonLib/environmentvariablehash.h, RequestHandler/environmentvariablehelpers.h)\<close>

text \<open>
  The table of environment variables from the configuration and the helpers that complete it, merge
  it with the environment of the worker process and turn it into an environment block. Entries are
  heap objects named by their pointers (numbers); their reference counts are the ledger of the table
  they are made for, which the constructor starts at 1. The process environment, the allocators and
  the initial contents of stack arrays are parameters.
\<close>

subsection \<open>Entries and their table\<close>

record ENVIRONMENT_VAR_ENTRY =
  en_strName :: STRU
  en_strValue :: STRU

definition ENTRY_new :: ENVIRONMENT_VAR_ENTRY where
  "ENTRY_new = \<lparr>en_strName = STRU_new, en_strValue = STRU_new\<rparr>"

text \<open>The NUL-terminated text a \<open>PWSTR\<close> into the buffer denotes.\<close>

definition c_text :: "STRU \<Rightarrow> wstr" where
  "c_text s = takeWhile (\<lambda>c. c \<noteq> 0) (QueryStr s)"

definition QueryName :: "ENVIRONMENT_VAR_ENTRY \<Rightarrow> wstr" where "QueryName e = c_text (en_strName e)"
definition QueryValue :: "ENVIRONMENT_VAR_ENTRY \<Rightarrow> wstr" where "QueryValue e = c_text (en_strValue e)"

definition ENTRY_Initialize :: "wheap \<Rightarrow> wstr \<Rightarrow> wstr \<Rightarrow> ENVIRONMENT_VAR_ENTRY \<Rightarrow>
    (HRESULT \<times> ENVIRONMENT_VAR_ENTRY) option" where
  "ENTRY_Initialize heap pszName pszValue e = do {
     (hr, n) \<leftarrow> STRU_Copy heap pszName (en_strName e);
     (if FAILED hr then Some (hr, e\<lparr>en_strName := n\<rparr>)
      else do {
        (hr', v) \<leftarrow> STRU_Copy heap pszValue (en_strValue e);
        Some (hr', e\<lparr>en_strName := n, en_strValue := v\<rparr>)
      })
   }"

type_synonym entries = "nat \<Rightarrow> ENVIRONMENT_VAR_ENTRY"

text \<open>\<open>ENVIRONMENT_VAR_HASH\<close>: the virtual functions of the table.\<close>

definition ENVIRONMENT_VAR_HASH :: "entries \<Rightarrow> (nat, wstr) vtable" where
  "ENVIRONMENT_VAR_HASH E =
     \<lparr>ExtractKey = (\<lambda>p. QueryName (E p)), CalcKeyHash = (\<lambda>k. HashStringNoCase k 0), EqualKeys = wcsicmp_equal\<rparr>"

definition HOSTING_STARTUP_ASSEMBLIES_ENV_STR :: wstr where
  "HOSTING_STARTUP_ASSEMBLIES_ENV_STR = L ''ASPNETCORE_HOSTINGSTARTUPASSEMBLIES''"
definition HOSTING_STARTUP_ASSEMBLIES_NAME :: wstr where
  "HOSTING_STARTUP_ASSEMBLIES_NAME = L ''ASPNETCORE_HOSTINGSTARTUPASSEMBLIES=''"
definition HOSTING_STARTUP_ASSEMBLIES_VALUE :: wstr where
  "HOSTING_STARTUP_ASSEMBLIES_VALUE = L ''Microsoft.AspNetCore.Server.IISIntegration''"
definition ASPNETCORE_IIS_AUTH_ENV_STR :: wstr where
  "ASPNETCORE_IIS_AUTH_ENV_STR = L ''ASPNETCORE_IIS_HTTPAUTH=''"
definition ASPNETCORE_IIS_WEBSOCKETS_SUPPORTED_ENV_STR :: wstr where
  "ASPNETCORE_IIS_WEBSOCKETS_SUPPORTED_ENV_STR = L ''ASPNETCORE_IIS_WEBSOCKETS_SUPPORTED=''"
definition ASPNETCORE_IIS_AUTH_WINDOWS :: wstr where "ASPNETCORE_IIS_AUTH_WINDOWS = L ''windows;''"
definition ASPNETCORE_IIS_AUTH_BASIC :: wstr where "ASPNETCORE_IIS_AUTH_BASIC = L ''basic;''"
definition ASPNETCORE_IIS_AUTH_ANONYMOUS :: wstr where "ASPNETCORE_IIS_AUTH_ANONYMOUS = L ''anonymous;''"
definition ASPNETCORE_IIS_AUTH_NONE :: wstr where "ASPNETCORE_IIS_AUTH_NONE = L ''none''"

subsection \<open>The operating system\<close>

text \<open>
  \<open>os_getenv\<close> is the value of a variable or the error code, \<open>os_setenv\<close> what \<open>SetEnvironmentVariable\<close> does
  to it; \<open>os_new\<close> says whether \<open>new\<close> returns the object with this pointer, \<open>os_new_table\<close>,
  \<open>os_alloc_table\<close>, \<open>os_node\<close> and \<open>os_buckets\<close> whether the allocations for the hash table succeed; \<open>os_stack n\<close> is an uninitialised array.
\<close>

record env_os =
  os_heap :: wheap
  os_getenv :: "wstr \<Rightarrow> DWORD + wstr"
  os_new :: "nat \<Rightarrow> bool"
  os_new_table :: bool
  os_node :: "nat \<Rightarrow> bool"
  os_alloc_table :: bool
  os_buckets :: bool
  os_lock :: HRESULT
  os_stack :: "nat \<Rightarrow> wstr"

definition ERROR_ENVVAR_NOT_FOUND :: DWORD where "ERROR_ENVVAR_NOT_FOUND = 203"

text \<open>
  \<open>GetEnvironmentVariable\<close>: the return value, the error code left behind and the buffer. A value that
  does not fit is not written and its size with the terminator is returned.
\<close>

definition GetEnvironmentVariable :: "(wstr \<Rightarrow> DWORD + wstr) \<Rightarrow> wstr \<Rightarrow> wstr \<Rightarrow> nat \<Rightarrow>
    (nat \<times> DWORD \<times> wstr) option" where
  "GetEnvironmentVariable getenv name lpBuffer nSize =
     (case getenv name of
        Inl err \<Rightarrow> Some (0, err, lpBuffer)
      | Inr v \<Rightarrow>
          if length v < nSize then do {
            b \<leftarrow> store_block lpBuffer 0 (v @ [0]);
            Some (length v, ERROR_SUCCESS, b)
          }
          else Some (u32 (length v + 1), ERROR_SUCCESS, lpBuffer))"

definition stack_stru :: "env_os \<Rightarrow> nat \<Rightarrow> STRU" where
  "stack_stru os n = STRU_init ((os_stack os n)[0 := 0])"

subsection \<open>Callbacks over the table's entries\<close>

definition CopyToMultiSz :: "wheap \<Rightarrow> entries \<Rightarrow> nat \<Rightarrow> WCHAR MULTISZ \<Rightarrow> WCHAR MULTISZ option" where
  "CopyToMultiSz heap E pEntry M = do {
     (_, s) \<leftarrow> STRU_Copy heap (QueryName (E pEntry)) STRU_new;
     (_, s') \<leftarrow> STRU_Append heap (QueryValue (E pEntry)) s;
     (_, M') \<leftarrow> MULTISZ_Append 2 heap (Some (c_text s')) M;
     Some M'
   }"

record env_table =
  et_entries :: entries
  et_next :: nat
  et_table :: "nat HASH_TABLE"

abbreviation et_vt :: "env_table \<Rightarrow> (nat, wstr) vtable" where
  "et_vt st \<equiv> ENVIRONMENT_VAR_HASH (et_entries st)"

definition new_entry :: "env_os \<Rightarrow> env_table \<Rightarrow> nat option \<times> env_table" where
  "new_entry os st =
     (let q = et_next st; st' = st\<lparr>et_next := Suc q\<rparr>
      in if os_new os q
         then (Some q, st'\<lparr>et_entries := (et_entries st)(q := ENTRY_new),
                          et_table := (et_table st)\<lparr>ht_refs := (ht_refs (et_table st))(q := 1)\<rparr>\<rparr>)
         else (None, st'))"

definition CopyToTable :: "env_os \<Rightarrow> nat \<Rightarrow> env_table \<Rightarrow> env_table option" where
  "CopyToTable os pEntry st =
     (let e = et_entries st pEntry
      in case new_entry os st of
           (None, st1) \<Rightarrow> Some st1
         | (Some q, st1) \<Rightarrow> do {
             (_, e') \<leftarrow> ENTRY_Initialize (os_heap os) (QueryName e) (QueryValue e) ENTRY_new;
             (let st2 = st1\<lparr>et_entries := (et_entries st1)(q := e')\<rparr>
              in do {
                (_, T) \<leftarrow> InsertRecord (et_vt st2) (os_node os q) (os_buckets os) q (et_table st2);
                Some (st2\<lparr>et_table := DereferenceRecord q T\<rparr>)
              })
           })"

text \<open>The name of an entry ends with \<open>=\<close>, which is cut off for the calls to the operating system.\<close>

definition name_without_eq :: "wheap \<Rightarrow> ENVIRONMENT_VAR_ENTRY \<Rightarrow> (HRESULT \<times> STRU) option" where
  "name_without_eq heap e = do {
     (hr, s) \<leftarrow> STRU_Copy heap (QueryName e) STRU_new;
     (if FAILED hr then Some (hr, s)
      else let dwResult = LastIndexOf s 61 0
           in if dwResult \<noteq> - 1 then do {
                b \<leftarrow> store_at (QueryStr s) (nat dwResult) 0;
                Some (SyncWithBuffer (set_str s b))
              }
              else Some (hr, s))
   }"

text \<open>
  Reading a variable into a string, with a second attempt for values that are longer than its buffer:
  the result code, whether the variable was found, and the string.
\<close>

definition read_variable :: "env_os \<Rightarrow> wstr \<Rightarrow> nat \<Rightarrow> STRU \<Rightarrow> (HRESULT \<times> bool \<times> STRU) option" where
  "read_variable os name extra s = do {
     (dwResult, dwError, b) \<leftarrow> GetEnvironmentVariable (os_getenv os) name (QueryStr s) (QuerySizeCCH s);
     (if dwResult = 0
      then if dwError \<noteq> ERROR_ENVVAR_NOT_FOUND \<and> dwError \<noteq> ERROR_SUCCESS
           then Some (HRESULT_FROM_WIN32 dwError, False, set_str s b)
           else Some (S_OK, False, set_str s b)
      else if QuerySizeCCH s < dwResult then do {
        s1 \<leftarrow> STRU_Reset (set_str s b);
        (let s2 = snd (STRU_Resize (os_heap os) (u32 (dwResult + extra)) s1)
         in do {
           (_, _, b') \<leftarrow> GetEnvironmentVariable (os_getenv os) name (QueryStr s2) (QuerySizeCCH s2);
           (if IsEmpty (set_str s2 b') then Some (E_UNEXPECTED, False, set_str s2 b')
            else Some (S_OK, True, set_str s2 b'))
         })
      }
      else Some (S_OK, True, set_str s b))
   }"

definition AppendEnvironmentVariables :: "env_os \<Rightarrow> nat \<Rightarrow> entries \<times> HRESULT \<Rightarrow> (entries \<times> HRESULT) option" where
  "AppendEnvironmentVariables os pEntry E_hr =
     (let (E, hr0) = E_hr; e = E pEntry
      in do {
        (hr, n) \<leftarrow> name_without_eq (os_heap os) e;
        (if FAILED hr then Some (E, hr)
         else do {
           (hr, fFound, v) \<leftarrow> read_variable os (c_text n) (length (QueryValue e) + 2) (stack_stru os 300);
           (if FAILED hr then Some (E, hr)
            else let (hr, v1) = SyncWithBuffer v
                 in if FAILED hr then Some (E, hr)
                    else do {
                      (hr, v2) \<leftarrow> (if fFound then STRU_Append (os_heap os) (L '';'') v1 else Some (hr, v1));
                      (if FAILED hr then Some (E, hr)
                       else do {
                         (hr, v3) \<leftarrow> STRU_Append (os_heap os) (QueryValue e) v2;
                         (if FAILED hr then Some (E, hr)
                          else do {
                            (hr, e') \<leftarrow> ENTRY_Initialize (os_heap os) (QueryName e) (c_text v3) e;
                            Some (E(pEntry := e'), if FAILED hr then hr else hr0)
                          })
                       })
                    })
         })
      })"

text \<open>\<open>setenv\<close> is \<open>SetEnvironmentVariable\<close> on the environment: the error code or the new environment.\<close>

definition SetEnvironmentVariables :: "wheap \<Rightarrow> ('env \<Rightarrow> wstr \<Rightarrow> wstr \<Rightarrow> DWORD + 'env) \<Rightarrow> entries \<Rightarrow> nat \<Rightarrow>
    'env \<times> HRESULT \<Rightarrow> ('env \<times> HRESULT) option" where
  "SetEnvironmentVariables heap setenv E pEntry env_hr =
     (let (env, hr0) = env_hr
      in do {
        (hr, n) \<leftarrow> name_without_eq heap (E pEntry);
        (if FAILED hr then Some (env, hr)
         else case setenv env (c_text n) (QueryValue (E pEntry)) of
                Inl err \<Rightarrow> Some (env, if FAILED (HRESULT_FROM_WIN32 err) then HRESULT_FROM_WIN32 err else hr0)
              | Inr env' \<Rightarrow> Some (env', hr0))
      })"

subsection \<open>Completing the table\<close>

definition iis_auth_value :: "wheap \<Rightarrow> bool \<Rightarrow> bool \<Rightarrow> bool \<Rightarrow> STRU option" where
  "iis_auth_value heap fWindows fBasic fAnonymous = do {
     s1 \<leftarrow> (if fWindows then map_option snd (STRU_Copy heap ASPNETCORE_IIS_AUTH_WINDOWS STRU_new) else Some STRU_new);
     s2 \<leftarrow> (if fBasic then map_option snd (STRU_Append heap ASPNETCORE_IIS_AUTH_BASIC s1) else Some s1);
     s3 \<leftarrow> (if fAnonymous then map_option snd (STRU_Append heap ASPNETCORE_IIS_AUTH_ANONYMOUS s2) else Some s2);
     (if IsEmpty s3 then map_option snd (STRU_Copy heap ASPNETCORE_IIS_AUTH_NONE s3) else Some s3)
   }"

definition init_and_insert :: "env_os \<Rightarrow> nat \<Rightarrow> wstr \<Rightarrow> wstr \<Rightarrow> env_table \<Rightarrow> (HRESULT \<times> env_table) option" where
  "init_and_insert os q name value st = do {
     (hr, e) \<leftarrow> ENTRY_Initialize (os_heap os) name value (et_entries st q);
     (let st' = st\<lparr>et_entries := (et_entries st)(q := e)\<rparr>
      in if FAILED hr then Some (hr, st')
         else do {
           (hr, T) \<leftarrow> InsertRecord (et_vt st') (os_node os q) (os_buckets os) q (et_table st');
           Some (hr, st'\<lparr>et_table := T\<rparr>)
         })
   }"

text \<open>Looking an entry up and wiping it off the table.\<close>

definition wipe_off :: "wstr \<Rightarrow> env_table \<Rightarrow> env_table option" where
  "wipe_off key st = do {
     (p, T) \<leftarrow> FindKey (et_vt st) key (et_table st);
     (case p of
        None \<Rightarrow> Some (st\<lparr>et_table := T\<rparr>)
      | Some e \<Rightarrow> do {
          T' \<leftarrow> DeleteKey (et_vt st) key (DereferenceRecord e T);
          Some (st\<lparr>et_table := T'\<rparr>)
        })
   }"

definition deref_entry :: "nat option \<Rightarrow> env_table \<Rightarrow> env_table" where
  "deref_entry p st = (case p of None \<Rightarrow> st | Some q \<Rightarrow> st\<lparr>et_table := DereferenceRecord q (et_table st)\<rparr>)"

text \<open>The code at \<open>Finished\<close>; \<open>published\<close> says that the table has been handed to the caller.\<close>

definition env_finish :: "HRESULT \<Rightarrow> nat option \<Rightarrow> nat option \<Rightarrow> bool \<Rightarrow> env_table \<Rightarrow>
    (HRESULT \<times> bool \<times> env_table) option" where
  "env_finish hr pHostingEntry pIISAuthEntry published st =
     (let st' = deref_entry pIISAuthEntry (deref_entry pHostingEntry st)
      in if published then Some (hr, True, st')
         else do {
           T \<leftarrow> Clear (et_table st');
           Some (hr, False, st'\<lparr>et_table := T\<rparr>)
         })"

text \<open>The value of the process, if there is one, and behind it the assembly of the module.\<close>

definition startup_value :: "wheap \<Rightarrow> bool \<Rightarrow> STRU \<Rightarrow> STRU option" where
  "startup_value heap fFound s = do {
     s1 \<leftarrow> (if fFound then map_option snd (STRU_Append heap (L '';'') s) else Some s);
     map_option snd (STRU_Append heap HOSTING_STARTUP_ASSEMBLIES_VALUE s1)
   }"

definition startup_entry :: "env_os \<Rightarrow> nat \<Rightarrow> env_table \<Rightarrow> (HRESULT \<times> bool \<times> env_table) option" where
  "startup_entry os pIISAuthEntry st = do {
     (hr, fFound, s) \<leftarrow> read_variable os HOSTING_STARTUP_ASSEMBLIES_ENV_STR
        (length HOSTING_STARTUP_ASSEMBLIES_VALUE + 1) (stack_stru os 1024);
     (if FAILED hr then env_finish hr None (Some pIISAuthEntry) False st
      else do {
        s2 \<leftarrow> startup_value (os_heap os) fFound (snd (SyncWithBuffer s));
        (case new_entry os st of
           (None, st') \<Rightarrow> env_finish E_OUTOFMEMORY None (Some pIISAuthEntry) False st'
         | (Some h, st') \<Rightarrow> do {
             (hr, st'') \<leftarrow> init_and_insert os h HOSTING_STARTUP_ASSEMBLIES_NAME (c_text s2) st';
             env_finish hr (Some h) (Some pIISAuthEntry) (SUCCEEDED hr) st''
           })
      })
   }"

definition auth_entry :: "env_os \<Rightarrow> STRU \<Rightarrow> env_table \<Rightarrow> (HRESULT \<times> bool \<times> env_table) option" where
  "auth_entry os value st =
     (case new_entry os st of
        (None, st1) \<Rightarrow> env_finish E_OUTOFMEMORY None None False st1
      | (Some q, st1) \<Rightarrow> do {
          (hr, st2) \<leftarrow> init_and_insert os q ASPNETCORE_IIS_AUTH_ENV_STR (c_text value) st1;
          (if FAILED hr then env_finish hr None (Some q) False st2
           else do {
             (pHostingEntry, T) \<leftarrow> FindKey (et_vt st2) HOSTING_STARTUP_ASSEMBLIES_NAME (et_table st2);
             (case pHostingEntry of
                Some h \<Rightarrow> env_finish hr None (Some q) True (st2\<lparr>et_table := DereferenceRecord h T\<rparr>)
              | None \<Rightarrow> startup_entry os q (st2\<lparr>et_table := T\<rparr>))
           })
        })"

definition InitEnvironmentVariablesTable :: "env_os \<Rightarrow> bool \<Rightarrow> bool \<Rightarrow> bool \<Rightarrow> nat HASH_TABLE \<Rightarrow> env_table \<Rightarrow>
    (HRESULT \<times> bool \<times> env_table) option" where
  "InitEnvironmentVariablesTable os fWindowsAuthEnabled fBasicAuthEnabled fAnonymousAuthEnabled pIn st =
     (if \<not> os_new_table os then Some (E_OUTOFMEMORY, False, st\<lparr>et_table := HASH_TABLE_new\<rparr>)
      else let (hr, T) = Initialize (os_lock os) (os_alloc_table os) 37 HASH_TABLE_new; st1 = st\<lparr>et_table := T\<rparr>
           in if FAILED hr then env_finish hr None None False st1
              else do {
                copied \<leftarrow> Apply (\<lambda>p r. r \<bind> CopyToTable os p) pIn (Some st1);
                st2 \<leftarrow> copied;
                (if Count (et_table st2) \<noteq> Count pIn then env_finish E_UNEXPECTED None None False st2
                 else do {
                   st3 \<leftarrow> wipe_off ASPNETCORE_IIS_AUTH_ENV_STR st2;
                   value \<leftarrow> iis_auth_value (os_heap os) fWindowsAuthEnabled fBasicAuthEnabled fAnonymousAuthEnabled;
                   auth_entry os value st3
                 })
              })"

definition AddWebsocketEnabledToEnvironmentVariables :: "env_os \<Rightarrow> bool \<Rightarrow> env_table \<Rightarrow> (HRESULT \<times> env_table) option" where
  "AddWebsocketEnabledToEnvironmentVariables os fWebsocketsEnabled st = do {
     st1 \<leftarrow> wipe_off ASPNETCORE_IIS_WEBSOCKETS_SUPPORTED_ENV_STR st;
     (hr, s) \<leftarrow> STRU_Copy (os_heap os) (if fWebsocketsEnabled then L ''true'' else L ''false'') (stack_stru os 40);
     (if FAILED hr then Some (hr, st1)
      else case new_entry os st1 of
             (None, st2) \<Rightarrow> Some (E_OUTOFMEMORY, st2)
           | (Some q, st2) \<Rightarrow> init_and_insert os q ASPNETCORE_IIS_WEBSOCKETS_SUPPORTED_ENV_STR (c_text s) st2)
   }"

subsection \<open>Strings and entries\<close>

lemma c_text_nul_free [simp]: "0 \<notin> set (c_text s)"
  by (auto simp: c_text_def dest: set_takeWhileD)

lemma c_text_str_text: "stru_inv s \<Longrightarrow> 0 \<notin> set (str_text s) \<Longrightarrow> c_text s = str_text s"
  using split_at [OF stru_invD(3,4) [of s]] takeWhile_prefix_stop [of "str_text s" "\<lambda>c. c \<noteq> 0" 0 "drop (Suc (m_cchLen s)) (QueryStr s)"]
  by (auto simp: c_text_def str_text_def)

lemma Copy_c_text:
  assumes "heap_ok 2 heap" "stru_inv s" "0 \<notin> set x"
  shows "returns (STRU_Copy heap x s) (\<lambda>(hr, s'). stru_inv s' \<and> (SUCCEEDED hr \<longrightarrow> str_text s' = x \<and> c_text s' = x) \<and>
    (2 * (length x + 1) \<le> MAXDWORD \<and> heap_total heap \<longrightarrow> SUCCEEDED hr))"
  using STRU_Copy_spec [OF assms] c_text_str_text assms(3) by (auto elim!: returns_mono split: if_splits)

definition entry_ok :: "ENVIRONMENT_VAR_ENTRY \<Rightarrow> bool" where
  "entry_ok e \<longleftrightarrow> stru_inv (en_strName e) \<and> stru_inv (en_strValue e)"

lemma entry_ok_new [simp]: "entry_ok ENTRY_new"
  by (simp add: entry_ok_def ENTRY_new_def)

lemma Query_nul_free [simp]: "0 \<notin> set (QueryName e)" "0 \<notin> set (QueryValue e)"
  by (simp_all add: QueryName_def QueryValue_def)

lemma c_text_length: "stru_inv s \<Longrightarrow> 2 * (length (c_text s) + 1) \<le> MAXDWORD"
proof -
  assume s: "stru_inv s"
  have "length (c_text s) < length (QueryStr s)"
    using length_takeWhile_lt [of 0 "QueryStr s"] stru_invD(3,4) [OF s] by (metis c_text_def nth_mem)
  then show ?thesis using stru_invD(1,2) [OF s] by presburger
qed

lemma ENTRY_Initialize_spec:
  assumes "heap_ok 2 heap" "entry_ok e" "0 \<notin> set name" "0 \<notin> set value"
  shows "returns (ENTRY_Initialize heap name value e) (\<lambda>(hr, e'). entry_ok e' \<and>
    (SUCCEEDED hr \<longrightarrow> QueryName e' = name \<and> QueryValue e' = value) \<and>
    (2 * (length name + 1) \<le> MAXDWORD \<and> 2 * (length value + 1) \<le> MAXDWORD \<and> heap_total heap \<longrightarrow> SUCCEEDED hr))"
proof -
  obtain hr n where n: "STRU_Copy heap name (en_strName e) = Some (hr, n)" "stru_inv n"
    "SUCCEEDED hr \<longrightarrow> str_text n = name \<and> c_text n = name" "2 * (length name + 1) \<le> MAXDWORD \<and> heap_total heap \<longrightarrow> SUCCEEDED hr"
    using Copy_c_text [OF assms(1) _ assms(3), of "en_strName e"] assms(2) by (auto simp: entry_ok_def elim!: returnsE)
  obtain hr' v where v: "STRU_Copy heap value (en_strValue e) = Some (hr', v)" "stru_inv v"
    "SUCCEEDED hr' \<longrightarrow> str_text v = value \<and> c_text v = value" "2 * (length value + 1) \<le> MAXDWORD \<and> heap_total heap \<longrightarrow> SUCCEEDED hr'"
    using Copy_c_text [OF assms(1) _ assms(4), of "en_strValue e"] assms(2) by (auto simp: entry_ok_def elim!: returnsE)
  show ?thesis
    using n v assms(2) by (auto simp: ENTRY_Initialize_def entry_ok_def QueryName_def QueryValue_def)
qed

subsection \<open>The virtual functions keep the table's contract\<close>

lemma ENVIRONMENT_VAR_HASH_simps [simp]:
  "ExtractKey (ENVIRONMENT_VAR_HASH E) = (\<lambda>p. QueryName (E p))"
  "CalcKeyHash (ENVIRONMENT_VAR_HASH E) k = HashStringNoCase k 0"
  "EqualKeys (ENVIRONMENT_VAR_HASH E) = wcsicmp_equal"
  by (simp_all add: ENVIRONMENT_VAR_HASH_def)

lemma wcsicmp_equal_laws:
  "wcsicmp_equal a a" "wcsicmp_equal a b \<Longrightarrow> wcsicmp_equal b a" "wcsicmp_equal a b \<Longrightarrow> wcsicmp_equal b c \<Longrightarrow> wcsicmp_equal a c"
  by (simp_all add: wcsicmp_equal_def)

interpretation env: hash_key "ENVIRONMENT_VAR_HASH E" for E
  by unfold_locales (auto intro: wcsicmp_equal_laws HashStringNoCase_equal)

text \<open>The table reads only the names of its own records.\<close>

lemma env_ht_inv_cong:
  assumes "\<And>p. p \<in> set (ht_records T) \<Longrightarrow> QueryName (E' p) = QueryName (E p)"
  shows "ht_inv (ENVIRONMENT_VAR_HASH E') T = ht_inv (ENVIRONMENT_VAR_HASH E) T"
    "ht_lookup (ENVIRONMENT_VAR_HASH E') T = ht_lookup (ENVIRONMENT_VAR_HASH E) T"
proof -
  show "ht_lookup (ENVIRONMENT_VAR_HASH E') T = ht_lookup (ENVIRONMENT_VAR_HASH E) T"
    using assms by (auto simp: ht_lookup_def fun_eq_iff intro!: find_cong)
  show "ht_inv (ENVIRONMENT_VAR_HASH E') T = ht_inv (ENVIRONMENT_VAR_HASH E) T"
  proof (cases "ht_ppBuckets T")
    case (Some bs)
    have eq: "node_key (ENVIRONMENT_VAR_HASH E') n = node_key (ENVIRONMENT_VAR_HASH E) n" if "n \<in> set (concat bs)" for n
      using assms [of "nd_pRecord n"] that by (simp add: ht_records_def Some node_key_def)
    have "chain_ok (ENVIRONMENT_VAR_HASH E') nB b (bs ! b) = chain_ok (ENVIRONMENT_VAR_HASH E) nB b (bs ! b)" if "b < length bs" for nB b
    proof -
      have "node_key (ENVIRONMENT_VAR_HASH E') n = node_key (ENVIRONMENT_VAR_HASH E) n" if "n \<in> set (bs ! b)" for n
        using that \<open>b < length bs\<close> by (intro eq) (auto intro: nth_mem)
      then show ?thesis by (simp add: chain_ok_def node_ok_def cong: ball_cong_simp)
    qed
    moreover have "distinct_keys (ENVIRONMENT_VAR_HASH E') (concat bs) = distinct_keys (ENVIRONMENT_VAR_HASH E) (concat bs)"
      unfolding distinct_keys_def sorted_wrt_iff_nth_less using eq by (simp add: nth_mem del: set_concat)
    ultimately show ?thesis by (auto simp: ht_inv_def Some buckets_inv_def)
  qed (simp add: ht_inv_def)
qed

subsection \<open>States of the helpers\<close>

text \<open>
  The table is well-formed, its records are entries made before, and \<open>refs\<close> says how many references
  there are to each entry besides the table's own.
\<close>

definition env_refs :: "(nat \<Rightarrow> int) \<Rightarrow> env_table \<Rightarrow> bool" where
  "env_refs refs st \<longleftrightarrow> ht_inv (et_vt st) (et_table st) \<and>
     (\<forall>p \<in> set (ht_records (et_table st)). p < et_next st \<and> entry_ok (et_entries st p)) \<and>
     ext_refs (et_table st) = refs"

text \<open>The same where each reference is owned by one of the local variables \<open>own\<close>.\<close>

definition env_ok :: "nat set \<Rightarrow> env_table \<Rightarrow> bool" where
  "env_ok own st \<longleftrightarrow> ht_inv (et_vt st) (et_table st) \<and>
     (\<forall>p \<in> set (ht_records (et_table st)). p < et_next st \<and> entry_ok (et_entries st p)) \<and>
     (\<forall>p. ext_refs (et_table st) p = (if p \<in> own then 1 else 0))"

lemma env_ok_refs: "env_ok own st \<longleftrightarrow> env_refs (\<lambda>p. if p \<in> own then 1 else 0) st"
  by (auto simp: env_ok_def env_refs_def fun_eq_iff)

text \<open>What a table says about the variables: names to values.\<close>

definition env_map :: "entries \<Rightarrow> nat HASH_TABLE \<Rightarrow> wstr \<Rightarrow> wstr option" where
  "env_map E T k = map_option (\<lambda>p. QueryValue (E p)) (ht_lookup (ENVIRONMENT_VAR_HASH E) T k)"

definition env_upd :: "(wstr \<Rightarrow> wstr option) \<Rightarrow> wstr \<Rightarrow> wstr \<Rightarrow> wstr \<Rightarrow> wstr option" where
  "env_upd m name value = (\<lambda>k. if wcsicmp_equal k name then Some value else m k)"

definition env_del :: "(wstr \<Rightarrow> wstr option) \<Rightarrow> wstr \<Rightarrow> wstr \<Rightarrow> wstr option" where
  "env_del m name = (\<lambda>k. if wcsicmp_equal k name then None else m k)"

lemma ht_lookup_in: "ht_lookup vt T k = Some p \<Longrightarrow> p \<in> set (ht_records T)"
  by (auto simp: ht_lookup_def find_Some_iff)

text \<open>Changing an entry that is not in the table leaves the map as it is.\<close>

lemma env_map_other:
  assumes "q \<notin> set (ht_records T)"
  shows "ht_inv (ENVIRONMENT_VAR_HASH (E(q := e))) T = ht_inv (ENVIRONMENT_VAR_HASH E) T"
    "ht_lookup (ENVIRONMENT_VAR_HASH (E(q := e))) T = ht_lookup (ENVIRONMENT_VAR_HASH E) T"
    "env_map (E(q := e)) T = env_map E T"
proof -
  have n: "QueryName ((E(q := e)) p) = QueryName (E p)" if "p \<in> set (ht_records T)" for p using that assms by auto
  show "ht_inv (ENVIRONMENT_VAR_HASH (E(q := e))) T = ht_inv (ENVIRONMENT_VAR_HASH E) T"
    "ht_lookup (ENVIRONMENT_VAR_HASH (E(q := e))) T = ht_lookup (ENVIRONMENT_VAR_HASH E) T"
    by (rule env_ht_inv_cong; erule n)+
  with assms show "env_map (E(q := e)) T = env_map E T"
    by (auto simp: env_map_def fun_eq_iff intro!: option.map_cong dest: ht_lookup_in)
qed

lemma ext_refs_records_cong:
  "ht_records T' = ht_records T \<Longrightarrow> ht_refs T' = ht_refs T \<Longrightarrow> ext_refs T' = ext_refs T"
  by (simp add: ext_refs_def fun_eq_iff)

lemma refs_update [simp]:
  "ht_records (T\<lparr>ht_refs := f\<rparr>) = ht_records T" "ht_inv vt (T\<lparr>ht_refs := f\<rparr>) = ht_inv vt T"
  "ht_lookup vt (T\<lparr>ht_refs := f\<rparr>) = ht_lookup vt T" "Count (T\<lparr>ht_refs := f\<rparr>) = Count T"
  by (auto simp: ht_records_def ht_inv_def ht_lookup_def Count_def fun_eq_iff split: option.splits)

lemma DereferenceRecord_simps [simp]:
  "ht_records (DereferenceRecord p T) = ht_records T" "ht_inv vt (DereferenceRecord p T) = ht_inv vt T"
  "ht_lookup vt (DereferenceRecord p T) = ht_lookup vt T" "Count (DereferenceRecord p T) = Count T"
  "ext_refs (DereferenceRecord p T) = (ext_refs T)(p := ext_refs T p - 1)"
  unfolding DereferenceRecord_def refs_update by (simp_all add: ext_refs_def fun_eq_iff)

lemma ReferenceRecord_simps [simp]:
  "ht_records (ReferenceRecord p T) = ht_records T" "ht_inv vt (ReferenceRecord p T) = ht_inv vt T"
  "ht_lookup vt (ReferenceRecord p T) = ht_lookup vt T" "Count (ReferenceRecord p T) = Count T"
  "ext_refs (ReferenceRecord p T) = (ext_refs T)(p := ext_refs T p + 1)"
  unfolding ReferenceRecord_def refs_update by (simp_all add: ext_refs_def fun_eq_iff)

lemma env_map_refs [simp]:
  "env_map E (T\<lparr>ht_refs := f\<rparr>) = env_map E T" "env_map E (DereferenceRecord p T) = env_map E T"
  "env_map E (ReferenceRecord p T) = env_map E T"
  by (simp_all add: env_map_def fun_eq_iff)

lemma new_entry_refs:
  assumes "env_refs refs st" "new_entry os st = (r, st')"
  shows "et_next st' = Suc (et_next st)" "Count (et_table st') = Count (et_table st)"
    "env_map (et_entries st') (et_table st') = env_map (et_entries st) (et_table st)"
    "\<And>p. p \<noteq> et_next st \<Longrightarrow> et_entries st' p = et_entries st p"
    "env_refs (case r of None \<Rightarrow> refs | Some q \<Rightarrow> refs(q := 1)) st'" "r = (if os_new os (et_next st) then Some (et_next st) else None)"
    "r = Some q \<Longrightarrow> et_entries st' q = ENTRY_new \<and> q \<notin> set (ht_records (et_table st')) \<and> q < et_next st'"
proof -
  let ?q = "et_next st"
  have fresh: "?q \<notin> set (ht_records (et_table st))" using assms(1) by (auto simp: env_refs_def)
  note C = env_map_other [OF this]
  show "et_next st' = Suc (et_next st)" "Count (et_table st') = Count (et_table st)"
    "\<And>p. p \<noteq> et_next st \<Longrightarrow> et_entries st' p = et_entries st p"
    "r = (if os_new os (et_next st) then Some (et_next st) else None)"
    "r = Some q \<Longrightarrow> et_entries st' q = ENTRY_new \<and> q \<notin> set (ht_records (et_table st')) \<and> q < et_next st'"
    using assms(2) fresh by (auto simp: new_entry_def Let_def split: if_splits)
  show "env_map (et_entries st') (et_table st') = env_map (et_entries st) (et_table st)"
    using assms(2) C by (auto simp: new_entry_def Let_def env_map_def split: if_splits)
  have "ext_refs ((et_table st)\<lparr>ht_refs := (ht_refs (et_table st))(?q := 1)\<rparr>) = (ext_refs (et_table st))(?q := 1)"
    using fresh by (auto simp: ext_refs_def fun_eq_iff count_eq_zero_iff)
  then show "env_refs (case r of None \<Rightarrow> refs | Some q \<Rightarrow> refs(q := 1)) st'"
    using assms fresh by (auto simp: env_refs_def new_entry_def Let_def C less_Suc_eq split: if_splits)
qed

lemma set_entry_refs:
  assumes "env_refs refs st" "q \<notin> set (ht_records (et_table st))"
  shows "env_refs refs (st\<lparr>et_entries := (et_entries st)(q := e)\<rparr>)"
  using assms env_map_other(1) [OF assms(2)] by (auto simp: env_refs_def)

lemma insert_entry_refs:
  assumes "env_refs refs st" "entry_ok (et_entries st q)" "q < et_next st" "Count (et_table st) < MAXDWORD"
  shows "returns (InsertRecord (et_vt st) an ab q (et_table st)) (\<lambda>(hr, T').
    env_refs refs (st\<lparr>et_table := T'\<rparr>) \<and> Count T' \<le> Suc (Count (et_table st)) \<and>
    (SUCCEEDED hr \<longrightarrow> env_map (et_entries st) (et_table st) (QueryName (et_entries st q)) = None \<and>
       Count T' = Suc (Count (et_table st)) \<and>
       env_map (et_entries st) T' = env_upd (env_map (et_entries st) (et_table st)) (QueryName (et_entries st q)) (QueryValue (et_entries st q))) \<and>
    (FAILED hr \<longrightarrow> T' = et_table st) \<and>
    (an \<longrightarrow> SUCCEEDED hr = (env_map (et_entries st) (et_table st) (QueryName (et_entries st q)) = None)))"
proof -
  let ?vt = "et_vt st" and ?T = "et_table st" and ?E = "et_entries st"
  have inv: "ht_inv ?vt ?T" using assms(1) by (simp add: env_refs_def)
  obtain hr T' where I: "InsertRecord ?vt an ab q ?T = Some (hr, T')"
    "ht_inv ?vt T'" "ext_refs T' = ext_refs ?T" "an \<longrightarrow> SUCCEEDED hr = (ht_lookup ?vt ?T (QueryName (?E q)) = None)"
    "if SUCCEEDED hr then ht_lookup ?vt ?T (QueryName (?E q)) = None \<and> Count T' = Suc (Count ?T) \<and>
       ht_lookup ?vt T' = (\<lambda>k. if wcsicmp_equal k (QueryName (?E q)) then Some q else ht_lookup ?vt ?T k) else T' = ?T"
    using env.InsertRecord_lookup [OF inv assms(4), of an ab q, unfolded ENVIRONMENT_VAR_HASH_simps]
    by (elim returns_pairE conjE) (rule that)
  have sub: "set (ht_records T') \<subseteq> insert q (set (ht_records ?T))"
  proof
    fix p
    assume "p \<in> set (ht_records T')"
    then have "ht_lookup ?vt T' (QueryName (?E p)) = Some p"
      by (simp add: env.ht_lookup_iff [OF I(2)] wcsicmp_equal_laws)
    with I(5) show "p \<in> insert q (set (ht_records ?T))"
      by (cases "SUCCEEDED hr") (auto split: if_splits dest: ht_lookup_in)
  qed
  have "env_refs refs (st\<lparr>et_table := T'\<rparr>)"
    using assms(1-3) I(2,3) by (fastforce simp: env_refs_def dest!: subsetD [OF sub])
  with I show ?thesis by (cases "SUCCEEDED hr") (auto simp: env_map_def env_upd_def fun_eq_iff)
qed

lemma init_and_insert_refs:
  assumes "env_refs refs st" "heap_ok 2 (os_heap os)" "entry_ok (et_entries st q)" "q < et_next st"
    "q \<notin> set (ht_records (et_table st))" "0 \<notin> set name" "0 \<notin> set value" "Count (et_table st) < MAXDWORD"
  shows "returns (init_and_insert os q name value st) (\<lambda>(hr, st'). env_refs refs st' \<and> et_next st' = et_next st \<and>
    (\<forall>p. p \<noteq> q \<longrightarrow> et_entries st' p = et_entries st p) \<and> Count (et_table st') \<le> Suc (Count (et_table st)) \<and>
    (SUCCEEDED hr \<longrightarrow> env_map (et_entries st) (et_table st) name = None \<and> Count (et_table st') = Suc (Count (et_table st)) \<and>
       env_map (et_entries st') (et_table st') =
         env_upd (env_map (et_entries st) (et_table st)) name value) \<and>
    (heap_total (os_heap os) \<and> os_node os q \<and> 2 * (length name + 1) \<le> MAXDWORD \<and> 2 * (length value + 1) \<le> MAXDWORD \<longrightarrow>
       SUCCEEDED hr = (env_map (et_entries st) (et_table st) name = None)))"
proof -
  let ?E = "et_entries st" and ?T = "et_table st"
  obtain hr e where e: "ENTRY_Initialize (os_heap os) name value (?E q) = Some (hr, e)" "entry_ok e"
    "SUCCEEDED hr \<longrightarrow> QueryName e = name \<and> QueryValue e = value"
    "2 * (length name + 1) \<le> MAXDWORD \<and> 2 * (length value + 1) \<le> MAXDWORD \<and> heap_total (os_heap os) \<longrightarrow> SUCCEEDED hr"
    by (rule returns_pairE [OF ENTRY_Initialize_spec [OF assms(2,3,6,7)]]) (elim conjE, rule that)
  let ?st = "st\<lparr>et_entries := ?E(q := e)\<rparr>"
  have ok: "env_refs refs ?st" by (rule set_entry_refs [OF assms(1,5)])
  note C = env_map_other [OF assms(5), of ?E e]
  show ?thesis
  proof (cases "FAILED hr")
    case True
    then show ?thesis using e ok by (auto simp: init_and_insert_def)
  next
    case False
    then have ne: "QueryName e = name" "QueryValue e = value" using e(3) by auto
    have "entry_ok (et_entries ?st q)" "q < et_next ?st" "Count (et_table ?st) < MAXDWORD" using e(2) assms(4,8) by simp_all
    note I = insert_entry_refs [OF ok this, of "os_node os q" "os_buckets os"]
    show ?thesis
      using I e(1) False ne unfolding init_and_insert_def by (auto simp: C elim!: returns_mono)
  qed
qed

lemma deref_refs:
  assumes "env_refs refs st"
  shows "env_refs (refs(q := refs q - 1)) (st\<lparr>et_table := DereferenceRecord q (et_table st)\<rparr>)"
  using assms by (auto simp: env_refs_def)

lemmas env_ok_set_entry = set_entry_refs [where refs = "\<lambda>p. if p \<in> own then 1 else 0" for own, folded env_ok_refs]
lemmas insert_entry_spec = insert_entry_refs [where refs = "\<lambda>p. if p \<in> own then 1 else 0" for own, folded env_ok_refs]
lemmas init_and_insert_spec = init_and_insert_refs [where refs = "\<lambda>p. if p \<in> own then 1 else 0" for own, folded env_ok_refs]

lemma new_entry_spec:
  assumes "env_ok own st" "own \<subseteq> {..<et_next st}" "new_entry os st = (r, st')"
  shows "et_next st' = Suc (et_next st)" "Count (et_table st') = Count (et_table st)"
    "env_map (et_entries st') (et_table st') = env_map (et_entries st) (et_table st)"
    "\<And>p. p \<noteq> et_next st \<Longrightarrow> et_entries st' p = et_entries st p"
    "env_ok (own \<union> set_option r) st'" "r = (if os_new os (et_next st) then Some (et_next st) else None)"
    "r = Some q \<Longrightarrow> et_entries st' q = ENTRY_new \<and> q \<notin> set (ht_records (et_table st')) \<and> q < et_next st'"
proof -
  note N = new_entry_refs [OF assms(1) [unfolded env_ok_refs] assms(3)]
  have "(case r of None \<Rightarrow> \<lambda>p. if p \<in> own then 1 else 0 | Some q \<Rightarrow> (\<lambda>p. if p \<in> own then 1 else 0)(q := 1)) =
      (\<lambda>p. if p \<in> own \<union> set_option r then 1 else (0 :: int))"
    by (auto split: option.split)
  then show "env_ok (own \<union> set_option r) st'" using N(5) by (simp add: env_ok_refs)
  show "et_next st' = Suc (et_next st)" "Count (et_table st') = Count (et_table st)"
    "env_map (et_entries st') (et_table st') = env_map (et_entries st) (et_table st)"
    "\<And>p. p \<noteq> et_next st \<Longrightarrow> et_entries st' p = et_entries st p"
    "r = (if os_new os (et_next st) then Some (et_next st) else None)"
    "r = Some q \<Longrightarrow> et_entries st' q = ENTRY_new \<and> q \<notin> set (ht_records (et_table st')) \<and> q < et_next st'"
    by (fact N)+
qed

lemma env_ok_deref:
  assumes "env_ok own st" "q \<in> own"
  shows "env_ok (own - {q}) (st\<lparr>et_table := DereferenceRecord q (et_table st)\<rparr>)"
  using assms by (auto simp: env_ok_def)

text \<open>Copying one entry of the configuration, whatever allocation fails.\<close>

lemma CopyToTable_spec:
  assumes "env_ok {} st" "heap_ok 2 (os_heap os)" "Count (et_table st) < MAXDWORD" "p < et_next st"
  shows "returns (CopyToTable os p st) (\<lambda>st'. env_ok {} st' \<and> et_next st' = Suc (et_next st) \<and>
    (\<forall>q < et_next st. et_entries st' q = et_entries st q) \<and> Count (et_table st') \<le> Suc (Count (et_table st)) \<and>
    (heap_total (os_heap os) \<and> (\<forall>q. os_new os q \<and> os_node os q) \<and> entry_ok (et_entries st p) \<and>
       env_map (et_entries st) (et_table st) (QueryName (et_entries st p)) = None \<longrightarrow>
       Count (et_table st') = Suc (Count (et_table st)) \<and>
       env_map (et_entries st') (et_table st') =
         env_upd (env_map (et_entries st) (et_table st)) (QueryName (et_entries st p)) (QueryValue (et_entries st p))))"
proof -
  obtain r st1 where n: "new_entry os st = (r, st1)" by force
  note N = new_entry_spec [OF assms(1) _ n]
  let ?e = "et_entries st p"
  show ?thesis
  proof (cases r)
    case None
    with N n show ?thesis by (auto simp: CopyToTable_def split: if_splits)
  next
    case (Some q)
    have q: "q = et_next st" using N(6) Some by (auto split: if_splits)
    have st1: "env_ok {q} st1" "et_entries st1 q = ENTRY_new" "q \<notin> set (ht_records (et_table st1))" "q < et_next st1"
      using N(5,7) Some by auto
    obtain hr e where e: "ENTRY_Initialize (os_heap os) (QueryName ?e) (QueryValue ?e) ENTRY_new = Some (hr, e)" "entry_ok e"
      "SUCCEEDED hr \<longrightarrow> QueryName e = QueryName ?e \<and> QueryValue e = QueryValue ?e"
      "2 * (length (QueryName ?e) + 1) \<le> MAXDWORD \<and> 2 * (length (QueryValue ?e) + 1) \<le> MAXDWORD \<and> heap_total (os_heap os) \<longrightarrow> SUCCEEDED hr"
      by (rule returns_pairE [OF ENTRY_Initialize_spec [OF assms(2) entry_ok_new Query_nul_free]]) (elim conjE, rule that)
    let ?st = "st1\<lparr>et_entries := (et_entries st1)(q := e)\<rparr>"
    have ok: "env_ok {q} ?st" by (rule env_ok_set_entry [OF st1(1,3)])
    note C = env_map_other [OF st1(3), of "et_entries st1" e]
    have "entry_ok (et_entries ?st q)" "q < et_next ?st" "Count (et_table ?st) < MAXDWORD"
      using e(2) st1(4) N(2) assms(3) by simp_all
    note I = insert_entry_spec [OF ok this, of "os_node os q" "os_buckets os"]
    obtain hr' T where T: "InsertRecord (et_vt ?st) (os_node os q) (os_buckets os) q (et_table ?st) = Some (hr', T)"
      "env_ok {q} (?st\<lparr>et_table := T\<rparr>)" "Count T \<le> Suc (Count (et_table ?st))"
      "SUCCEEDED hr' \<longrightarrow> env_map (et_entries ?st) (et_table ?st) (QueryName (et_entries ?st q)) = None \<and>
       Count T = Suc (Count (et_table ?st)) \<and>
       env_map (et_entries ?st) T = env_upd (env_map (et_entries ?st) (et_table ?st)) (QueryName (et_entries ?st q)) (QueryValue (et_entries ?st q))"
      "os_node os q \<longrightarrow> SUCCEEDED hr' = (env_map (et_entries ?st) (et_table ?st) (QueryName (et_entries ?st q)) = None)"
      using I by (elim returns_pairE conjE) (rule that)
    have "env_ok {} (?st\<lparr>et_table := DereferenceRecord q T\<rparr>)"
      using env_ok_deref [OF T(2), of q] by simp
    moreover have "CopyToTable os p st = Some (?st\<lparr>et_table := DereferenceRecord q T\<rparr>)"
      using n e(1) T(1) Some by (simp add: CopyToTable_def)
    moreover have "SUCCEEDED hr' \<and> QueryName e = QueryName ?e \<and> QueryValue e = QueryValue ?e"
      if "heap_total (os_heap os)" "os_node os q" "entry_ok ?e" "env_map (et_entries st) (et_table st) (QueryName ?e) = None"
    proof -
      have "SUCCEEDED hr" using that(1,3) e(4) c_text_length by (auto simp: entry_ok_def QueryName_def QueryValue_def)
      then show ?thesis using e(3) T(5) that N(3) by (simp add: C)
    qed
    ultimately show ?thesis
      using N(1-4) T(3,4) q by (auto simp: C [unfolded q])
  qed
qed

lemma wipe_off_spec:
  assumes "env_ok own st"
  shows "returns (wipe_off key st) (\<lambda>st'. env_ok own st' \<and> et_next st' = et_next st \<and> et_entries st' = et_entries st \<and>
    Count (et_table st') \<le> Count (et_table st) \<and>
    env_map (et_entries st') (et_table st') = env_del (env_map (et_entries st) (et_table st)) key)"
proof -
  let ?T = "et_table st" and ?vt = "et_vt st"
  have inv: "ht_inv ?vt ?T" using assms by (simp add: env_ok_def)
  show ?thesis
  proof (cases "ht_lookup ?vt ?T key")
    case None
    have "env_del (env_map (et_entries st) ?T) key = env_map (et_entries st) ?T"
    proof
      fix k
      have "ht_lookup ?vt ?T k = None" if "wcsicmp_equal k key"
        using None that env.ht_lookup_iff [OF inv] wcsicmp_equal_laws
        by (metis ENVIRONMENT_VAR_HASH_simps(1,3) not_None_eq)
      then show "env_del (env_map (et_entries st) ?T) key k = env_map (et_entries st) ?T k"
        by (simp add: env_del_def env_map_def)
    qed
    then show ?thesis using assms None by (simp add: wipe_off_def env.FindKey_spec [OF inv])
  next
    case (Some p)
    let ?T1 = "DereferenceRecord p (ReferenceRecord p ?T)"
    have inv1: "ht_inv ?vt ?T1" using inv by simp
    obtain T' where T': "DeleteKey ?vt key ?T1 = Some T'" "ht_inv ?vt T'" "ext_refs T' = ext_refs ?T1" "Count T' \<le> Count ?T1"
      "ht_lookup ?vt T' = (\<lambda>l. if wcsicmp_equal l key then None else ht_lookup ?vt ?T1 l)"
      using env.DeleteKey_lookup [OF inv1, of key, unfolded ENVIRONMENT_VAR_HASH_simps] by (elim returnsE conjE) (rule that)
    have sub: "set (ht_records T') \<subseteq> set (ht_records ?T)"
    proof
      fix q
      assume "q \<in> set (ht_records T')"
      then have "ht_lookup ?vt T' (QueryName (et_entries st q)) = Some q"
        by (simp add: env.ht_lookup_iff [OF T'(2)] wcsicmp_equal_laws)
      then show "q \<in> set (ht_records ?T)" unfolding T'(5) by (auto split: if_splits dest: ht_lookup_in)
    qed
    have "env_map (et_entries st) T' = env_del (env_map (et_entries st) ?T) key"
      unfolding env_map_def env_del_def T'(5) by (simp add: fun_eq_iff)
    then show ?thesis
      using assms T' sub Some by (auto simp: wipe_off_def env.FindKey_spec [OF inv] env_ok_def)
  qed
qed

text \<open>Copying the whole table.\<close>

lemma copy_all_spec:
  assumes "env_ok {} st" "heap_ok 2 (os_heap os)" "Count (et_table st) + length ps \<le> MAXDWORD" "\<forall>p \<in> set ps. p < et_next st"
  shows "returns (fold (\<lambda>p r. r \<bind> CopyToTable os p) ps (Some st)) (\<lambda>st'. env_ok {} st' \<and> et_next st \<le> et_next st' \<and>
    (\<forall>q < et_next st. et_entries st' q = et_entries st q) \<and> Count (et_table st') \<le> Count (et_table st) + length ps)"
  using assms
proof (induction ps arbitrary: st)
  case (Cons p ps)
  obtain st1 where st1: "CopyToTable os p st = Some st1" "env_ok {} st1" "et_next st1 = Suc (et_next st)"
    "\<forall>q < et_next st. et_entries st1 q = et_entries st q" "Count (et_table st1) \<le> Suc (Count (et_table st))"
    using CopyToTable_spec [OF Cons.prems(1,2), of p] Cons.prems(3,4) by (auto elim: returnsE)
  have "returns (fold (\<lambda>p r. r \<bind> CopyToTable os p) ps (Some st1)) (\<lambda>st'. env_ok {} st' \<and> et_next st1 \<le> et_next st' \<and>
    (\<forall>q < et_next st1. et_entries st' q = et_entries st1 q) \<and> Count (et_table st') \<le> Count (et_table st1) + length ps)"
    using st1 Cons.prems by (intro Cons.IH) auto
  with st1 show ?case by (auto elim!: returns_mono)
qed simp

definition env_of :: "entries \<Rightarrow> nat list \<Rightarrow> wstr \<Rightarrow> wstr option" where
  "env_of E ps k = map_option (\<lambda>p. QueryValue (E p)) (List.find (\<lambda>p. wcsicmp_equal k (QueryName (E p))) ps)"

lemma env_map_env_of: "env_map E T = env_of E (ht_records T)"
  by (simp add: env_map_def env_of_def ht_lookup_def fun_eq_iff)

lemma copy_all_map:
  assumes "env_ok {} st" "heap_ok 2 (os_heap os)" "Count (et_table st) + length ps \<le> MAXDWORD"
    "\<forall>p \<in> set ps. p < et_next st \<and> entry_ok (et_entries st p)"
    "heap_total (os_heap os)" "\<forall>q. os_new os q \<and> os_node os q"
    "sorted_wrt (\<lambda>p q. \<not> wcsicmp_equal (QueryName (et_entries st p)) (QueryName (et_entries st q))) ps"
    "\<forall>p \<in> set ps. env_map (et_entries st) (et_table st) (QueryName (et_entries st p)) = None"
    "fold (\<lambda>p r. r \<bind> CopyToTable os p) ps (Some st) = Some st'"
  shows "Count (et_table st') = Count (et_table st) + length ps \<and>
    env_map (et_entries st') (et_table st') =
      (\<lambda>k. case env_of (et_entries st) ps k of Some v \<Rightarrow> Some v | None \<Rightarrow> env_map (et_entries st) (et_table st) k)"
  using assms
proof (induction ps arbitrary: st)
  case Nil
  then show ?case by (simp add: env_of_def)
next
  case (Cons p ps)
  let ?E = "et_entries st"
  have pm: "Count (et_table st) < MAXDWORD" "p < et_next st" "entry_ok (?E p)" "env_map ?E (et_table st) (QueryName (?E p)) = None"
    using Cons.prems(3,4,8) by auto
  obtain st1 where st1: "CopyToTable os p st = Some st1" "env_ok {} st1" "et_next st1 = Suc (et_next st)"
    "\<forall>q < et_next st. et_entries st1 q = ?E q" "Count (et_table st1) = Suc (Count (et_table st))"
    "env_map (et_entries st1) (et_table st1) = env_upd (env_map ?E (et_table st)) (QueryName (?E p)) (QueryValue (?E p))"
    using CopyToTable_spec [OF Cons.prems(1,2) pm(1,2)] pm(3,4) Cons.prems(5,6) by (auto elim!: returnsE)
  have E1: "et_entries st1 q = ?E q" if "q \<in> set ps" for q using that Cons.prems(4) st1(4) by auto
  have of1: "env_of (et_entries st1) ps = env_of ?E ps"
    using E1 by (auto simp: env_of_def fun_eq_iff find_Some_iff cong: find_cong intro!: option.map_cong) 
  have "Count (et_table st') = Count (et_table st1) + length ps \<and>
    env_map (et_entries st') (et_table st') =
      (\<lambda>k. case env_of (et_entries st1) ps k of Some v \<Rightarrow> Some v | None \<Rightarrow> env_map (et_entries st1) (et_table st1) k)"
  proof (rule Cons.IH [OF st1(2) Cons.prems(2)])
    show "Count (et_table st1) + length ps \<le> MAXDWORD" using Cons.prems(3) st1(5) by simp
    show "\<forall>p \<in> set ps. p < et_next st1 \<and> entry_ok (et_entries st1 p)"
      using Cons.prems(4) st1(3) E1 by auto
    show "heap_total (os_heap os)" "\<forall>q. os_new os q \<and> os_node os q" by fact+
    have "sorted_wrt (\<lambda>p q. \<not> wcsicmp_equal (QueryName (?E p)) (QueryName (?E q))) ps" using Cons.prems(7) by simp
    then show "sorted_wrt (\<lambda>p q. \<not> wcsicmp_equal (QueryName (et_entries st1 p)) (QueryName (et_entries st1 q))) ps"
      by (rule sorted_wrt_mono_rel [rotated]) (simp add: E1)
    show "\<forall>q \<in> set ps. env_map (et_entries st1) (et_table st1) (QueryName (et_entries st1 q)) = None"
    proof
      fix q
      assume q: "q \<in> set ps"
      have "\<not> wcsicmp_equal (QueryName (?E p)) (QueryName (?E q))" using Cons.prems(7) q by simp
      then have "\<not> wcsicmp_equal (QueryName (?E q)) (QueryName (?E p))" using wcsicmp_equal_laws(2) by blast
      moreover have "env_map ?E (et_table st) (QueryName (?E q)) = None" using Cons.prems(8) q by simp
      ultimately show "env_map (et_entries st1) (et_table st1) (QueryName (et_entries st1 q)) = None"
        unfolding st1(6) env_upd_def E1 [OF q] by simp
    qed
    show "fold (\<lambda>p r. r \<bind> CopyToTable os p) ps (Some st1) = Some st'" using Cons.prems(9) st1(1) by simp
  qed
  moreover have "(case env_of ?E ps k of Some v \<Rightarrow> Some v | None \<Rightarrow> env_upd (env_map ?E (et_table st)) (QueryName (?E p)) (QueryValue (?E p)) k) =
    (case env_of ?E (p # ps) k of Some v \<Rightarrow> Some v | None \<Rightarrow> env_map ?E (et_table st) k)" for k
  proof (cases "wcsicmp_equal k (QueryName (?E p))")
    case True
    have "\<not> wcsicmp_equal k (QueryName (?E q))" if "q \<in> set ps" for q
    proof -
      have "\<not> wcsicmp_equal (QueryName (?E p)) (QueryName (?E q))" using Cons.prems(7) that by simp
      then show ?thesis using wcsicmp_equal_laws(2) [OF True] wcsicmp_equal_laws(3) by blast
    qed
    then have "env_of ?E ps k = None" by (simp add: env_of_def find_None_iff)
    with True show ?thesis by (simp add: env_upd_def env_of_def)
  next
    case False
    then show ?thesis by (simp add: env_upd_def env_of_def split: option.split)
  qed
  ultimately show ?case unfolding of1 st1(5,6) by simp
qed

subsection \<open>Reading the process environment\<close>

definition env_os_ok :: "env_os \<Rightarrow> bool" where
  "env_os_ok os \<longleftrightarrow> heap_ok 2 (os_heap os) \<and> (\<forall>n. length (os_stack os n) = n) \<and>
     (\<forall>name v. os_getenv os name = Inr v \<longrightarrow> 0 \<notin> set v \<and> length v \<le> 32767)"

lemma stack_stru_inv:
  assumes "env_os_ok os" "0 < n" "n \<le> 1024"
  shows "stru_inv (stack_stru os n)" "QuerySizeCCH (stack_stru os n) = n" "length (QueryStr (stack_stru os n)) = n"
    "QueryStr (stack_stru os n) ! 0 = 0" "str_text (stack_stru os n) = []"
  using assms by (simp_all add: stack_stru_def STRU_init_def stru_inv_def buffer_inv_def env_os_ok_def QuerySizeCCH_def MAXDWORD_def str_text_def)

text \<open>The variable was found and has a value; otherwise the code goes on with an empty string.\<close>

definition env_value :: "env_os \<Rightarrow> wstr \<Rightarrow> wstr" where
  "env_value os name = (case os_getenv os name of Inl err \<Rightarrow> [] | Inr v \<Rightarrow> v)"

lemma GetEnvironmentVariable_total:
  "n \<le> length b \<Longrightarrow> \<exists>r e b'. GetEnvironmentVariable getenv name b n = Some (r, e, b')"
  by (auto simp: GetEnvironmentVariable_def split: sum.split)

lemma read_variable_short:
  assumes "env_os_ok os" "0 < n" "n \<le> 1024" "length (env_value os name) < n"
    "\<And>err. os_getenv os name = Inl err \<Longrightarrow> err = ERROR_ENVVAR_NOT_FOUND"
  shows "\<exists>s ys. read_variable os name extra (stack_stru os n) = Some (S_OK, env_value os name \<noteq> [], s) \<and>
    buffer_inv 2 (m_Buff s) \<and> QueryStr s = env_value os name @ 0 # ys"
proof -
  note S = stack_stru_inv [OF assms(1-3)]
  have b: "buffer_inv 2 (m_Buff (stack_stru os n))" using S(1) by (rule stru_inv_buffer)
  obtain c cs where q: "QueryStr (stack_stru os n) = c # cs" "c = 0"
    using S(3,4) assms(2) by (cases "QueryStr (stack_stru os n)") auto
  show ?thesis
  proof (cases "os_getenv os name")
    case (Inl err)
    then have "read_variable os name extra (stack_stru os n) = Some (S_OK, False, set_str (stack_stru os n) (QueryStr (stack_stru os n)))"
      using assms(5) by (simp add: read_variable_def GetEnvironmentVariable_def)
    with Inl b q show ?thesis by (simp add: env_value_def)
  next
    case (Inr v)
    then have v: "env_value os name = v" "length v < n" using assms(4) by (simp_all add: env_value_def)
    let ?b = "v @ 0 # drop (Suc (length v)) (QueryStr (stack_stru os n))"
    have "read_variable os name extra (stack_stru os n) = Some (S_OK, v \<noteq> [], set_str (stack_stru os n) ?b)"
      using Inr v(2) S(2,3) by (simp add: read_variable_def GetEnvironmentVariable_def ERROR_SUCCESS_def)
    moreover have "buffer_inv 2 (m_Buff (set_str (stack_stru os n) ?b))"
      using b S(3) v(2) by (simp add: buffer_inv_def)
    ultimately show ?thesis using v(1) by simp
  qed
qed

text \<open>A value that does not fit: whatever memory there is, the code reports failure.\<close>

lemma read_variable_long:
  assumes "env_os_ok os" "0 < n" "n \<le> 1024" "n \<le> length (env_value os name)" "extra \<le> 4294934000"
  shows "\<exists>s. read_variable os name extra (stack_stru os n) = Some (E_UNEXPECTED, False, s)"
proof -
  note S = stack_stru_inv [OF assms(1-3)]
  let ?s = "stack_stru os n"
  obtain v where v: "os_getenv os name = Inr v" "n \<le> length v" "length v \<le> 32767"
    using assms(1,2,4) by (cases "os_getenv os name") (auto simp: env_value_def env_os_ok_def)
  obtain s1 where s1: "STRU_Reset ?s = Some s1" "stru_inv s1" "m_cchLen s1 = 0"
    using STRU_Reset_spec [OF stru_inv_buffer [OF S(1)]] S(3) assms(2) length_str_text
    by (fastforce elim: returnsE)
  obtain hr s2 where r: "STRU_Resize (os_heap os) (u32 (length v + 1 + extra)) s1 = (hr, s2)" by force
  have "u32 (length v + 1 + extra) < 4294967296" by (simp add: u32_def)
  note R = STRU_Resize_spec [OF stru_inv_buffer [OF s1(2)] _ this r]
  have heap: "heap_ok 2 (os_heap os)" using assms(1) by (simp add: env_os_ok_def)
  have "length (QueryStr s2) = QuerySizeCCH s2" using R(1) [OF heap] by (simp add: buffer_inv_def QuerySizeCCH_def)
  then obtain a b c where "GetEnvironmentVariable (os_getenv os) name (QueryStr s2) (QuerySizeCCH s2) = Some (a, b, c)"
    using GetEnvironmentVariable_total [of "QuerySizeCCH s2" "QueryStr s2" "os_getenv os" name] by auto
  moreover have "IsEmpty (set_str s2 c)" using R(2) [OF heap] s1(3) by (simp add: IsEmpty_def set_str_def)
  ultimately show ?thesis
    using v s1(1) r S(2,3) by (simp add: read_variable_def GetEnvironmentVariable_def set_str_def)
qed

lemma read_variable_spec:
  assumes "env_os_ok os" "0 < n" "n \<le> 1024" "extra \<le> 4294934000"
  shows "returns (read_variable os name extra (stack_stru os n)) (\<lambda>(hr, f, s).
    SUCCEEDED hr \<longrightarrow> stru_inv (snd (SyncWithBuffer s)))"
proof (cases "n \<le> length (env_value os name)")
  case True
  from read_variable_long [OF assms(1-3) True assms(4)] show ?thesis by auto
next
  case False
  show ?thesis
  proof (cases "\<exists>err. os_getenv os name = Inl err \<and> err \<noteq> ERROR_ENVVAR_NOT_FOUND")
    case True
    then obtain err where e: "os_getenv os name = Inl err" "err \<noteq> ERROR_ENVVAR_NOT_FOUND" by blast
    note S = stack_stru_inv [OF assms(1-3)]
    have "0 \<in> set (QueryStr (stack_stru os n))" using S(3,4) assms(2) by (metis nth_mem)
    then show ?thesis
      using e SyncWithBuffer_inv(1) [OF stru_inv_buffer [OF S(1)]]
      by (simp add: read_variable_def GetEnvironmentVariable_def set_str_def)
  next
    case False
    from read_variable_short [OF assms(1-3), of name extra] False \<open>\<not> n \<le> _\<close>
    obtain s ys where "read_variable os name extra (stack_stru os n) = Some (S_OK, env_value os name \<noteq> [], s)"
      "buffer_inv 2 (m_Buff s)" "QueryStr s = env_value os name @ 0 # ys" by auto
    then show ?thesis using SyncWithBuffer_inv(1) [of s] by simp
  qed
qed

subsection \<open>The text of the authentication entry\<close>

definition auth_text :: "bool \<Rightarrow> bool \<Rightarrow> bool \<Rightarrow> wstr" where
  "auth_text w b a =
     (let t = (if w then L ''windows;'' else []) @ (if b then L ''basic;'' else []) @ (if a then L ''anonymous;'' else [])
      in if t = [] then L ''none'' else t)"

lemma Append_c_text:
  assumes "heap_ok 2 heap" "stru_inv s" "0 \<notin> set x" "0 \<notin> set (str_text s)"
  shows "returns (STRU_Append heap x s) (\<lambda>(hr, s'). stru_inv s' \<and> 0 \<notin> set (str_text s') \<and> (if SUCCEEDED hr then str_text s' = str_text s @ x else s' = s) \<and>
    (2 * (length (str_text s @ x) + 1) \<le> MAXDWORD \<and> heap_total heap \<longrightarrow> SUCCEEDED hr))"
  using STRU_Append_spec [OF assms(1-3)] assms(3,4) by (auto elim!: returns_mono split: if_splits)

lemma optional_append:
  assumes "heap_ok 2 heap" "stru_inv s" "0 \<notin> set x" "0 \<notin> set (str_text s)"
  shows "returns (if c then map_option snd (STRU_Append heap x s) else Some s) (\<lambda>s'. stru_inv s' \<and> 0 \<notin> set (str_text s') \<and>
    (heap_total heap \<and> 2 * (length (str_text s @ x) + 1) \<le> MAXDWORD \<longrightarrow> str_text s' = str_text s @ (if c then x else [])))"
  using Append_c_text [OF assms] assms(2,4) by (auto elim!: returns_mono split: if_splits)

lemma iis_auth_value_spec:
  assumes "heap_ok 2 heap"
  shows "returns (iis_auth_value heap w b a) (\<lambda>s. stru_inv s \<and> 0 \<notin> set (c_text s) \<and>
    (heap_total heap \<longrightarrow> c_text s = auth_text w b a \<and> length (c_text s) \<le> 30))"
proof -
  have nf: "0 \<notin> set ASPNETCORE_IIS_AUTH_WINDOWS" "0 \<notin> set ASPNETCORE_IIS_AUTH_BASIC" "0 \<notin> set ASPNETCORE_IIS_AUTH_ANONYMOUS"
    "0 \<notin> set ASPNETCORE_IIS_AUTH_NONE"
    by (simp_all add: ASPNETCORE_IIS_AUTH_WINDOWS_def ASPNETCORE_IIS_AUTH_BASIC_def ASPNETCORE_IIS_AUTH_ANONYMOUS_def ASPNETCORE_IIS_AUTH_NONE_def)
  have len: "length ASPNETCORE_IIS_AUTH_WINDOWS = 8" "length ASPNETCORE_IIS_AUTH_BASIC = 6" "length ASPNETCORE_IIS_AUTH_ANONYMOUS = 10"
    "length ASPNETCORE_IIS_AUTH_NONE = 4"
    by (simp_all add: ASPNETCORE_IIS_AUTH_WINDOWS_def ASPNETCORE_IIS_AUTH_BASIC_def ASPNETCORE_IIS_AUTH_ANONYMOUS_def ASPNETCORE_IIS_AUTH_NONE_def)
  obtain s1 where s1: "(if w then map_option snd (STRU_Copy heap ASPNETCORE_IIS_AUTH_WINDOWS STRU_new) else Some STRU_new) = Some s1"
    "stru_inv s1" "0 \<notin> set (str_text s1)" "heap_total heap \<longrightarrow> str_text s1 = (if w then ASPNETCORE_IIS_AUTH_WINDOWS else [])"
    using STRU_Copy_spec [OF assms stru_inv_new(1) nf(1)] nf(1) len(1) by (cases w) (auto simp: MAXDWORD_def elim!: returnsE split: if_splits)
  obtain s2 where s2: "(if b then map_option snd (STRU_Append heap ASPNETCORE_IIS_AUTH_BASIC s1) else Some s1) = Some s2"
    "stru_inv s2" "0 \<notin> set (str_text s2)" "heap_total heap \<and> 2 * (length (str_text s1 @ ASPNETCORE_IIS_AUTH_BASIC) + 1) \<le> MAXDWORD \<longrightarrow>
      str_text s2 = str_text s1 @ (if b then ASPNETCORE_IIS_AUTH_BASIC else [])"
    by (rule returnsE [OF optional_append [OF assms s1(2) nf(2) s1(3), of b]]) (elim conjE, rule that)
  obtain s3 where s3: "(if a then map_option snd (STRU_Append heap ASPNETCORE_IIS_AUTH_ANONYMOUS s2) else Some s2) = Some s3"
    "stru_inv s3" "0 \<notin> set (str_text s3)" "heap_total heap \<and> 2 * (length (str_text s2 @ ASPNETCORE_IIS_AUTH_ANONYMOUS) + 1) \<le> MAXDWORD \<longrightarrow>
      str_text s3 = str_text s2 @ (if a then ASPNETCORE_IIS_AUTH_ANONYMOUS else [])"
    by (rule returnsE [OF optional_append [OF assms s2(2) nf(3) s2(3), of a]]) (elim conjE, rule that)
  have t: "str_text s3 = (if w then ASPNETCORE_IIS_AUTH_WINDOWS else []) @ (if b then ASPNETCORE_IIS_AUTH_BASIC else []) @
      (if a then ASPNETCORE_IIS_AUTH_ANONYMOUS else [])" if "heap_total heap"
    using s1(4) s2(4) s3(4) that len by (simp add: MAXDWORD_def)
  have e: "IsEmpty s3 \<longleftrightarrow> str_text s3 = []" using length_str_text [OF s3(2)] by (auto simp: IsEmpty_def)
  have res: "iis_auth_value heap w b a = (if IsEmpty s3 then map_option snd (STRU_Copy heap ASPNETCORE_IIS_AUTH_NONE s3) else Some s3)"
    unfolding iis_auth_value_def s1(1) bind.bind_lunit s2(1) s3(1) ..
  show ?thesis
  proof (cases "IsEmpty s3")
    case True
    then show ?thesis
      using STRU_Copy_spec [OF assms s3(2) nf(4)] nf(4) len t e unfolding res
      by (auto simp: auth_text_def c_text_str_text MAXDWORD_def ASPNETCORE_IIS_AUTH_WINDOWS_def
          ASPNETCORE_IIS_AUTH_BASIC_def ASPNETCORE_IIS_AUTH_ANONYMOUS_def ASPNETCORE_IIS_AUTH_NONE_def elim!: returns_mono split: if_splits)
  next
    case False
    have c: "c_text s3 = str_text s3" by (rule c_text_str_text [OF s3(2,3)])
    have "str_text s3 \<noteq> []" using False e by simp
    with t len have "heap_total heap \<longrightarrow> c_text s3 = auth_text w b a \<and> length (c_text s3) \<le> 30"
      unfolding c by (auto simp: auth_text_def ASPNETCORE_IIS_AUTH_WINDOWS_def ASPNETCORE_IIS_AUTH_BASIC_def ASPNETCORE_IIS_AUTH_ANONYMOUS_def)
    then show ?thesis using False s3(2) unfolding res by auto
  qed
qed

subsection \<open>Publishing or releasing the table\<close>

lemma env_finish_spec:
  assumes "env_ok own st" "own = set_option h \<union> set_option a" "h = None \<or> a \<noteq> h"
  shows "returns (env_finish hr h a published st) (\<lambda>(hr', pub, st'). hr' = hr \<and> pub = published \<and> env_ok {} st' \<and>
    et_next st' = et_next st \<and> et_entries st' = et_entries st \<and>
    (if published then env_map (et_entries st') (et_table st') = env_map (et_entries st) (et_table st) else ht_records (et_table st') = []))"
proof -
  let ?st = "deref_entry a (deref_entry h st)"
  have d: "env_ok {} ?st" "et_next ?st = et_next st" "et_entries ?st = et_entries st"
    "env_map (et_entries st) (et_table ?st) = env_map (et_entries st) (et_table st)"
    using assms by (auto simp: deref_entry_def env_ok_def split: option.splits)
  have inv: "ht_inv (et_vt st) (et_table ?st)" using d(1,3) by (simp add: env_ok_def)
  show ?thesis
  proof (cases published)
    case True
    then show ?thesis using d by (simp add: env_finish_def Let_def)
  next
    case False
    obtain T where T: "Clear (et_table ?st) = Some T" "ht_inv (et_vt st) T" "ht_records T = []" "ext_refs T = ext_refs (et_table ?st)"
      using Clear_spec [OF inv] by (elim returnsE conjE) (rule that)
    then have "env_ok {} (?st\<lparr>et_table := T\<rparr>)" using d(1,3) by (simp add: env_ok_def)
    with False T d show ?thesis by (simp add: env_finish_def Let_def)
  qed
qed

lemma env_finish_fail:
  assumes "env_ok (set_option a) st"
  obtains st' where "env_finish hr None a False st = Some (hr, False, st')" "env_ok {} st'"
    "et_entries st' = et_entries st" "ht_records (et_table st') = []"
  using env_finish_spec [OF assms, of None a hr False] by (auto elim: returnsE)

definition startup_text :: "env_os \<Rightarrow> wstr" where
  "startup_text os =
     (let v = env_value os HOSTING_STARTUP_ASSEMBLIES_ENV_STR
      in (if v = [] then [] else v @ L '';'') @ HOSTING_STARTUP_ASSEMBLIES_VALUE)"

text \<open>No allocation fails, and the variable of the process is absent or fits the stack buffer.\<close>

definition env_os_good :: "env_os \<Rightarrow> bool" where
  "env_os_good os \<longleftrightarrow> heap_total (os_heap os) \<and> (\<forall>q. os_new os q \<and> os_node os q) \<and>
     length (env_value os HOSTING_STARTUP_ASSEMBLIES_ENV_STR) < 1024 \<and>
     (\<forall>err. os_getenv os HOSTING_STARTUP_ASSEMBLIES_ENV_STR = Inl err \<longrightarrow> err = ERROR_ENVVAR_NOT_FOUND)"

lemma startup_value_spec:
  assumes "heap_ok 2 heap" "stru_inv s"
  shows "returns (startup_value heap f s) (\<lambda>s'. stru_inv s' \<and>
    (heap_total heap \<and> 0 \<notin> set (str_text s) \<and> length (str_text s) \<le> 1024 \<longrightarrow>
       c_text s' = str_text s @ (if f then L '';'' else []) @ HOSTING_STARTUP_ASSEMBLIES_VALUE))"
proof -
  have nf: "0 \<notin> set (L '';'')" "0 \<notin> set HOSTING_STARTUP_ASSEMBLIES_VALUE" "length HOSTING_STARTUP_ASSEMBLIES_VALUE = 42"
    by (simp_all add: HOSTING_STARTUP_ASSEMBLIES_VALUE_def)
  obtain s1 where s1: "(if f then map_option snd (STRU_Append heap (L '';'') s) else Some s) = Some s1" "stru_inv s1"
    "heap_total heap \<and> length (str_text s) \<le> 1024 \<longrightarrow> str_text s1 = str_text s @ (if f then L '';'' else [])"
  proof (cases f)
    case True
    obtain hr t where t: "STRU_Append heap (L '';'') s = Some (hr, t)" "stru_inv t"
      "if SUCCEEDED hr then str_text t = str_text s @ L '';'' else t = s"
      "2 * (length (str_text s @ L '';'') + 1) \<le> MAXDWORD \<and> heap_total heap \<longrightarrow> SUCCEEDED hr"
      by (rule returns_pairE [OF STRU_Append_spec [OF assms nf(1)]]) (elim conjE, rule that)
    have "heap_total heap \<and> length (str_text s) \<le> 1024 \<longrightarrow> str_text t = str_text s @ (if f then L '';'' else [])"
      using t(3,4) True by (auto simp: MAXDWORD_def)
    with that [of t] t True show ?thesis by simp
  qed (use that [of s] assms(2) in simp)
  obtain hr s2 where s2: "STRU_Append heap HOSTING_STARTUP_ASSEMBLIES_VALUE s1 = Some (hr, s2)" "stru_inv s2"
    "if SUCCEEDED hr then str_text s2 = str_text s1 @ HOSTING_STARTUP_ASSEMBLIES_VALUE else s2 = s1"
    "2 * (length (str_text s1 @ HOSTING_STARTUP_ASSEMBLIES_VALUE) + 1) \<le> MAXDWORD \<and> heap_total heap \<longrightarrow> SUCCEEDED hr"
    by (rule returns_pairE [OF STRU_Append_spec [OF assms(1) s1(2) nf(2)]]) (elim conjE, rule that)
  have "c_text s2 = str_text s @ (if f then L '';'' else []) @ HOSTING_STARTUP_ASSEMBLIES_VALUE"
    if "heap_total heap" "0 \<notin> set (str_text s)" "length (str_text s) \<le> 1024"
  proof -
    have "str_text s2 = str_text s @ (if f then L '';'' else []) @ HOSTING_STARTUP_ASSEMBLIES_VALUE"
      using that s1(3) s2(3,4) nf(3) by (simp add: MAXDWORD_def)
    with that nf c_text_str_text [OF s2(2)] show ?thesis by auto
  qed
  with s2(1,2) show ?thesis unfolding startup_value_def s1(1) bind.bind_lunit by auto
qed

lemma startup_entry_spec:
  assumes "env_ok {a} st" "env_os_ok os" "a < et_next st" "Count (et_table st) < MAXDWORD"
    "env_map (et_entries st) (et_table st) HOSTING_STARTUP_ASSEMBLIES_NAME = None"
  shows "returns (startup_entry os a st) (\<lambda>(hr, pub, st'). env_ok {} st' \<and> pub = SUCCEEDED hr \<and>
    (\<forall>q < et_next st. et_entries st' q = et_entries st q) \<and> (\<not> pub \<longrightarrow> ht_records (et_table st') = []) \<and>
    (env_os_good os \<longrightarrow> pub \<and> env_map (et_entries st') (et_table st') =
       env_upd (env_map (et_entries st) (et_table st)) HOSTING_STARTUP_ASSEMBLIES_NAME (startup_text os)))"
proof -
  let ?extra = "length HOSTING_STARTUP_ASSEMBLIES_VALUE + 1"
  have len: "length HOSTING_STARTUP_ASSEMBLIES_VALUE = 42" "length HOSTING_STARTUP_ASSEMBLIES_NAME = 36"
    and nf: "0 \<notin> set HOSTING_STARTUP_ASSEMBLIES_NAME"
    by (simp_all add: HOSTING_STARTUP_ASSEMBLIES_VALUE_def HOSTING_STARTUP_ASSEMBLIES_NAME_def)
  have heap: "heap_ok 2 (os_heap os)" using assms(2) by (simp add: env_os_ok_def)
  obtain hr f s where r: "read_variable os HOSTING_STARTUP_ASSEMBLIES_ENV_STR ?extra (stack_stru os 1024) = Some (hr, f, s)"
    "SUCCEEDED hr \<longrightarrow> stru_inv (snd (SyncWithBuffer s))"
    by (rule returns_tripleE [OF read_variable_spec [OF assms(2), of 1024 ?extra HOSTING_STARTUP_ASSEMBLIES_ENV_STR]])
      (simp_all add: len that)
  have good: "hr = S_OK \<and> f = (env_value os HOSTING_STARTUP_ASSEMBLIES_ENV_STR \<noteq> []) \<and>
      str_text (snd (SyncWithBuffer s)) = env_value os HOSTING_STARTUP_ASSEMBLIES_ENV_STR" if g: "env_os_good os"
  proof -
    have nv: "0 \<notin> set (env_value os HOSTING_STARTUP_ASSEMBLIES_ENV_STR)"
      using assms(2) by (auto simp: env_os_ok_def env_value_def split: sum.splits)
    obtain s' ys where "read_variable os HOSTING_STARTUP_ASSEMBLIES_ENV_STR ?extra (stack_stru os 1024) =
        Some (S_OK, env_value os HOSTING_STARTUP_ASSEMBLIES_ENV_STR \<noteq> [], s')" "buffer_inv 2 (m_Buff s')"
      "QueryStr s' = env_value os HOSTING_STARTUP_ASSEMBLIES_ENV_STR @ 0 # ys"
      using read_variable_short [OF assms(2), of 1024 HOSTING_STARTUP_ASSEMBLIES_ENV_STR ?extra] g
      by (auto simp: env_os_good_def)
    with r(1) SyncWithBuffer_at [of s' "env_value os HOSTING_STARTUP_ASSEMBLIES_ENV_STR" ys] nv show ?thesis by auto
  qed
  show ?thesis
  proof (cases "FAILED hr")
    case True
    with good have "\<not> env_os_good os" by auto
    then show ?thesis
      using env_finish_spec [OF assms(1), of None "Some a" hr False] True r(1)
      by (auto simp: startup_entry_def elim!: returns_mono)
  next
    case False
    then have "stru_inv (snd (SyncWithBuffer s))" using r(2) by simp
    then obtain s2 where s2: "startup_value (os_heap os) f (snd (SyncWithBuffer s)) = Some s2" "stru_inv s2"
      "heap_total (os_heap os) \<and> 0 \<notin> set (str_text (snd (SyncWithBuffer s))) \<and> length (str_text (snd (SyncWithBuffer s))) \<le> 1024 \<longrightarrow>
       c_text s2 = str_text (snd (SyncWithBuffer s)) @ (if f then L '';'' else []) @ HOSTING_STARTUP_ASSEMBLIES_VALUE"
      by (rule returnsE [OF startup_value_spec [OF heap, of "snd (SyncWithBuffer s)" f]]) (elim conjE, rule that)
    obtain h st1 where n: "new_entry os st = (h, st1)" by force
    note N = new_entry_spec [OF assms(1) _ n]
    have own: "{a} \<subseteq> {..<et_next st}" using assms(3) by simp
    note N = N [OF own]
    show ?thesis
    proof (cases h)
      case None
      then have "env_ok {a} st1" "\<not> env_os_good os" using N(5,6) by (auto simp: env_os_good_def split: if_splits)
      moreover obtain st' where "env_finish E_OUTOFMEMORY None (Some a) False st1 = Some (E_OUTOFMEMORY, False, st')" "env_ok {} st'"
        "et_entries st' = et_entries st1" "ht_records (et_table st') = []"
        by (rule env_finish_fail [of "Some a" st1]) (use calculation in simp_all)
      ultimately show ?thesis
        using False r(1) s2(1) n None N(4) by (simp add: startup_entry_def)
    next
      case (Some q)
      then have q: "q = et_next st" "env_ok {a, q} st1" "et_entries st1 q = ENTRY_new" "q \<notin> set (ht_records (et_table st1))" "q < et_next st1"
        using N(5,6,7) by (auto simp: insert_commute split: if_splits)
      obtain hr' st2 where i: "init_and_insert os q HOSTING_STARTUP_ASSEMBLIES_NAME (c_text s2) st1 = Some (hr', st2)"
        "env_ok {a, q} st2" "\<forall>p. p \<noteq> q \<longrightarrow> et_entries st2 p = et_entries st1 p"
        "SUCCEEDED hr' \<longrightarrow> env_map (et_entries st1) (et_table st1) HOSTING_STARTUP_ASSEMBLIES_NAME = None \<and>
           Count (et_table st2) = Suc (Count (et_table st1)) \<and> env_map (et_entries st2) (et_table st2) =
           env_upd (env_map (et_entries st1) (et_table st1)) HOSTING_STARTUP_ASSEMBLIES_NAME (c_text s2)"
        "heap_total (os_heap os) \<and> os_node os q \<and> 2 * (length HOSTING_STARTUP_ASSEMBLIES_NAME + 1) \<le> MAXDWORD \<and>
           2 * (length (c_text s2) + 1) \<le> MAXDWORD \<longrightarrow>
           SUCCEEDED hr' = (env_map (et_entries st1) (et_table st1) HOSTING_STARTUP_ASSEMBLIES_NAME = None)"
      proof -
        have "entry_ok (et_entries st1 q)" "Count (et_table st1) < MAXDWORD" using q(3) N(2) assms(4) by simp_all
        from init_and_insert_spec [OF q(2) heap this(1) q(5,4) nf c_text_nul_free this(2), of s2] that show ?thesis
          by (elim returns_pairE conjE)
      qed
      have g: "SUCCEEDED hr' \<and> c_text s2 = startup_text os" if "env_os_good os"
      proof -
        have "c_text s2 = startup_text os"
          using s2(3) good [OF that] that assms(2)
          by (auto simp: startup_text_def env_os_good_def env_os_ok_def env_value_def Let_def split: sum.splits)
        moreover have "2 * (length (c_text s2) + 1) \<le> MAXDWORD" by (rule c_text_length [OF s2(2)])
        ultimately show ?thesis using i(5) that N(3) assms(5) len(2) by (simp add: env_os_good_def MAXDWORD_def)
      qed
      have "q \<noteq> a" using q(1) assms(3) by simp
      then show ?thesis
        using env_finish_spec [OF i(2), of "Some q" "Some a" hr' "SUCCEEDED hr'"] False r(1) s2(1) n Some i(1,3,4) N(3,4) q(1) g
        by (auto simp: startup_entry_def elim!: returns_mono split: if_splits)
    qed
  qed
qed

lemma auth_entry_spec:
  assumes "env_ok {} st" "env_os_ok os" "Count (et_table st) + 1 < MAXDWORD" "stru_inv value"
    "env_map (et_entries st) (et_table st) ASPNETCORE_IIS_AUTH_ENV_STR = None"
  shows "returns (auth_entry os value st) (\<lambda>(hr, pub, st'). env_ok {} st' \<and> pub = SUCCEEDED hr \<and>
    (\<forall>q < et_next st. et_entries st' q = et_entries st q) \<and> (\<not> pub \<longrightarrow> ht_records (et_table st') = []) \<and>
    (env_os_good os \<longrightarrow> pub \<and> env_map (et_entries st') (et_table st') =
       (let m = env_upd (env_map (et_entries st) (et_table st)) ASPNETCORE_IIS_AUTH_ENV_STR (c_text value)
        in if m HOSTING_STARTUP_ASSEMBLIES_NAME = None then env_upd m HOSTING_STARTUP_ASSEMBLIES_NAME (startup_text os) else m)))"
proof -
  let ?A = ASPNETCORE_IIS_AUTH_ENV_STR and ?H = HOSTING_STARTUP_ASSEMBLIES_NAME
  have nf: "0 \<notin> set ?A" and len: "length ?A = 24" by (simp_all add: ASPNETCORE_IIS_AUTH_ENV_STR_def)
  have heap: "heap_ok 2 (os_heap os)" using assms(2) by (simp add: env_os_ok_def)
  obtain r st1 where n: "new_entry os st = (r, st1)" by force
  note N = new_entry_spec [OF assms(1) empty_subsetI n]
  show ?thesis
  proof (cases r)
    case None
    then have "env_ok {} st1" "\<not> env_os_good os" using N(5,6) by (auto simp: env_os_good_def split: if_splits)
    then show ?thesis
      using env_finish_spec [of "{}" st1 None None E_OUTOFMEMORY False] n None N(4)
      by (auto simp: auth_entry_def elim!: returns_mono)
  next
    case (Some q)
    then have q: "q = et_next st" "env_ok {q} st1" "et_entries st1 q = ENTRY_new" "q \<notin> set (ht_records (et_table st1))" "q < et_next st1"
      using N(5,6,7) by (auto split: if_splits)
    let ?m = "env_upd (env_map (et_entries st1) (et_table st1)) ?A (c_text value)"
    obtain hr st2 where i: "init_and_insert os q ?A (c_text value) st1 = Some (hr, st2)"
      "env_ok {q} st2" "et_next st2 = et_next st1" "\<forall>p. p \<noteq> q \<longrightarrow> et_entries st2 p = et_entries st1 p"
      "Count (et_table st2) \<le> Suc (Count (et_table st1))"
      "SUCCEEDED hr \<longrightarrow> env_map (et_entries st1) (et_table st1) ?A = None \<and>
         Count (et_table st2) = Suc (Count (et_table st1)) \<and> env_map (et_entries st2) (et_table st2) = ?m"
      "heap_total (os_heap os) \<and> os_node os q \<and> 2 * (length ?A + 1) \<le> MAXDWORD \<and> 2 * (length (c_text value) + 1) \<le> MAXDWORD \<longrightarrow>
         SUCCEEDED hr = (env_map (et_entries st1) (et_table st1) ?A = None)"
    proof -
      have "entry_ok (et_entries st1 q)" "Count (et_table st1) < MAXDWORD" using q(3) N(2) assms(3) by simp_all
      from init_and_insert_spec [OF q(2) heap this(1) q(5,4) nf c_text_nul_free this(2), of "value"] that show ?thesis
        by (elim returns_pairE conjE)
    qed
    have g: "SUCCEEDED hr" if "env_os_good os"
      using i(7) that N(3) assms(5) len c_text_length [OF assms(4)] by (simp add: env_os_good_def MAXDWORD_def)
    show ?thesis
    proof (cases "FAILED hr")
      case True
      then have "\<not> env_os_good os" using g by auto
      then show ?thesis
        using env_finish_spec [OF i(2), of None "Some q" hr False] True n Some i(1,4) N(4) q(1)
        by (auto simp: auth_entry_def elim!: returns_mono)
    next
      case False
      then have m2: "env_map (et_entries st2) (et_table st2) = env_upd (env_map (et_entries st) (et_table st)) ?A (c_text value)"
        using i(6) N(3) by simp
      have inv2: "ht_inv (et_vt st2) (et_table st2)" using i(2) by (simp add: env_ok_def)
      have same: "\<forall>p < et_next st. et_entries st2 p = et_entries st p" using i(4) N(4) q(1) by simp
      show ?thesis
      proof (cases "ht_lookup (et_vt st2) (et_table st2) ?H")
        case h: (Some h)
        let ?st = "st2\<lparr>et_table := DereferenceRecord h (ReferenceRecord h (et_table st2))\<rparr>"
        have ok: "env_ok {q} ?st" using i(2) by (simp add: env_ok_def)
        have "env_map (et_entries st2) (et_table st2) ?H \<noteq> None" using h by (simp add: env_map_def)
        then show ?thesis
          using env_finish_spec [OF ok, of None "Some q" hr True] False n Some i(1) same m2 h env.FindKey_spec [OF inv2, of ?H]
          by (auto simp: auth_entry_def Let_def elim!: returns_mono)
      next
        case None
        then have none: "env_map (et_entries st2) (et_table st2) ?H = None" by (simp add: env_map_def)
        have c: "q < et_next st2" "Count (et_table st2) < MAXDWORD" using q(5) i(3,5) N(2) assms(3) by simp_all
        show ?thesis
          using startup_entry_spec [OF i(2) assms(2) c none] none m2 same False n Some i(1,3) N(1) None env.FindKey_spec [OF inv2, of ?H]
          by (auto simp: auth_entry_def Let_def elim!: returns_mono)
      qed
    qed
  qed
qed

subsection \<open>The whole helper\<close>

definition completed_env :: "env_os \<Rightarrow> bool \<Rightarrow> bool \<Rightarrow> bool \<Rightarrow> (wstr \<Rightarrow> wstr option) \<Rightarrow> wstr \<Rightarrow> wstr option" where
  "completed_env os w b a config =
     (let m = env_upd config ASPNETCORE_IIS_AUTH_ENV_STR (auth_text w b a)
      in if m HOSTING_STARTUP_ASSEMBLIES_NAME = None then env_upd m HOSTING_STARTUP_ASSEMBLIES_NAME (startup_text os) else m)"

lemma env_upd_del [simp]: "env_upd (env_del m k) k v = env_upd m k v"
  by (rule ext) (simp add: env_upd_def env_del_def)

lemma env_del_key [simp]: "env_del m k k = None"
  by (simp add: env_del_def wcsicmp_equal_laws(1))

lemma Apply_spec: "ht_inv vt T \<Longrightarrow> Apply f T s = Some (fold f (ht_records T) s)"
  by (elim ht_invE) (simp add: Apply_def ht_chains_def ht_records_def fold_map comp_def)

lemma ht_inv_length: "ht_inv vt T \<Longrightarrow> length (ht_records T) = Count T"
  by (elim ht_invE) (simp add: ht_records_def Count_def)

lemma ht_inv_sorted:
  "ht_inv (ENVIRONMENT_VAR_HASH E) T \<Longrightarrow> sorted_wrt (\<lambda>p q. \<not> wcsicmp_equal (QueryName (E p)) (QueryName (E q))) (ht_records T)"
  by (elim ht_invE) (simp add: ht_records_def distinct_keys_def sorted_wrt_map node_key_def)

lemma Initialize_cases:
  assumes "(hr, T) = Initialize lock alloc 37 HASH_TABLE_new"
  shows "if SUCCEEDED lock \<and> alloc then hr = S_OK \<and> ht_inv vt T \<and> ht_records T = [] \<and> ht_refs T = (\<lambda>_. 0)
     else FAILED hr \<and> Clear T = Some (T\<lparr>ht_nItems := 0\<rparr>) \<and> ht_records T = [] \<and> ht_refs T = (\<lambda>_. 0)"
proof -
  have b: "\<not> MAXDWORD div sizeof_ptr \<le> 37" by (simp add: MAXDWORD_def sizeof_ptr_def)
  consider "FAILED lock" | "SUCCEEDED lock" "\<not> alloc" | "SUCCEEDED lock" alloc by blast
  then show ?thesis
  proof cases
    case 3
    with assms Initialize_spec [of 37 lock vt] b show ?thesis by auto
  qed (use assms b in \<open>simp_all add: Initialize_def HASH_TABLE_new_def Clear_def ht_chains_def ht_records_def\<close>)
qed

lemma InitEnvironmentVariablesTable_spec:
  assumes "env_os_ok os" "ht_inv (et_vt st) pIn" "\<forall>p \<in> set (ht_records pIn). p < et_next st" "Count pIn + 1 < MAXDWORD"
  shows "returns (InitEnvironmentVariablesTable os w b a pIn st) (\<lambda>(hr, pub, st').
    pub = SUCCEEDED hr \<and> (\<forall>q. ext_refs (et_table st') q = 0) \<and> (\<forall>q < et_next st. et_entries st' q = et_entries st q) \<and>
    (if pub then env_ok {} st' else ht_records (et_table st') = []) \<and>
    (env_os_good os \<and> SUCCEEDED (os_lock os) \<and> os_alloc_table os \<and> os_new_table os \<and>
       (\<forall>p \<in> set (ht_records pIn). entry_ok (et_entries st p)) \<longrightarrow>
       pub \<and> env_map (et_entries st') (et_table st') = completed_env os w b a (env_map (et_entries st) pIn)))"
proof (cases "os_new_table os")
  case False
  then show ?thesis
    by (simp add: InitEnvironmentVariablesTable_def ext_refs_def ht_records_def HASH_TABLE_new_def)
next
  case new: True
  obtain hr and T :: "nat HASH_TABLE" where i: "Initialize (os_lock os) (os_alloc_table os) 37 HASH_TABLE_new = (hr, T)" by force
  note I = Initialize_cases [OF i [symmetric], where vt = "et_vt st"]
  let ?st1 = "st\<lparr>et_table := T\<rparr>"
  show ?thesis
  proof (cases "SUCCEEDED (os_lock os) \<and> os_alloc_table os")
    case False
    moreover have "ht_records (T\<lparr>ht_nItems := 0\<rparr>) = ht_records T" by (simp add: ht_records_def)
    ultimately show ?thesis using I i new
      by (auto simp: InitEnvironmentVariablesTable_def env_finish_def deref_entry_def ext_refs_def)
  next
    case True
    then have T: "hr = S_OK" "ht_inv (et_vt st) T" "ht_records T = []" "ht_refs T = (\<lambda>_. 0)" using I by simp_all
    have heap: "heap_ok 2 (os_heap os)" using assms(1) by (simp add: env_os_ok_def)
    have len: "length (ht_records pIn) = Count pIn" by (rule ht_inv_length [OF assms(2)])
    have ok1: "env_ok {} ?st1" using T by (simp add: env_ok_def ext_refs_def)
    have c1: "Count T = 0" using ht_inv_length [OF T(2)] T(3) by simp
    have bound: "Count (et_table ?st1) + length (ht_records pIn) \<le> MAXDWORD" using assms(4) len c1 by simp
    have m1: "env_map (et_entries ?st1) (et_table ?st1) = (\<lambda>_. None)" using T(3) by (simp add: env_map_env_of env_of_def fun_eq_iff)
    obtain st2 where st2: "fold (\<lambda>p r. r \<bind> CopyToTable os p) (ht_records pIn) (Some ?st1) = Some st2" "env_ok {} st2"
      "et_next ?st1 \<le> et_next st2" "\<forall>q < et_next ?st1. et_entries st2 q = et_entries ?st1 q"
      "Count (et_table st2) \<le> Count (et_table ?st1) + length (ht_records pIn)"
      using copy_all_spec [OF ok1 heap bound] assms(3) by (auto elim: returnsE)
    have good: "Count (et_table st2) = Count pIn \<and> env_map (et_entries st2) (et_table st2) = env_map (et_entries st) pIn"
      if "env_os_good os" "\<forall>p \<in> set (ht_records pIn). entry_ok (et_entries st p)"
    proof -
      have "Count (et_table st2) = Count (et_table ?st1) + length (ht_records pIn) \<and> env_map (et_entries st2) (et_table st2) =
        (\<lambda>k. case env_of (et_entries ?st1) (ht_records pIn) k of Some v \<Rightarrow> Some v | None \<Rightarrow> env_map (et_entries ?st1) (et_table ?st1) k)"
        using that assms(3) m1 ht_inv_sorted [OF assms(2)]
        by (intro copy_all_map [OF ok1 heap bound _ _ _ _ _ st2(1)]) (auto simp: env_os_good_def)
      then show ?thesis
        unfolding m1 using len c1 by (auto simp: env_map_env_of fun_eq_iff split: option.split)
    qed
    have run: "InitEnvironmentVariablesTable os w b a pIn st =
      (if Count (et_table st2) \<noteq> Count pIn then env_finish E_UNEXPECTED None None False st2
       else wipe_off ASPNETCORE_IIS_AUTH_ENV_STR st2 \<bind> (\<lambda>st3. iis_auth_value (os_heap os) w b a \<bind> (\<lambda>value. auth_entry os value st3)))"
      using new i T(1) st2(1) by (simp add: InitEnvironmentVariablesTable_def Let_def Apply_spec [OF assms(2)])
    show ?thesis
    proof (cases "Count (et_table st2) = Count pIn")
      case False
      then show ?thesis
        using env_finish_spec [OF st2(2), of None None E_UNEXPECTED False] good st2(4) unfolding run
        by (auto simp: env_ok_def elim!: returns_mono)
    next
      case cnt: True
      obtain st3 where st3: "wipe_off ASPNETCORE_IIS_AUTH_ENV_STR st2 = Some st3" "env_ok {} st3" "et_next st3 = et_next st2"
        "et_entries st3 = et_entries st2" "Count (et_table st3) \<le> Count (et_table st2)"
        "env_map (et_entries st3) (et_table st3) = env_del (env_map (et_entries st2) (et_table st2)) ASPNETCORE_IIS_AUTH_ENV_STR"
        using wipe_off_spec [OF st2(2), of ASPNETCORE_IIS_AUTH_ENV_STR] by (elim returnsE conjE) (rule that)
      obtain v where v: "iis_auth_value (os_heap os) w b a = Some v" "stru_inv v" "heap_total (os_heap os) \<longrightarrow> c_text v = auth_text w b a"
        using iis_auth_value_spec [OF heap, of w b a] by (auto elim: returnsE)
      have c3: "Count (et_table st3) + 1 < MAXDWORD" using st3(5) cnt assms(4) by simp
      have none: "env_map (et_entries st3) (et_table st3) ASPNETCORE_IIS_AUTH_ENV_STR = None" unfolding st3(6) by simp
      have nxt: "et_next st \<le> et_next st3" using st2(3) st3(3) by simp
      have fin: "env_map (et_entries st3) (et_table st3) = env_del (env_map (et_entries st) pIn) ASPNETCORE_IIS_AUTH_ENV_STR"
        if "env_os_good os" "\<forall>p \<in> set (ht_records pIn). entry_ok (et_entries st p)"
        using good [OF that] st3(6) by simp
      have same: "\<forall>q < et_next st. et_entries st3 q = et_entries st q" using st2(4) st3(4) by simp
      obtain hr' pub st4 where A: "auth_entry os v st3 = Some (hr', pub, st4)" "env_ok {} st4" "pub = SUCCEEDED hr'"
        "\<forall>q < et_next st3. et_entries st4 q = et_entries st3 q" "\<not> pub \<longrightarrow> ht_records (et_table st4) = []"
        "env_os_good os \<longrightarrow> pub \<and> env_map (et_entries st4) (et_table st4) =
          (let m = env_upd (env_map (et_entries st3) (et_table st3)) ASPNETCORE_IIS_AUTH_ENV_STR (c_text v)
           in if m HOSTING_STARTUP_ASSEMBLIES_NAME = None then env_upd m HOSTING_STARTUP_ASSEMBLIES_NAME (startup_text os) else m)"
        by (rule returns_tripleE [OF auth_entry_spec [OF st3(2) assms(1) c3 v(2) none]]) (elim conjE, rule that)
      have "env_map (et_entries st4) (et_table st4) = completed_env os w b a (env_map (et_entries st) pIn)"
        if "env_os_good os" "\<forall>p \<in> set (ht_records pIn). entry_ok (et_entries st p)"
      proof -
        have "c_text v = auth_text w b a" using v(3) that(1) by (simp add: env_os_good_def)
        with A(6) that(1) show ?thesis unfolding completed_env_def fin [OF that] by simp
      qed
      moreover have "\<forall>q < et_next st. et_entries st4 q = et_entries st q"
        using A(4) same nxt by (metis less_le_trans)
      ultimately show ?thesis
        using A(1-3,5,6) cnt env_ok_def [of "{}" st4] unfolding run st3(1) v(1) bind.bind_lunit by simp
    qed
  qed
qed

subsection \<open>Merging with the process environment\<close>

lemma wcsrchr_last:
  assumes "0 \<notin> set xs" "c \<noteq> 0"
  shows "wcsrchr (xs @ c # 0 # ys) c = Some (length xs)"
  using assms by (induction xs) auto

lemma name_without_eq_spec:
  assumes "heap_ok 2 heap" "heap_total heap" "QueryName e = n @ [61]" "length n \<le> 32767"
  shows "\<exists>s. name_without_eq heap e = Some (S_OK, s) \<and> c_text s = n"
proof -
  have nf: "0 \<notin> set (n @ [61 :: WCHAR])" using Query_nul_free(1) [of e] assms(3) by simp
  obtain hr s where s: "STRU_Copy heap (n @ [61]) STRU_new = Some (hr, s)" "stru_inv s"
    "if SUCCEEDED hr then str_text s = n @ [61] else s = STRU_new"
    "2 * (length (n @ [61 :: WCHAR]) + 1) \<le> MAXDWORD \<and> heap_total heap \<longrightarrow> SUCCEEDED hr"
    by (rule returns_pairE [OF STRU_Copy_spec [OF assms(1) stru_inv_new(1) nf]]) (elim conjE, rule that)
  then have ok: "SUCCEEDED hr" "str_text s = n @ [61]" using assms(2,4) by (auto simp: MAXDWORD_def)
  have len: "m_cchLen s = Suc (length n)" using length_str_text [OF s(2)] ok(2) by simp
  obtain ys where q: "QueryStr s = (n @ [61]) @ 0 # ys"
    using split_at [OF stru_invD(3,4) [OF s(2)]] ok(2) by (metis str_text_def)
  have ix: "LastIndexOf s 61 0 = int (length n)"
    using wcsrchr_last [of n 61 ys] nf len assms(4) by (simp add: LastIndexOf_def QueryCCH_def q index_result_def)
  have st: "store_at (QueryStr s) (length n) 0 = Some (n @ 0 # 0 # ys)" by (simp add: q)
  have b: "buffer_inv 2 (m_Buff (set_str s (n @ 0 # 0 # ys)))"
    using stru_inv_buffer [OF s(2)] q by (simp add: buffer_inv_def)
  have "SyncWithBuffer (set_str s (n @ 0 # 0 # ys)) = (S_OK, (set_str s (n @ 0 # 0 # ys))\<lparr>m_cchLen := length n\<rparr>)"
    using nf by (intro SyncWithBuffer_at(1) [OF b]) simp_all
  moreover have "c_text ((set_str s (n @ 0 # 0 # ys))\<lparr>m_cchLen := length n\<rparr>) = n"
  proof -
    have "\<forall>x \<in> set n. x \<noteq> 0" using nf by auto
    then show ?thesis by (simp add: c_text_def takeWhile_prefix_stop)
  qed
  ultimately show ?thesis
    using s(1) ok(1) ix st unfolding name_without_eq_def assms(3) by simp
qed

text \<open>
  C30: for an entry \<open>NAME=\<close> with a variable \<open>NAME\<close> of the process that fits the 300 characters of the
  stack buffer, the value becomes the process's value, a semicolon and the configured value (only the
  configured value when the process has none). A longer value always makes the code fail with
  \<open>E_UNEXPECTED\<close>: after the second call it looks at the length that only \<open>SyncWithBuffer\<close> would set.
\<close>

theorem AppendEnvironmentVariables_correct:
  assumes "env_os_ok os" "heap_total (os_heap os)" "entry_ok (E p)" "QueryName (E p) = n @ [61]" "length n \<le> 32767"
    and "length (QueryValue (E p)) \<le> 2000000000" "\<And>err. os_getenv os n = Inl err \<Longrightarrow> err = ERROR_ENVVAR_NOT_FOUND"
  shows "returns (AppendEnvironmentVariables os p (E, hr0)) (\<lambda>(E', hr).
    if length (env_value os n) < 300
    then hr = hr0 \<and> QueryName (E' p) = QueryName (E p) \<and> (\<forall>q. q \<noteq> p \<longrightarrow> E' q = E q) \<and>
      QueryValue (E' p) = (if env_value os n = [] then [] else env_value os n @ L '';'') @ QueryValue (E p)
    else hr = E_UNEXPECTED \<and> E' = E)"
proof -
  have heap: "heap_ok 2 (os_heap os)" using assms(1) by (simp add: env_os_ok_def)
  obtain s where s: "name_without_eq (os_heap os) (E p) = Some (S_OK, s)" "c_text s = n"
    using name_without_eq_spec [OF heap assms(2,4,5)] by blast
  let ?v = "env_value os n" and ?x = "length (QueryValue (E p)) + 2"
  show ?thesis
  proof (cases "length ?v < 300")
    case False
    then obtain t where "read_variable os n ?x (stack_stru os 300) = Some (E_UNEXPECTED, False, t)"
      using read_variable_long [OF assms(1), of 300 n ?x] assms(6) by auto
    with s False show ?thesis by (simp add: AppendEnvironmentVariables_def)
  next
    case True
    obtain t ys where t: "read_variable os n ?x (stack_stru os 300) = Some (S_OK, ?v \<noteq> [], t)"
      "buffer_inv 2 (m_Buff t)" "QueryStr t = ?v @ 0 # ys"
      using read_variable_short [OF assms(1), of 300 n ?x] True assms(7) by auto
    have nv: "0 \<notin> set ?v" using assms(1) by (auto simp: env_os_ok_def env_value_def split: sum.splits)
    note Y = SyncWithBuffer_at [OF t(2,3) nv]
    let ?t = "t\<lparr>m_cchLen := length ?v\<rparr>"
    obtain hr2 s2 where s2: "(if ?v \<noteq> [] then STRU_Append (os_heap os) (L '';'') ?t else Some (S_OK, ?t)) = Some (hr2, s2)"
      "stru_inv s2" "str_text s2 = (if ?v = [] then [] else ?v @ L '';'')" "SUCCEEDED hr2"
    proof (cases "?v = []")
      case True
      then show ?thesis using that [of S_OK ?t] Y by simp
    next
      case False
      obtain hr u where u: "STRU_Append (os_heap os) (L '';'') ?t = Some (hr, u)" "stru_inv u"
        "if SUCCEEDED hr then str_text u = str_text ?t @ L '';'' else u = ?t"
        "2 * (length (str_text ?t @ L '';'') + 1) \<le> MAXDWORD \<and> heap_total (os_heap os) \<longrightarrow> SUCCEEDED hr"
        by (rule returns_pairE [OF STRU_Append_spec [OF heap Y(2)], of "L '';''"]) (simp, elim conjE, rule that)
      have "SUCCEEDED hr" using u(4) Y(3) True assms(2) by (simp add: MAXDWORD_def)
      with u False Y(3) that [of hr u] show ?thesis by auto
    qed
    let ?r = "(if ?v = [] then [] else ?v @ L '';'') @ QueryValue (E p)"
    have nr: "0 \<notin> set ?r" using nv by simp
    have lr: "length ?r \<le> 2000000300" using True assms(6) by simp
    obtain hr3 s3 where s3: "STRU_Append (os_heap os) (QueryValue (E p)) s2 = Some (hr3, s3)" "stru_inv s3"
      "if SUCCEEDED hr3 then str_text s3 = str_text s2 @ QueryValue (E p) else s3 = s2"
      "2 * (length (str_text s2 @ QueryValue (E p)) + 1) \<le> MAXDWORD \<and> heap_total (os_heap os) \<longrightarrow> SUCCEEDED hr3"
      by (rule returns_pairE [OF STRU_Append_spec [OF heap s2(2) Query_nul_free(2)]]) (elim conjE, rule that)
    have ok3: "SUCCEEDED hr3" "str_text s3 = ?r" using s3(3,4) s2(3) lr assms(2) by (simp_all add: MAXDWORD_def)
    then have c3: "c_text s3 = ?r" using c_text_str_text [OF s3(2)] nr by simp
    obtain hr4 e where e: "ENTRY_Initialize (os_heap os) (QueryName (E p)) ?r (E p) = Some (hr4, e)" "entry_ok e"
      "SUCCEEDED hr4 \<longrightarrow> QueryName e = QueryName (E p) \<and> QueryValue e = ?r"
      "2 * (length (QueryName (E p)) + 1) \<le> MAXDWORD \<and> 2 * (length ?r + 1) \<le> MAXDWORD \<and> heap_total (os_heap os) \<longrightarrow> SUCCEEDED hr4"
      by (rule returns_pairE [OF ENTRY_Initialize_spec [OF heap assms(3) Query_nul_free(1) nr]]) (elim conjE, rule that)
    have ok4: "SUCCEEDED hr4" using e(4) lr assms(2,4,5) by (simp add: MAXDWORD_def)
    have "AppendEnvironmentVariables os p (E, hr0) = Some (E(p := e), hr0)"
      using s t(1) Y(1) s2(1,4) s3(1) ok3(1) c3 e(1) ok4 unfolding AppendEnvironmentVariables_def Let_def prod.case s(1) by simp
    then show ?thesis using True e(3) ok4 by simp
  qed
qed

definition calm_os :: env_os where
  "calm_os = \<lparr>os_heap = zero_heap, os_getenv = (\<lambda>name. if name = L ''PATH'' then Inr (L ''C:'') else Inl ERROR_ENVVAR_NOT_FOUND),
     os_new = (\<lambda>_. True), os_new_table = True, os_node = (\<lambda>_. True), os_alloc_table = True, os_buckets = True, os_lock = S_OK,
     os_stack = (\<lambda>n. replicate n 0)\<rparr>"

lemma calm_os_ok [simp]: "env_os_ok calm_os" "env_os_good calm_os" "heap_total (os_heap calm_os)"
  by (auto simp: env_os_ok_def env_os_good_def calm_os_def env_value_def HOSTING_STARTUP_ASSEMBLIES_ENV_STR_def split: if_splits)

definition path_entry :: ENVIRONMENT_VAR_ENTRY where
  "path_entry = \<lparr>en_strName = (STRU_init (L ''PATH='' @ [0]))\<lparr>m_cchLen := 5\<rparr>,
     en_strValue = (STRU_init (L ''D:'' @ [0]))\<lparr>m_cchLen := 2\<rparr>\<rparr>"

lemma path_entry_ok [simp]: "entry_ok path_entry" "QueryName path_entry = L ''PATH='' " "QueryValue path_entry = L ''D:'' "
  by (simp_all add: path_entry_def entry_ok_def stru_inv_def buffer_inv_def STRU_init_def MAXDWORD_def QueryName_def QueryValue_def c_text_def)

lemma AppendEnvironmentVariables_correct_witness:
  "returns (AppendEnvironmentVariables calm_os 0 (\<lambda>_. path_entry, S_OK)) (\<lambda>(E', hr).
    hr = S_OK \<and> QueryValue (E' 0) = L ''C:;D:'')"
proof -
  have "returns (AppendEnvironmentVariables calm_os 0 (\<lambda>_. path_entry, S_OK)) (\<lambda>(E', hr).
    if length (env_value calm_os (L ''PATH'')) < 300
    then hr = S_OK \<and> QueryName (E' 0) = QueryName path_entry \<and> (\<forall>q. q \<noteq> 0 \<longrightarrow> E' q = path_entry) \<and>
      QueryValue (E' 0) = (if env_value calm_os (L ''PATH'') = [] then [] else env_value calm_os (L ''PATH'') @ L '';'') @ QueryValue path_entry
    else hr = E_UNEXPECTED \<and> E' = (\<lambda>_. path_entry))"
    by (rule AppendEnvironmentVariables_correct) (simp_all, simp add: calm_os_def)
  then show ?thesis by (auto simp: env_value_def calm_os_def elim!: returns_mono)
qed

subsection \<open>Properties of the completed table\<close>

text \<open>
  C6: \<open>InitEnvironmentVariablesTable\<close> never faults and never leaks: whichever allocation, string
  operation or insertion fails, either a well-formed table is handed out in which every entry is
  owned by the table alone, or the code fails, every entry made is released and nothing is handed
  out. The entries of the configuration are not touched.
\<close>

theorem InitEnvironmentVariablesTable_safe:
  assumes "env_os_ok os" "ht_inv (et_vt st) pIn" "\<forall>p \<in> set (ht_records pIn). p < et_next st" "Count pIn + 1 < MAXDWORD"
  shows "returns (InitEnvironmentVariablesTable os w b a pIn st) (\<lambda>(hr, pub, st').
    pub = SUCCEEDED hr \<and> (\<forall>q. ext_refs (et_table st') q = 0) \<and> (\<forall>q < et_next st. et_entries st' q = et_entries st q) \<and>
    (if pub then ht_inv (et_vt st') (et_table st') \<and> (\<forall>p \<in> set (ht_records (et_table st')). entry_ok (et_entries st' p))
     else ht_records (et_table st') = []))"
  using InitEnvironmentVariablesTable_spec [OF assms, of w b a] by (auto simp: env_ok_def elim!: returns_mono split: if_splits)

definition no_entries :: env_table where
  "no_entries = \<lparr>et_entries = (\<lambda>_. ENTRY_new), et_next = 0, et_table = snd (Initialize S_OK True 37 HASH_TABLE_new)\<rparr>"

lemma no_entries_ok [simp]:
  "ht_inv (et_vt no_entries) (et_table no_entries)" "ht_records (et_table no_entries) = []" "Count (et_table no_entries) = 0"
  "env_ok {} no_entries"
proof -
  obtain T where T: "Initialize S_OK True 37 HASH_TABLE_new = (S_OK, T)" "ht_inv (et_vt no_entries) T" "ht_records T = []" "ht_refs T = (\<lambda>_. 0)"
    using Initialize_spec [of 37 S_OK "et_vt no_entries"] by (auto simp: MAXDWORD_def sizeof_ptr_def)
  then have e: "et_table no_entries = T" by (simp add: no_entries_def)
  show "ht_inv (et_vt no_entries) (et_table no_entries)" "ht_records (et_table no_entries) = []" unfolding e by fact+
  then show "Count (et_table no_entries) = 0" using ht_inv_length by fastforce
  show "env_ok {} no_entries" using T by (simp add: env_ok_def e ext_refs_def)
qed

lemma InitEnvironmentVariablesTable_safe_witness:
  "returns (InitEnvironmentVariablesTable calm_os True False True (et_table no_entries) no_entries) (\<lambda>(hr, pub, st').
    pub = SUCCEEDED hr \<and> (\<forall>q. ext_refs (et_table st') q = 0) \<and> (\<forall>q < et_next no_entries. et_entries st' q = et_entries no_entries q) \<and>
    (if pub then ht_inv (et_vt st') (et_table st') \<and> (\<forall>p \<in> set (ht_records (et_table st')). entry_ok (et_entries st' p))
     else ht_records (et_table st') = []))"
  by (rule InitEnvironmentVariablesTable_safe) (simp_all add: MAXDWORD_def)

text \<open>
  C7: when nothing runs out and the process's own startup variable fits the buffer, the table handed
  out is the configured one with the authentication entry replaced by the enabled schemes and, unless
  the configuration has it, the startup assembly entry extended by the module's assembly.
\<close>

theorem InitEnvironmentVariablesTable_result:
  assumes "env_os_ok os" "ht_inv (et_vt st) pIn" "\<forall>p \<in> set (ht_records pIn). p < et_next st \<and> entry_ok (et_entries st p)"
    "Count pIn + 1 < MAXDWORD" "env_os_good os" "SUCCEEDED (os_lock os)" "os_alloc_table os" "os_new_table os"
  shows "returns (InitEnvironmentVariablesTable os w b a pIn st) (\<lambda>(hr, pub, st').
    SUCCEEDED hr \<and> pub \<and> env_map (et_entries st') (et_table st') = completed_env os w b a (env_map (et_entries st) pIn))"
  using InitEnvironmentVariablesTable_spec [OF assms(1,2) _ assms(4), of w b a] assms(3,5-8) by (auto elim!: returns_mono)

lemma InitEnvironmentVariablesTable_result_witness:
  "returns (InitEnvironmentVariablesTable calm_os True False True (et_table no_entries) no_entries) (\<lambda>(hr, pub, st').
    SUCCEEDED hr \<and> pub \<and> env_map (et_entries st') (et_table st') =
      completed_env calm_os True False True (env_map (et_entries no_entries) (et_table no_entries)))"
  by (rule InitEnvironmentVariablesTable_result) (simp_all add: MAXDWORD_def, simp_all add: calm_os_def)

text \<open>
  \<open>AddWebsocketEnabledToEnvironmentVariables\<close> sets its entry to \<open>true\<close> or \<open>false\<close> whatever the
  table said before, but it keeps its own reference to the new entry: after success the count is one
  higher than the table's reference accounts for, so the entry is never freed.
\<close>

theorem AddWebsocketEnabled_leaks:
  assumes "env_os_ok os" "env_ok {} st" "Count (et_table st) < MAXDWORD" "heap_total (os_heap os)"
    "os_new os (et_next st)" "os_node os (et_next st)"
  shows "returns (AddWebsocketEnabledToEnvironmentVariables os f st) (\<lambda>(hr, st'). SUCCEEDED hr \<and>
    env_map (et_entries st') (et_table st') = env_upd (env_map (et_entries st) (et_table st))
      ASPNETCORE_IIS_WEBSOCKETS_SUPPORTED_ENV_STR (if f then L ''true'' else L ''false'') \<and>
    (\<forall>q. ext_refs (et_table st') q = (if q = et_next st then 1 else 0)))"
proof -
  let ?K = ASPNETCORE_IIS_WEBSOCKETS_SUPPORTED_ENV_STR and ?v = "if f then L ''true'' else L ''false''"
  have heap: "heap_ok 2 (os_heap os)" using assms(1) by (simp add: env_os_ok_def)
  obtain st1 where st1: "wipe_off ?K st = Some st1" "env_ok {} st1" "et_next st1 = et_next st" "et_entries st1 = et_entries st"
    "Count (et_table st1) \<le> Count (et_table st)" "env_map (et_entries st1) (et_table st1) = env_del (env_map (et_entries st) (et_table st)) ?K"
    using wipe_off_spec [OF assms(2), of ?K] by (elim returnsE conjE) (rule that)
  have nf: "0 \<notin> set ?v" "0 \<notin> set ?K" and len: "length ?v \<le> 5" "length ?K = 36"
    by (simp_all add: ASPNETCORE_IIS_WEBSOCKETS_SUPPORTED_ENV_STR_def)
  have S: "stru_inv (stack_stru os 40)" by (rule stack_stru_inv(1) [OF assms(1)]) simp_all
  obtain hr s where s: "STRU_Copy (os_heap os) ?v (stack_stru os 40) = Some (hr, s)" "stru_inv s"
    "SUCCEEDED hr \<longrightarrow> str_text s = ?v \<and> c_text s = ?v" "2 * (length ?v + 1) \<le> MAXDWORD \<and> heap_total (os_heap os) \<longrightarrow> SUCCEEDED hr"
    by (rule returns_pairE [OF Copy_c_text [OF heap S nf(1)]]) (elim conjE, rule that)
  have ok: "SUCCEEDED hr" using s(4) len(1) assms(4) by (simp add: MAXDWORD_def)
  then have c: "c_text s = ?v" using s(3) by blast
  obtain r st2 where n: "new_entry os st1 = (r, st2)" by force
  note N = new_entry_spec [OF st1(2) empty_subsetI n]
  have r: "r = Some (et_next st)" using N(6) assms(5) st1(3) by simp
  have q: "env_ok {et_next st} st2" "entry_ok (et_entries st2 (et_next st))" "et_next st < et_next st2"
      "et_next st \<notin> set (ht_records (et_table st2))" "Count (et_table st2) < MAXDWORD"
    using N(2,5) N(7) [of "et_next st"] r st1(5) assms(3) by auto
  obtain hr' st3 where i: "init_and_insert os (et_next st) ?K (c_text s) st2 = Some (hr', st3)" "env_ok {et_next st} st3"
    "SUCCEEDED hr' \<longrightarrow> env_map (et_entries st2) (et_table st2) ?K = None \<and> Count (et_table st3) = Suc (Count (et_table st2)) \<and>
      env_map (et_entries st3) (et_table st3) = env_upd (env_map (et_entries st2) (et_table st2)) ?K (c_text s)"
    "heap_total (os_heap os) \<and> os_node os (et_next st) \<and> 2 * (length ?K + 1) \<le> MAXDWORD \<and> 2 * (length (c_text s) + 1) \<le> MAXDWORD \<longrightarrow>
      SUCCEEDED hr' = (env_map (et_entries st2) (et_table st2) ?K = None)"
    using init_and_insert_spec [OF q(1) heap q(2,3,4) nf(2) c_text_nul_free q(5), of s] that by (elim returns_pairE conjE)
  have m: "env_map (et_entries st2) (et_table st2) = env_del (env_map (et_entries st) (et_table st)) ?K" using N(3) st1(6) by simp
  have "SUCCEEDED hr'" using i(4) m assms(4,6) len c_text_length [OF s(2)] by (simp add: MAXDWORD_def)
  with i(2,3) m c have res: "SUCCEEDED hr'" "env_map (et_entries st3) (et_table st3) = env_upd (env_map (et_entries st) (et_table st)) ?K ?v"
    "\<forall>q. ext_refs (et_table st3) q = (if q = et_next st then 1 else 0)"
    by (simp_all add: env_ok_def)
  have "AddWebsocketEnabledToEnvironmentVariables os f st = Some (hr', st3)"
    unfolding AddWebsocketEnabledToEnvironmentVariables_def st1(1) bind.bind_lunit s(1) using ok n r i(1) by simp
  with res show ?thesis by simp
qed

lemma AddWebsocketEnabled_leaks_witness:
  "returns (AddWebsocketEnabledToEnvironmentVariables calm_os True no_entries) (\<lambda>(hr, st'). SUCCEEDED hr \<and>
    env_map (et_entries st') (et_table st') = env_upd (env_map (et_entries no_entries) (et_table no_entries))
      ASPNETCORE_IIS_WEBSOCKETS_SUPPORTED_ENV_STR (if True then L ''true'' else L ''false'') \<and>
    (\<forall>q. ext_refs (et_table st') q = (if q = et_next no_entries then 1 else 0)))"
  by (rule AddWebsocketEnabled_leaks) (simp_all add: MAXDWORD_def, simp_all add: calm_os_def)

subsection \<open>The environment block\<close>

definition env_line :: "ENVIRONMENT_VAR_ENTRY \<Rightarrow> wstr" where
  "env_line e = QueryName e @ QueryValue e"

lemma CopyToMultiSz_spec:
  assumes "heap_ok 2 heap" "heap_total heap" "mz_inv 2 M ss"
    "2 * (length (msz_enc ss) + length (env_line (E p)) + 2) + STR_SLOP \<le> MAXDWORD"
  shows "returns (CopyToMultiSz heap E p M) (\<lambda>M'. mz_inv 2 M' (if env_line (E p) = [] then ss else ss @ [env_line (E p)]))"
proof -
  have len: "length (env_line (E p)) < 2147483648" "2 * (length (QueryName (E p)) + 1) \<le> MAXDWORD" "2 * (length (env_line (E p)) + 1) \<le> MAXDWORD"
    using assms(4) by (simp_all add: env_line_def STR_SLOP_def MAXDWORD_def)
  obtain hr s where s: "STRU_Copy heap (QueryName (E p)) STRU_new = Some (hr, s)" "stru_inv s"
    "if SUCCEEDED hr then str_text s = QueryName (E p) else s = STRU_new"
    "2 * (length (QueryName (E p)) + 1) \<le> MAXDWORD \<and> heap_total heap \<longrightarrow> SUCCEEDED hr"
    by (rule returns_pairE [OF STRU_Copy_spec [OF assms(1) stru_inv_new(1) Query_nul_free(1)]]) (elim conjE, rule that)
  have t: "str_text s = QueryName (E p)" using s(3,4) assms(2) len(2) by simp
  obtain hr' s' where s': "STRU_Append heap (QueryValue (E p)) s = Some (hr', s')" "stru_inv s'"
    "if SUCCEEDED hr' then str_text s' = str_text s @ QueryValue (E p) else s' = s"
    "2 * (length (str_text s @ QueryValue (E p)) + 1) \<le> MAXDWORD \<and> heap_total heap \<longrightarrow> SUCCEEDED hr'"
    by (rule returns_pairE [OF STRU_Append_spec [OF assms(1) s(2) Query_nul_free(2)]]) (elim conjE, rule that)
  have t': "str_text s' = env_line (E p)" using s'(3,4) assms(2) len(3) t by (simp add: env_line_def)
  have nf: "0 \<notin> set (env_line (E p))" by (simp add: env_line_def)
  then have c: "c_text s' = env_line (E p)" using c_text_str_text [OF s'(2)] t' by simp
  obtain err M' where M: "MULTISZ_Append 2 heap (Some (env_line (E p))) M = Some (err, M')"
    "if err = None then mz_inv 2 M' (if env_line (E p) = [] then ss else ss @ [env_line (E p)]) else M' = M"
    "heap_total heap \<and> 2 * (length (msz_enc ss) + length (env_line (E p)) + 2) + STR_SLOP \<le> MAXDWORD \<longrightarrow> err = None"
    by (rule returns_pairE [OF MULTISZ_Append_spec [OF assms(3,1) _ nf len(1)]]) (simp, elim conjE, rule that)
  with assms(2,4) show ?thesis by (simp add: CopyToMultiSz_def s(1) s'(1) c)
qed

lemma msz_enc_append_length: "length (msz_enc (ss @ ts)) = length (msz_enc ss) + length (msz_enc ts)"
  by (induction ss) (auto simp: msz_enc_def)

lemma CopyToMultiSz_all:
  assumes "heap_ok 2 heap" "heap_total heap" "mz_inv 2 M ss"
    "2 * (length (msz_enc ss) + length (msz_enc (map (\<lambda>p. env_line (E p)) ps)) + 2) + STR_SLOP \<le> MAXDWORD"
  shows "returns (fold (\<lambda>p r. r \<bind> CopyToMultiSz heap E p) ps (Some M))
    (\<lambda>M'. mz_inv 2 M' (ss @ filter (\<lambda>l. l \<noteq> []) (map (\<lambda>p. env_line (E p)) ps)))"
  using assms(3,4)
proof (induction ps arbitrary: M ss)
  case (Cons p ps)
  let ?ss = "if env_line (E p) = [] then ss else ss @ [env_line (E p)]"
  have e: "length (msz_enc (map (\<lambda>p. env_line (E p)) (p # ps))) = Suc (length (env_line (E p))) + length (msz_enc (map (\<lambda>p. env_line (E p)) ps))"
    by (simp add: msz_enc_def)
  obtain M1 where M1: "CopyToMultiSz heap E p M = Some M1" "mz_inv 2 M1 ?ss"
    using CopyToMultiSz_spec [OF assms(1,2) Cons.prems(1), of E p] Cons.prems(2) e by (auto elim: returnsE)
  have "length (msz_enc ?ss) \<le> length (msz_enc ss) + Suc (length (env_line (E p)))"
    by (auto simp: msz_enc_append_length msz_enc_def)
  then have "2 * (length (msz_enc ?ss) + length (msz_enc (map (\<lambda>p. env_line (E p)) ps)) + 2) + STR_SLOP \<le>
    2 * (length (msz_enc ss) + Suc (length (env_line (E p))) + length (msz_enc (map (\<lambda>p. env_line (E p)) ps)) + 2) + STR_SLOP"
    by (intro add_le_mono mult_le_mono order_refl)
  also have "\<dots> \<le> MAXDWORD" using Cons.prems(2) e by (simp add: algebra_simps)
  finally show ?case using Cons.IH [OF M1(2)] M1(1) by (auto split: if_splits)
qed simp



end
