(* ===== verification/FxVer.thy ===== *)
theory FxVer
  imports IIS_Prelude
begin

section \<open>Framework versions (CommonLib/fx_ver.cxx, fx_ver.h)\<close>

text \<open>
  A version is three 32-bit integers, a prerelease part and a build part. \<open>std::wstring\<close> is the
  list of its characters (it may contain NULs), \<open>std::wstring::npos\<close> is \<open>None\<close>, and the C++
  exception \<open>std::out_of_range\<close> is a value: \<open>stoul\<close> throws it for numbers beyond \<open>ULONG_MAX\<close>
  (\<open>unsigned long\<close> has 32 bits on Windows) and \<open>substr\<close> for a start beyond the end.
  \<open>wstring::compare\<close> returns the sign of the lexicographic comparison by character code.
\<close>

datatype cxx_exn = Out_of_range

type_synonym 'a throws = "cxx_exn + 'a"

definition bindE :: "'a throws \<Rightarrow> ('a \<Rightarrow> 'b throws) \<Rightarrow> 'b throws" where
  "bindE m f = (case m of Inl e \<Rightarrow> Inl e | Inr x \<Rightarrow> f x)"

lemma bindE_simps [simp]: "bindE (Inl e) f = Inl e" "bindE (Inr x) f = f x"
  by (simp_all add: bindE_def)

subsection \<open>Strings of the C++ library\<close>

definition find_if :: "('c \<Rightarrow> bool) \<Rightarrow> 'c list \<Rightarrow> nat \<Rightarrow> nat option" where
  "find_if P s pos =
     (if pos + length (takeWhile (\<lambda>c. \<not> P c) (drop pos s)) < length s
      then Some (pos + length (takeWhile (\<lambda>c. \<not> P c) (drop pos s))) else None)"

definition wfind :: "wstr \<Rightarrow> WCHAR \<Rightarrow> nat \<Rightarrow> nat option" where
  "wfind s c pos = find_if (\<lambda>x. x = c) s pos"

definition is_digit :: "WCHAR \<Rightarrow> bool" where
  "is_digit c \<longleftrightarrow> 48 \<le> c \<and> c \<le> 57"

definition find_first_not_digit :: "wstr \<Rightarrow> nat \<Rightarrow> nat option" where
  "find_first_not_digit s pos = find_if (\<lambda>x. \<not> is_digit x) s pos"

definition substr :: "wstr \<Rightarrow> nat \<Rightarrow> nat option \<Rightarrow> wstr throws" where
  "substr s pos n =
     (if length s < pos then Inl Out_of_range
      else Inr (case n of None \<Rightarrow> drop pos s | Some k \<Rightarrow> take k (drop pos s)))"

definition digit_value :: "WCHAR \<Rightarrow> nat" where
  "digit_value c = unat c - 48"

definition decimal_value :: "wstr \<Rightarrow> nat" where
  "decimal_value s = foldl (\<lambda>n c. 10 * n + digit_value c) 0 s"

definition stoul :: "wstr \<Rightarrow> DWORD throws" where
  "stoul s = (if decimal_value s \<le> 4294967295 then Inr (word_of_nat (decimal_value s))
              else Inl Out_of_range)"

fun wstr_compare :: "wstr \<Rightarrow> wstr \<Rightarrow> int" where
  "wstr_compare [] [] = 0"
| "wstr_compare [] (_ # _) = -1"
| "wstr_compare (_ # _) [] = 1"
| "wstr_compare (a # as) (b # bs) =
     (if a < b then -1 else if b < a then 1 else wstr_compare as bs)"

text \<open>\<open>wostream << int\<close> in the default locale.\<close>

fun decimal_digits :: "nat \<Rightarrow> wstr" where
  "decimal_digits n =
     (if n < 10 then [word_of_nat (48 + n)]
      else decimal_digits (n div 10) @ [word_of_nat (48 + n mod 10)])"

declare decimal_digits.simps [simp del]

definition decimal :: "int \<Rightarrow> wstr" where
  "decimal i = (if i < 0 then L ''-'' @ decimal_digits (nat (- i)) else decimal_digits (nat i))"

subsection \<open>The version type and its operations\<close>

datatype fx_ver_t =
  Fx_ver (m_major: DWORD) (m_minor: DWORD) (m_patch: DWORD) (m_pre: wstr) (m_build: wstr)

definition fx_ver_new4 :: "DWORD \<Rightarrow> DWORD \<Rightarrow> DWORD \<Rightarrow> wstr \<Rightarrow> fx_ver_t" where
  "fx_ver_new4 major minor patch pre = Fx_ver major minor patch pre []"

definition fx_ver_new3 :: "DWORD \<Rightarrow> DWORD \<Rightarrow> DWORD \<Rightarrow> fx_ver_t" where
  "fx_ver_new3 major minor patch = Fx_ver major minor patch [] []"

definition set_minor :: "DWORD \<Rightarrow> fx_ver_t \<Rightarrow> fx_ver_t" where
  "set_minor m v = Fx_ver (m_major v) m (m_patch v) (m_pre v) (m_build v)"

definition is_prerelease :: "fx_ver_t \<Rightarrow> bool" where
  "is_prerelease v \<longleftrightarrow> m_pre v \<noteq> []"

definition as_str :: "fx_ver_t \<Rightarrow> wstr" where
  "as_str v =
     decimal (sint (m_major v)) @ L ''.'' @ decimal (sint (m_minor v)) @ L ''.'' @
     decimal (sint (m_patch v)) @
     (if m_pre v \<noteq> [] then m_pre v else []) @
     (if m_build v \<noteq> [] then L ''+'' @ m_build v else [])"

definition compare :: "fx_ver_t \<Rightarrow> fx_ver_t \<Rightarrow> int" where
  "compare a b =
     (if m_major a \<noteq> m_major b then (if sint (m_major b) < sint (m_major a) then 1 else -1)
      else if m_minor a \<noteq> m_minor b then (if sint (m_minor b) < sint (m_minor a) then 1 else -1)
      else if m_patch a \<noteq> m_patch b then (if sint (m_patch b) < sint (m_patch a) then 1 else -1)
      else if (m_pre a = []) \<noteq> (m_pre b = []) then (if m_pre a = [] then 1 else -1)
      else let pre_cmp = wstr_compare (m_pre a) (m_pre b)
           in if pre_cmp \<noteq> 0 then pre_cmp else wstr_compare (m_build a) (m_build b))"

definition ver_eq :: "fx_ver_t \<Rightarrow> fx_ver_t \<Rightarrow> bool" where
  "ver_eq a b \<longleftrightarrow> compare a b = 0"

definition ver_neq :: "fx_ver_t \<Rightarrow> fx_ver_t \<Rightarrow> bool" where
  "ver_neq a b \<longleftrightarrow> \<not> ver_eq a b"

instantiation fx_ver_t :: ord
begin

definition less_fx_ver_t :: "fx_ver_t \<Rightarrow> fx_ver_t \<Rightarrow> bool" where
  "less_fx_ver_t a b \<longleftrightarrow> compare a b < 0"

definition less_eq_fx_ver_t :: "fx_ver_t \<Rightarrow> fx_ver_t \<Rightarrow> bool" where
  "less_eq_fx_ver_t a b \<longleftrightarrow> compare a b \<le> 0"

instance ..

end

definition ver_gt :: "fx_ver_t \<Rightarrow> fx_ver_t \<Rightarrow> bool" where
  "ver_gt a b \<longleftrightarrow> 0 < compare a b"

definition ver_ge :: "fx_ver_t \<Rightarrow> fx_ver_t \<Rightarrow> bool" where
  "ver_ge a b \<longleftrightarrow> 0 \<le> compare a b"

text \<open>The result is the return value and the number written through the pointer.\<close>

definition try_stou :: "wstr \<Rightarrow> DWORD \<Rightarrow> (bool \<times> DWORD) throws" where
  "try_stou str num =
     (if str = [] then Inr (False, num)
      else if find_first_not_digit str 0 \<noteq> None then Inr (False, num)
      else bindE (stoul str) (\<lambda>n. Inr (True, n)))"

definition parse_internal :: "wstr \<Rightarrow> fx_ver_t \<Rightarrow> bool \<Rightarrow> (bool \<times> fx_ver_t) throws" where
  "parse_internal ver fx_ver parse_only_production =
     (let maj_start = 0
      in case wfind ver (of_char CHR ''.'') 0 of
        None \<Rightarrow> Inr (False, fx_ver)
      | Some maj_sep \<Rightarrow>
          bindE (substr ver maj_start (Some maj_sep)) (\<lambda>s.
          bindE (try_stou s 0) (\<lambda>(ok, major).
          if \<not> ok then Inr (False, fx_ver)
          else let min_start = maj_sep + 1
          in case wfind ver (of_char CHR ''.'') min_start of
            None \<Rightarrow> Inr (False, fx_ver)
          | Some min_sep \<Rightarrow>
              bindE (substr ver min_start (Some (min_sep - min_start))) (\<lambda>s.
              bindE (try_stou s 0) (\<lambda>(ok, minor).
              if \<not> ok then Inr (False, fx_ver)
              else let pat_start = min_sep + 1
              in case find_first_not_digit ver pat_start of
                None \<Rightarrow>
                  bindE (substr ver pat_start None) (\<lambda>s.
                  bindE (try_stou s 0) (\<lambda>(ok, patch).
                  if \<not> ok then Inr (False, fx_ver)
                  else Inr (True, fx_ver_new3 major minor patch)))
              | Some pat_sep \<Rightarrow>
                  if parse_only_production then Inr (False, fx_ver)
                  else
                    bindE (substr ver pat_start (Some (pat_sep - pat_start))) (\<lambda>s.
                    bindE (try_stou s 0) (\<lambda>(ok, patch).
                    if \<not> ok then Inr (False, fx_ver)
                    else case wfind ver (of_char CHR ''+'') pat_sep of
                      None \<Rightarrow>
                        bindE (substr ver pat_sep None) (\<lambda>pre.
                        Inr (True, fx_ver_new4 major minor patch pre))
                    | Some pre_sep \<Rightarrow>
                        bindE (substr ver pat_sep (Some (pre_sep - pat_sep))) (\<lambda>pre.
                        bindE (substr ver (pre_sep + 1) None) (\<lambda>build.
                        Inr (True, Fx_ver major minor patch pre build))))))))))"

text \<open>\<open>parse\<close>; its \<open>assert\<close> is compiled out of release builds and is the predicate below.\<close>

definition parse :: "wstr \<Rightarrow> fx_ver_t \<Rightarrow> bool \<Rightarrow> (bool \<times> fx_ver_t) throws" where
  "parse ver fx_ver parse_only_production = parse_internal ver fx_ver parse_only_production"

definition parse_assertion :: "wstr \<Rightarrow> bool \<times> fx_ver_t \<Rightarrow> bool" where
  "parse_assertion ver r \<longleftrightarrow> \<not> fst r \<or> as_str (snd r) = ver"

subsection \<open>The order\<close>

lemma wstr_compare_range: "wstr_compare a b \<in> {-1, 0, 1}"
  by (induction a b rule: wstr_compare.induct) auto

lemma wstr_compare_eq_0 [simp]: "wstr_compare a b = 0 \<longleftrightarrow> a = b"
  by (induction a b rule: wstr_compare.induct) auto

lemma wstr_compare_swap: "wstr_compare b a = - wstr_compare a b"
  by (induction a b rule: wstr_compare.induct) auto

lemma wstr_compare_trans: "wstr_compare a b < 0 \<Longrightarrow> wstr_compare b c < 0 \<Longrightarrow> wstr_compare a c < 0"
proof (induction a b arbitrary: c rule: wstr_compare.induct)
  case (2 b bs)
  then show ?case by (cases c) auto
next
  case (4 a as b bs)
  then show ?case by (cases c) (auto split: if_splits)
qed auto

lemma compare_eq_0: "compare a b = 0 \<longleftrightarrow> a = b"
  by (cases a; cases b) (auto simp: compare_def Let_def)

lemma sint_neq_lt: "x \<noteq> (y :: DWORD) \<Longrightarrow> \<not> sint x < sint y \<Longrightarrow> sint y < sint x"
  by (metis linorder_neqE sint_word_ariths(1) signed_word_eqI)

lemma wstr_compare_refl [simp]: "wstr_compare a a = 0"
  by simp

lemma sint_swap: "x \<noteq> (y :: DWORD) \<Longrightarrow> sint x < sint y \<longleftrightarrow> \<not> sint y < sint x"
  using sint_neq_lt [of x y] by force

lemma compare_swap: "compare b a = - compare a b"
proof (cases "m_major a = m_major b \<and> m_minor a = m_minor b \<and> m_patch a = m_patch b")
  case True
  then show ?thesis
    using wstr_compare_swap [of "m_pre b" "m_pre a"] wstr_compare_swap [of "m_build b" "m_build a"]
    by (simp add: compare_def Let_def)
next
  case False
  then show ?thesis
    using sint_swap [of "m_major a" "m_major b"] sint_swap [of "m_minor a" "m_minor b"]
      sint_swap [of "m_patch a" "m_patch b"]
    by (cases "m_major a = m_major b"; cases "m_minor a = m_minor b") (simp_all add: compare_def)
qed

text \<open>The comparison is lexicographic in the numbers; a release follows its prereleases.\<close>

lemma compare_less_iff:
  "compare a b < 0 \<longleftrightarrow>
     sint (m_major a) < sint (m_major b) \<or> m_major a = m_major b \<and>
     (sint (m_minor a) < sint (m_minor b) \<or> m_minor a = m_minor b \<and>
     (sint (m_patch a) < sint (m_patch b) \<or> m_patch a = m_patch b \<and>
     (m_pre a \<noteq> [] \<and> m_pre b = [] \<or> (m_pre a = [] \<longleftrightarrow> m_pre b = []) \<and>
     (wstr_compare (m_pre a) (m_pre b) < 0 \<or> m_pre a = m_pre b \<and>
      wstr_compare (m_build a) (m_build b) < 0))))"
  unfolding compare_def Let_def
  using sint_neq_lt [of "m_major a" "m_major b"] sint_neq_lt [of "m_minor a" "m_minor b"]
    sint_neq_lt [of "m_patch a" "m_patch b"]
  by auto

lemma compare_trans: "compare a b < 0 \<Longrightarrow> compare b c < 0 \<Longrightarrow> compare a c < 0"
  unfolding compare_less_iff
  by (elim disjE conjE; force dest: wstr_compare_trans)

instance fx_ver_t :: linorder
proof
  fix a b c :: fx_ver_t
  show "a < b \<longleftrightarrow> a \<le> b \<and> \<not> b \<le> a"
    using compare_swap [of b a] by (auto simp: less_fx_ver_t_def less_eq_fx_ver_t_def)
  show "a \<le> a" using compare_eq_0 [of a a] by (simp add: less_eq_fx_ver_t_def)
  show "a \<le> c" if "a \<le> b" "b \<le> c"
    using that compare_trans [of a b c]
    by (auto simp: less_eq_fx_ver_t_def le_less compare_eq_0)
  show "a = b" if "a \<le> b" "b \<le> a"
    using that compare_swap [of b a] by (auto simp: less_eq_fx_ver_t_def simp flip: compare_eq_0)
  show "a \<le> b \<or> b \<le> a"
    using compare_swap [of b a] by (auto simp: less_eq_fx_ver_t_def)
qed

lemma ver_operators:
  "ver_eq a b \<longleftrightarrow> a = b" "ver_neq a b \<longleftrightarrow> a \<noteq> b" "ver_gt a b \<longleftrightarrow> b < a" "ver_ge a b \<longleftrightarrow> b \<le> a"
  using compare_swap [of b a]
  by (simp_all add: ver_eq_def ver_neq_def ver_gt_def ver_ge_def compare_eq_0 less_fx_ver_t_def
      less_eq_fx_ver_t_def)

subsection \<open>Numbers\<close>

lemma decimal_value_snoc: "decimal_value (s @ [c]) = 10 * decimal_value s + digit_value c"
  by (simp add: decimal_value_def)

lemma unat_digit: "k < 10 \<Longrightarrow> unat (word_of_nat (48 + k) :: WCHAR) = 48 + k"
  by (subst unat_of_nat) simp

lemma is_digit_iff: "is_digit c \<longleftrightarrow> 48 \<le> unat c \<and> unat c \<le> 57"
  by (simp add: is_digit_def word_le_nat_alt)

lemma digit_of: "k < 10 \<Longrightarrow> is_digit (word_of_nat (48 + k)) \<and> digit_value (word_of_nat (48 + k)) = k"
  using unat_digit [of k] by (simp only: is_digit_iff digit_value_def) simp

lemma digit_value_inverse: "is_digit c \<Longrightarrow> word_of_nat (48 + digit_value c) = c \<and> digit_value c < 10"
  by (auto simp: is_digit_iff digit_value_def)

lemma decimal_digits_spec:
  "decimal_value (decimal_digits n) = n \<and> decimal_digits n \<noteq> [] \<and>
   (\<forall>c \<in> set (decimal_digits n). is_digit c)"
proof (induction n rule: decimal_digits.induct)
  case (1 n)
  show ?case
  proof (cases "n < 10")
    case True
    then show ?thesis
      using digit_of [of n] by (subst (1 2 3) decimal_digits.simps) (simp add: decimal_value_def)
  next
    case False
    then show ?thesis
      using 1 digit_of [of "n mod 10"]
      by (subst (1 2 3) decimal_digits.simps) (simp add: decimal_value_snoc)
  qed
qed

definition no_leading_zero :: "wstr \<Rightarrow> bool" where
  "no_leading_zero s \<longleftrightarrow> length s = 1 \<or> digit_value (hd s) \<noteq> 0"

lemma decimal_value_pos: "s \<noteq> [] \<Longrightarrow> digit_value (hd s) \<noteq> 0 \<Longrightarrow> 0 < decimal_value s"
proof (induction s rule: rev_induct)
  case (snoc c s)
  then show ?case by (cases s) (auto simp: decimal_value_snoc decimal_value_def)
qed simp

lemma decimal_digits_value:
  "s \<noteq> [] \<Longrightarrow> \<forall>c \<in> set s. is_digit c \<Longrightarrow> no_leading_zero s \<Longrightarrow> decimal_digits (decimal_value s) = s"
proof (induction s rule: rev_induct)
  case (snoc c s)
  have c: "word_of_nat (48 + digit_value c) = c" "digit_value c < 10"
    using digit_value_inverse [of c] snoc.prems(2) by auto
  show ?case
  proof (cases "s = []")
    case True
    then show ?thesis using c by (subst decimal_digits.simps) (simp add: decimal_value_def)
  next
    case False
    then have nz: "digit_value (hd s) \<noteq> 0" using snoc.prems(3) by (simp add: no_leading_zero_def)
    then have "decimal_digits (decimal_value s) = s"
      using snoc.IH snoc.prems(2) False by (simp add: no_leading_zero_def)
    then show ?thesis
      using c decimal_value_pos [OF False nz]
      by (subst decimal_digits.simps) (simp add: decimal_value_snoc)
  qed
qed simp

subsection \<open>Searching and parsing\<close>

lemma find_if_prefix:
  assumes "pos = length p" "\<forall>x \<in> set a. \<not> P x" "P y"
  shows "find_if P (p @ a @ y # r) pos = Some (pos + length a)"
  using assms by (simp add: find_if_def)

lemma find_if_none:
  assumes "\<forall>x \<in> set (drop pos s). \<not> P x" "pos \<le> length s"
  shows "find_if P s pos = None"
  using assms by (simp add: find_if_def takeWhile_eq_all_conv [THEN iffD2])

lemma find_if_SomeD:
  assumes "find_if P s pos = Some k"
  shows "pos \<le> k" "k < length s" "P (s ! k)" "\<forall>x \<in> set (take (k - pos) (drop pos s)). \<not> P x"
proof -
  let ?t = "takeWhile (\<lambda>c. \<not> P c) (drop pos s)"
  have k: "k = pos + length ?t" and lt: "k < length s"
    using assms by (auto simp: find_if_def split: if_splits)
  then show "pos \<le> k" "k < length s" by auto
  have "length ?t < length (drop pos s)" using k lt by simp
  from nth_length_takeWhile [OF this] show "P (s ! k)" using k lt by simp
  show "\<forall>x \<in> set (take (k - pos) (drop pos s)). \<not> P x"
    using k by (auto simp: takeWhile_eq_take [symmetric] dest: set_takeWhileD)
qed

lemma find_if_NoneD: "find_if P s pos = None \<Longrightarrow> \<forall>x \<in> set (drop pos s). \<not> P x"
proof (rule ccontr)
  assume none: "find_if P s pos = None" and "\<not> (\<forall>x \<in> set (drop pos s). \<not> P x)"
  then obtain x where "x \<in> set (drop pos s)" "P x" by blast
  then have "length (takeWhile (\<lambda>c. \<not> P c) (drop pos s)) < length (drop pos s)"
    by (metis length_takeWhile_le le_neq_implies_less takeWhile_eq_all_conv takeWhile_eq_take take_all_iff)
  with none show False by (auto simp: find_if_def split: if_splits)
qed

definition number :: "wstr \<Rightarrow> bool" where
  "number s \<longleftrightarrow> s \<noteq> [] \<and> (\<forall>c \<in> set s. is_digit c) \<and> decimal_value s \<le> 4294967295"

lemma find_first_not_digit_None:
  "find_first_not_digit s 0 = None \<longleftrightarrow> (\<forall>c \<in> set s. is_digit c)"
proof
  show "find_first_not_digit s 0 = None" if "\<forall>c \<in> set s. is_digit c"
    using that unfolding find_first_not_digit_def by (intro find_if_none) simp_all
  show "\<forall>c \<in> set s. is_digit c" if "find_first_not_digit s 0 = None"
    using find_if_NoneD [OF that [unfolded find_first_not_digit_def]] by simp
qed

lemma try_stou_True: "try_stou s n = Inr (True, m) \<longleftrightarrow> number s \<and> m = word_of_nat (decimal_value s)"
  by (auto simp: try_stou_def number_def stoul_def simp flip: find_first_not_digit_None)

text \<open>What the parser accepts: \<open>a.b.c\<close> and then a prerelease and a build part.\<close>

definition dot :: WCHAR where "dot = of_char CHR ''.''"
definition plus :: WCHAR where "plus = of_char CHR ''+''"

definition version_of :: "wstr \<Rightarrow> wstr \<Rightarrow> wstr \<Rightarrow> wstr \<Rightarrow> fx_ver_t" where
  "version_of a b c rest =
     Fx_ver (word_of_nat (decimal_value a)) (word_of_nat (decimal_value b))
       (word_of_nat (decimal_value c)) (takeWhile (\<lambda>x. x \<noteq> plus) rest)
       (drop 1 (dropWhile (\<lambda>x. x \<noteq> plus) rest))"

lemma version_of_no_plus:
  assumes "plus \<notin> set rest"
  shows "version_of a b c rest = Fx_ver (word_of_nat (decimal_value a)) (word_of_nat (decimal_value b))
     (word_of_nat (decimal_value c)) rest []"
proof -
  have "takeWhile (\<lambda>x. x \<noteq> plus) rest = rest" "dropWhile (\<lambda>x. x \<noteq> plus) rest = []"
    using assms by (auto simp: takeWhile_eq_all_conv)
  then show ?thesis unfolding version_of_def by (simp only: drop_Nil)
qed

definition version_text :: "bool \<Rightarrow> wstr \<Rightarrow> wstr \<Rightarrow> wstr \<Rightarrow> wstr \<Rightarrow> bool" where
  "version_text production a b c rest \<longleftrightarrow>
     number a \<and> number b \<and> number c \<and> (rest = [] \<or> \<not> is_digit (hd rest)) \<and>
     (production \<longrightarrow> rest = [])"

lemma not_digit_dot: "number a \<Longrightarrow> dot \<notin> set a"
  by (auto simp: number_def dot_def is_digit_def)

lemma find_at:
  assumes "find_if P s pos = Some k"
  shows "drop pos s = take (k - pos) (drop pos s) @ s ! k # drop (Suc k) s" "pos \<le> k" "k < length s"
    "P (s ! k)" "\<forall>x \<in> set (take (k - pos) (drop pos s)). \<not> P x"
proof -
  note f = find_if_SomeD [OF assms]
  have "drop pos s = take (k - pos) (drop pos s) @ drop (k - pos) (drop pos s)"
    by (rule append_take_drop_id [symmetric])
  also have "drop (k - pos) (drop pos s) = s ! k # drop (Suc k) s"
    using f(1,2) by (simp add: Cons_nth_drop_Suc)
  finally show "drop pos s = take (k - pos) (drop pos s) @ s ! k # drop (Suc k) s" .
qed (use find_if_SomeD [OF assms] in auto)

lemma bindE_Inr: "bindE m f = Inr y \<longleftrightarrow> (\<exists>x. m = Inr x \<and> f x = Inr y)"
  by (cases m) auto

lemma substr_Inr: "substr s p n = Inr t \<longleftrightarrow>
    p \<le> length s \<and> t = (case n of None \<Rightarrow> drop p s | Some k \<Rightarrow> take k (drop p s))"
  by (auto simp: substr_def)

lemma parse_internal_accepts:
  assumes "parse_internal ver v production = Inr (True, v')"
  obtains a b c rest where "ver = a @ dot # b @ dot # c @ rest" "version_text production a b c rest"
    "v' = version_of a b c rest"
proof -
  obtain maj where maj: "find_if (\<lambda>x. x = dot) ver 0 = Some maj"
    using assms by (auto simp: parse_internal_def wfind_def dot_def split: option.splits)
  let ?a = "take maj ver"
  have A: "ver = ?a @ dot # drop (Suc maj) ver" using find_at [OF maj] by simp
  obtain min where na: "number ?a" and min: "find_if (\<lambda>x. x = dot) ver (Suc maj) = Some min"
    using assms maj
    by (auto simp: parse_internal_def wfind_def dot_def bindE_Inr substr_Inr try_stou_True
        split: option.splits prod.splits if_splits)
  let ?b = "take (min - Suc maj) (drop (Suc maj) ver)"
  have B: "drop (Suc maj) ver = ?b @ dot # drop (Suc min) ver" using find_at [OF min] by simp
  have V: "ver = ?a @ dot # ?b @ dot # drop (Suc min) ver" using A unfolding B [symmetric] .
  show thesis
  proof (cases "find_first_not_digit ver (Suc min)")
    case None
    have "number ?b \<and> number (drop (Suc min) ver) \<and> v' = version_of ?a ?b (drop (Suc min) ver) []"
      using assms maj min None
      by (auto simp: parse_internal_def wfind_def dot_def bindE_Inr substr_Inr try_stou_True
          version_of_def fx_ver_new3_def
          split: option.splits prod.splits if_splits)
    then show thesis
      using na V by (intro that [of ?a ?b "drop (Suc min) ver" "[]"]) (simp_all add: version_text_def)
  next
    case (Some pat)
    let ?c = "take (pat - Suc min) (drop (Suc min) ver)"
    let ?rest = "drop pat ver"
    note P = find_at [OF Some [unfolded find_first_not_digit_def]]
    have rest: "?rest = ver ! pat # drop (Suc pat) ver" using P(3) by (simp add: Cons_nth_drop_Suc)
    have C: "drop (Suc min) ver = ?c @ ?rest" using P(1) unfolding rest .
    have np: "\<not> production"
      using assms maj min Some
      by (auto simp: parse_internal_def wfind_def dot_def bindE_Inr substr_Inr try_stou_True
          split: option.splits prod.splits if_splits)
    have "number ?b \<and> number ?c \<and> v' = version_of ?a ?b ?c ?rest"
    proof (cases "find_if (\<lambda>x. x = plus) ver pat")
      case None
      have "plus \<notin> set ?rest" using find_if_NoneD [OF None] by blast
      moreover have "number ?b \<and> number ?c \<and>
          v' = Fx_ver (word_of_nat (decimal_value ?a)) (word_of_nat (decimal_value ?b))
                 (word_of_nat (decimal_value ?c)) ?rest []"
        using assms maj min Some None
        by (auto simp: parse_internal_def wfind_def dot_def plus_def bindE_Inr substr_Inr try_stou_True
            fx_ver_new4_def
            split: option.splits prod.splits if_splits)
      ultimately show ?thesis using version_of_no_plus by simp
    next
      case S: (Some pre)
      note Q = find_at [OF S]
      have "takeWhile (\<lambda>x. x \<noteq> plus) ?rest = take (pre - pat) ?rest"
        "dropWhile (\<lambda>x. x \<noteq> plus) ?rest = plus # drop (Suc pre) ver"
        using Q by (subst Q(1), subst takeWhile_prefix_stop dropWhile_prefix_stop; simp)+
      then show ?thesis
        using assms maj min Some S
        by (auto simp: parse_internal_def wfind_def dot_def plus_def bindE_Inr substr_Inr try_stou_True
            version_of_def
            split: option.splits prod.splits if_splits)
    qed
    then show thesis
      using na V C np P(4) rest
      by (intro that [of ?a ?b ?c ?rest]) (simp_all add: version_text_def)
  qed
qed


lemma find_if_append:
  assumes "\<forall>x \<in> set a. \<not> P x" "P y" "pos = length p" "k = pos + length a"
  shows "find_if P (p @ a @ y # r) pos = Some k"
  using assms find_if_prefix by metis

lemma parse_internal_complete:
  assumes t: "version_text production a b c rest"
  shows "parse_internal (a @ dot # b @ dot # c @ rest) v production
         = Inr (True, version_of a b c rest)"
proof -
  let ?ver = "a @ dot # b @ dot # c @ rest"
  let ?m = "length a" and ?n = "Suc (length a + length b)"
  let ?p = "Suc (?n + length c)"
  have n: "number a" "number b" "number c" using t by (auto simp: version_text_def)
  have A: "find_if (\<lambda>x. x = dot) ?ver 0 = Some ?m"
    using find_if_append [of a "\<lambda>x. x = dot" dot 0 "[]"] not_digit_dot [OF n(1)] by force
  have B: "find_if (\<lambda>x. x = dot) ?ver (Suc ?m) = Some ?n"
    using find_if_append [of b "\<lambda>x. x = dot" dot "Suc ?m" "a @ [dot]"] not_digit_dot [OF n(2)] by force
  have dc: "\<forall>x \<in> set c. is_digit x" using n(3) by (simp add: number_def)
  have stou: "try_stou a 0 = Inr (True, word_of_nat (decimal_value a))"
    "try_stou b 0 = Inr (True, word_of_nat (decimal_value b))"
    "try_stou c 0 = Inr (True, word_of_nat (decimal_value c))"
    using n try_stou_True by auto
  have codes: "dot = 46" "plus = 43" by (simp_all add: dot_def plus_def)
  note parsed = parse_internal_def wfind_def codes
  show ?thesis
  proof (cases rest)
    case Nil
    have C: "find_first_not_digit ?ver (Suc ?n) = None"
      unfolding find_first_not_digit_def by (rule find_if_none) (use dc Nil in auto)
    then show ?thesis
      using A B Nil stou by (simp add: parsed substr_def version_of_def fx_ver_new3_def)
  next
    case (Cons y r)
    then have y: "\<not> is_digit y" "\<not> production" using t by (auto simp: version_text_def)
    have C: "find_first_not_digit ?ver (Suc ?n) = Some ?p"
      unfolding find_first_not_digit_def
      using find_if_append [of c "\<lambda>x. \<not> is_digit x" y "Suc ?n" "a @ dot # b @ [dot]" ?p r] dc y Cons
      by force
    show ?thesis
    proof (cases "plus \<in> set rest")
      case False
      then have D: "find_if (\<lambda>x. x = plus) ?ver ?p = None"
        by (intro find_if_none) auto
      show ?thesis
        using A B C D y stou
        unfolding version_of_no_plus [OF False] by (simp add: parsed substr_def fx_ver_new4_def)
    next
      case True
      then obtain u w where u: "rest = u @ plus # w" "plus \<notin> set u" by (meson split_list_first)
      have D: "find_if (\<lambda>x. x = plus) ?ver ?p = Some (?p + length u)"
        using find_if_append [of u "\<lambda>x. x = plus" plus ?p "a @ dot # b @ dot # c" "?p + length u" w] u
        by force
      have "takeWhile (\<lambda>x. x \<noteq> plus) rest = u" "dropWhile (\<lambda>x. x \<noteq> plus) rest = plus # w"
        unfolding u(1) using u(2) by (auto intro!: takeWhile_prefix_stop dropWhile_prefix_stop)
      then show ?thesis
        using A B C D y stou u(1) by (simp add: parsed substr_def version_of_def numeral_3_eq_3)
    qed
  qed
qed

lemma parse_correct_iff:
  "parse ver v production = Inr (True, v') \<longleftrightarrow>
   (\<exists>a b c rest. ver = a @ dot # b @ dot # c @ rest \<and> version_text production a b c rest \<and>
      v' = version_of a b c rest)"
  unfolding parse_def using parse_internal_complete parse_internal_accepts by metis


lemma try_stou_Inl: "try_stou s n = Inl e \<Longrightarrow> (\<forall>c \<in> set s. is_digit c) \<and> 4294967295 < decimal_value s"
  by (auto simp: try_stou_def stoul_def simp flip: find_first_not_digit_None split: if_splits)

definition has_big_number :: "wstr \<Rightarrow> bool" where
  "has_big_number ver \<longleftrightarrow>
     (\<exists>p d q. ver = p @ d @ q \<and> (\<forall>c \<in> set d. is_digit c) \<and> 4294967295 < decimal_value d)"

lemma substr_segment: "substr ver p n = Inr s \<Longrightarrow> \<exists>q. ver = take p ver @ s @ q"
proof (cases n)
  case None
  then show "substr ver p n = Inr s \<Longrightarrow> ?thesis"
    by (intro exI [of _ "[]"]) (auto simp: substr_Inr)
next
  case (Some k)
  then show "substr ver p n = Inr s \<Longrightarrow> ?thesis"
    by (intro exI [of _ "drop k (drop p ver)"]) (simp only: substr_Inr option.case append_take_drop_id)
qed

lemma parse_throws:
  assumes "parse ver v production = Inl e"
  shows "has_big_number ver"
proof -
  have big: "has_big_number ver" if "substr ver p n = Inr s" "try_stou s 0 = Inl e" for p n s
    using substr_segment [OF that(1)] try_stou_Inl [OF that(2)] unfolding has_big_number_def by blast
  have ok: "substr ver p n \<noteq> Inl e" if "p \<le> length ver" for p n e
    using that by (simp add: substr_def)
  show ?thesis
    using assms
    by (auto simp: parse_def parse_internal_def bindE_def wfind_def find_first_not_digit_def ok
        split: option.splits prod.splits sum.splits if_splits
        intro: big dest: find_if_SomeD)
qed

lemma parse_rejects: "parse ver v production = Inr (False, v') \<Longrightarrow> v' = v"
  by (auto simp: parse_def parse_internal_def bindE_def split: option.splits prod.splits sum.splits if_splits)


text \<open>Version texts that are printed the way they were read.\<close>

definition canonical_number :: "wstr \<Rightarrow> bool" where
  "canonical_number a \<longleftrightarrow> number a \<and> no_leading_zero a \<and> decimal_value a < 2147483648"

lemma sint_of_small: "n < 2147483648 \<Longrightarrow> sint (word_of_nat n :: DWORD) = int n"
  by (simp add: sint_uint uint_nat unat_of_nat signed_take_bit_int_eq_self)

lemma decimal_canonical: "canonical_number a \<Longrightarrow> decimal (sint (word_of_nat (decimal_value a) :: DWORD)) = a"
  by (auto simp: canonical_number_def number_def sint_of_small decimal_def decimal_digits_value)

lemma L_dot: "L ''.'' = [dot]" and L_plus: "L ''+'' = [plus]"
  by (simp_all add: dot_def plus_def)

lemma version_of_plus:
  assumes "plus \<notin> set u"
  shows "version_of a b c (u @ plus # w) = Fx_ver (word_of_nat (decimal_value a))
     (word_of_nat (decimal_value b)) (word_of_nat (decimal_value c)) u w"
proof -
  have "takeWhile (\<lambda>x. x \<noteq> plus) (u @ plus # w) = u" "dropWhile (\<lambda>x. x \<noteq> plus) (u @ plus # w) = plus # w"
    using assms by (auto intro!: takeWhile_prefix_stop dropWhile_prefix_stop)
  then show ?thesis unfolding version_of_def by (simp only: One_nat_def drop_Suc_Cons drop_0)
qed

lemma as_str_version_of:
  assumes "canonical_number a" "canonical_number b" "canonical_number c"
    and "plus \<notin> set rest \<or> m_build (version_of a b c rest) \<noteq> []"
  shows "as_str (version_of a b c rest) = a @ dot # b @ dot # c @ rest"
proof (cases "plus \<in> set rest")
  case False
  show ?thesis
    unfolding version_of_no_plus [OF False] as_str_def
    using assms by (simp add: decimal_canonical L_dot del: L_simps)
next
  case True
  then obtain u w where u: "rest = u @ plus # w" "plus \<notin> set u" by (meson split_list_first)
  note ver = version_of_plus [OF u(2)]
  have "w \<noteq> []" using assms(4) True ver u(1) by simp
  then show ?thesis
    using assms u(1) by (simp add: as_str_def ver decimal_canonical L_dot L_plus del: L_simps)
qed

definition version_ok :: "fx_ver_t \<Rightarrow> bool" where
  "version_ok v \<longleftrightarrow>
     0 \<le> sint (m_major v) \<and> 0 \<le> sint (m_minor v) \<and> 0 \<le> sint (m_patch v) \<and>
     plus \<notin> set (m_pre v) \<and> (m_pre v = [] \<or> \<not> is_digit (hd (m_pre v)))"

lemma decimal_nonneg:
  assumes "0 \<le> sint (w :: DWORD)"
  shows "number (decimal (sint w)) \<and> word_of_nat (decimal_value (decimal (sint w))) = w"
proof -
  have w: "nat (sint w) = unat w"
  proof -
    have "uint w = sint w"
      using assms uint_sint [of w] sint_lt [of w] by (simp add: take_bit_int_eq_self)
    then show ?thesis by (metis nat_uint_eq)
  qed
  then show ?thesis
    using assms decimal_digits_spec [of "unat w"] unat_lt_32 [of w]
    by (simp add: decimal_def number_def)
qed


lemma parse_as_str:
  assumes ok: "version_ok v"
  shows "parse (as_str v) v0 False = Inr (True, v)"
proof -
  let ?a = "decimal (sint (m_major v))" and ?b = "decimal (sint (m_minor v))"
  let ?c = "decimal (sint (m_patch v))"
  let ?rest = "m_pre v @ (if m_build v = [] then [] else plus # m_build v)"
  have str: "as_str v = ?a @ dot # ?b @ dot # ?c @ ?rest"
    by (simp add: as_str_def L_dot L_plus del: L_simps)
  have n: "number ?a \<and> word_of_nat (decimal_value ?a) = m_major v"
    "number ?b \<and> word_of_nat (decimal_value ?b) = m_minor v"
    "number ?c \<and> word_of_nat (decimal_value ?c) = m_patch v"
    using ok decimal_nonneg by (auto simp: version_ok_def)
  have "\<not> is_digit plus" by (simp add: plus_def is_digit_def)
  then have "version_text False ?a ?b ?c ?rest"
    using n ok by (cases "m_pre v") (auto simp: version_text_def version_ok_def)
  moreover have "version_of ?a ?b ?c ?rest = v"
    using n ok version_of_plus [of "m_pre v"] version_of_no_plus [of "m_pre v"]
    by (cases v) (auto simp: version_ok_def)
  ultimately show ?thesis
    unfolding parse_def str using parse_internal_complete by metis
qed

lemmas run_defs = parse_def parse_internal_def wfind_def find_if_def find_first_not_digit_def substr_def
  try_stou_def stoul_def is_digit_def decimal_value_def digit_value_def fx_ver_new3_def fx_ver_new4_def

section \<open>Properties\<close>

text \<open>
  C32: Parsing accepts exactly the texts \<open>a.b.c\<close> followed by a prerelease part that does not
  start with a digit and an optional build part (production parses refuse both), and yields
  their numbers and parts; a rejected text leaves the caller's version unchanged; the only
  exception is \<open>std::out_of_range\<close>, for a text that contains a number beyond \<open>ULONG_MAX\<close>.
\<close>

theorem parse_correct:
  "(parse ver v production = Inr (True, v') \<longleftrightarrow>
     (\<exists>a b c rest. ver = a @ dot # b @ dot # c @ rest \<and> version_text production a b c rest \<and>
        v' = version_of a b c rest)) \<and>
   (parse ver v production = Inr (False, v') \<longrightarrow> v' = v) \<and>
   (parse ver v production = Inl e \<longrightarrow> has_big_number ver)"
  using parse_correct_iff [of ver v production v'] parse_rejects [of ver v production v']
    parse_throws [of ver v production e] by blast

lemma parse_correct_witness:
  "(\<exists>a b c rest. L ''2.1.0-rc1+7'' = a @ dot # b @ dot # c @ rest \<and> version_text False a b c rest \<and>
      Fx_ver 2 1 0 (L ''-rc1'') (L ''7'') = version_of a b c rest) \<and>
   has_big_number (L ''4294967296.0.0'')"
proof -
  have "parse (L ''2.1.0-rc1+7'') (fx_ver_new3 0 0 0) False =
      Inr (True, Fx_ver 2 1 0 (L ''-rc1'') (L ''7''))"
    by (simp add: run_defs)
  moreover have "parse (L ''4294967296.0.0'') (fx_ver_new3 0 0 0) True = Inl Out_of_range"
    by (simp add: run_defs)
  ultimately show ?thesis
    using parse_correct by blast
qed

text \<open>
  C14: Printing and parsing are inverse. A version with non-negative numbers whose prerelease
  part does not start with a digit and holds no \<open>+\<close> is parsed back from its text; and for a
  text whose numbers have no leading zeros and fit an \<open>int\<close>, and whose \<open>+\<close> introduces a
  non-empty build part, the assertion of \<open>parse\<close> holds: the version prints as the text.
\<close>

theorem version_round_trip:
  assumes "version_ok v"
    and "canonical_number a" "canonical_number b" "canonical_number c"
    and "plus \<notin> set rest \<or> m_build (version_of a b c rest) \<noteq> []"
    and "version_text production a b c rest"
  shows "parse (as_str v) v0 False = Inr (True, v) \<and>
    (case parse (a @ dot # b @ dot # c @ rest) v0 production of
       Inl _ \<Rightarrow> False
     | Inr r \<Rightarrow> fst r \<and> parse_assertion (a @ dot # b @ dot # c @ rest) r)"
  using parse_as_str [OF assms(1)] as_str_version_of [OF assms(2-5)] parse_internal_complete [OF assms(6)]
  by (simp add: parse_def parse_assertion_def)

lemma version_round_trip_witness:
  "parse (L ''2.1.3-rc1+7'') (fx_ver_new3 0 0 0) False =
     Inr (True, Fx_ver 2 1 3 (L ''-rc1'') (L ''7''))"
proof -
  have e: "L ''2.1.3-rc1+7'' = as_str (Fx_ver 2 1 3 (L ''-rc1'') (L ''7''))"
    by (simp add: as_str_def decimal_def decimal_digits.simps)
  have w: "version_ok (Fx_ver 2 1 3 (L ''-rc1'') (L ''7''))"
    by (simp add: version_ok_def plus_def is_digit_def)
  have n: "canonical_number (L ''1'')"
    by (simp add: canonical_number_def number_def no_leading_zero_def decimal_value_def
        digit_value_def is_digit_def)
  have t: "version_text False (L ''1'') (L ''1'') (L ''1'') []"
    using n by (simp add: version_text_def canonical_number_def del: L_simps)
  show ?thesis
    unfolding e using version_round_trip [OF w n n n _ t] by simp
qed

text \<open>With a leading zero the assertion fails: the version prints differently.\<close>

lemma parse_assertion_violated:
  "parse (L ''01.0.0'') (fx_ver_new3 0 0 0) False = Inr (True, fx_ver_new3 1 0 0)"
  "\<not> parse_assertion (L ''01.0.0'') (True, fx_ver_new3 1 0 0)"
  by (simp_all add: run_defs parse_assertion_def as_str_def decimal_def decimal_digits.simps)

end
