(* ===== verification/Utility.thy ===== *)
theory Utility
  imports EnvVars FxVer
begin

section \<open>Utility functions (CommonLib/utility.cxx, IISLib/util.cxx)\<close>

text \<open>
  Splitting and unescaping of URLs, canonical paths, creation of directories and the search for the
  highest framework version. A \<open>PCWSTR\<close> that is only read as a NUL-terminated text is the list of its
  characters; where the code indexes it, the terminator is part of the block. The file system is a
  parameter: each function of the operating system is an argument of the definitions that call it.
  \<open>iswalnum\<close> depends on the locale and is a parameter; \<open>iswxdigit\<close> knows the hexadecimal digits only.
\<close>

subsection \<open>Characters and case-insensitive comparison\<close>

definition SLASH :: WCHAR where "SLASH = 47"
definition BACKSLASH :: WCHAR where "BACKSLASH = 92"
definition QUESTION :: WCHAR where "QUESTION = 63"
definition PERCENT :: WCHAR where "PERCENT = 37"
definition COLON :: WCHAR where "COLON = 58"

lemmas char_defs = SLASH_def BACKSLASH_def QUESTION_def PERCENT_def COLON_def

definition iswxdigit :: "WCHAR \<Rightarrow> bool" where
  "iswxdigit c \<longleftrightarrow> 48 \<le> c \<and> c \<le> 57 \<or> 65 \<le> c \<and> c \<le> 70 \<or> 97 \<le> c \<and> c \<le> 102"

definition TOHEX :: "WCHAR \<Rightarrow> WCHAR" where
  "TOHEX ch = (if 57 < ch then if 97 \<le> ch then ch - 97 + 10 else ch - 65 + 10 else ch - 48)"

text \<open>\<open>_wcsnicmp (a, b, n) == 0\<close> for NUL-terminated texts.\<close>

definition wcsnicmp_equal :: "wstr \<Rightarrow> wstr \<Rightarrow> nat \<Rightarrow> bool" where
  "wcsnicmp_equal a b n \<longleftrightarrow> map wlower (take n a) = map wlower (take n b)"

subsection \<open>SplitUrl\<close>

type_synonym split_result = "HRESULT \<times> bool \<times> STRU \<times> STRU"

definition split_after_scheme :: "wheap \<Rightarrow> wstr \<Rightarrow> bool \<Rightarrow> STRU \<Rightarrow> STRU \<Rightarrow> split_result option" where
  "split_after_scheme heap url fSecure strDestination strUrl =
     (if url = [] then Some (HRESULT_FROM_WIN32 ERROR_INVALID_DATA, fSecure, strDestination, strUrl)
      else case wcschr (url @ [0]) SLASH of
        None \<Rightarrow> do {
          (hr, u) \<leftarrow> STRU_CopyN heap [SLASH, 0] 1 strUrl;
          (if FAILED hr then Some (hr, fSecure, strDestination, u)
           else do {
             (hr, d) \<leftarrow> STRU_Copy heap url strDestination;
             (if FAILED hr then Some (hr, fSecure, d, u) else Some (S_OK, fSecure, d, u))
           })
        }
      | Some k \<Rightarrow> do {
          (hr, u) \<leftarrow> STRU_Copy heap (drop k url) strUrl;
          (if FAILED hr then Some (hr, fSecure, strDestination, u)
           else do {
             (hr, d) \<leftarrow> STRU_CopyN heap (url @ [0]) (u32 k) strDestination;
             (if FAILED hr then Some (hr, fSecure, d, u) else Some (S_OK, fSecure, d, u))
           })
        })"

definition SplitUrl :: "wheap \<Rightarrow> wstr \<Rightarrow> bool \<Rightarrow> STRU \<Rightarrow> STRU \<Rightarrow> split_result option" where
  "SplitUrl heap pszDestinationUrl fSecure strDestination strUrl =
     (if wcsnicmp_equal pszDestinationUrl (L ''http://'') 7
      then split_after_scheme heap (drop 7 pszDestinationUrl) False strDestination strUrl
      else if wcsnicmp_equal pszDestinationUrl (L ''https://'') 8
      then split_after_scheme heap (drop 8 pszDestinationUrl) True strDestination strUrl
      else Some (HRESULT_FROM_WIN32 ERROR_INVALID_DATA, fSecure, strDestination, strUrl))"

subsection \<open>UnEscapeUrl\<close>

text \<open>The character a \<open>%hh\<close> at index \<open>i\<close> stands for; the second digit is only read after a first.\<close>

definition escape_at :: "wstr \<Rightarrow> nat \<Rightarrow> WCHAR option option" where
  "escape_at pszUrl index = do {
     h1 \<leftarrow> load_at pszUrl (index + 1);
     (if \<not> iswxdigit h1 then Some None
      else do {
        h2 \<leftarrow> load_at pszUrl (index + 2);
        Some (if iswxdigit h2 then Some (TOHEX h1 * 16 + TOHEX h2) else None)
      })
   }"

definition flush_run :: "wheap \<Rightarrow> wstr \<Rightarrow> nat \<Rightarrow> nat \<Rightarrow> STRU \<Rightarrow> (HRESULT \<times> STRU) option" where
  "flush_run heap pszUrl cchStart index s =
     (if cchStart < index then STRU_AppendN heap (drop cchStart pszUrl) (index - cchStart) s
      else Some (S_OK, s))"

function UnEscape_loop :: "wheap \<Rightarrow> wstr \<Rightarrow> nat \<Rightarrow> nat \<Rightarrow> nat \<Rightarrow> bool \<Rightarrow> STRU \<Rightarrow> (HRESULT \<times> STRU) option" where
  "UnEscape_loop heap pszUrl cchUrl cchStart index fInQuery s =
     (if cchUrl \<le> index then flush_run heap pszUrl cchStart index s
      else do {
        c \<leftarrow> load_at pszUrl index;
        (if c = PERCENT then do {
           e \<leftarrow> escape_at pszUrl index;
           (case e of
              Some ch \<Rightarrow> do {
                (hr, s1) \<leftarrow> flush_run heap pszUrl cchStart index s;
                (if FAILED hr then Some (hr, s1)
                 else do {
                   (hr, s2) \<leftarrow> STRU_AppendN heap [ch, 0] 1 s1;
                   (if FAILED hr then Some (hr, s2)
                    else UnEscape_loop heap pszUrl cchUrl (index + 3) (index + 3)
                           (fInQuery \<or> ch = QUESTION) s2)
                 })
              }
            | None \<Rightarrow> UnEscape_loop heap pszUrl cchUrl cchStart (index + 1) fInQuery s)
         }
         else if c = SLASH \<and> fInQuery then do {
           (hr, s1) \<leftarrow> flush_run heap pszUrl cchStart index s;
           (if FAILED hr then Some (hr, s1)
            else do {
              (hr, s2) \<leftarrow> STRU_AppendN heap [BACKSLASH, 0] 1 s1;
              (if FAILED hr then Some (hr, s2)
               else UnEscape_loop heap pszUrl cchUrl (index + 1) (index + 1) fInQuery s2)
            })
         }
         else UnEscape_loop heap pszUrl cchUrl cchStart (index + 1) fInQuery s)
      })"
  by pat_completeness auto

termination
  by (relation "measure (\<lambda>(_, _, cchUrl, _, index, _, _). cchUrl - index)") auto

declare UnEscape_loop.simps [simp del]

definition UnEscapeUrl :: "wheap \<Rightarrow> wstr \<Rightarrow> nat \<Rightarrow> STRU \<Rightarrow> (HRESULT \<times> STRU) option" where
  "UnEscapeUrl heap pszUrl cchUrl strResult = UnEscape_loop heap pszUrl cchUrl 0 0 False strResult"

text \<open>What unescaping means for the text.\<close>

fun unescaped :: "bool \<Rightarrow> wstr \<Rightarrow> wstr" where
  "unescaped q (a # b # c # r) =
     (if a = PERCENT \<and> iswxdigit b \<and> iswxdigit c
      then (TOHEX b * 16 + TOHEX c) # unescaped (q \<or> TOHEX b * 16 + TOHEX c = QUESTION) r
      else (if a = SLASH \<and> q then BACKSLASH else a) # unescaped q (b # c # r))"
| "unescaped q (a # r) = (if a = SLASH \<and> q then BACKSLASH else a) # unescaped q r"
| "unescaped q [] = []"

subsection \<open>EscapeAbsPath and the checks of names\<close>

function escape_loop :: "wheap \<Rightarrow> wstr \<Rightarrow> STRU \<Rightarrow> STRU option" where
  "escape_loop heap pszAbsPath s =
     (case wcschr (pszAbsPath @ [0]) QUESTION of
        None \<Rightarrow> map_option snd (STRU_Append heap pszAbsPath s)
      | Some k \<Rightarrow>
          if k < length pszAbsPath then do {
            (_, s1) \<leftarrow> STRU_AppendN heap (pszAbsPath @ [0]) k s;
            (_, s2) \<leftarrow> STRU_Append heap (L ''%3F'') s1;
            escape_loop heap (drop (k + 1) pszAbsPath) s2
          }
          else None)"
  by pat_completeness auto

termination
  by (relation "measure (\<lambda>(_, p, _). length p)") auto

text \<open>The cooked URL is given by two texts with their lengths in bytes.\<close>

definition EscapeAbsPath :: "wheap \<Rightarrow> wstr \<Rightarrow> nat \<Rightarrow> wstr \<Rightarrow> nat \<Rightarrow> STRU \<Rightarrow> (HRESULT \<times> STRU) option" where
  "EscapeAbsPath heap pAbsPath AbsPathLength pQueryString QueryStringLength strEscapedUrl = do {
     (hr, strAbsPath) \<leftarrow> STRU_CopyN heap pAbsPath (AbsPathLength div 2) STRU_new;
     (if FAILED hr then Some (hr, strEscapedUrl)
      else do {
        s1 \<leftarrow> escape_loop heap (c_text strAbsPath) strEscapedUrl;
        (_, s2) \<leftarrow> STRU_AppendN heap pQueryString (QueryStringLength div 2) s1;
        Some (hr, s2)
      })
   }"

definition IsValidAttributeNameChar :: "WCHAR \<Rightarrow> bool" where
  "IsValidAttributeNameChar ch \<longleftrightarrow> ch = 9 \<or> 31 < ch \<and> ch < 127"

definition FindInMultiString :: "wstr \<Rightarrow> wstr \<Rightarrow> bool option" where
  "FindInMultiString pszMultiString pszStringToFind =
     Find_loop (\<lambda>s. s = pszStringToFind) pszMultiString"

fun IsValidQueryStringName :: "(WCHAR \<Rightarrow> bool) \<Rightarrow> wstr \<Rightarrow> bool" where
  "IsValidQueryStringName alnum [] = True"
| "IsValidQueryStringName alnum (c # cs) =
     (if c \<notin> set (L ''-_+.*$%,'') \<and> \<not> alnum c then False else IsValidQueryStringName alnum cs)"

fun IsValidHeaderName :: "(WCHAR \<Rightarrow> bool) \<Rightarrow> wstr \<Rightarrow> bool" where
  "IsValidHeaderName alnum [] = True"
| "IsValidHeaderName alnum (c # cs) =
     (if c \<notin> set (L ''-_+.*$%'') \<and> \<not> alnum c then False else IsValidHeaderName alnum cs)"

subsection \<open>Paths\<close>

definition MAX_PATH :: nat where "MAX_PATH = 260"

definition WIN32_PREFIX :: wstr where "WIN32_PREFIX = [92, 92, 63, 92]"
definition UNC_PREFIX :: wstr where "UNC_PREFIX = [92, 92, 63, 92, 85, 78, 67, 92]"

text \<open>The name is read by index, up to its terminator; \<open>&&\<close> and \<open>||\<close> stop early.\<close>

definition chars_at :: "wstr \<Rightarrow> nat \<Rightarrow> WCHAR list \<Rightarrow> bool option" where
  "chars_at b i cs = do { c \<leftarrow> load_at b i; Some (c \<in> set cs) }"

definition and_also :: "bool option \<Rightarrow> bool option \<Rightarrow> bool option" where
  "and_also p q = do { a \<leftarrow> p; (if a then q else Some False) }"

definition MakePathCanonicalizationProof :: "wheap \<Rightarrow> wstr \<Rightarrow> STRU \<Rightarrow> (HRESULT \<times> STRU) option" where
  "MakePathCanonicalizationProof heap name pstrPath =
     (let pszName = name @ [0]
      in do {
        unc \<leftarrow> and_also (chars_at pszName 0 [BACKSLASH]) (chars_at pszName 1 [BACKSLASH]);
        (if unc then do {
           canonical \<leftarrow> and_also (chars_at pszName 2 [QUESTION, 46]) (chars_at pszName 3 [BACKSLASH]);
           (if canonical then do {
              (hr, s) \<leftarrow> STRU_Copy heap name pstrPath;
              (if FAILED hr then Some (hr, s)
               else do { b \<leftarrow> store_at (QueryStr s) 2 QUESTION; Some (hr, set_str s b) })
            }
            else do {
              (hr, s) \<leftarrow> STRU_Copy heap UNC_PREFIX pstrPath;
              (if FAILED hr then Some (hr, s) else STRU_Append heap (drop 2 name) s)
            })
         }
         else if MAX_PATH < length name then do {
           (hr, s) \<leftarrow> STRU_Copy heap WIN32_PREFIX pstrPath;
           (if FAILED hr then Some (hr, s) else STRU_Append heap name s)
         }
         else do { s \<leftarrow> STRU_Reset pstrPath; STRU_Append heap name s })
      })"

text \<open>\<open>pszPath\<close> and \<open>pfIsUnc\<close> may be NULL; the flag is the value behind the pointer.\<close>

definition IsPathUnc :: "wheap \<Rightarrow> wstr option \<Rightarrow> bool option \<Rightarrow> (HRESULT \<times> bool option) option" where
  "IsPathUnc heap pszPath pfIsUnc =
     (case (pszPath, pfIsUnc) of
        (Some path, Some f) \<Rightarrow> do {
          (hr, strTempPath) \<leftarrow> MakePathCanonicalizationProof heap path STRU_new;
          (if FAILED hr then Some (hr, Some f)
           else Some (hr, Some (wcsnicmp_equal (c_text strTempPath) UNC_PREFIX 8)))
        }
      | _ \<Rightarrow> Some (E_INVALIDARG, pfIsUnc))"

text \<open>
  \<open>PathIsRelative\<close> and \<open>_wfullpath\<close> are parameters; the latter gets the size of the target and
  returns the path, or nothing when it does not fit or cannot be made absolute. \<open>can_new\<close> says
  whether the allocation of the target succeeds.
\<close>

definition relative_prefix :: "wheap \<Rightarrow> (wstr \<Rightarrow> bool) \<Rightarrow> wstr \<Rightarrow> wstr \<Rightarrow> (HRESULT \<times> STRU) option" where
  "relative_prefix heap PathIsRelative pszPath pszRootPath =
     (if PathIsRelative pszPath then do {
        (hr, s) \<leftarrow> STRU_Copy heap pszRootPath STRU_new;
        (if FAILED hr then Some (hr, s)
         else if \<not> EndsWith id s (Some [BACKSLASH]) False then STRU_Append heap [BACKSLASH] s
         else Some (hr, s))
      }
      else Some (S_OK, STRU_new))"

definition ConvertPathToFullPath :: "wheap \<Rightarrow> (wstr \<Rightarrow> bool) \<Rightarrow> (wstr \<Rightarrow> nat \<Rightarrow> wstr option) \<Rightarrow> bool \<Rightarrow>
    wstr \<Rightarrow> wstr \<Rightarrow> STRU \<Rightarrow> (HRESULT \<times> STRU) option" where
  "ConvertPathToFullPath heap PathIsRelative wfullpath can_new pszPath pszRootPath pStruFullPath = do {
     (hr, s) \<leftarrow> relative_prefix heap PathIsRelative pszPath pszRootPath;
     (if FAILED hr then Some (hr, pStruFullPath)
      else do {
        (hr, strFileFullPath) \<leftarrow> STRU_Append heap pszPath s;
        (if FAILED hr then Some (hr, pStruFullPath)
         else if \<not> can_new then Some (E_OUTOFMEMORY, pStruFullPath)
         else case wfullpath (c_text strFileFullPath) (QueryCCH strFileFullPath + 1) of
           None \<Rightarrow> Some (HRESULT_FROM_WIN32 ERROR_INVALID_PARAMETER, pStruFullPath)
         | Some pszFullPath \<Rightarrow> MakePathCanonicalizationProof heap pszFullPath pStruFullPath)
      })
   }"

subsection \<open>EnsureDirectoryPathExist\<close>

definition ERROR_INTERNAL_ERROR :: DWORD where "ERROR_INTERNAL_ERROR = 1359"

lemma wcschr_length: "wcschr b c = Some k \<Longrightarrow> k < length b"
  by (induction b c arbitrary: k rule: wcschr.induct) (auto split: if_splits)

lemma IndexOf_bounds:
  assumes "IndexOf s c i = p" "p \<noteq> - 1"
  shows "i \<le> nat p" "nat p < length (QueryStr s)" "0 \<le> p"
  using assms wcschr_length [of "drop i (QueryStr s)" c]
  by (auto simp: IndexOf_def index_result_def split: if_splits option.splits)

text \<open>
  \<open>CreateDirectory\<close> takes the state of the file system and returns the error code (\<open>None\<close> when it
  succeeds) and the new state. The character put into the path is the terminator while the directory
  is created and the backslash afterwards.
\<close>

function ensure_loop :: "(wstr \<Rightarrow> 'fs \<Rightarrow> DWORD option \<times> 'fs) \<Rightarrow> HRESULT \<Rightarrow> nat \<Rightarrow> STRU \<Rightarrow> 'fs \<Rightarrow>
    (HRESULT \<times> 'fs) option" where
  "ensure_loop CreateDirectory hr dwPosition s fs =
     (let p = IndexOf s BACKSLASH (dwPosition + 1)
      in if p = - 1 then Some (hr, fs)
         else if p = 0 then Some (ERROR_INTERNAL_ERROR, fs)
         else do {
           c \<leftarrow> load_at (QueryStr s) (nat p - 1);
           (if c = COLON then ensure_loop CreateDirectory hr (nat p) s fs
            else do {
              b \<leftarrow> store_at (QueryStr s) (nat p) 0;
              (let (err, fs') = CreateDirectory (c_text (set_str s b)) fs
               in if err \<noteq> None \<and> err \<noteq> Some ERROR_ALREADY_EXISTS
                  then Some (HRESULT_FROM_WIN32 (the err), fs')
                  else ensure_loop CreateDirectory hr (nat p)
                         (set_str s ((QueryStr s)[nat p := BACKSLASH])) fs')
            })
         })"
  by pat_completeness auto

termination
proof (relation "measure (\<lambda>(_, _, dwPosition, s, _). length (QueryStr s) - dwPosition)", goal_cases)
  case (2 mk hr pos s fs p x)
  then show ?case using IndexOf_bounds [of s BACKSLASH "pos + 1" p] by (auto simp: less_diff_conv)
next
  case (3 mk hr pos s fs p x b y err fs')
  then show ?case using IndexOf_bounds [of s BACKSLASH "pos + 1" p] by (auto simp: less_diff_conv)
qed simp

declare ensure_loop.simps [simp del]

definition EnsureDirectoryPathExist :: "wheap \<Rightarrow> (wstr \<Rightarrow> 'fs \<Rightarrow> DWORD option \<times> 'fs) \<Rightarrow> wstr \<Rightarrow> 'fs \<Rightarrow>
    (HRESULT \<times> 'fs) option" where
  "EnsureDirectoryPathExist heap CreateDirectory pszPath fs = do {
     (_, struPath) \<leftarrow> STRU_Copy heap pszPath STRU_new;
     (hr, fUnc) \<leftarrow> IsPathUnc heap (Some pszPath) (Some False);
     (if FAILED hr then Some (hr, fs)
      else ensure_loop CreateDirectory hr
             (if fUnc = Some True then 8 else if IndexOf struPath QUESTION 0 \<noteq> - 1 then 4 else 0)
             struPath fs)
   }"

subsection \<open>Folders and files\<close>

text \<open>The macro \<open>max\<close> of \<open>windows.h\<close> compares with \<open>operator >\<close>.\<close>

definition max_version :: "fx_ver_t \<Rightarrow> fx_ver_t \<Rightarrow> fx_ver_t" where
  "max_version a b = (if ver_gt a b then a else b)"

fun highest_version :: "wstr list \<Rightarrow> fx_ver_t \<Rightarrow> fx_ver_t throws" where
  "highest_version [] max_ver = Inr max_ver"
| "highest_version (dir # dirs) max_ver =
     bindE (parse dir (fx_ver_new3 (- 1) (- 1) (- 1)) False)
       (\<lambda>(ok, fx_ver). highest_version dirs (if ok then max_version max_ver fx_ver else max_ver))"

definition FindHighestDotNetVersion :: "wheap \<Rightarrow> wstr list \<Rightarrow> STRU \<Rightarrow> (HRESULT \<times> STRU) option throws" where
  "FindHighestDotNetVersion heap vFolders pstrResult =
     bindE (highest_version vFolders (fx_ver_new3 (- 1) (- 1) (- 1)))
       (\<lambda>max_ver. Inr (STRU_Copy heap (takeWhile (\<lambda>c. c \<noteq> 0) (as_str max_ver)) pstrResult))"

text \<open>
  \<open>GetFileAttributesEx\<close> and the enumeration of a search pattern (\<open>None\<close> when the search cannot start,
  else the names in order, at least one) are parameters.
\<close>

definition DirectoryExists :: "(wstr \<Rightarrow> bool) \<Rightarrow> STRU \<Rightarrow> bool" where
  "DirectoryExists GetFileAttributesExW pstrPath =
     (if IsEmpty pstrPath then False else GetFileAttributesExW (c_text pstrPath))"

definition FindDotNetFolders :: "(wstr \<Rightarrow> wstr list option) \<Rightarrow> wstr \<Rightarrow> wstr list \<Rightarrow> wstr list" where
  "FindDotNetFolders FindFirstFileExW pszPath vFolders =
     (case FindFirstFileExW pszPath of None \<Rightarrow> vFolders | Some names \<Rightarrow> vFolders @ names)"

definition ERROR_SHARING_VIOLATION :: DWORD where "ERROR_SHARING_VIOLATION = 32"

text \<open>\<open>CreateFile\<close> gives the error code or a handle.\<close>

definition CheckIfFileExists :: "(wstr \<Rightarrow> DWORD + nat) \<Rightarrow> wstr \<Rightarrow> bool" where
  "CheckIfFileExists CreateFile pszFilePath =
     (case CreateFile pszFilePath of
        Inl err \<Rightarrow> err = ERROR_SHARING_VIOLATION
      | Inr _ \<Rightarrow> True)"

subsection \<open>Appending a run of characters\<close>

lemma STRU_AppendN_spec:
  assumes "heap_ok 2 heap" "stru_inv s" "n \<le> length p" "n < 4294967296"
  shows "returns (STRU_AppendN heap p n s) (\<lambda>(hr, s'). stru_inv s' \<and>
    (if SUCCEEDED hr then str_text s' = str_text s @ take n p else s' = s) \<and>
    (2 * (length (str_text s) + n + 1) \<le> MAXDWORD \<and> heap_total heap \<longrightarrow> SUCCEEDED hr))"
proof (cases "n = 0")
  case True
  then show ?thesis using assms(2) by (simp add: STRU_AppendN_def)
next
  case False
  have u: "u64 (n * 2) = 2 * n" using assms(4) by simp
  have p: "p = take n p @ drop n p" "length (take n p) = n" using assms(3) by simp_all
  show ?thesis
    using False AuxAppend_spec [OF assms(2,1) order_refl, of "take n p" "drop n p"] assms(4) p(2)
      stru_invD(6) [OF assms(2)] length_str_text [OF assms(2)]
    by (auto simp: STRU_AppendN_def u heap_total_def elim!: returns_mono split: if_splits)
qed

lemma STRU_CopyN_spec:
  assumes "heap_ok 2 heap" "stru_inv s" "n \<le> length p" "n < 4294967296"
  shows "returns (STRU_CopyN heap p n s) (\<lambda>(hr, s'). stru_inv s' \<and>
    (if SUCCEEDED hr then str_text s' = take n p else s' = s) \<and>
    (2 * (n + 1) \<le> MAXDWORD \<and> heap_total heap \<longrightarrow> SUCCEEDED hr))"
proof -
  have u: "u64 (n * 2) = 2 * n" using assms(4) by simp
  have p: "p = take n p @ drop n p" "length (take n p) = n" using assms(3) by simp_all
  show ?thesis
    using AuxAppend_spec [OF assms(2,1), of 0 "take n p" "drop n p"] assms(4) p(2)
    by (auto simp: STRU_CopyN_def u heap_total_def elim!: returns_mono split: if_splits)
qed

subsection \<open>Unescaping\<close>

lemma escape_at_spec:
  assumes "i < n" "n < length b" "b ! n = 0"
  shows "escape_at b i = Some (if i + 2 < n \<and> iswxdigit (b ! (i + 1)) \<and> iswxdigit (b ! (i + 2))
     then Some (TOHEX (b ! (i + 1)) * 16 + TOHEX (b ! (i + 2))) else None)"
proof -
  have z: "\<not> iswxdigit 0" by (simp add: iswxdigit_def)
  consider "i + 1 = n" | "i + 2 = n" | "i + 2 < n" using assms(1) by linarith
  then show ?thesis
  proof cases
    case 1
    then show ?thesis using assms z by (simp add: escape_at_def)
  next
    case 2
    then show ?thesis using assms z by (auto simp: escape_at_def)
  next
    case 3
    then show ?thesis using assms by (simp add: escape_at_def)
  qed
qed

lemma unescaped_Cons:
  "unescaped q (a # r) =
     (if a = PERCENT \<and> 2 \<le> length r \<and> iswxdigit (r ! 0) \<and> iswxdigit (r ! 1)
      then (TOHEX (r ! 0) * 16 + TOHEX (r ! 1)) #
             unescaped (q \<or> TOHEX (r ! 0) * 16 + TOHEX (r ! 1) = QUESTION) (drop 2 r)
      else (if a = SLASH \<and> q then BACKSLASH else a) # unescaped q r)"
  by (cases r rule: list.exhaust; cases "tl r") (auto simp: numeral_2_eq_2)

lemma length_unescaped: "length (unescaped q u) \<le> length u"
  by (induction q u rule: unescaped.induct) auto

lemma flush_run_spec:
  assumes "heap_ok 2 heap" "stru_inv s" "st \<le> i" "i \<le> length b" "i < 4294967296"
  shows "returns (flush_run heap b st i s) (\<lambda>(hr, s'). stru_inv s' \<and>
    (if SUCCEEDED hr then str_text s' = str_text s @ drop st (take i b) else s' = s) \<and>
    (2 * (length (str_text s) + (i - st) + 1) \<le> MAXDWORD \<and> heap_total heap \<longrightarrow> SUCCEEDED hr))"
proof (cases "st < i")
  case True
  have "i - st \<le> length (drop st b)" "i - st < 4294967296" using assms by auto
  from STRU_AppendN_spec [OF assms(1,2) this] show ?thesis
    using True by (simp only: flush_run_def if_True drop_take)
next
  case False
  then show ?thesis using assms by (simp add: flush_run_def)
qed

text \<open>Emitting the pending run and one character, and going on.\<close>

definition emit :: "wheap \<Rightarrow> wstr \<Rightarrow> nat \<Rightarrow> nat \<Rightarrow> WCHAR \<Rightarrow> STRU \<Rightarrow> (STRU \<Rightarrow> (HRESULT \<times> STRU) option) \<Rightarrow>
    (HRESULT \<times> STRU) option" where
  "emit heap b st i ch s K = do {
     (hr, s1) \<leftarrow> flush_run heap b st i s;
     (if FAILED hr then Some (hr, s1)
      else do {
        (hr, s2) \<leftarrow> STRU_AppendN heap [ch, 0] 1 s1;
        (if FAILED hr then Some (hr, s2) else K s2)
      })
   }"

lemma emit_spec:
  assumes "heap_ok 2 heap" "stru_inv s" "st \<le> i" "i \<le> length b" "i < 4294967296"
    and K: "\<And>s2. stru_inv s2 \<Longrightarrow> str_text s2 = str_text s @ drop st (take i b) @ [ch] \<Longrightarrow>
      returns (K s2) (\<lambda>(hr, s'). stru_inv s' \<and> (SUCCEEDED hr \<longrightarrow> str_text s' = str_text s2 @ t) \<and>
        (2 * (length (str_text s2) + n + 1) \<le> MAXDWORD \<and> heap_total heap \<longrightarrow> SUCCEEDED hr))"
  shows "returns (emit heap b st i ch s K) (\<lambda>(hr, s'). stru_inv s' \<and>
    (SUCCEEDED hr \<longrightarrow> str_text s' = str_text s @ drop st (take i b) @ ch # t) \<and>
    (2 * (length (str_text s) + (i - st) + n + 2) \<le> MAXDWORD \<and> heap_total heap \<longrightarrow> SUCCEEDED hr))"
proof -
  obtain hr1 s1 where s1: "flush_run heap b st i s = Some (hr1, s1)" "stru_inv s1"
    "if SUCCEEDED hr1 then str_text s1 = str_text s @ drop st (take i b) else s1 = s"
    "2 * (length (str_text s) + (i - st) + 1) \<le> MAXDWORD \<and> heap_total heap \<longrightarrow> SUCCEEDED hr1"
    by (rule returns_pairE [OF flush_run_spec [OF assms(1-5)]]) (elim conjE, rule that)
  show ?thesis
  proof (cases "FAILED hr1")
    case True
    then show ?thesis using s1 by (auto simp: emit_def)
  next
    case False
    have l: "1 \<le> length [ch, 0]" "(1 :: nat) < 4294967296" by auto
    obtain hr2 s2 where s2: "STRU_AppendN heap [ch, 0] 1 s1 = Some (hr2, s2)" "stru_inv s2"
      "if SUCCEEDED hr2 then str_text s2 = str_text s1 @ take 1 [ch, 0] else s2 = s1"
      "2 * (length (str_text s1) + 1 + 1) \<le> MAXDWORD \<and> heap_total heap \<longrightarrow> SUCCEEDED hr2"
      by (rule returns_pairE [OF STRU_AppendN_spec [OF assms(1) s1(2) l]]) (elim conjE, rule that)
    have len: "length (str_text s1) = length (str_text s) + (i - st)"
      using s1(3) False assms(4) by simp
    show ?thesis
    proof (cases "FAILED hr2")
      case True
      then show ?thesis using s1(1) s2 False len by (auto simp: emit_def)
    next
      case F: False
      have t: "str_text s2 = str_text s @ drop st (take i b) @ [ch]"
        using s1(3) s2(3) False F by simp
      then have "length (str_text s2) = length (str_text s) + (i - st) + 1" using assms(4) by simp
      with K [OF s2(2) t] show ?thesis
        using s1(1) s2(1) False F t by (simp add: emit_def)
    qed
  qed
qed

lemma UnEscape_loop_unfold:
  assumes "i < n" "n < length b" "b ! n = 0"
  shows "UnEscape_loop heap b n st i q s =
    (if b ! i = PERCENT \<and> i + 2 < n \<and> iswxdigit (b ! (i + 1)) \<and> iswxdigit (b ! (i + 2))
     then let ch = TOHEX (b ! (i + 1)) * 16 + TOHEX (b ! (i + 2))
          in emit heap b st i ch s (UnEscape_loop heap b n (i + 3) (i + 3) (q \<or> ch = QUESTION))
     else if b ! i = SLASH \<and> q
     then emit heap b st i BACKSLASH s (UnEscape_loop heap b n (i + 1) (i + 1) q)
     else UnEscape_loop heap b n st (i + 1) q s)"
proof -
  have "PERCENT \<noteq> SLASH" by (simp add: char_defs)
  then show ?thesis
    using assms
    by (subst UnEscape_loop.simps)
      (simp add: emit_def Let_def escape_at_spec [OF assms] cong: if_cong)
qed

lemma UnEscape_loop_spec:
  assumes "heap_ok 2 heap" "stru_inv s" "n < length b" "b ! n = 0" "st \<le> i" "i \<le> n" "n < 4294967296"
  shows "returns (UnEscape_loop heap b n st i q s) (\<lambda>(hr, s'). stru_inv s' \<and>
    (SUCCEEDED hr \<longrightarrow> str_text s' = str_text s @ drop st (take i b) @ unescaped q (drop i (take n b))) \<and>
    (2 * (length (str_text s) + (n - st) + 1) \<le> MAXDWORD \<and> heap_total heap \<longrightarrow> SUCCEEDED hr))"
  using assms
proof (induction "n - i" arbitrary: i st q s rule: less_induct)
  case (less i st q s)
  show ?case
  proof (cases "n = i")
    case True
    have "returns (flush_run heap b st i s) (\<lambda>(hr, s'). stru_inv s' \<and>
      (if SUCCEEDED hr then str_text s' = str_text s @ drop st (take i b) else s' = s) \<and>
      (2 * (length (str_text s) + (i - st) + 1) \<le> MAXDWORD \<and> heap_total heap \<longrightarrow> SUCCEEDED hr))"
      using less.prems by (intro flush_run_spec) auto
    then show ?thesis
      using True by (subst UnEscape_loop.simps) (auto elim!: returns_mono split: if_splits)
  next
    case False
    then have i: "i < n" "i < length b" using less.prems by auto
    let ?u = "take n b"
    have D: "drop i ?u = b ! i # drop (i + 1) ?u"
      using i Cons_nth_drop_Suc [of i ?u] by simp
    have nths: "drop (i + 1) ?u ! 0 = b ! (i + 1) \<and> drop (i + 1) ?u ! 1 = b ! (i + 2)" if "i + 2 < n"
      using that less.prems by simp
    have T: "drop st (take (i + 1) b) = drop st (take i b) @ [b ! i]"
      using i less.prems(5) by (simp add: take_Suc_conv_app_nth)
    let ?ch = "TOHEX (b ! (i + 1)) * 16 + TOHEX (b ! (i + 2))"
    consider (esc) "b ! i = PERCENT" "i + 2 < n" "iswxdigit (b ! (i + 1))" "iswxdigit (b ! (i + 2))"
      | (slash) "b ! i = SLASH" "q"
      | (other) "\<not> (b ! i = PERCENT \<and> i + 2 < n \<and> iswxdigit (b ! (i + 1)) \<and> iswxdigit (b ! (i + 2)))"
          "\<not> (b ! i = SLASH \<and> q)"
      by blast
    then show ?thesis
    proof cases
      case esc
      let ?q = "q \<or> ?ch = QUESTION"
      have R: "unescaped q (drop i ?u) = ?ch # unescaped ?q (drop (i + 3) ?u)"
        unfolding D unescaped_Cons using esc nths i less.prems
        by (simp add: numeral_3_eq_3 numeral_2_eq_2 Suc_diff_le Suc_le_eq less_diff_conv)
      have K: "returns (UnEscape_loop heap b n (i + 3) (i + 3) ?q s2) (\<lambda>(hr, s'). stru_inv s' \<and>
          (SUCCEEDED hr \<longrightarrow> str_text s' = str_text s2 @ unescaped ?q (drop (i + 3) ?u)) \<and>
          (2 * (length (str_text s2) + (n - (i + 3)) + 1) \<le> MAXDWORD \<and> heap_total heap \<longrightarrow> SUCCEEDED hr))"
        if "stru_inv s2" for s2
        using less.hyps [of "i + 3" s2 "i + 3" ?q] that esc i less.prems by simp
      have "returns (emit heap b st i ?ch s (UnEscape_loop heap b n (i + 3) (i + 3) ?q))
         (\<lambda>(hr, s'). stru_inv s' \<and>
           (SUCCEEDED hr \<longrightarrow> str_text s' = str_text s @ drop st (take i b) @ ?ch # unescaped ?q (drop (i + 3) ?u)) \<and>
           (2 * (length (str_text s) + (i - st) + (n - (i + 3)) + 2) \<le> MAXDWORD \<and> heap_total heap \<longrightarrow> SUCCEEDED hr))"
        by (rule emit_spec [OF less.prems(1,2,5) _ _ K]) (use less.prems i in auto)
      then show ?thesis
        unfolding R UnEscape_loop_unfold [OF i(1) less.prems(3,4)] Let_def
        using esc less.prems i by (simp only: simp_thms if_True) (auto elim!: returns_mono)
    next
      case slash
      have R: "unescaped q (drop i ?u) = BACKSLASH # unescaped q (drop (i + 1) ?u)"
        unfolding D unescaped_Cons using slash by (simp add: char_defs)
      have K: "returns (UnEscape_loop heap b n (i + 1) (i + 1) q s2) (\<lambda>(hr, s'). stru_inv s' \<and>
          (SUCCEEDED hr \<longrightarrow> str_text s' = str_text s2 @ unescaped q (drop (i + 1) ?u)) \<and>
          (2 * (length (str_text s2) + (n - (i + 1)) + 1) \<le> MAXDWORD \<and> heap_total heap \<longrightarrow> SUCCEEDED hr))"
        if "stru_inv s2" for s2
        using less.hyps [of "i + 1" s2 "i + 1" q] that i less.prems by simp
      have "returns (emit heap b st i BACKSLASH s (UnEscape_loop heap b n (i + 1) (i + 1) q))
         (\<lambda>(hr, s'). stru_inv s' \<and>
           (SUCCEEDED hr \<longrightarrow> str_text s' = str_text s @ drop st (take i b) @ BACKSLASH # unescaped q (drop (i + 1) ?u)) \<and>
           (2 * (length (str_text s) + (i - st) + (n - (i + 1)) + 2) \<le> MAXDWORD \<and> heap_total heap \<longrightarrow> SUCCEEDED hr))"
        by (rule emit_spec [OF less.prems(1,2,5) _ _ K]) (use less.prems i in auto)
      then show ?thesis
        unfolding R UnEscape_loop_unfold [OF i(1) less.prems(3,4)]
        using slash less.prems i by (simp add: char_defs) (auto elim!: returns_mono)
    next
      case other
      have R: "unescaped q (drop i ?u) = b ! i # unescaped q (drop (i + 1) ?u)"
        unfolding D unescaped_Cons using other nths i less.prems by auto
      have "returns (UnEscape_loop heap b n st (i + 1) q s) (\<lambda>(hr, s'). stru_inv s' \<and>
          (SUCCEEDED hr \<longrightarrow> str_text s' = str_text s @ drop st (take (i + 1) b) @ unescaped q (drop (i + 1) ?u)) \<and>
          (2 * (length (str_text s) + (n - st) + 1) \<le> MAXDWORD \<and> heap_total heap \<longrightarrow> SUCCEEDED hr))"
        using less.hyps [of "i + 1" s st q] i less.prems by simp
      then show ?thesis
        unfolding R UnEscape_loop_unfold [OF i(1) less.prems(3,4)] T
        using other by (simp only: if_False simp_thms append_assoc append.simps)
    qed
  qed
qed

subsection \<open>Splitting\<close>

lemma wcschr_c_string:
  assumes "0 \<notin> set xs" "c \<noteq> 0"
  shows "wcschr (xs @ [0]) c = (if c \<in> set xs then Some (length (takeWhile (\<lambda>x. x \<noteq> c) xs)) else None)"
  using wcschr_spec [OF assms, of "[]"] .

lemma take_length_takeWhile [simp]: "take (length (takeWhile P xs)) xs = takeWhile P xs"
  by (metis takeWhile_eq_take)

lemma drop_length_takeWhile [simp]: "drop (length (takeWhile P xs)) xs = dropWhile P xs"
  by (metis dropWhile_eq_drop)

text \<open>The destination and the path of an URL after its scheme.\<close>

definition url_host :: "wstr \<Rightarrow> wstr" where "url_host u = takeWhile (\<lambda>c. c \<noteq> SLASH) u"
definition url_path :: "wstr \<Rightarrow> wstr" where
  "url_path u = (if SLASH \<in> set u then dropWhile (\<lambda>c. c \<noteq> SLASH) u else [SLASH])"

definition stru_small :: "nat \<Rightarrow> bool" where
  "stru_small n \<longleftrightarrow> 2 * (n + 1) \<le> MAXDWORD"

lemma split_after_scheme_spec:
  assumes "heap_ok 2 heap" "stru_inv d" "stru_inv u" "0 \<notin> set url" "length url < 4294967296"
  shows "returns (split_after_scheme heap url f d u) (\<lambda>(hr, f', d', u'). f' = f \<and> stru_inv d' \<and> stru_inv u' \<and>
    (url = [] \<longrightarrow> hr = HRESULT_FROM_WIN32 ERROR_INVALID_DATA) \<and>
    (SUCCEEDED hr \<longrightarrow> str_text d' = url_host url \<and> str_text u' = url_path url) \<and>
    (url \<noteq> [] \<and> heap_total heap \<and> stru_small (length url) \<longrightarrow> SUCCEEDED hr))"
proof (cases "url = []")
  case True
  then show ?thesis using assms by (simp add: split_after_scheme_def)
next
  case False
  have "(SLASH :: WCHAR) \<noteq> 0" by (simp add: SLASH_def)
  note chr = wcschr_c_string [OF assms(4) this]
  show ?thesis
  proof (cases "SLASH \<in> set url")
    case S: True
    let ?k = "length (url_host url)"
    have k: "?k < length url" using S length_takeWhile_lt [of SLASH url] by (simp add: url_host_def)
    have drop: "drop ?k url = url_path url" using S by (simp add: url_host_def url_path_def)
    have z: "0 \<notin> set (url_path url)" using assms(4) drop by (metis in_set_dropD)
    have len: "length (url_path url) \<le> length url" using drop by (metis length_drop diff_le_self)
    obtain hr1 u1 where u1: "STRU_Copy heap (url_path url) u = Some (hr1, u1)" "stru_inv u1"
      "if SUCCEEDED hr1 then str_text u1 = url_path url else u1 = u"
      "2 * (length (url_path url) + 1) \<le> MAXDWORD \<and> heap_total heap \<longrightarrow> SUCCEEDED hr1"
      by (rule returns_pairE [OF STRU_Copy_spec [OF assms(1,3) z]]) (elim conjE, rule that)
    have l: "?k \<le> length (url @ [0])" "?k < 4294967296" using k assms(5) by simp_all
    obtain hr2 d1 where d1: "STRU_CopyN heap (url @ [0]) ?k d = Some (hr2, d1)" "stru_inv d1"
      "if SUCCEEDED hr2 then str_text d1 = take ?k (url @ [0]) else d1 = d"
      "2 * (?k + 1) \<le> MAXDWORD \<and> heap_total heap \<longrightarrow> SUCCEEDED hr2"
      by (rule returns_pairE [OF STRU_CopyN_spec [OF assms(1,2) l]]) (elim conjE, rule that)
    have t: "take ?k (url @ [0]) = url_host url" using k by (simp add: url_host_def)
    have run: "split_after_scheme heap url f d u = Some (if FAILED hr1 then (hr1, f, d, u1)
        else if FAILED hr2 then (hr2, f, d1, u1) else (S_OK, f, d1, u1))"
      using S False u1(1) d1(1) drop l(2) unfolding split_after_scheme_def chr
      by (simp add: url_host_def)
    show ?thesis
      unfolding run using False u1(2-) d1(2-) t assms(2) k len by (auto simp: stru_small_def)
  next
    case S: False
    have p: "url_path url = [SLASH]" "url_host url = url"
      using S by (auto simp: url_path_def url_host_def takeWhile_eq_all_conv)
    have l: "1 \<le> length [SLASH, 0]" "(1 :: nat) < 4294967296" by auto
    obtain hr1 u1 where u1: "STRU_CopyN heap [SLASH, 0] 1 u = Some (hr1, u1)" "stru_inv u1"
      "if SUCCEEDED hr1 then str_text u1 = take 1 [SLASH, 0] else u1 = u"
      "2 * (1 + 1) \<le> MAXDWORD \<and> heap_total heap \<longrightarrow> SUCCEEDED hr1"
      by (rule returns_pairE [OF STRU_CopyN_spec [OF assms(1,3) l]]) (elim conjE, rule that)
    obtain hr2 d1 where d1: "STRU_Copy heap url d = Some (hr2, d1)" "stru_inv d1"
      "if SUCCEEDED hr2 then str_text d1 = url else d1 = d"
      "2 * (length url + 1) \<le> MAXDWORD \<and> heap_total heap \<longrightarrow> SUCCEEDED hr2"
      by (rule returns_pairE [OF STRU_Copy_spec [OF assms(1,2,4)]]) (elim conjE, rule that)
    have run: "split_after_scheme heap url f d u = Some (if FAILED hr1 then (hr1, f, d, u1)
        else if FAILED hr2 then (hr2, f, d1, u1) else (S_OK, f, d1, u1))"
      using S False u1(1) d1(1) unfolding split_after_scheme_def chr by simp
    show ?thesis
      unfolding run using False u1(2-) d1(2-) p assms(2) by (auto simp: stru_small_def MAXDWORD_def)
  qed
qed

definition url_scheme :: "wstr \<Rightarrow> (bool \<times> wstr) option" where
  "url_scheme url =
     (if map wlower (take 7 url) = L ''http://'' then Some (False, drop 7 url)
      else if map wlower (take 8 url) = L ''https://'' then Some (True, drop 8 url) else None)"

lemma SplitUrl_cases:
  "SplitUrl heap url f d u = (case url_scheme url of
      None \<Rightarrow> Some (HRESULT_FROM_WIN32 ERROR_INVALID_DATA, f, d, u)
    | Some (secure, rest) \<Rightarrow> split_after_scheme heap rest secure d u)"
proof -
  have e: "wcsnicmp_equal url (L ''http://'') 7 \<longleftrightarrow> map wlower (take 7 url) = L ''http://''"
    "wcsnicmp_equal url (L ''https://'') 8 \<longleftrightarrow> map wlower (take 8 url) = L ''https://''"
    unfolding wcsnicmp_equal_def by (simp_all add: wlower_def)
  show ?thesis unfolding SplitUrl_def e url_scheme_def by simp
qed

subsection \<open>Canonical paths\<close>

definition canonical_path :: "wstr \<Rightarrow> wstr" where
  "canonical_path name =
     (if take 2 name = [BACKSLASH, BACKSLASH]
      then if 4 \<le> length name \<and> name ! 2 \<in> {QUESTION, 46} \<and> name ! 3 = BACKSLASH
           then name[2 := QUESTION] else UNC_PREFIX @ drop 2 name
      else if MAX_PATH < length name then WIN32_PREFIX @ name else name)"

lemma two_charsE:
  assumes "take 2 name = [a, b]"
  obtains r where "name = a # b # r"
  using assms by (cases name; cases "tl name") auto

lemma BACKSLASH_nonzero [simp]: "BACKSLASH \<noteq> 0"
  by (simp add: BACKSLASH_def)

lemma unc_test:
  "and_also (chars_at (name @ [0]) 0 [BACKSLASH]) (chars_at (name @ [0]) 1 [BACKSLASH]) =
   Some (take 2 name = [BACKSLASH, BACKSLASH])"
proof -
  consider "name = []" | c where "name = [c]" | c d t where "name = c # d # t"
    by (metis list.exhaust)
  then show ?thesis
    by cases (auto simp: and_also_def chars_at_def)
qed

lemma canonical_test:
  assumes "take 2 name = [BACKSLASH, BACKSLASH]"
  shows "and_also (chars_at (name @ [0]) 2 [QUESTION, 46]) (chars_at (name @ [0]) 3 [BACKSLASH]) =
   Some (4 \<le> length name \<and> name ! 2 \<in> {QUESTION, 46} \<and> name ! 3 = BACKSLASH)"
proof -
  obtain r where r: "name = BACKSLASH # BACKSLASH # r" using assms by (rule two_charsE)
  have q: "QUESTION \<noteq> 0" by (simp add: QUESTION_def)
  consider "r = []" | c where "r = [c]" | c d t where "r = c # d # t"
    by (metis list.exhaust)
  then show ?thesis
    using q by cases (auto simp: r and_also_def chars_at_def)
qed

lemma two_copies:
  assumes "heap_ok 2 heap" "stru_inv s" "0 \<notin> set a" "0 \<notin> set b"
  shows "returns (do { (hr, s) \<leftarrow> STRU_Copy heap a s;
                       (if FAILED hr then Some (hr, s) else STRU_Append heap b s) })
    (\<lambda>(hr, s'). stru_inv s' \<and> (SUCCEEDED hr \<longrightarrow> str_text s' = a @ b) \<and>
      (stru_small (length (a @ b)) \<and> heap_total heap \<longrightarrow> SUCCEEDED hr))"
proof -
  obtain hr1 s1 where s1: "STRU_Copy heap a s = Some (hr1, s1)" "stru_inv s1"
    "if SUCCEEDED hr1 then str_text s1 = a else s1 = s"
    "2 * (length a + 1) \<le> MAXDWORD \<and> heap_total heap \<longrightarrow> SUCCEEDED hr1"
    by (rule returns_pairE [OF STRU_Copy_spec [OF assms(1,2,3)]]) (elim conjE, rule that)
  show ?thesis
  proof (cases "FAILED hr1")
    case True
    then show ?thesis using s1 assms(2) by (auto simp: stru_small_def)
  next
    case False
    then show ?thesis
      using s1(1,3) STRU_Append_spec [OF assms(1) s1(2) assms(4)]
      by (auto simp: stru_small_def elim!: returns_mono)
  qed
qed

lemma MakePathCanonicalizationProof_spec:
  assumes "heap_ok 2 heap" "stru_inv s" "0 \<notin> set name"
  shows "returns (MakePathCanonicalizationProof heap name s) (\<lambda>(hr, s'). stru_inv s' \<and>
    (SUCCEEDED hr \<longrightarrow> str_text s' = canonical_path name \<and> c_text s' = canonical_path name) \<and>
    (stru_small (length name + 8) \<and> heap_total heap \<longrightarrow> SUCCEEDED hr))"
proof -
  have z: "0 \<notin> set (canonical_path name)"
    using assms(3) by (auto simp: canonical_path_def UNC_PREFIX_def WIN32_PREFIX_def char_defs
        dest: in_set_dropD subsetD [OF set_update_subset_insert])
  have main: "returns (MakePathCanonicalizationProof heap name s) (\<lambda>(hr, s'). stru_inv s' \<and>
    (SUCCEEDED hr \<longrightarrow> str_text s' = canonical_path name) \<and>
    (stru_small (length name + 8) \<and> heap_total heap \<longrightarrow> SUCCEEDED hr))"
  proof (cases "take 2 name = [BACKSLASH, BACKSLASH]")
    case U: True
    show ?thesis
    proof (cases "4 \<le> length name \<and> name ! 2 \<in> {QUESTION, 46} \<and> name ! 3 = BACKSLASH")
      case C: True
      then have cp: "canonical_path name = name[2 := QUESTION]" using U by (simp add: canonical_path_def)
      obtain hr s1 where s1: "STRU_Copy heap name s = Some (hr, s1)" "stru_inv s1"
        "if SUCCEEDED hr then str_text s1 = name else s1 = s"
        "2 * (length name + 1) \<le> MAXDWORD \<and> heap_total heap \<longrightarrow> SUCCEEDED hr"
        by (rule returns_pairE [OF STRU_Copy_spec [OF assms]]) (elim conjE, rule that)
      have run: "MakePathCanonicalizationProof heap name s =
          (if FAILED hr then Some (hr, s1)
           else do { b \<leftarrow> store_at (QueryStr s1) 2 QUESTION; Some (hr, set_str s1 b) })"
        using s1(1) U C
        unfolding MakePathCanonicalizationProof_def Let_def unc_test canonical_test [OF U] by simp
      show ?thesis
      proof (cases "FAILED hr")
        case True
        then show ?thesis using s1 run by (auto simp: stru_small_def)
      next
        case False
        have n: "m_cchLen s1 = length name" using length_str_text [OF s1(2)] s1(3) False by simp
        have l: "2 < length (QueryStr s1)" "2 < m_cchLen s1" using stru_invD(3) [OF s1(2)] n C by auto
        have inv: "stru_inv (set_str s1 ((QueryStr s1)[2 := QUESTION]))"
          using s1(2) l by (simp add: stru_inv_def)
        have "str_text (set_str s1 ((QueryStr s1)[2 := QUESTION])) = (str_text s1)[2 := QUESTION]"
          by (simp add: str_text_def take_update_swap)
        then show ?thesis using run False l(1) inv s1(3) cp by simp
      qed
    next
      case C: False
      then have cp: "canonical_path name = UNC_PREFIX @ drop 2 name"
        using U by (auto simp: canonical_path_def)
      have "MakePathCanonicalizationProof heap name s = do { (hr, s) \<leftarrow> STRU_Copy heap UNC_PREFIX s;
          (if FAILED hr then Some (hr, s) else STRU_Append heap (drop 2 name) s) }"
        using U C
        unfolding MakePathCanonicalizationProof_def Let_def unc_test canonical_test [OF U] by auto
      moreover have "0 \<notin> set UNC_PREFIX" "0 \<notin> set (drop 2 name)"
        using assms(3) by (auto simp: UNC_PREFIX_def dest: in_set_dropD)
      ultimately show ?thesis
        using two_copies [OF assms(1,2), of UNC_PREFIX "drop 2 name"] cp
        by (auto simp: stru_small_def UNC_PREFIX_def elim!: returns_mono)
    qed
  next
    case U: False
    show ?thesis
    proof (cases "MAX_PATH < length name")
      case True
      then have cp: "canonical_path name = WIN32_PREFIX @ name" using U by (simp add: canonical_path_def)
      have "MakePathCanonicalizationProof heap name s = do { (hr, s) \<leftarrow> STRU_Copy heap WIN32_PREFIX s;
          (if FAILED hr then Some (hr, s) else STRU_Append heap name s) }"
        using U True unfolding MakePathCanonicalizationProof_def Let_def unc_test by simp
      moreover have "0 \<notin> set WIN32_PREFIX" by (auto simp: WIN32_PREFIX_def)
      ultimately show ?thesis
        using two_copies [OF assms(1,2) _ assms(3), of WIN32_PREFIX] cp
        by (auto simp: stru_small_def WIN32_PREFIX_def elim!: returns_mono)
    next
      case False
      then have cp: "canonical_path name = name" using U by (auto simp: canonical_path_def)
      have ne: "QueryStr s \<noteq> []" using stru_invD(3) [OF assms(2)] by auto
      obtain s1 where s1: "STRU_Reset s = Some s1" "stru_inv s1" "str_text s1 = []"
        using STRU_Reset_spec [OF stru_inv_buffer [OF assms(2)] ne] by (auto elim: returnsE)
      have "MakePathCanonicalizationProof heap name s = STRU_Append heap name s1"
        using U False s1(1) unfolding MakePathCanonicalizationProof_def Let_def unc_test by simp
      then show ?thesis
        using STRU_Append_spec [OF assms(1) s1(2) assms(3)] s1(3) cp
        by (auto simp: stru_small_def elim!: returns_mono)
    qed
  qed
  show ?thesis using main z c_text_str_text by (auto elim!: returns_mono)
qed

text \<open>
  A path is a UNC path when it starts with two backslashes, unless these open a device prefix
  that is not followed by \<open>UNC\<close>.
\<close>

definition unc_path :: "wstr \<Rightarrow> bool" where
  "unc_path name \<longleftrightarrow> take 2 name = [BACKSLASH, BACKSLASH] \<and>
     (4 \<le> length name \<and> name ! 2 \<in> {QUESTION, 46} \<and> name ! 3 = BACKSLASH \<longrightarrow>
        map wlower (take 4 (drop 4 name)) = L ''unc'' @ [BACKSLASH])"

lemma canonical_unc:
  assumes "length name \<le> MAX_PATH"
  shows "wcsnicmp_equal (canonical_path name) UNC_PREFIX 8 \<longleftrightarrow> unc_path name"
proof (cases "take 2 name = [BACKSLASH, BACKSLASH]")
  case True
  then obtain r where r: "name = BACKSLASH # BACKSLASH # r" by (rule two_charsE)
  show ?thesis
  proof (cases "4 \<le> length name \<and> name ! 2 \<in> {QUESTION, 46} \<and> name ! 3 = BACKSLASH")
    case C: True
    then obtain c d t where "r = c # d # t" using r by (cases r; cases "tl r") auto
    then show ?thesis
      using C r True
      by (auto simp: canonical_path_def unc_path_def wcsnicmp_equal_def UNC_PREFIX_def wlower_def char_defs)
  next
    case False
    then show ?thesis
      using r by (auto simp: canonical_path_def unc_path_def wcsnicmp_equal_def UNC_PREFIX_def)
  qed
next
  case False
  have "take 2 (canonical_path name) \<noteq> [BACKSLASH, BACKSLASH]"
    using False assms by (auto simp: canonical_path_def)
  moreover have "take 2 n = [BACKSLASH, BACKSLASH]" if "wcsnicmp_equal n UNC_PREFIX 8" for n
  proof -
    have low: "x = 92" if "wlower x = 92" for x :: WCHAR
      using that by (auto simp: wlower_def word_le_nat_alt word_unat_eq_iff unat_word_ariths split: if_splits)
    have w: "wlower 92 = (92 :: WCHAR)" by (simp add: wlower_def)
    show ?thesis
      using that low by (cases n; cases "tl n") (auto simp: wcsnicmp_equal_def UNC_PREFIX_def w BACKSLASH_def)
  qed
  ultimately show ?thesis using False by (auto simp: unc_path_def)
qed

subsection \<open>Creating directories\<close>

definition ancestors :: "nat \<Rightarrow> wstr \<Rightarrow> wstr list" where
  "ancestors start path =
     map (\<lambda>i. take i path)
       (filter (\<lambda>i. path ! i = BACKSLASH \<and> path ! (i - 1) \<noteq> COLON) [start + 1..<length path])"

fun create_all :: "(wstr \<Rightarrow> 'fs \<Rightarrow> DWORD option \<times> 'fs) \<Rightarrow> HRESULT \<Rightarrow> wstr list \<Rightarrow> 'fs \<Rightarrow> HRESULT \<times> 'fs" where
  "create_all mk hr [] fs = (hr, fs)"
| "create_all mk hr (d # ds) fs =
     (let (err, fs') = mk d fs
      in if err \<noteq> None \<and> err \<noteq> Some ERROR_ALREADY_EXISTS
         then (HRESULT_FROM_WIN32 (the err), fs') else create_all mk hr ds fs')"

lemma ancestors_step:
  assumes "pos + 1 \<le> p" "p < length path" "path ! p = BACKSLASH"
    "\<forall>i. pos + 1 \<le> i \<and> i < p \<longrightarrow> path ! i \<noteq> BACKSLASH"
  shows "ancestors pos path = (if path ! (p - 1) \<noteq> COLON then [take p path] else []) @ ancestors p path"
proof -
  have "[pos + 1..<length path] = [pos + 1..<p] @ p # [p + 1..<length path]"
    using assms(1,2) upt_add_eq_append [of "pos + 1" p "length path - p"] upt_conv_Cons [of p "length path"] by simp
  moreover have "filter (\<lambda>i. path ! i = BACKSLASH \<and> path ! (i - 1) \<noteq> COLON) [pos + 1..<p] = []"
    using assms(4) by (auto simp: filter_empty_conv)
  ultimately show ?thesis using assms(3) by (simp add: ancestors_def)
qed

lemma ensure_loop_spec:
  assumes "stru_inv s" "0 \<notin> set (str_text s)"
  shows "ensure_loop mk hr pos s fs = Some (create_all mk hr (ancestors pos (str_text s)) fs)"
proof (induction "length (str_text s) - pos" arbitrary: pos fs rule: less_induct)
  case (less pos fs)
  let ?t = "str_text s"
  let ?rest = "drop (pos + 1) ?t"
  let ?k = "length (takeWhile (\<lambda>x. x \<noteq> BACKSLASH) ?rest)"
  note idx = IndexOf_spec [OF assms BACKSLASH_nonzero, of "pos + 1"]
  show ?case
  proof (cases "BACKSLASH \<in> set ?rest")
    case False
    then have "ancestors pos ?t = []"
      by (auto simp: ancestors_def filter_empty_conv in_set_drop_iff)
    moreover have "IndexOf s BACKSLASH (pos + 1) = - 1" unfolding idx using False by (simp add: Let_def)
    ultimately show ?thesis by (subst ensure_loop.simps) simp
  next
    case True
    define p where "p = pos + 1 + ?k"
    have k: "?k < length ?rest" using True by (rule length_takeWhile_lt)
    have p: "pos + 1 \<le> p" "p < length ?t" using k by (auto simp: p_def)
    have at: "?t ! p = BACKSLASH"
      using nth_length_takeWhile [OF k] k by (simp add: p_def)
    have before: "\<forall>i. pos + 1 \<le> i \<and> i < p \<longrightarrow> ?t ! i \<noteq> BACKSLASH"
    proof (intro allI impI)
      fix i assume i: "pos + 1 \<le> i \<and> i < p"
      have "i - (pos + 1) < ?k" using i by (auto simp: p_def)
      from nth_before_takeWhile [OF this] have "?rest ! (i - (pos + 1)) \<noteq> BACKSLASH" .
      then show "?t ! i \<noteq> BACKSLASH" using i p(2) by simp
    qed
    have I: "IndexOf s BACKSLASH (pos + 1) = int p" unfolding idx using True by (simp add: Let_def p_def)
    have len: "m_cchLen s = length ?t" using length_str_text [OF assms(1)] by simp
    have q: "p < length (QueryStr s)" using p(2) len stru_invD(3) [OF assms(1)] by simp
    have nth: "QueryStr s ! i = ?t ! i" if "i \<le> p" for i
    proof -
      have "i < m_cchLen s" using that p(2) len by linarith
      then show ?thesis by (simp add: str_text_def)
    qed
    have "QueryStr s ! p = BACKSLASH" using nth [of p] at by simp
    then have B: "(QueryStr s)[p := BACKSLASH] = QueryStr s" by (metis list_update_id)
    have same: "set_str s ((QueryStr s)[p := BACKSLASH]) = s" unfolding B set_str_def by simp
    have cut: "c_text (set_str s ((QueryStr s)[p := 0])) = take p ?t"
    proof -
      have "(QueryStr s)[p := 0] = take p ?t @ 0 # drop (Suc p) (QueryStr s)"
      proof -
        have "p < m_cchLen s" using p(2) len by linarith
        then show ?thesis using q by (simp add: upd_conv_take_nth_drop str_text_def)
      qed
      moreover have "\<forall>x \<in> set (take p ?t). x \<noteq> 0" using assms(2) by (auto dest: in_set_takeD)
      ultimately show ?thesis by (simp add: c_text_def takeWhile_prefix_stop)
    qed
    note IH = less [of p]
    have lt: "length ?t - p < length ?t - pos" using p by linarith
    have A: "ancestors pos ?t = (if ?t ! (p - 1) \<noteq> COLON then [take p ?t] else []) @ ancestors p ?t"
      by (rule ancestors_step [OF p at before])
    have c: "load_at (QueryStr s) (p - 1) = Some (?t ! (p - 1))" using q nth [of "p - 1"] by simp
    show ?thesis
      unfolding A using p I q c same cut IH [OF lt]
      by (subst ensure_loop.simps) (auto simp: Let_def split: prod.splits)
  qed
qed

lemma IsPathUnc_spec:
  assumes "heap_ok 2 heap" "0 \<notin> set path"
  shows "returns (IsPathUnc heap (Some path) (Some f)) (\<lambda>(hr, u).
    (SUCCEEDED hr \<longrightarrow> u = Some (wcsnicmp_equal (canonical_path path) UNC_PREFIX 8)) \<and>
    (stru_small (length path + 8) \<and> heap_total heap \<longrightarrow> SUCCEEDED hr))"
proof -
  obtain hr t where t: "MakePathCanonicalizationProof heap path STRU_new = Some (hr, t)"
    "SUCCEEDED hr \<longrightarrow> str_text t = canonical_path path \<and> c_text t = canonical_path path"
    "stru_small (length path + 8) \<and> heap_total heap \<longrightarrow> SUCCEEDED hr"
    by (rule returns_pairE [OF MakePathCanonicalizationProof_spec [OF assms(1) stru_inv_new(1) assms(2)]])
      (elim conjE, rule that)
  then show ?thesis by (auto simp: IsPathUnc_def)
qed

definition path_start :: "wstr \<Rightarrow> nat" where
  "path_start path =
     (if wcsnicmp_equal (canonical_path path) UNC_PREFIX 8 then 8
      else if QUESTION \<in> set path then 4 else 0)"

lemma ensure_loop_empty: "ensure_loop mk hr pos STRU_new fs = Some (hr, fs)"
  using ensure_loop_spec [OF stru_inv_new(1), of mk hr pos fs] by (simp add: stru_inv_new ancestors_def)

text \<open>
  The result of copying the path is not looked at: when it fails the loop runs over an empty string.
\<close>

lemma EnsureDirectoryPathExist_spec:
  assumes "heap_ok 2 heap" "0 \<notin> set path"
  shows "returns (EnsureDirectoryPathExist heap mk path fs) (\<lambda>(hr, fs'). \<exists>hr1 s. STRU_Copy heap path STRU_new = Some (hr1, s) \<and>
    (if FAILED hr1 then fs' = fs
     else FAILED hr \<and> fs' = fs \<or> (\<exists>ok. SUCCEEDED ok \<and> (hr, fs') = create_all mk ok (ancestors (path_start path) path) fs)) \<and>
    (stru_small (length path + 8) \<and> heap_total heap \<longrightarrow>
       (\<exists>ok. SUCCEEDED ok \<and> (hr, fs') = create_all mk ok (ancestors (path_start path) path) fs)))"
proof -
  obtain hr1 s where s: "STRU_Copy heap path STRU_new = Some (hr1, s)" "stru_inv s"
    "if SUCCEEDED hr1 then str_text s = path else s = STRU_new"
    "2 * (length path + 1) \<le> MAXDWORD \<and> heap_total heap \<longrightarrow> SUCCEEDED hr1"
    by (rule returns_pairE [OF STRU_Copy_spec [OF assms(1) stru_inv_new(1) assms(2)]]) (elim conjE, rule that)
  obtain hr u where u: "IsPathUnc heap (Some path) (Some False) = Some (hr, u)"
    "SUCCEEDED hr \<longrightarrow> u = Some (wcsnicmp_equal (canonical_path path) UNC_PREFIX 8)"
    "stru_small (length path + 8) \<and> heap_total heap \<longrightarrow> SUCCEEDED hr"
    by (rule returns_pairE [OF IsPathUnc_spec [OF assms, of False]]) (elim conjE, rule that)
  have z: "0 \<notin> set (str_text s)" using s(3) assms(2) by (auto split: if_splits)
  have q: "(IndexOf s QUESTION 0 \<noteq> - 1) = (QUESTION \<in> set (str_text s))"
    using IndexOf_spec [OF s(2) z, of QUESTION 0] by (simp add: QUESTION_def Let_def)
  have small: "2 * (length path + 1) \<le> MAXDWORD" if "stru_small (length path + 8)" using that by (simp add: stru_small_def)
  consider (unc) "FAILED hr" | (copy) "SUCCEEDED hr" "FAILED hr1" | (good) "SUCCEEDED hr" "SUCCEEDED hr1" by blast
  then show ?thesis
  proof cases
    case unc
    then show ?thesis using s(1) u by (auto simp: EnsureDirectoryPathExist_def)
  next
    case copy
    then have "s = STRU_new" using s(3) by simp
    moreover have "\<not> (stru_small (length path + 8) \<and> heap_total heap)" using copy(2) s(4) small by blast
    ultimately show ?thesis using copy s(1) u(1)
      by (simp only: EnsureDirectoryPathExist_def) (simp add: ensure_loop_empty)
  next
    case good
    then have t: "str_text s = path" using s(3) by simp
    have "EnsureDirectoryPathExist heap mk path fs = Some (create_all mk hr (ancestors (path_start path) path) fs)"
      using good s(1) u(1,2) by (simp add: EnsureDirectoryPathExist_def ensure_loop_spec [OF s(2) z] q t path_start_def)
    then show ?thesis using good s(1) by (auto split: prod.split)
  qed
qed

subsection \<open>The highest version\<close>

lemma max_version_max: "max_version a b = max a b"
  by (auto simp: max_version_def ver_operators max_def)

definition parsed_versions :: "wstr list \<Rightarrow> fx_ver_t set" where
  "parsed_versions dirs = {v. \<exists>dir \<in> set dirs. parse dir (fx_ver_new3 (- 1) (- 1) (- 1)) False = Inr (True, v)}"

lemma parsed_versions_Cons:
  "parsed_versions (dir # dirs) =
     (case parse dir (fx_ver_new3 (- 1) (- 1) (- 1)) False of Inr (True, v) \<Rightarrow> {v} | _ \<Rightarrow> {})
     \<union> parsed_versions dirs"
  by (auto simp: parsed_versions_def split: sum.splits bool.splits)

lemma highest_version_spec:
  "(case highest_version dirs m of
      Inl _ \<Rightarrow> \<exists>dir \<in> set dirs. has_big_number dir
    | Inr v \<Rightarrow> finite (parsed_versions dirs) \<and> v = Max (insert m (parsed_versions dirs)))"
proof (induction dirs arbitrary: m)
  case Nil
  then show ?case by (simp add: parsed_versions_def)
next
  case (Cons dir dirs)
  let ?p = "parse dir (fx_ver_new3 (- 1) (- 1) (- 1)) False"
  show ?case
  proof (cases ?p)
    case (Inl e)
    then show ?thesis using parse_throws [OF Inl] by simp
  next
    case (Inr r)
    obtain ok v where r: "r = (ok, v)" by force
    let ?m = "if ok then max m v else m"
    have step: "highest_version (dir # dirs) m = highest_version dirs ?m"
      using Inr r by (simp add: max_version_max)
    have P: "insert m (parsed_versions (dir # dirs)) = (if ok then {m, v} else {m}) \<union> parsed_versions dirs"
      using Inr r by (auto simp: parsed_versions_Cons)
    show ?thesis
    proof (cases "highest_version dirs ?m")
      case I: (Inl e)
      then show ?thesis using Cons.IH [of ?m] step by simp
    next
      case I: (Inr w)
      then have w: "finite (parsed_versions dirs)" "w = Max (insert ?m (parsed_versions dirs))"
        using Cons.IH [of ?m] by simp_all
      have "Max (insert ?m (parsed_versions dirs)) = Max (insert m (parsed_versions (dir # dirs)))"
        unfolding P using w(1) by (cases "parsed_versions dirs = {}") (auto simp: max.assoc)
      moreover have "finite (parsed_versions (dir # dirs))"
        using P w(1) by (metis finite.emptyI finite.insertI finite_Un finite_insert)
      ultimately show ?thesis using I step w(2) by simp
    qed
  qed
qed

section \<open>Properties\<close>

text \<open>
  C24: \<open>UnEscapeUrl\<close> on a URL that is followed by its terminator reads nothing beyond it and appends
  the unescaped text: every complete \<open>%hh\<close> becomes its character, everything else is kept, and after
  an escaped question mark slashes become backslashes. When an append fails the failure is returned.
\<close>

theorem UnEscapeUrl_correct:
  assumes "heap_ok 2 heap" "stru_inv s" "length url < 4294967293"
  shows "returns (UnEscapeUrl heap (url @ 0 # rest) (length url) s) (\<lambda>(hr, s'). stru_inv s' \<and>
    (SUCCEEDED hr \<longrightarrow> str_text s' = str_text s @ unescaped False url) \<and>
    (stru_small (length (str_text s) + length url) \<and> heap_total heap \<longrightarrow> SUCCEEDED hr))"
  using UnEscape_loop_spec [OF assms(1,2), of "length url" "url @ 0 # rest" 0 0 False] assms(3)
  by (simp add: UnEscapeUrl_def stru_small_def)

lemma UnEscapeUrl_correct_witness:
  "returns (UnEscapeUrl zero_heap (L ''/a%3Fb/c'' @ 0 # []) (length (L ''/a%3Fb/c'')) STRU_new) (\<lambda>(hr, s').
     str_text s' = L ''/a?b'' @ [BACKSLASH] @ L ''c'')"
proof -
  have "stru_small (length (str_text STRU_new) + length (L ''/a%3Fb/c''))"
    by (simp add: stru_small_def MAXDWORD_def)
  moreover have "unescaped False (L ''/a%3Fb/c'') = L ''/a?b'' @ [BACKSLASH] @ L ''c''"
    by (simp add: iswxdigit_def TOHEX_def char_defs)
  ultimately show ?thesis
    using UnEscapeUrl_correct [of zero_heap STRU_new "L ''/a%3Fb/c''" "[]"]
    by (auto simp del: L_simps elim!: returns_mono)
qed

text \<open>
  C33: \<open>SplitUrl\<close> accepts the URLs that start with \<open>http://\<close> or \<open>https://\<close> in any case and have
  something behind it; it sets the secure flag, the destination up to the next slash and the path
  from there on, which is \<open>/\<close> when there is none. Every other URL is \<open>ERROR_INVALID_DATA\<close>.
\<close>

theorem SplitUrl_correct:
  assumes "heap_ok 2 heap" "stru_inv d" "stru_inv u" "0 \<notin> set url" "length url < 4294967296"
  shows "returns (SplitUrl heap url f d u) (\<lambda>(hr, f', d', u'). stru_inv d' \<and> stru_inv u' \<and>
    (case url_scheme url of
       None \<Rightarrow> hr = HRESULT_FROM_WIN32 ERROR_INVALID_DATA
     | Some (secure, rest) \<Rightarrow>
         f' = secure \<and> (rest = [] \<longrightarrow> hr = HRESULT_FROM_WIN32 ERROR_INVALID_DATA) \<and>
         (SUCCEEDED hr \<longrightarrow> str_text d' = url_host rest \<and> str_text u' = url_path rest) \<and>
         (rest \<noteq> [] \<and> heap_total heap \<and> stru_small (length rest) \<longrightarrow> SUCCEEDED hr)))"
proof (cases "url_scheme url")
  case None
  then show ?thesis using assms by (simp add: SplitUrl_cases)
next
  case (Some r)
  obtain secure rest where r: "r = (secure, rest)" by force
  then have "0 \<notin> set rest" "length rest < 4294967296"
    using Some assms(4,5) by (auto simp: url_scheme_def dest: in_set_dropD split: if_splits)
  from split_after_scheme_spec [OF assms(1,2,3) this, of secure] show ?thesis
    using Some r by (auto simp: SplitUrl_cases elim!: returns_mono)
qed

lemma SplitUrl_correct_witness:
  "returns (SplitUrl zero_heap (L ''HTTPS://host:81/a'') False STRU_new STRU_new) (\<lambda>(hr, f', d', u').
     f' \<and> str_text d' = L ''host:81'' \<and> str_text u' = L ''/a'')"
proof -
  have s: "url_scheme (L ''HTTPS://host:81/a'') = Some (True, L ''host:81/a'')"
    by (simp add: url_scheme_def wlower_def)
  have p: "url_host (L ''host:81/a'') = L ''host:81''" "url_path (L ''host:81/a'') = L ''/a''"
    by (simp_all add: url_host_def url_path_def SLASH_def)
  have "stru_small (length (L ''host:81/a''))" by (simp add: stru_small_def MAXDWORD_def)
  moreover have "0 \<notin> set (L ''HTTPS://host:81/a'')" by simp
  moreover have "L ''host:81/a'' \<noteq> []" by simp
  ultimately show ?thesis
    using SplitUrl_correct [of zero_heap STRU_new STRU_new "L ''HTTPS://host:81/a''" False] s p
    by (auto simp del: L_simps elim!: returns_mono)
qed

text \<open>
  C25: \<open>EnsureDirectoryPathExist\<close> ends for every path and reads nothing outside it. When the copy of the
  path has succeeded and the function succeeds, every ancestor directory exists: each prefix of the path
  that ends before a backslash behind the start of the path proper and is not a volume. When the copy
  has failed for want of memory, which the code does not test, nothing is created, whatever is
  returned. \<open>CreateDirectory\<close> is any function that creates the directory, or finds it, or fails with an
  error code, and removes none.
\<close>

theorem EnsureDirectoryPathExist_correct:
  assumes "heap_ok 2 heap" "0 \<notin> set path"
    and "\<And>d fs err fs'. mk d fs = (err, fs') \<Longrightarrow> (\<forall>e. exists fs e \<longrightarrow> exists fs' e) \<and>
       (err = None \<or> err = Some ERROR_ALREADY_EXISTS \<longrightarrow> exists fs' d) \<and>
       (\<forall>code. err = Some code \<longrightarrow> FAILED (HRESULT_FROM_WIN32 code))"
  shows "returns (EnsureDirectoryPathExist heap mk path fs) (\<lambda>(hr, fs'). \<exists>hr1 s. STRU_Copy heap path STRU_new = Some (hr1, s) \<and>
     (if FAILED hr1 then fs' = fs
      else SUCCEEDED hr \<longrightarrow> (\<forall>d \<in> set (ancestors (path_start path) path). exists fs' d)))"
proof -
  have keep: "exists (snd (create_all mk ok ds fs)) e" if "exists fs e" for ok ds fs e
    using that by (induction ds arbitrary: fs) (auto simp: Let_def dest!: assms(3) split: prod.splits)
  have made: "\<forall>d \<in> set ds. exists fs' d" if "(hr, fs') = create_all mk ok ds fs" "SUCCEEDED hr"
    for ok ds fs hr fs'
    using that
  proof (induction ds arbitrary: fs)
    case (Cons d ds)
    obtain err fs1 where mk: "mk d fs = (err, fs1)" by force
    with Cons.prems assms(3) [OF mk] have err: "err = None \<or> err = Some ERROR_ALREADY_EXISTS"
      by (auto simp: Let_def split: if_splits)
    then have rec: "(hr, fs') = create_all mk ok ds fs1" using Cons.prems(1) mk by auto
    have "exists fs1 d" using assms(3) [OF mk] err by blast
    then have "exists fs' d" using keep [of fs1 d ok ds] rec by (metis snd_conv)
    then show ?case using Cons.IH [OF rec Cons.prems(2)] by simp
  qed simp
  obtain hr fs' hr1 s where run: "EnsureDirectoryPathExist heap mk path fs = Some (hr, fs')"
    "STRU_Copy heap path STRU_new = Some (hr1, s)"
    and res: "if FAILED hr1 then fs' = fs else FAILED hr \<and> fs' = fs \<or>
       (\<exists>ok. SUCCEEDED ok \<and> (hr, fs') = create_all mk ok (ancestors (path_start path) path) fs)"
    by (rule returns_pairE [OF EnsureDirectoryPathExist_spec [OF assms(1,2), of mk fs]]) (elim exE conjE, rule that)
  have "if FAILED hr1 then fs' = fs else SUCCEEDED hr \<longrightarrow> (\<forall>d \<in> set (ancestors (path_start path) path). exists fs' d)"
  proof (cases "FAILED hr1")
    case False
    then show ?thesis using res made by auto
  qed (use res in simp)
  then show ?thesis unfolding run(1) returns_simps prod.case using run(2) by blast
qed

lemma EnsureDirectoryPathExist_correct_witness:
  "returns (EnsureDirectoryPathExist zero_heap (\<lambda>d fs. (None, d # fs)) [67, 58, 92, 97, 92, 98, 92, 99] []) (\<lambda>(hr, fs').
     FAILED hr \<or> [67, 58, 92, 97] \<in> set fs' \<and> [67, 58, 92, 97, 92, 98] \<in> set fs')"
proof -
  let ?p = "[67, 58, 92, 97, 92, 98, 92, 99] :: wstr"
  have start: "path_start ?p = 0"
    by (simp add: path_start_def canonical_path_def char_defs MAX_PATH_def UNC_PREFIX_def
        wcsnicmp_equal_def wlower_def)
  have up: "[1..<8] = [1, 2, 3, 4, 5, 6, 7 :: nat]" by (simp add: upt_rec)
  have a: "set (ancestors (path_start ?p) ?p) = {[67, 58, 92, 97], [67, 58, 92, 97, 92, 98]}"
    unfolding start by (simp add: ancestors_def char_defs up)
  have run: "returns (EnsureDirectoryPathExist heap (\<lambda>d fs. (None, d # fs)) path []) (\<lambda>(hr, fs').
     \<exists>hr1 s. STRU_Copy heap path STRU_new = Some (hr1, s) \<and>
     (if FAILED hr1 then fs' = [] else SUCCEEDED hr \<longrightarrow> (\<forall>d \<in> set (ancestors (path_start path) path). d \<in> set fs')))"
    if "heap_ok 2 heap" "0 \<notin> set path" for heap path
    by (rule EnsureDirectoryPathExist_correct [where exists = "\<lambda>fs d. d \<in> set fs"]) (use that in auto)
  have c: "returns (STRU_Copy zero_heap ?p STRU_new) (\<lambda>(hr1, s). SUCCEEDED hr1)"
    by (rule returns_mono [OF STRU_Copy_spec]) (auto simp: stru_inv_new MAXDWORD_def)
  obtain hr1 s where s: "STRU_Copy zero_heap ?p STRU_new = Some (hr1, s)" "SUCCEEDED hr1"
    by (rule returns_pairE [OF c]) (rule that)
  obtain hr fs' where r: "EnsureDirectoryPathExist zero_heap (\<lambda>d fs. (None, d # fs)) ?p [] = Some (hr, fs')"
    "SUCCEEDED hr \<longrightarrow> (\<forall>d \<in> set (ancestors (path_start ?p) ?p). d \<in> set fs')"
    by (rule returns_pairE [OF run [of zero_heap ?p]]) (use s in \<open>auto intro: that\<close>)
  have "FAILED hr \<or> [67, 58, 92, 97] \<in> set fs' \<and> [67, 58, 92, 97, 92, 98] \<in> set fs'"
    using r(2) unfolding a by (cases "FAILED hr") simp_all
  then show ?thesis unfolding r(1) by simp
qed

text \<open>
  C34: \<open>FindHighestDotNetVersion\<close> stores the text of the greatest version among the folder names
  that parse, or \<open>-1.-1.-1\<close> when none does; it ends by an exception only when a folder name holds
  a number beyond \<open>ULONG_MAX\<close>.
\<close>

theorem FindHighestDotNetVersion_correct:
  assumes "heap_ok 2 heap" "stru_inv s" "heap_total heap"
    and "highest = Max (insert (fx_ver_new3 (- 1) (- 1) (- 1)) (parsed_versions dirs))"
    and "0 \<notin> set (as_str highest)" "stru_small (length (as_str highest))"
  shows "case FindHighestDotNetVersion heap dirs s of
      Inl _ \<Rightarrow> \<exists>dir \<in> set dirs. has_big_number dir
    | Inr r \<Rightarrow> returns r (\<lambda>(hr, s'). SUCCEEDED hr \<and> str_text s' = as_str highest)"
proof (cases "highest_version dirs (fx_ver_new3 (- 1) (- 1) (- 1))")
  case (Inl e)
  then show ?thesis
    using highest_version_spec [of dirs "fx_ver_new3 (- 1) (- 1) (- 1)"] by (simp add: FindHighestDotNetVersion_def)
next
  case (Inr v)
  then have v: "v = highest"
    using highest_version_spec [of dirs "fx_ver_new3 (- 1) (- 1) (- 1)"] assms(4) by simp
  have t: "takeWhile (\<lambda>c. c \<noteq> 0) (as_str highest) = as_str highest"
    using assms(5) by (auto simp: takeWhile_eq_all_conv)
  have "FindHighestDotNetVersion heap dirs s = Inr (STRU_Copy heap (as_str highest) s)"
    unfolding FindHighestDotNetVersion_def Inr v bindE_simps t ..
  then show ?thesis
    using STRU_Copy_spec [OF assms(1,2,5)] assms(3,6)
    by (auto simp: stru_small_def elim!: returns_mono)
qed

lemma FindHighestDotNetVersion_correct_witness:
  "case FindHighestDotNetVersion zero_heap [L ''2.1.0'', L ''10.0.0'', L ''bin''] STRU_new of
      Inl _ \<Rightarrow> False | Inr r \<Rightarrow> returns r (\<lambda>(hr, s'). SUCCEEDED hr \<and> str_text s' = L ''10.0.0'')"
proof -
  let ?dirs = "[L ''2.1.0'', L ''10.0.0'', L ''bin'']"
  have p: "parse (L ''2.1.0'') v False = Inr (True, fx_ver_new3 2 1 0)"
    "parse (L ''10.0.0'') v False = Inr (True, fx_ver_new3 10 0 0)"
    "parse (L ''bin'') v False = Inr (False, v)" for v
    by (simp_all add: run_defs)
  have V: "parsed_versions ?dirs = {fx_ver_new3 2 1 0, fx_ver_new3 10 0 0}"
    by (auto simp: parsed_versions_def p simp del: L_simps)
  have m: "Max (insert (fx_ver_new3 (- 1) (- 1) (- 1)) (parsed_versions ?dirs)) = fx_ver_new3 10 0 0"
    unfolding V by (simp add: max_def less_eq_fx_ver_t_def compare_def fx_ver_new3_def)
  have a: "as_str (fx_ver_new3 10 0 0) = L ''10.0.0''"
    by (simp add: as_str_def fx_ver_new3_def decimal_def decimal_digits.simps)
  have e: "FindHighestDotNetVersion zero_heap ?dirs STRU_new = Inr r \<Longrightarrow> True" for r ..
  have no: "\<not> isl (FindHighestDotNetVersion zero_heap ?dirs STRU_new)"
    by (simp add: FindHighestDotNetVersion_def p del: L_simps)
  have "case FindHighestDotNetVersion zero_heap ?dirs STRU_new of
      Inl _ \<Rightarrow> \<exists>dir \<in> set ?dirs. has_big_number dir
    | Inr r \<Rightarrow> returns r (\<lambda>(hr, s'). SUCCEEDED hr \<and> str_text s' = as_str (fx_ver_new3 10 0 0))"
    by (rule FindHighestDotNetVersion_correct) (use m in \<open>simp_all add: a stru_small_def MAXDWORD_def\<close>)
  then show ?thesis unfolding a using no by (auto split: sum.splits)
qed

end
