(* ===== verification/StrA.thy ===== *)
theory StrA
  imports StrBuf
begin

section \<open>Narrow strings (IISLib/stringa.h, stringa.cpp, macros.h)\<close>

text \<open>
  \<open>STRA\<close> is the string of bytes over \<open>BUFFER_T<CHAR,1>\<close>. The heap, \<open>isspace\<close>, the case folding of
  \<open>_strnicmp\<close> and the code page conversion of \<open>WideCharToMultiByte\<close> are parameters, as for \<open>STRU\<close>.
\<close>

subsection \<open>Representation and queries\<close>

record STRA =
  ma_Buff :: "ACHAR BUFFER_T"
  ma_cchLen :: nat

type_synonym astr = "ACHAR list"
type_synonym aheap = "nat \<Rightarrow> astr option"

definition LA :: "string \<Rightarrow> astr" where
  "LA s = map of_char s"

definition STRA_new :: STRA where
  "STRA_new =
     \<lparr>ma_Buff = \<lparr>m_cbBuffer = 1, m_fHeapAllocated = False, m_pBuffer = [0]\<rparr>, ma_cchLen = 0\<rparr>"

definition STRA_init :: "astr \<Rightarrow> STRA" where
  "STRA_init pbInit =
     \<lparr>ma_Buff = \<lparr>m_cbBuffer = u32 (length pbInit), m_fHeapAllocated = False, m_pBuffer = pbInit\<rparr>,
      ma_cchLen = 0\<rparr>"

abbreviation a_str :: "STRA \<Rightarrow> astr" where
  "a_str s \<equiv> m_pBuffer (ma_Buff s)"

abbreviation a_size :: "STRA \<Rightarrow> nat" where
  "a_size s \<equiv> m_cbBuffer (ma_Buff s)"

definition a_IsEmpty :: "STRA \<Rightarrow> bool" where
  "a_IsEmpty s \<longleftrightarrow> ma_cchLen s = 0"

definition a_QueryCB :: "STRA \<Rightarrow> nat" where
  "a_QueryCB s = ma_cchLen s"

text \<open>\<open>strcmp\<close> or \<open>_stricmp\<close> of the two NUL-terminated texts; \<open>lower\<close> folds the case.\<close>

definition a_Equals :: "(ACHAR \<Rightarrow> ACHAR) \<Rightarrow> STRA \<Rightarrow> astr \<Rightarrow> bool \<Rightarrow> bool" where
  "a_Equals lower s rhs fIgnoreCase =
     (let lhs = takeWhile (\<lambda>c. c \<noteq> 0) (a_str s)
      in if fIgnoreCase then map lower lhs = map lower rhs else lhs = rhs)"

definition a_set :: "STRA \<Rightarrow> astr \<Rightarrow> STRA" where
  "a_set s b = s\<lparr>ma_Buff := (ma_Buff s)\<lparr>m_pBuffer := b\<rparr>\<rparr>"

subsection \<open>Operations\<close>

definition STRA_Reset :: "STRA \<Rightarrow> STRA option" where
  "STRA_Reset s = do {
     b \<leftarrow> store_at (a_str s) 0 0;
     Some ((a_set s b)\<lparr>ma_cchLen := 0\<rparr>)
   }"

definition STRA_Resize :: "aheap \<Rightarrow> nat \<Rightarrow> STRA \<Rightarrow> HRESULT \<times> STRA" where
  "STRA_Resize heap cchSize s =
     (let (ok, B) = BUFFER_Resize 1 heap cchSize False (ma_Buff s)
      in (if ok then S_OK else E_OUTOFMEMORY, s\<lparr>ma_Buff := B\<rparr>))"

definition a_SyncWithBuffer :: "STRA \<Rightarrow> HRESULT \<times> STRA" where
  "a_SyncWithBuffer s =
     (let (hr, size) = StringCchLengthW (a_str s) (a_size s)
      in if SUCCEEDED hr then (hr, s\<lparr>ma_cchLen := u32 size\<rparr>) else (hr, s))"

definition STRA_AuxAppend :: "aheap \<Rightarrow> astr \<Rightarrow> nat \<Rightarrow> nat \<Rightarrow> STRA \<Rightarrow> (HRESULT \<times> STRA) option" where
  "STRA_AuxAppend heap pStr cbLen cbOffset s =
     (let cb64NewSize = u64 (cbOffset + cbLen + 1)
      in if MAXDWORD < cb64NewSize then Some (HRESULT_FROM_WIN32 ERROR_ARITHMETIC_OVERFLOW, s)
         else
           let (ok, B) = (if a_size s < cb64NewSize
                          then BUFFER_Resize 1 heap cb64NewSize False (ma_Buff s)
                          else (True, ma_Buff s))
           in if \<not> ok then Some (E_OUTOFMEMORY, s\<lparr>ma_Buff := B\<rparr>)
              else if length pStr < cbLen then None
              else do {
                b \<leftarrow> store_block (m_pBuffer B) cbOffset (take cbLen pStr);
                b' \<leftarrow> store_at b (u32 (cbLen + cbOffset)) 0;
                Some (S_OK, \<lparr>ma_Buff = B\<lparr>m_pBuffer := b'\<rparr>, ma_cchLen = u32 (cbLen + cbOffset)\<rparr>)
              })"

definition STRA_CopyN :: "aheap \<Rightarrow> astr \<Rightarrow> nat \<Rightarrow> STRA \<Rightarrow> (HRESULT \<times> STRA) option" where
  "STRA_CopyN heap pszCopy cbLen s = STRA_AuxAppend heap pszCopy (u32 cbLen) 0 s"

definition STRA_AppendN :: "aheap \<Rightarrow> astr \<Rightarrow> nat \<Rightarrow> STRA \<Rightarrow> (HRESULT \<times> STRA) option" where
  "STRA_AppendN heap pszAppend cbLen s =
     (if cbLen = 0 then Some (S_OK, s)
      else STRA_AuxAppend heap pszAppend (u32 cbLen) (a_QueryCB s) s)"

definition STRA_Copy :: "aheap \<Rightarrow> astr \<Rightarrow> STRA \<Rightarrow> (HRESULT \<times> STRA) option" where
  "STRA_Copy heap pszCopy s =
     (let (hr, cbLen) = StringCchLengthW (pszCopy @ [0]) STRSAFE_MAX_CCH
      in if FAILED hr then Some (hr, s) else STRA_CopyN heap (pszCopy @ [0]) cbLen s)"

definition STRA_Append :: "aheap \<Rightarrow> astr \<Rightarrow> STRA \<Rightarrow> (HRESULT \<times> STRA) option" where
  "STRA_Append heap pszAppend s =
     (let (hr, cbLen) = StringCchLengthW (pszAppend @ [0]) STRSAFE_MAX_CCH
      in if FAILED hr then Some (hr, s) else STRA_AppendN heap (pszAppend @ [0]) cbLen s)"

definition STRA_CopyS :: "aheap \<Rightarrow> STRA \<Rightarrow> STRA \<Rightarrow> (HRESULT \<times> STRA) option" where
  "STRA_CopyS heap rhs s = STRA_CopyN heap (a_str rhs) (ma_cchLen rhs) s"

definition STRA_AppendS :: "aheap \<Rightarrow> STRA \<Rightarrow> STRA \<Rightarrow> (HRESULT \<times> STRA) option" where
  "STRA_AppendS heap rhs s = STRA_AppendN heap (a_str rhs) (ma_cchLen rhs) s"

definition a_CopyToBuffer :: "STRA \<Rightarrow> astr \<Rightarrow> nat \<Rightarrow> (HRESULT \<times> astr \<times> nat) option" where
  "a_CopyToBuffer s pszBuffer pcb =
     (let cbNeeded = u32 (a_QueryCB s + 1)
      in if pcb < cbNeeded then Some (HRESULT_FROM_WIN32 ERROR_INSUFFICIENT_BUFFER, pszBuffer, cbNeeded)
         else if length (a_str s) < cbNeeded then None
         else do {
           b \<leftarrow> store_block pszBuffer 0 (take cbNeeded (a_str s));
           Some (S_OK, b, cbNeeded)
         })"

definition a_SetLen :: "nat \<Rightarrow> STRA \<Rightarrow> (HRESULT \<times> STRA) option" where
  "a_SetLen cchLen s =
     (if a_size s \<le> cchLen then Some (HRESULT_FROM_WIN32 ERROR_INVALID_PARAMETER, s)
      else do {
        b \<leftarrow> store_at (a_str s) cchLen 0;
        Some (S_OK, (a_set s b)\<lparr>ma_cchLen := cchLen\<rparr>)
      })"

subsection \<open>Formatting\<close>

definition a_reset_if_failed :: "HRESULT \<Rightarrow> STRA \<Rightarrow> (HRESULT \<times> STRA) option" where
  "a_reset_if_failed hr s =
     (if FAILED hr then do { s' \<leftarrow> STRA_Reset s; Some (hr, s') } else Some (hr, s))"

definition a_terminate_and_sync :: "STRA \<Rightarrow> (HRESULT \<times> STRA) option" where
  "a_terminate_and_sync s = do {
     b \<leftarrow> store_at (a_str s) (a_size s - 1) 0;
     (let (hr, s') = a_SyncWithBuffer (a_set s b) in a_reset_if_failed hr s')
   }"

definition SafeVsnprintf :: "aheap \<Rightarrow> astr option \<Rightarrow> STRA \<Rightarrow> (HRESULT \<times> STRA) option" where
  "SafeVsnprintf heap out s = do {
     (cchOutput, b) \<leftarrow> vsnwprintf_s (a_str s) (a_size s) out;
     (let s1 = a_set s b
      in if cchOutput = - 1
         then
           let cchNeeded = vscwprintf out
           in if 64 * 1024 < cchNeeded then a_reset_if_failed (HRESULT_FROM_WIN32 ERROR_INVALID_DATA) s1
              else
                let (hr, s2) = STRA_Resize heap (nat (cchNeeded + 1)) s1
                in if FAILED hr then a_reset_if_failed hr s2
                   else do {
                     (cchOutput2, b2) \<leftarrow> vsnwprintf_s (a_str s2) (a_size s2) out;
                     (if cchOutput2 = - 1
                      then a_reset_if_failed (HRESULT_FROM_WIN32 ERROR_INVALID_DATA) (a_set s2 b2)
                      else a_terminate_and_sync (a_set s2 b2))
                   }
         else a_terminate_and_sync s1)
   }"

subsection \<open>Escaping\<close>

definition FShouldEscapeUtf8 :: "BYTE \<Rightarrow> bool" where
  "FShouldEscapeUtf8 ch \<longleftrightarrow> 128 \<le> ch"

definition FShouldEscapeUrl :: "BYTE \<Rightarrow> bool" where
  "FShouldEscapeUrl ch \<longleftrightarrow>
     (128 \<le> ch \<or> ch \<le> 32 \<or> ch = of_char CHR ''<'' \<or> ch = of_char CHR ''>'' \<or> ch = 37 \<or>
      ch = of_char CHR ''?'' \<or> ch = of_char CHR ''#'') \<and> \<not> (ch = 10 \<or> ch = 13)"

definition TODIGIT :: "BYTE \<Rightarrow> ACHAR" where
  "TODIGIT d = (if 9 < d then d - 10 + 65 else d + 48)"

definition hex_escape :: "BYTE \<Rightarrow> astr" where
  "hex_escape ch = [37, TODIGIT (ch div 16), TODIGIT (ch mod 16)]"

text \<open>The room made when the first character needs escaping, and before every escape.\<close>

definition escape_start :: "aheap \<Rightarrow> STRA \<Rightarrow> nat \<Rightarrow> STRA \<Rightarrow> (HRESULT \<times> STRA) option" where
  "escape_start heap s i straTemp =
     (let NewSize = u32 (ma_cchLen s * 2); (hr, t) = STRA_Resize heap NewSize straTemp
      in if FAILED hr then Some (hr, t)
         else if 0 < i then STRA_CopyN heap (a_str s) i t else Some (hr, t))"

definition escape_room :: "aheap \<Rightarrow> STRA \<Rightarrow> DWORD \<Rightarrow> STRA \<Rightarrow> HRESULT \<times> STRA" where
  "escape_room heap s err straTemp =
     (let NewSize = ma_cchLen s + 3
      in if MAXDWORD < NewSize then (HRESULT_FROM_WIN32 ERROR_ARITHMETIC_OVERFLOW, straTemp)
         else let (ok, B) = BUFFER_Resize 1 heap NewSize False (ma_Buff straTemp)
              in (if ok then S_OK else HRESULT_FROM_WIN32 err, straTemp\<lparr>ma_Buff := B\<rparr>))"

text \<open>
  \<open>err\<close> is what \<open>GetLastError\<close> gives after a failed allocation. The result is the code, whether
  anything was escaped, and the temporary string.
\<close>

fun escape_loop_a :: "aheap \<Rightarrow> (BYTE \<Rightarrow> bool) \<Rightarrow> DWORD \<Rightarrow> STRA \<Rightarrow> astr \<Rightarrow> nat \<Rightarrow> bool \<Rightarrow> STRA \<Rightarrow>
    (HRESULT \<times> bool \<times> STRA) option" where
  "escape_loop_a heap should err s [] i fEscapingDone t = None"
| "escape_loop_a heap should err s (ch # rest) i fEscapingDone t =
     (if ch = 0 then Some (S_OK, fEscapingDone, t)
      else if should ch then do {
        (hr, t1) \<leftarrow> (if fEscapingDone then Some (S_OK, t) else escape_start heap s i t);
        (if FAILED hr then Some (hr, True, t1)
         else let (hr, t2) = escape_room heap s err t1
              in if FAILED hr then Some (hr, True, t2)
                 else do {
                   (hr, t3) \<leftarrow> STRA_AppendN heap (hex_escape ch) 3 t2;
                   (if FAILED hr then Some (hr, True, t3)
                    else escape_loop_a heap should err s rest (Suc i) True t3)
                 })
      }
      else do {
        t1 \<leftarrow> (if fEscapingDone then map_option snd (STRA_AppendN heap [ch] 1 t) else Some t);
        escape_loop_a heap should err s rest (Suc i) fEscapingDone t1
      })"

definition EscapeInternal :: "aheap \<Rightarrow> (BYTE \<Rightarrow> bool) \<Rightarrow> DWORD \<Rightarrow> astr \<Rightarrow> STRA \<Rightarrow> (HRESULT \<times> STRA) option" where
  "EscapeInternal heap should err InlineBuffer s = do {
     (hr, fEscapingDone, straTemp) \<leftarrow>
        escape_loop_a heap should err s (a_str s) 0 False (STRA_init (InlineBuffer[0 := 0]));
     (if FAILED hr then Some (hr, s)
      else if fEscapingDone then STRA_CopyS heap straTemp s else Some (hr, s))
   }"

definition Escape :: "aheap \<Rightarrow> DWORD \<Rightarrow> astr \<Rightarrow> STRA \<Rightarrow> (HRESULT \<times> STRA) option" where
  "Escape heap err InlineBuffer s = EscapeInternal heap FShouldEscapeUrl err InlineBuffer s"

definition EscapeUtf8 :: "aheap \<Rightarrow> DWORD \<Rightarrow> astr \<Rightarrow> STRA \<Rightarrow> (HRESULT \<times> STRA) option" where
  "EscapeUtf8 heap err InlineBuffer s = EscapeInternal heap FShouldEscapeUtf8 err InlineBuffer s"

subsection \<open>Unescaping in place\<close>

definition isxdigit :: "BYTE \<Rightarrow> bool" where
  "isxdigit c \<longleftrightarrow> 48 \<le> c \<and> c \<le> 57 \<or> 65 \<le> c \<and> c \<le> 70 \<or> 97 \<le> c \<and> c \<le> 102"

definition a_TOHEX :: "BYTE \<Rightarrow> nat" where
  "a_TOHEX ch = (if 57 < ch then if 97 \<le> ch then unat ch - 97 + 10 else unat ch - 65 + 10 else unat ch - 48)"

text \<open>\<open>n\<close> hexadecimal digits at index \<open>i\<close>: their value, read only as far as they are digits.\<close>

fun digits_at :: "astr \<Rightarrow> nat \<Rightarrow> nat \<Rightarrow> nat \<Rightarrow> nat option option" where
  "digits_at b i 0 acc = Some (Some acc)"
| "digits_at b i (Suc n) acc = do {
     c \<leftarrow> load_at b i;
     (if isxdigit c then digits_at b (i + 1) n (acc * 16 + a_TOHEX c) else Some None)
   }"

datatype escape = Wide WCHAR | Byte BYTE | Bare

text \<open>Which kind of escape sequence starts at the \<open>%\<close> at index \<open>i\<close>.\<close>

definition escape_kind :: "astr \<Rightarrow> nat \<Rightarrow> escape option" where
  "escape_kind b i = do {
     c \<leftarrow> load_at b (i + 1);
     wide \<leftarrow> (if c = of_char CHR ''u'' \<or> c = of_char CHR ''U'' then digits_at b (i + 2) 4 0 else Some None);
     (case wide of
        Some w \<Rightarrow> Some (Wide (word_of_nat w))
      | None \<Rightarrow> do {
          byte \<leftarrow> digits_at b (i + 1) 2 0;
          Some (case byte of Some v \<Rightarrow> Byte (word_of_nat v) | None \<Rightarrow> Bare)
        })
   }"

text \<open>
  The sequence at \<open>scan\<close> is decoded to \<open>dest\<close>: the block, both positions behind it and whether the
  block has been changed. \<open>acp\<close> is \<open>WideCharToMultiByte\<close> to the system code page, at most six bytes.
\<close>

definition decode_one :: "(WCHAR \<Rightarrow> astr) \<Rightarrow> astr \<Rightarrow> nat \<Rightarrow> nat \<Rightarrow> bool \<Rightarrow> (astr \<times> nat \<times> nat \<times> bool) option" where
  "decode_one acp b dest scan fChanged = do {
     e \<leftarrow> escape_kind b scan;
     (case e of
        Wide w \<Rightarrow> do {
          b' \<leftarrow> store_block b dest (acp w);
          Some (b', dest + length (acp w), scan + 6, True)
        }
      | Byte v \<Rightarrow> do { b' \<leftarrow> store_at b dest v; Some (b', dest + 1, scan + 3, True) }
      | Bare \<Rightarrow> do {
          c \<leftarrow> load_at b scan;
          b' \<leftarrow> (if fChanged then store_at b dest c else Some b);
          Some (b', dest + 1, scan + 1, fChanged)
        })
   }"

text \<open>
  \<open>memmove\<close> within a block. In the loop below a scan that does not advance and a block of another
  length do not occur; these tests only make the termination of the function evident.
\<close>

definition move_within :: "astr \<Rightarrow> nat \<Rightarrow> nat \<Rightarrow> nat \<Rightarrow> astr option" where
  "move_within b dest scan n =
     (if scan + n \<le> length b then store_block b dest (take n (drop scan b)) else None)"

function unescape_loop :: "(WCHAR \<Rightarrow> astr) \<Rightarrow> nat \<Rightarrow> astr \<Rightarrow> nat \<Rightarrow> nat \<Rightarrow> bool \<Rightarrow> (astr \<times> bool) option" where
  "unescape_loop acp cchLen b dest scan fChanged = do {
     (b1, dest1, scan1, fChanged1) \<leftarrow> decode_one acp b dest scan fChanged;
     (if scan1 \<le> scan \<or> length b1 < scan1 then None
      else case wcschr (drop scan1 b1) 37 of
        None \<Rightarrow>
          if \<not> fChanged1 then Some (b1, False)
          else if cchLen + 1 < scan1 then None
          else map_option (\<lambda>b2. (b2, True)) (move_within b1 dest1 scan1 (cchLen + 1 - scan1))
      | Some k \<Rightarrow>
          if length b1 \<noteq> length b then None
          else if fChanged1 then do {
            b2 \<leftarrow> (if k \<noteq> 0 then move_within b1 dest1 scan1 k else Some b1);
            (if length b2 \<noteq> length b then None
             else unescape_loop acp cchLen b2 (dest1 + k) (scan1 + k) True)
          }
          else unescape_loop acp cchLen b1 dest1 (scan1 + k) False)
   }"
  by pat_completeness auto

termination
  by (relation "measure (\<lambda>(_, _, b, _, scan, _). Suc (length b) - scan)") auto

declare unescape_loop.simps [simp del]

definition Unescape :: "(WCHAR \<Rightarrow> astr) \<Rightarrow> STRA \<Rightarrow> STRA option" where
  "Unescape acp s =
     (case wcschr (a_str s) 37 of
        None \<Rightarrow> Some s
      | Some k \<Rightarrow> do {
          (b, fChanged) \<leftarrow> unescape_loop acp (ma_cchLen s) (a_str s) k k False;
          (if fChanged then do {
             t \<leftarrow> cstr b;
             Some ((a_set s b)\<lparr>ma_cchLen := u32 (length t)\<rparr>)
           }
           else Some (a_set s b))
        })"

subsection \<open>Appending wide strings\<close>

text \<open>
  A code page: converting a text into the given room yields bytes that fit, or an error code together
  with what was written before the failure; \<open>wc_size\<close> is the call that only asks for the size.
\<close>

record wide_cp =
  wc_convert :: "wstr \<Rightarrow> nat \<Rightarrow> (DWORD \<times> astr) + astr"
  wc_size :: "wstr \<Rightarrow> DWORD + nat"

text \<open>The number of bytes (0 for a failure), the error code and the block.\<close>

definition WideCharToMultiByte :: "wide_cp \<Rightarrow> wstr \<Rightarrow> astr \<Rightarrow> nat \<Rightarrow> nat \<Rightarrow> (nat \<times> DWORD \<times> astr) option" where
  "WideCharToMultiByte cp src b offset room =
     (case wc_convert cp src room of
        Inr t \<Rightarrow> do { b' \<leftarrow> store_block b offset t; Some (length t, ERROR_SUCCESS, b') }
      | Inl (err, part) \<Rightarrow> do { b' \<leftarrow> store_block b offset part; Some (0, err, b') })"

text \<open>The code at \<open>Finished\<close>: the terminator is put back wherever the text ends.\<close>

definition aw_finish :: "HRESULT \<Rightarrow> nat \<Rightarrow> nat \<Rightarrow> STRA \<Rightarrow> (HRESULT \<times> STRA) option" where
  "aw_finish hr cbRet cbOffset s =
     (let s1 = (if SUCCEEDED hr \<and> cbRet \<noteq> 0 then s\<lparr>ma_cchLen := u32 (cbRet + cbOffset)\<rparr> else s)
      in do { b \<leftarrow> store_at (a_str s1) (ma_cchLen s1) 0; Some (hr, a_set s1 b) })"

definition STRA_AuxAppendW :: "aheap \<Rightarrow> wide_cp \<Rightarrow> wstr \<Rightarrow> nat \<Rightarrow> STRA \<Rightarrow> (HRESULT \<times> STRA) option" where
  "STRA_AuxAppendW heap cp src cbOffset s =
     (let cchAppendW = length src
      in if cchAppendW = 0 then aw_finish S_OK 0 cbOffset s
         else
           let (ok, B) = BUFFER_Resize 1 heap (u32 (cbOffset + cchAppendW) + 1) False (ma_Buff s);
               s1 = s\<lparr>ma_Buff := B\<rparr>
           in if \<not> ok then aw_finish E_OUTOFMEMORY 0 cbOffset s1
              else do {
                (cbRet, err, b) \<leftarrow> WideCharToMultiByte cp src (a_str s1) cbOffset (a_size s1 - cbOffset);
                (let s2 = a_set s1 b
                 in if cbRet \<noteq> 0 then
                      let (ok, B) = BUFFER_Resize 1 heap (u32 (cbOffset + cbRet + 1)) False (ma_Buff s2)
                      in aw_finish (if ok then S_OK else E_OUTOFMEMORY) cbRet cbOffset (s2\<lparr>ma_Buff := B\<rparr>)
                    else if HRESULT_FROM_WIN32 err \<noteq> HRESULT_FROM_WIN32 ERROR_INSUFFICIENT_BUFFER
                    then aw_finish (HRESULT_FROM_WIN32 err) 0 cbOffset s2
                    else case wc_size cp src of
                      Inl err \<Rightarrow> aw_finish (HRESULT_FROM_WIN32 err) 0 cbOffset s2
                    | Inr n \<Rightarrow>
                       (let (ok, B) = BUFFER_Resize 1 heap (u32 (cbOffset + n + 1)) False (ma_Buff s2);
                            s3 = s2\<lparr>ma_Buff := B\<rparr>
                        in if \<not> ok then aw_finish E_OUTOFMEMORY n cbOffset s3
                           else do {
                             (cbRet, err, b) \<leftarrow> WideCharToMultiByte cp src (a_str s3) cbOffset (a_size s3 - cbOffset);
                             aw_finish (if cbRet = 0 then HRESULT_FROM_WIN32 err else S_OK) cbRet cbOffset (a_set s3 b)
                           }))
              })"

definition STRA_CopyW :: "aheap \<Rightarrow> wide_cp \<Rightarrow> wstr \<Rightarrow> STRA \<Rightarrow> (HRESULT \<times> STRA) option" where
  "STRA_CopyW heap cp pszCopyW s =
     (let (hr, cchLen) = StringCchLengthW (pszCopyW @ [0]) STRSAFE_MAX_CCH
      in if FAILED hr then Some (hr, s) else STRA_AuxAppendW heap cp (take cchLen pszCopyW) 0 s)"

definition STRA_AppendW :: "aheap \<Rightarrow> wide_cp \<Rightarrow> wstr \<Rightarrow> STRA \<Rightarrow> (HRESULT \<times> STRA) option" where
  "STRA_AppendW heap cp pszAppendW s =
     (let (hr, cchLen) = StringCchLengthW (pszAppendW @ [0]) STRSAFE_MAX_CCH
      in if FAILED hr then Some (hr, s)
         else if cchLen = 0 then Some (S_OK, s)
         else STRA_AuxAppendW heap cp (take cchLen pszAppendW) (a_QueryCB s) s)"

text \<open>The conversion that keeps the low byte of every character; \<open>None\<close> is a NULL pointer.\<close>

definition AuxAppendWTruncate :: "aheap \<Rightarrow> wstr option \<Rightarrow> nat \<Rightarrow> STRA \<Rightarrow> (HRESULT \<times> STRA) option" where
  "AuxAppendWTruncate heap pszAppendW cbOffset s =
     (case pszAppendW of
        None \<Rightarrow> Some (HRESULT_FROM_WIN32 ERROR_INVALID_PARAMETER, s)
      | Some src \<Rightarrow>
         (let cbNeeded = u64 (cbOffset + length src + 1)
          in if MAXDWORD < cbNeeded then Some (HRESULT_FROM_WIN32 ERROR_ARITHMETIC_OVERFLOW, s)
             else
               let (ok, B) = BUFFER_Resize 1 heap cbNeeded False (ma_Buff s)
               in if \<not> ok then Some (E_OUTOFMEMORY, s\<lparr>ma_Buff := B\<rparr>)
                  else do {
                    b \<leftarrow> store_block (m_pBuffer B) cbOffset (map ucast src);
                    b' \<leftarrow> store_at b (u32 (length src + cbOffset)) 0;
                    Some (S_OK, \<lparr>ma_Buff = B\<lparr>m_pBuffer := b'\<rparr>, ma_cchLen = u32 (length src + cbOffset)\<rparr>)
                  }))"

definition CopyWTruncate :: "aheap \<Rightarrow> wstr \<Rightarrow> STRA \<Rightarrow> (HRESULT \<times> STRA) option" where
  "CopyWTruncate heap src s =
     (let (hr, cchLen) = StringCchLengthW (src @ [0]) STRSAFE_MAX_CCH
      in if FAILED hr then Some (hr, s) else AuxAppendWTruncate heap (Some (take cchLen src)) 0 s)"

definition AppendWTruncate :: "aheap \<Rightarrow> wstr \<Rightarrow> STRA \<Rightarrow> (HRESULT \<times> STRA) option" where
  "AppendWTruncate heap src s =
     (let (hr, cchLen) = StringCchLengthW (src @ [0]) STRSAFE_MAX_CCH
      in if FAILED hr then Some (hr, s)
         else if cchLen = 0 then Some (S_OK, s)
         else AuxAppendWTruncate heap (Some (take cchLen src)) (a_QueryCB s) s)"

subsection \<open>Converting a whole string\<close>

text \<open>
  The result is the length, or \<open>-1\<close>, and the buffer. \<open>QuerySize\<close> is the room of the first attempt; an
  error other than too little room, and a failed allocation, give \<open>-1\<close>.
\<close>

definition convert_done :: "aheap \<Rightarrow> nat \<Rightarrow> ACHAR BUFFER_T \<Rightarrow> (int \<times> ACHAR BUFFER_T) option" where
  "convert_done heap iStrLen B =
     (if iStrLen = 0 then Some (- 1, B)
      else let (ok, B') = BUFFER_Resize 1 heap (u32 (iStrLen + 1)) False B
           in if \<not> ok then Some (- 1, B')
              else do {
                b \<leftarrow> store_at (m_pBuffer B') iStrLen 0;
                Some (int iStrLen, B'\<lparr>m_pBuffer := b\<rparr>)
              })"

definition ConvertUnicodeToCodePage :: "aheap \<Rightarrow> wide_cp \<Rightarrow> wstr \<Rightarrow> ACHAR BUFFER_T \<Rightarrow>
    (int \<times> ACHAR BUFFER_T) option" where
  "ConvertUnicodeToCodePage heap cp src B = do {
     (iStrLen, err, b) \<leftarrow> WideCharToMultiByte cp src (m_pBuffer B) 0 (m_cbBuffer B);
     (let B1 = B\<lparr>m_pBuffer := b\<rparr>
      in if iStrLen = 0 \<and> err = ERROR_INSUFFICIENT_BUFFER
         then (case wc_size cp src of
                 Inl _ \<Rightarrow> convert_done heap 0 B1
               | Inr n \<Rightarrow>
                  (let (ok, B2) = BUFFER_Resize 1 heap (u32 (n + 1)) False B1
                   in if \<not> ok then convert_done heap 0 B2
                      else do {
                        (iStrLen, err, b) \<leftarrow> WideCharToMultiByte cp src (m_pBuffer B2) 0 (m_cbBuffer B2);
                        convert_done heap iStrLen (B2\<lparr>m_pBuffer := b\<rparr>)
                      }))
         else convert_done heap iStrLen B1)
   }"

text \<open>\<open>err\<close> is what \<open>GetLastError\<close> gives when the conversion failed.\<close>

definition CopyWToUTF8Unescaped :: "aheap \<Rightarrow> wide_cp \<Rightarrow> DWORD \<Rightarrow> wstr \<Rightarrow> STRA \<Rightarrow> (HRESULT \<times> STRA) option" where
  "CopyWToUTF8Unescaped heap utf8 err cpchStr s =
     (if cpchStr = [] then do { s' \<leftarrow> STRA_Reset s; Some (S_OK, s') }
      else do {
        (iRet, B) \<leftarrow> ConvertUnicodeToCodePage heap utf8 cpchStr (ma_Buff s);
        Some (if iRet = - 1 then (HRESULT_FROM_WIN32 err, s\<lparr>ma_Buff := B\<rparr>)
              else (S_OK, \<lparr>ma_Buff = B, ma_cchLen = nat iRet\<rparr>))
      })"

definition CopyWToUTF8Escaped :: "aheap \<Rightarrow> wide_cp \<Rightarrow> DWORD \<Rightarrow> DWORD \<Rightarrow> astr \<Rightarrow> wstr \<Rightarrow> STRA \<Rightarrow>
    (HRESULT \<times> STRA) option" where
  "CopyWToUTF8Escaped heap utf8 err err' InlineBuffer cpchStr s = do {
     (hr, s1) \<leftarrow> CopyWToUTF8Unescaped heap utf8 err cpchStr s;
     (if FAILED hr then Some (hr, s1)
      else do {
        (hr, s2) \<leftarrow> Escape heap err' InlineBuffer s1;
        Some (if FAILED hr then hr else S_OK, s2)
      })
   }"

subsection \<open>Trimming and searching\<close>

definition a_Trim :: "(ACHAR \<Rightarrow> bool) \<Rightarrow> STRA \<Rightarrow> STRA option" where
  "a_Trim isspace s = do {
     (b, cchTempLength) \<leftarrow> trim_back isspace (ma_cchLen s) (a_str s);
     cchLeadingWhitespace \<leftarrow> count_leading isspace cchTempLength b;
     (let cchNewLength = cchTempLength - cchLeadingWhitespace
      in if cchNewLength = 0 then do {
           s1 \<leftarrow> STRA_Reset (a_set s b);
           Some (snd (a_SyncWithBuffer s1))
         }
         else if 0 < cchLeadingWhitespace then do {
           b1 \<leftarrow> store_block b 0 (take cchNewLength (drop cchLeadingWhitespace b));
           b2 \<leftarrow> store_at b1 cchNewLength 0;
           Some (snd (a_SyncWithBuffer (a_set s b2)))
         }
         else Some (snd (a_SyncWithBuffer (a_set s b))))
   }"

definition strn_equal :: "(ACHAR \<Rightarrow> ACHAR) \<Rightarrow> bool \<Rightarrow> astr \<Rightarrow> astr \<Rightarrow> nat \<Rightarrow> bool" where
  "strn_equal lower fIgnoreCase a b n \<longleftrightarrow>
     (let x = take n (takeWhile (\<lambda>c. c \<noteq> 0) a); y = take n (takeWhile (\<lambda>c. c \<noteq> 0) b)
      in if fIgnoreCase then map lower x = map lower y else x = y)"

definition a_StartsWith :: "(ACHAR \<Rightarrow> ACHAR) \<Rightarrow> STRA \<Rightarrow> astr option \<Rightarrow> bool \<Rightarrow> bool" where
  "a_StartsWith lower s pszPrefix fIgnoreCase =
     (case pszPrefix of None \<Rightarrow> False
      | Some p \<Rightarrow>
         (let (hr, cchPrefix) = StringCchLengthW (p @ [0]) STRSAFE_MAX_CCH
          in if FAILED hr \<or> ma_cchLen s < cchPrefix then False
             else strn_equal lower fIgnoreCase (a_str s) p cchPrefix))"

definition a_EndsWith :: "(ACHAR \<Rightarrow> ACHAR) \<Rightarrow> STRA \<Rightarrow> astr option \<Rightarrow> bool \<Rightarrow> bool" where
  "a_EndsWith lower s pszSuffix fIgnoreCase =
     (case pszSuffix of None \<Rightarrow> False
      | Some p \<Rightarrow>
         (let (hr, cchSuffix) = StringCchLengthW (p @ [0]) STRSAFE_MAX_CCH;
              ixOffset = ma_cchLen s - cchSuffix
          in if FAILED hr \<or> ma_cchLen s < cchSuffix then False
             else strn_equal lower fIgnoreCase (drop ixOffset (a_str s)) p cchSuffix))"

definition a_IndexOf :: "STRA \<Rightarrow> ACHAR \<Rightarrow> nat \<Rightarrow> int" where
  "a_IndexOf s charValue dwStartIndex =
     (if ma_cchLen s \<le> dwStartIndex then - 1
      else index_result dwStartIndex (wcschr (drop dwStartIndex (a_str s)) charValue))"

definition a_IndexOfStr :: "STRA \<Rightarrow> astr option \<Rightarrow> nat \<Rightarrow> int" where
  "a_IndexOfStr s pszValue dwStartIndex =
     (if ma_cchLen s \<le> dwStartIndex then - 1
      else case pszValue of None \<Rightarrow> - 1
        | Some v \<Rightarrow> index_result dwStartIndex (wcsstr (drop dwStartIndex (a_str s)) v))"

definition a_LastIndexOf :: "STRA \<Rightarrow> ACHAR \<Rightarrow> nat \<Rightarrow> int" where
  "a_LastIndexOf s charValue dwStartIndex =
     (if ma_cchLen s \<le> dwStartIndex then - 1
      else index_result dwStartIndex (wcsrchr (drop dwStartIndex (a_str s)) charValue))"

subsection \<open>The representation invariant\<close>

definition stra_inv :: "STRA \<Rightarrow> bool" where
  "stra_inv s \<longleftrightarrow> buffer_inv 1 (ma_Buff s) \<and> ma_cchLen s < length (a_str s) \<and> a_str s ! ma_cchLen s = 0"

definition a_text :: "STRA \<Rightarrow> astr" where
  "a_text s = take (ma_cchLen s) (a_str s)"

lemma stra_invD:
  assumes "stra_inv s"
  shows "a_size s \<le> MAXDWORD" "length (a_str s) = a_size s" "ma_cchLen s < length (a_str s)"
    "a_str s ! ma_cchLen s = 0" "ma_cchLen s < 4294967295"
  using assms by (simp_all add: stra_inv_def buffer_inv_def MAXDWORD_def)

lemma stra_inv_buffer: "stra_inv s \<Longrightarrow> buffer_inv 1 (ma_Buff s)"
  by (simp add: stra_inv_def)

lemma stra_inv_new [simp]: "stra_inv STRA_new" "a_text STRA_new = []"
  by (simp_all add: stra_inv_def buffer_inv_def STRA_new_def MAXDWORD_def a_text_def)

lemma length_a_text: "stra_inv s \<Longrightarrow> length (a_text s) = ma_cchLen s"
  using stra_invD(3) [of s] by (simp add: a_text_def)

lemma a_str_split: "stra_inv s \<Longrightarrow> a_str s = a_text s @ 0 # drop (Suc (ma_cchLen s)) (a_str s)"
  unfolding a_text_def using split_at [OF stra_invD(3,4)] .

lemma a_set_simps [simp]:
  "a_str (a_set s b) = b" "ma_cchLen (a_set s b) = ma_cchLen s" "a_size (a_set s b) = a_size s"
  "m_cbBuffer (ma_Buff (a_set s b)) = a_size s"
  by (simp_all add: a_set_def)

lemma STRA_AuxAppend_spec:
  assumes "stra_inv s" "heap_ok 1 heap" "k \<le> ma_cchLen s" "length xs < 4294967296"
  shows "returns (STRA_AuxAppend heap (xs @ ys) (length xs) k s) (\<lambda>(hr, s'). stra_inv s' \<and>
    (if SUCCEEDED hr then hr = S_OK \<and> a_text s' = take k (a_text s) @ xs else s' = s) \<and>
    (k + length xs + 1 \<le> MAXDWORD \<and> heap (k + length xs + 1) \<noteq> None \<longrightarrow> hr = S_OK))"
proof -
  note s = stra_invD [OF assms(1)]
  let ?n = "k + length xs + 1"
  have u: "u64 (k + length xs + 1) = ?n" using s(5) assms(3,4) by simp
  obtain ok B where B: "(if a_size s < ?n then BUFFER_Resize 1 heap ?n False (ma_Buff s)
      else (True, ma_Buff s)) = (ok, B)" by force
  have inv: "buffer_inv 1 (ma_Buff s)" using assms(1) by (simp add: stra_inv_def)
  have BS: "buffer_inv 1 B" "\<not> ok \<Longrightarrow> B = ma_Buff s" "ok \<Longrightarrow> ?n \<le> m_cbBuffer B"
    "take (length (a_str s)) (m_pBuffer B) = a_str s"
    using BUFFER_Resize_spec [OF inv assms(2), of ?n False ok B] B inv by (auto split: if_splits)
  show ?thesis
  proof (cases "MAXDWORD < ?n")
    case True
    then show ?thesis using u assms(1) by (auto simp: STRA_AuxAppend_def Let_def)
  next
    case False
    show ?thesis
    proof (cases ok)
      case F: False
      then have "heap ?n = None"
        using B BUFFER_Resize_ok [of ?n heap 1 False "ma_Buff s"] False by (force split: if_splits)
      with F show ?thesis using BS(2) assms(1) False unfolding STRA_AuxAppend_def Let_def u B by simp
    next
      case True
      have len: "k + length xs < length (m_pBuffer B)"
        using BS(1,3) True by (simp add: buffer_inv_def)
      have w: "u32 (length xs + k) = k + length xs" using False by (simp add: MAXDWORD_def)
      have t: "take k (m_pBuffer B) = take k (a_text s)"
        using assms(3) s(3) arg_cong [OF BS(4), of "take k"] by (simp add: a_text_def)
      let ?b = "(take k (m_pBuffer B) @ xs @ drop (k + length xs) (m_pBuffer B))[k + length xs := 0]"
      let ?s = "\<lparr>ma_Buff = B\<lparr>m_pBuffer := ?b\<rparr>, ma_cchLen = k + length xs\<rparr>"
      have "STRA_AuxAppend heap (xs @ ys) (length xs) k s = Some (S_OK, ?s)"
        using True False len w unfolding STRA_AuxAppend_def Let_def u B by simp
      moreover have "stra_inv ?s" using BS(1) len by (simp add: stra_inv_def buffer_inv_def)
      moreover have "a_text ?s = take k (a_text s) @ xs"
        using len unfolding t [symmetric] by (simp add: a_text_def)
      ultimately show ?thesis by auto
    qed
  qed
qed

lemma STRA_AppendN_spec:
  assumes "heap_ok 1 heap" "stra_inv s" "n \<le> length p" "n < 4294967296"
  shows "returns (STRA_AppendN heap p n s) (\<lambda>(hr, s'). stra_inv s' \<and>
    (if SUCCEEDED hr then a_text s' = a_text s @ take n p else s' = s) \<and>
    (length (a_text s) + n + 1 \<le> MAXDWORD \<and> heap_total heap \<longrightarrow> SUCCEEDED hr))"
proof (cases "n = 0")
  case True
  then show ?thesis using assms(2) by (simp add: STRA_AppendN_def)
next
  case False
  have p: "p = take n p @ drop n p" "length (take n p) = n" using assms(3) by simp_all
  show ?thesis
    using False STRA_AuxAppend_spec [OF assms(2,1) order_refl, of "take n p" "drop n p"] assms(4) p(2)
      length_a_text [OF assms(2)]
    by (auto simp: STRA_AppendN_def a_QueryCB_def heap_total_def elim!: returns_mono split: if_splits)
qed

lemma STRA_CopyN_spec:
  assumes "heap_ok 1 heap" "stra_inv s" "n \<le> length p" "n < 4294967296"
  shows "returns (STRA_CopyN heap p n s) (\<lambda>(hr, s'). stra_inv s' \<and>
    (if SUCCEEDED hr then hr = S_OK \<and> a_text s' = take n p else s' = s) \<and>
    (n + 1 \<le> MAXDWORD \<and> heap_total heap \<longrightarrow> hr = S_OK))"
proof -
  have p: "p = take n p @ drop n p" "length (take n p) = n" using assms(3) by simp_all
  have ht: "heap m = None \<Longrightarrow> \<not> heap_total heap" for m by (auto simp: heap_total_def)
  show ?thesis
    using STRA_AuxAppend_spec [OF assms(2,1), of 0 "take n p" "drop n p"] assms(4) p(2)
    by (auto simp: STRA_CopyN_def ht elim!: returns_mono split: if_splits)
qed

lemma resize_stra_inv:
  assumes "stra_inv s" "heap_ok 1 heap" "BUFFER_Resize 1 heap n z (ma_Buff s) = (ok, B)"
  shows "stra_inv (s\<lparr>ma_Buff := B\<rparr>)" "a_text (s\<lparr>ma_Buff := B\<rparr>) = a_text s"
    "ok \<Longrightarrow> n \<le> length (m_pBuffer B)" "heap_total heap \<and> n \<le> MAXDWORD \<longrightarrow> ok"
proof -
  note R = BUFFER_Resize_spec [OF stra_inv_buffer [OF assms(1)] assms(2,3)]
  show "stra_inv (s\<lparr>ma_Buff := B\<rparr>)" "a_text (s\<lparr>ma_Buff := B\<rparr>) = a_text s"
    using R(1,5) stra_invD(3,4) [OF assms(1)] arg_cong [OF R(4), of "take (ma_cchLen s)"]
      arg_cong [OF R(4), of "\<lambda>l. l ! ma_cchLen s"]
    by (simp_all add: stra_inv_def a_text_def)
  show "ok \<Longrightarrow> n \<le> length (m_pBuffer B)" using R(1,3) by (simp add: buffer_inv_def)
  show "heap_total heap \<and> n \<le> MAXDWORD \<longrightarrow> ok"
    using BUFFER_Resize_ok [of n heap 1 z "ma_Buff s"] assms(3) by (auto simp: heap_total_def)
qed

lemma STRA_Resize_spec:
  assumes "stra_inv s" "heap_ok 1 heap"
  shows "case STRA_Resize heap n s of (hr, s') \<Rightarrow> stra_inv s' \<and> a_text s' = a_text s \<and>
    (heap_total heap \<and> n \<le> MAXDWORD \<longrightarrow> hr = S_OK)"
proof -
  obtain ok B where B: "BUFFER_Resize 1 heap n False (ma_Buff s) = (ok, B)" by force
  show ?thesis using resize_stra_inv [OF assms B] B by (simp add: STRA_Resize_def)
qed


subsection \<open>Escaping\<close>

definition escaped :: "(BYTE \<Rightarrow> bool) \<Rightarrow> astr \<Rightarrow> astr" where
  "escaped should xs = concat (map (\<lambda>c. if should c then hex_escape c else [c]) xs)"

lemma escaped_simps [simp]:
  "escaped should [] = []" "escaped should (c # xs) = (if should c then hex_escape c else [c]) @ escaped should xs"
  "escaped should (xs @ ys) = escaped should xs @ escaped should ys"
  by (simp_all add: escaped_def)

lemma length_hex_escape [simp]: "length (hex_escape c) = 3"
  by (simp add: hex_escape_def)

lemma length_escaped: "length (escaped should xs) \<le> 3 * length xs"
  by (induction xs) auto

lemma escaped_id: "\<forall>c \<in> set xs. \<not> should c \<Longrightarrow> escaped should xs = xs"
  by (induction xs) auto

definition esc_small :: "STRA \<Rightarrow> bool" where
  "esc_small s \<longleftrightarrow> 3 * ma_cchLen s + 4 \<le> MAXDWORD"

lemma escape_start_spec:
  assumes "stra_inv s" "stra_inv t" "heap_ok 1 heap" "i \<le> ma_cchLen s" "a_text t = []"
  shows "returns (escape_start heap s i t) (\<lambda>(hr, t'). stra_inv t' \<and>
    (SUCCEEDED hr \<longrightarrow> a_text t' = take i (a_text s)) \<and> (heap_total heap \<and> esc_small s \<longrightarrow> SUCCEEDED hr))"
proof -
  let ?n = "u32 (ma_cchLen s * 2)"
  obtain hr t1 where R: "STRA_Resize heap ?n t = (hr, t1)" by force
  have n: "?n \<le> MAXDWORD" by (simp add: u32_def MAXDWORD_def)
  have t1: "stra_inv t1" "a_text t1 = []" "heap_total heap \<longrightarrow> SUCCEEDED hr"
    using STRA_Resize_spec [OF assms(2,3), of ?n] R n assms(5) by auto
  have i: "i \<le> length (a_str s)" "i < 4294967296" "take i (a_str s) = take i (a_text s)"
    using stra_invD(3,5) [OF assms(1)] assms(4) by (auto simp: a_text_def)
  show ?thesis
  proof (cases "FAILED hr \<or> i = 0")
    case True
    then show ?thesis using R t1 by (auto simp: escape_start_def Let_def)
  next
    case False
    then show ?thesis
      using R STRA_CopyN_spec [OF assms(3) t1(1) i(1,2)] i(3) t1(3) assms(4)
      by (auto simp: escape_start_def Let_def esc_small_def elim!: returns_mono split: if_splits)
  qed
qed

lemma escape_room_spec:
  assumes "stra_inv t" "heap_ok 1 heap"
  shows "case escape_room heap s err t of (hr, t') \<Rightarrow> stra_inv t' \<and> a_text t' = a_text t \<and>
    (heap_total heap \<and> esc_small s \<longrightarrow> SUCCEEDED hr)"
proof -
  obtain ok B where B: "BUFFER_Resize 1 heap (ma_cchLen s + 3) False (ma_Buff t) = (ok, B)" by force
  show ?thesis
    using resize_stra_inv [OF assms B] B assms(1) by (auto simp: escape_room_def esc_small_def Let_def)
qed

lemma escape_loop_a_spec:
  assumes "stra_inv s" "heap_ok 1 heap" "stra_inv t" "a_text s = pre @ rest" "0 \<notin> set (a_text s)"
    and "if d then heap_total heap \<and> esc_small s \<longrightarrow> a_text t = escaped should pre
         else a_text t = [] \<and> (\<forall>c \<in> set pre. \<not> should c)"
  shows "returns (escape_loop_a heap should err s (rest @ 0 # z) (length pre) d t) (\<lambda>(hr, d', t'). stra_inv t' \<and>
    (heap_total heap \<and> esc_small s \<longrightarrow> SUCCEEDED hr \<and>
      (if d' then a_text t' = escaped should (a_text s) else escaped should (a_text s) = a_text s)))"
  using assms
proof (induction rest arbitrary: pre d t)
  case Nil
  then show ?case using escaped_id [of pre should] by (auto split: if_splits)
next
  case (Cons ch rest)
  have nz: "ch \<noteq> 0" using Cons.prems(4,5) by auto
  have len: "length pre + length rest + 1 = ma_cchLen s"
    using length_a_text [OF Cons.prems(1)] Cons.prems(4) by simp
  have bound: "3 * length pre + 3 + 1 \<le> MAXDWORD" if "esc_small s" using that len by (simp add: esc_small_def)
  have next_inv: "a_text s = (pre @ [ch]) @ rest" using Cons.prems(4) by simp
  note IH = Cons.IH [OF Cons.prems(1,2) _ next_inv Cons.prems(5)]
  let ?E = "escaped should"
  show ?case
  proof (cases "should ch")
    case S: True
    have "returns (if d then Some (S_OK, t) else escape_start heap s (length pre) t) (\<lambda>(hr, t1). stra_inv t1 \<and>
        (heap_total heap \<and> esc_small s \<longrightarrow> SUCCEEDED hr \<and> a_text t1 = ?E pre))"
    proof (cases d)
      case True
      then show ?thesis using Cons.prems(3,6) by simp
    next
      case False
      have "returns (escape_start heap s (length pre) t) (\<lambda>(hr, t'). stra_inv t' \<and>
          (SUCCEEDED hr \<longrightarrow> a_text t' = take (length pre) (a_text s)) \<and>
          (heap_total heap \<and> esc_small s \<longrightarrow> SUCCEEDED hr))"
        using Cons.prems(6) False len by (intro escape_start_spec [OF Cons.prems(1,3,2)]) auto
      moreover have "take (length pre) (a_text s) = ?E pre"
        using Cons.prems(4,6) False escaped_id [of pre should] by simp
      ultimately show ?thesis using False by (auto elim!: returns_mono)
    qed
    then obtain hr1 t1 where t1: "(if d then Some (S_OK, t) else escape_start heap s (length pre) t) = Some (hr1, t1)"
      "stra_inv t1" "heap_total heap \<and> esc_small s \<longrightarrow> SUCCEEDED hr1 \<and> a_text t1 = ?E pre"
      by (rule returns_pairE) (elim conjE, rule that)
    obtain hr2 t2 where t2: "escape_room heap s err t1 = (hr2, t2)" by force
    note r2 = escape_room_spec [OF t1(2) Cons.prems(2), of s err, unfolded t2 prod.case]
    have l3: "3 \<le> length (hex_escape ch)" "(3 :: nat) < 4294967296" by simp_all
    obtain hr3 t3 where t3: "STRA_AppendN heap (hex_escape ch) 3 t2 = Some (hr3, t3)" "stra_inv t3"
      "if SUCCEEDED hr3 then a_text t3 = a_text t2 @ take 3 (hex_escape ch) else t3 = t2"
      "length (a_text t2) + 3 + 1 \<le> MAXDWORD \<and> heap_total heap \<longrightarrow> SUCCEEDED hr3"
      by (rule returns_pairE [OF STRA_AppendN_spec [OF Cons.prems(2) conjunct1 [OF r2] l3]]) (elim conjE, rule that)
    have run: "escape_loop_a heap should err s ((ch # rest) @ 0 # z) (length pre) d t =
        (if FAILED hr1 then Some (hr1, True, t1) else if FAILED hr2 then Some (hr2, True, t2)
         else if FAILED hr3 then Some (hr3, True, t3)
         else escape_loop_a heap should err s (rest @ 0 # z) (length (pre @ [ch])) True t3)"
      using nz S t1(1) t2 t3(1) by simp
    have ok: "SUCCEEDED hr1 \<and> SUCCEEDED hr2 \<and> SUCCEEDED hr3 \<and> a_text t3 = ?E (pre @ [ch])"
      if h: "heap_total heap" "esc_small s"
    proof -
      have "length (?E pre) + 3 + 1 \<le> MAXDWORD" using length_escaped [of should pre] bound [OF h(2)] by linarith
      then have "SUCCEEDED hr3" using t3(4) t1(3) r2 h by simp
      then show ?thesis using t1(3) r2 t3(3) h S by simp
    qed
    show ?thesis
      unfolding run using IH [of t3 True] t3(2) t1(2) r2 ok by (auto elim!: returns_mono)
  next
    case S: False
    have "returns (if d then map_option snd (STRA_AppendN heap [ch] 1 t) else Some t) (\<lambda>t1. stra_inv t1 \<and>
        (if d then heap_total heap \<and> esc_small s \<longrightarrow> a_text t1 = ?E (pre @ [ch]) else t1 = t))"
    proof (cases d)
      case True
      have "length (?E pre) + 1 + 1 \<le> MAXDWORD" if "esc_small s"
        using length_escaped [of should pre] bound [OF that] by linarith
      then show ?thesis
        using True Cons.prems(6) STRA_AppendN_spec [OF Cons.prems(2,3), of 1 "[ch]"] S
        by (auto elim!: returns_mono split: if_splits)
    next
      case False
      then show ?thesis using Cons.prems(3) by simp
    qed
    then obtain t1 where t1: "(if d then map_option snd (STRA_AppendN heap [ch] 1 t) else Some t) = Some t1"
      "stra_inv t1" "if d then heap_total heap \<and> esc_small s \<longrightarrow> a_text t1 = ?E (pre @ [ch]) else t1 = t"
      by (rule returnsE) (elim conjE, rule that)
    have run: "escape_loop_a heap should err s ((ch # rest) @ 0 # z) (length pre) d t =
        escape_loop_a heap should err s (rest @ 0 # z) (length (pre @ [ch])) d t1"
      using nz S t1(1) by simp
    show ?thesis
      unfolding run using Cons.prems(6) t1(3) S by (intro IH [OF t1(2)]) (auto split: if_splits)
  qed
qed

lemma EscapeInternal_spec:
  assumes "stra_inv s" "heap_ok 1 heap" "0 \<notin> set (a_text s)" "InlineBuffer \<noteq> []" "length InlineBuffer \<le> MAXDWORD"
  shows "returns (EscapeInternal heap should err InlineBuffer s) (\<lambda>(hr, s'). stra_inv s' \<and>
    (heap_total heap \<and> esc_small s \<longrightarrow> SUCCEEDED hr \<and> a_text s' = escaped should (a_text s)))"
proof -
  let ?t = "STRA_init (InlineBuffer[0 := 0])"
  have t: "stra_inv ?t" "a_text ?t = []"
    using assms(4,5) by (simp_all add: stra_inv_def buffer_inv_def STRA_init_def a_text_def MAXDWORD_def)
  have "returns (escape_loop_a heap should err s (a_str s) 0 False ?t) (\<lambda>(hr, d', t'). stra_inv t' \<and>
    (heap_total heap \<and> esc_small s \<longrightarrow> SUCCEEDED hr \<and>
      (if d' then a_text t' = escaped should (a_text s) else escaped should (a_text s) = a_text s)))"
    using escape_loop_a_spec [OF assms(1,2) t(1), of "[]" "a_text s" False should err
        "drop (Suc (ma_cchLen s)) (a_str s)"] t(2) assms(3)
    by (simp flip: a_str_split [OF assms(1)])
  then obtain hr d t' where l: "escape_loop_a heap should err s (a_str s) 0 False ?t = Some (hr, d, t')"
    "stra_inv t'" "heap_total heap \<and> esc_small s \<longrightarrow> SUCCEEDED hr \<and>
      (if d then a_text t' = escaped should (a_text s) else escaped should (a_text s) = a_text s)"
    by (rule returns_tripleE) (elim conjE, rule that)
  note lt = stra_invD(3,5) [OF l(2)]
  have r: "returns (STRA_CopyS heap t' s) (\<lambda>(hr, s'). stra_inv s' \<and>
      (if SUCCEEDED hr then hr = S_OK \<and> a_text s' = a_text t' else s' = s) \<and>
      (ma_cchLen t' + 1 \<le> MAXDWORD \<and> heap_total heap \<longrightarrow> hr = S_OK))"
    using STRA_CopyN_spec [OF assms(2,1), of "ma_cchLen t'" "a_str t'"] lt
    unfolding STRA_CopyS_def a_text_def [of t'] by (auto elim!: returns_mono)
  have b: "ma_cchLen t' + 1 \<le> MAXDWORD" using lt(2) by (simp add: MAXDWORD_def)
  show ?thesis
    using l assms(1) r b by (auto simp: EscapeInternal_def elim!: returns_mono split: if_splits)
qed

subsection \<open>Unescaping\<close>

definition hex_value :: "astr \<Rightarrow> nat" where
  "hex_value ds = foldl (\<lambda>v c. v * 16 + a_TOHEX c) 0 ds"

definition hex_digits :: "nat \<Rightarrow> astr \<Rightarrow> bool" where
  "hex_digits n t \<longleftrightarrow> n \<le> length t \<and> (\<forall>c \<in> set (take n t). isxdigit c)"

text \<open>The escape sequence a text starts with, the text being what follows the \<open>%\<close>.\<close>

definition kind_of :: "astr \<Rightarrow> escape" where
  "kind_of t =
     (if t \<noteq> [] \<and> hd t \<in> {of_char CHR ''u'', of_char CHR ''U''} \<and> hex_digits 4 (tl t)
      then Wide (word_of_nat (hex_value (take 4 (tl t))))
      else if hex_digits 2 t then Byte (word_of_nat (hex_value (take 2 t)))
      else Bare)"

fun decoded :: "(WCHAR \<Rightarrow> astr) \<Rightarrow> astr \<Rightarrow> astr" where
  "decoded acp [] = []"
| "decoded acp (c # t) =
     (if c \<noteq> 37 then c # decoded acp t
      else case kind_of t of
        Wide w \<Rightarrow> acp w @ decoded acp (drop 5 t)
      | Byte v \<Rightarrow> v # decoded acp (drop 2 t)
      | Bare \<Rightarrow> c # decoded acp t)"

text \<open>Where the first escape sequence is.\<close>

fun first_escape :: "astr \<Rightarrow> nat option" where
  "first_escape [] = None"
| "first_escape (c # t) = (if c = 37 \<and> kind_of t \<noteq> Bare then Some 0 else map_option Suc (first_escape t))"

lemma digits_at_eq:
  assumes "drop i b = t @ 0 # z"
  shows "digits_at b i n acc = Some (if hex_digits n t then Some (foldl (\<lambda>v c. v * 16 + a_TOHEX c) acc (take n t)) else None)"
  using assms
proof (induction n arbitrary: i acc t)
  case 0
  then show ?case by (simp add: hex_digits_def)
next
  case (Suc n)
  have i: "i < length b" using Suc.prems by (metis append_is_Nil_conv drop_all linorder_not_less list.distinct(1))
  have d: "b ! i = hd (t @ 0 # z)" "drop (Suc i) b = tl (t @ 0 # z)"
    using Suc.prems i by (metis hd_drop_conv_nth, metis drop_Suc tl_drop)
  show ?case
  proof (cases t)
    case Nil
    then show ?thesis using d i by (simp add: hex_digits_def isxdigit_def)
  next
    case (Cons c t')
    then have "drop (Suc i) b = t' @ 0 # z" using d by simp
    from Suc.IH [OF this] show ?thesis using Cons d i by (auto simp: hex_digits_def)
  qed
qed

lemma escape_kind_eq:
  assumes "drop (i + 1) b = t @ 0 # z"
  shows "escape_kind b i = Some (kind_of t)"
proof -
  have i: "i + 1 < length b" using assms by (metis append_is_Nil_conv drop_all linorder_not_less list.distinct(1))
  have d: "b ! (i + 1) = hd (t @ 0 # z)" "drop (i + 2) b = tl (t @ 0 # z)"
    using assms i by (metis hd_drop_conv_nth, metis add_2_eq_Suc' drop_Suc tl_drop Suc_eq_plus1)
  note two = digits_at_eq [OF assms, of 2 0]
  show ?thesis
  proof (cases t)
    case Nil
    then show ?thesis using d i two by (simp add: escape_kind_def kind_of_def hex_digits_def)
  next
    case (Cons c t')
    then have "drop (i + 2) b = t' @ 0 # z" using d by simp
    note four = digits_at_eq [OF this, of 4 0]
    show ?thesis
      using Cons d i two four by (auto simp: escape_kind_def kind_of_def hex_value_def)
  qed
qed

lemma kind_of_length:
  "kind_of t = Wide w \<Longrightarrow> 5 \<le> length t" "kind_of t = Byte v \<Longrightarrow> 2 \<le> length t"
  by (cases t; auto simp: kind_of_def hex_digits_def split: if_splits)+


lemma first_escape_skip: "37 \<notin> set w \<Longrightarrow> first_escape (w @ t) = map_option (\<lambda>v. length w + v) (first_escape t)"
  by (induction w) (cases "first_escape t"; auto)+

lemma first_escape_None: "37 \<notin> set w \<Longrightarrow> first_escape w = None"
  by (induction w) auto

lemma decoded_plain: "37 \<notin> set w \<Longrightarrow> decoded acp (w @ t) = w @ decoded acp t"
  by (induction w) auto

text \<open>The next \<open>%\<close>, with the text before it.\<close>

lemma next_percent:
  assumes "0 \<notin> set (r :: astr)"
  obtains (found) w r' where "r = w @ 37 # r'" "37 \<notin> set w" "wcschr (r @ 0 # z) 37 = Some (length w)"
  | (last) "37 \<notin> set r" "wcschr (r @ 0 # z) 37 = None"
proof (cases "37 \<in> set r")
  case True
  then obtain w r' where "r = w @ 37 # r'" "37 \<notin> set w" by (auto dest: split_list_first)
  moreover have "wcschr (r @ 0 # z) 37 = Some (length w)"
  proof -
    have "takeWhile (\<lambda>x. x \<noteq> 37) r = w"
      unfolding \<open>r = w @ 37 # r'\<close> using \<open>37 \<notin> set w\<close> by (intro takeWhile_prefix_stop) auto
    then show ?thesis using wcschr_spec [OF assms, of 37 z] True by simp
  qed
  ultimately show thesis by (rule found)
next
  case False
  then show thesis using wcschr_spec [OF assms, of 37 z] by (intro last) auto
qed

lemma unescape_unchanged:
  assumes "b = u @ 37 # r @ 0 # z" "0 \<notin> set r"
  shows "unescape_loop acp n b dest (length u) False =
    (case first_escape (37 # r) of
       None \<Rightarrow> Some (b, False)
     | Some v \<Rightarrow> unescape_loop acp n b (dest + count_list (take v (37 # r)) 37) (length u + v) True)"
  using assms
proof (induction "length r" arbitrary: u r dest rule: less_induct)
  case less
  have k: "escape_kind b (length u) = Some (kind_of r)" using less.prems(1) by (intro escape_kind_eq) simp
  show ?case
  proof (cases "kind_of r = Bare")
    case False
    have "decode_one acp b dest (length u) False = decode_one acp b dest (length u) True"
      unfolding decode_one_def k using False by (cases "kind_of r") auto
    then show ?thesis
      using False by (simp add: unescape_loop.simps [where fChanged = True] unescape_loop.simps [where fChanged = False])
  next
    case True
    have d: "decode_one acp b dest (length u) False = Some (b, dest + 1, length u + 1, False)"
      unfolding decode_one_def k using True less.prems(1) by simp
    have s: "drop (length u + 1) b = r @ 0 # z" "length u + 1 \<le> length b" using less.prems(1) by simp_all
    show ?thesis
    proof (rule next_percent [OF less.prems(2), of z])
      fix w r'
      assume r: "r = w @ 37 # r'" "37 \<notin> set w" and c: "wcschr (r @ 0 # z) 37 = Some (length w)"
      have b: "b = (u @ 37 # w) @ 37 # r' @ 0 # z" and r': "length r' < length r" "0 \<notin> set r'"
        using less.prems r(1) by simp_all
      have step: "unescape_loop acp n b dest (length u) False =
          unescape_loop acp n b (dest + 1) (length (u @ 37 # w)) False"
        using d s c by (simp add: unescape_loop.simps [of acp n b dest "length u" False])
      have f: "first_escape (37 # r) = map_option (\<lambda>v. Suc (length w + v)) (first_escape (37 # r'))"
        using True first_escape_skip [OF r(2), of "37 # r'"] r(1) by (simp add: option.map_comp comp_def)
      have n: "count_list (take (Suc (length w + v)) (37 # r)) 37 = Suc (count_list (take v (37 # r')) 37)" for v
        using r by simp
      show ?thesis
      proof (cases "first_escape (37 # r')")
        case None
        show ?thesis unfolding step less.hyps [OF r'(1) b r'(2)] f None by simp
      next
        case (Some v)
        show ?thesis
          unfolding step less.hyps [OF r'(1) b r'(2)] f Some option.map option.case n by (simp add: ac_simps)
      qed
    next
      assume r: "37 \<notin> set r" and c: "wcschr (r @ 0 # z) 37 = None"
      have "first_escape (37 # r) = None" using True first_escape_None [OF r] by simp
      then show ?thesis
        using d s c by (simp add: unescape_loop.simps [of acp n b dest "length u" False])
    qed
  qed
qed

text \<open>Text is moved down over junk.\<close>

lemma store_block_middle:
  assumes "length out \<le> length X"
  shows "store_block (pre @ X @ Y) (length pre) out = Some (pre @ out @ drop (length out) X @ Y)"
  using assms by simp

lemma decode_one_changed:
  assumes "b = pre @ junk @ 37 # t @ 0 # z" "\<forall>w. length (acp w) \<le> 6"
  obtains out junk' rest where
    "decode_one acp b (length pre) (length pre + length junk) True =
       Some (pre @ out @ junk' @ rest @ 0 # z, length pre + length out, length pre + length out + length junk', True)"
    "decoded acp (37 # t) = out @ decoded acp rest" "length rest \<le> length t" "set rest \<subseteq> set t"
    "length out + length junk' + length rest = length junk + 1 + length t"
proof -
  have k: "escape_kind b (length pre + length junk) = Some (kind_of t)"
    using assms(1) by (intro escape_kind_eq) simp
  show thesis
  proof (cases "kind_of t")
    case (Wide w)
    then have l: "5 \<le> length t" by (rule kind_of_length)
    obtain e rest where t: "t = e @ rest" "length e = 5"
      using l append_take_drop_id [of 5 t] by (metis length_take min.absorb2)
    have b: "b = pre @ (junk @ 37 # e) @ rest @ 0 # z" unfolding assms(1) t(1) by simp
    have "length (acp w) \<le> 6" using assms(2) by simp
    then have a: "length (acp w) \<le> length (junk @ 37 # e)" using t(2) by simp
    show thesis
    proof (rule that [of "acp w" "drop (length (acp w)) (junk @ 37 # e)" rest])
      show "decode_one acp b (length pre) (length pre + length junk) True =
          Some (pre @ acp w @ drop (length (acp w)) (junk @ 37 # e) @ rest @ 0 # z, length pre + length (acp w),
            length pre + length (acp w) + length (drop (length (acp w)) (junk @ 37 # e)), True)"
        unfolding decode_one_def k bind.bind_lunit Wide escape.case
        unfolding b store_block_middle [OF a] using a t(2) by simp
    qed (use a t Wide in auto)
  next
    case (Byte v)
    then have l: "2 \<le> length t" by (rule kind_of_length)
    obtain e rest where t: "t = e @ rest" "length e = 2"
      using l append_take_drop_id [of 2 t] by (metis length_take min.absorb2)
    have b: "b = pre @ (junk @ 37 # e) @ rest @ 0 # z" unfolding assms(1) t(1) by simp
    show thesis
    proof (rule that [of "[v]" "tl (junk @ 37 # e)" rest])
      show "decode_one acp b (length pre) (length pre + length junk) True =
          Some (pre @ [v] @ tl (junk @ 37 # e) @ rest @ 0 # z, length pre + length [v],
            length pre + length [v] + length (tl (junk @ 37 # e)), True)"
        unfolding decode_one_def k bind.bind_lunit Byte escape.case
        unfolding b using t(2) by (cases junk) (simp_all add: list_update_append)
    qed (use t Byte in auto)
  next
    case Bare
    have b: "b = pre @ (junk @ [37]) @ t @ 0 # z" unfolding assms(1) by simp
    show thesis
    proof (rule that [of "[37]" "tl (junk @ [37])" t])
      show "decode_one acp b (length pre) (length pre + length junk) True =
          Some (pre @ [37] @ tl (junk @ [37]) @ t @ 0 # z, length pre + length [37],
            length pre + length [37] + length (tl (junk @ [37])), True)"
        unfolding decode_one_def k bind.bind_lunit Bare escape.case
        unfolding b by (cases junk) (simp_all add: list_update_append nth_append)
    qed (use Bare in auto)
  qed
qed


lemma move_within_spec:
  assumes "b = pre @ X @ Y" "X = junk @ w"
  shows "move_within b (length pre) (length pre + length junk) (length w) = Some (pre @ w @ drop (length w) X @ Y)"
proof -
  have "take (length w) (drop (length pre + length junk) b) = w" using assms by simp
  then show ?thesis
    unfolding move_within_def using store_block_middle [of w X pre Y] assms by simp
qed

lemma unescape_changed:
  assumes "b = pre @ junk @ 37 # t @ 0 # z" "\<forall>w. length (acp w) \<le> 6" "0 \<notin> set t"
  shows "\<exists>z'. unescape_loop acp (length pre + length junk + 1 + length t) b (length pre) (length pre + length junk) True =
      Some (pre @ decoded acp (37 # t) @ 0 # z', True) \<and>
      length (pre @ decoded acp (37 # t) @ 0 # z') = length b"
  using assms(1,3)
proof (induction "length t" arbitrary: b pre junk t z rule: less_induct)
  case less
  let ?n = "length pre + length junk + 1 + length t"
  obtain out junk' rest where d: "decode_one acp b (length pre) (length pre + length junk) True =
       Some (pre @ out @ junk' @ rest @ 0 # z, length pre + length out, length pre + length out + length junk', True)"
    "decoded acp (37 # t) = out @ decoded acp rest" "length rest \<le> length t" "set rest \<subseteq> set t"
    "length out + length junk' + length rest = length junk + 1 + length t"
    by (rule decode_one_changed [OF less.prems(1) assms(2)])
  let ?b = "pre @ out @ junk' @ rest @ 0 # z"
  have nz: "0 \<notin> set rest" using d(4) less.prems(2) by auto
  have adv: "length pre + length junk < length pre + length out + length junk'" using d(3,5) by linarith
  have dr: "drop (length pre + length out + length junk') ?b = rest @ 0 # z" by simp
  have lb: "length ?b = length b" using d(5) less.prems(1) by simp
  show ?case
  proof (rule next_percent [OF nz, of z])
    fix w r'
    assume r: "rest = w @ 37 # r'" "37 \<notin> set w" and c: "wcschr (rest @ 0 # z) 37 = Some (length w)"
    let ?j = "drop (length w) (junk' @ w)"
    let ?b2 = "(pre @ out @ w) @ ?j @ 37 # r' @ 0 # z"
    have m: "move_within ?b (length pre + length out) (length pre + length out + length junk') (length w) = Some ?b2"
      using move_within_spec [of ?b "pre @ out" "junk' @ w" "37 # r' @ 0 # z" junk' w] r(1) by simp
    have m': "(if length w \<noteq> 0 then move_within ?b (length pre + length out)
          (length pre + length out + length junk') (length w) else Some ?b) = Some ?b2"
      unfolding m using r(1) by simp
    have lj: "length ?j = length junk'" by simp
    have l2: "length ?b2 = length b" using lb r(1) lj by simp
    have lt: "length r' < length t" "0 \<notin> set r'" using r(1) d(3) nz by auto
    have n: "length (pre @ out @ w) + length ?j + 1 + length r' = ?n" using r(1) d(5) lj by simp
    have "unescape_loop acp ?n b (length pre) (length pre + length junk) True =
        unescape_loop acp ?n ?b2 (length (pre @ out @ w)) (length (pre @ out @ w) + length ?j) True"
      unfolding unescape_loop.simps [of acp ?n b "length pre" "length pre + length junk" True] d(1)
      using adv lb l2 unfolding bind.bind_lunit prod.case dr c option.case lj
      by (simp only: m' bind.bind_lunit) (simp add: ac_simps r(1))
    moreover have "decoded acp (37 # t) = out @ w @ decoded acp (37 # r')"
      unfolding d(2) r(1) by (simp only: decoded_plain [OF r(2)])
    ultimately show ?thesis
      using less.hyps [OF lt(1) refl lt(2), of "pre @ out @ w" ?j z] unfolding n l2 by simp
  next
    assume r: "37 \<notin> set rest" and c: "wcschr (rest @ 0 # z) 37 = None"
    have m: "move_within ?b (length pre + length out) (length pre + length out + length junk') (length (rest @ [0])) =
        Some ((pre @ out) @ (rest @ [0]) @ drop (length (rest @ [0])) (junk' @ rest @ [0]) @ z)"
      using move_within_spec [of ?b "pre @ out" "junk' @ rest @ [0]" z junk' "rest @ [0]"] by simp
    have n: "?n + 1 - (length pre + length out + length junk') = length (rest @ [0])" using d(5) by simp
    have "unescape_loop acp ?n b (length pre) (length pre + length junk) True =
        Some ((pre @ out) @ (rest @ [0]) @ drop (length (rest @ [0])) (junk' @ rest @ [0]) @ z, True)"
      unfolding unescape_loop.simps [of acp ?n b "length pre" "length pre + length junk" True] d(1)
      using adv d(5) unfolding bind.bind_lunit prod.case dr c option.case n m by simp
    moreover have "decoded acp (37 # t) = out @ rest" unfolding d(2) using decoded_plain [OF r, of acp "[]"] by simp
    ultimately show ?thesis using lb by simp
  qed
qed


text \<open>
  What the routine computes. The text between a \<open>%\<close> that starts no escape sequence and the first
  escape sequence is lost: only the \<open>%\<close>s are counted.
\<close>

definition unescaped :: "(WCHAR \<Rightarrow> astr) \<Rightarrow> astr \<Rightarrow> astr" where
  "unescaped acp t =
     (case first_escape t of
        None \<Rightarrow> t
      | Some v \<Rightarrow>
          take (length (takeWhile (\<lambda>c. c \<noteq> 37) t) + count_list (take v t) 37) t @ decoded acp (drop v t))"

lemma first_escape_bound:
  "first_escape t = Some v \<Longrightarrow> v < length t \<and> t ! v = 37"
  by (induction t arbitrary: v) (auto split: if_splits)

lemma first_escape_first: "first_escape t = Some v \<Longrightarrow> length (takeWhile (\<lambda>c. c \<noteq> 37) t) + count_list (take v t) 37 \<le> v"
proof (induction t arbitrary: v)
  case Nil
  then show ?case by simp
next
  case (Cons c t)
  have c: "count_list (take n t) 37 \<le> n" for n :: nat and t :: astr
    by (metis count_le_length length_take min.bounded_iff)
  show ?case
  proof (cases v)
    case (Suc v')
    then have "first_escape t = Some v'" using Cons.prems by (auto split: if_splits)
    then show ?thesis using Cons.IH [of v'] Suc c [of v' t] by auto
  qed (use Cons.prems in \<open>auto split: if_splits\<close>)
qed

lemma cstr_takeWhile: "cstr (x @ 0 # z) = Some (takeWhile (\<lambda>c. c \<noteq> 0) x)"
  by (induction x) auto

lemma Unescape_spec:
  assumes "stra_inv s" "0 \<notin> set (a_text s)" "\<forall>w. length (acp w) \<le> 6"
  shows "returns (Unescape acp s) (\<lambda>s'. stra_inv s' \<and>
    a_text s' = takeWhile (\<lambda>c. c \<noteq> 0) (unescaped acp (a_text s)))"
proof -
  define t where "t = a_text s"
  define z where "z = drop (Suc (ma_cchLen s)) (a_str s)"
  have b: "a_str s = t @ 0 # z" using a_str_split [OF assms(1)] by (simp add: t_def z_def)
  have nz: "0 \<notin> set t" using assms(2) by (simp add: t_def)
  have lt: "length t = ma_cchLen s" using length_a_text [OF assms(1)] by (simp add: t_def)
  have same: "takeWhile (\<lambda>c. c \<noteq> 0) t = t" using nz by (simp add: takeWhile_eq_all_conv) metis
  show ?thesis
  proof (rule next_percent [OF nz, of z])
    assume "37 \<notin> set t" and c: "wcschr (t @ 0 # z) 37 = None"
    then show ?thesis using assms(1) first_escape_None [of t]
      unfolding Unescape_def b unescaped_def t_def [symmetric] by (simp add: same t_def [symmetric])
  next
    fix w r'
    assume t: "t = w @ 37 # r'" "37 \<notin> set w" and c: "wcschr (t @ 0 # z) 37 = Some (length w)"
    have tw: "length (takeWhile (\<lambda>c. c \<noteq> 37) t) = length w"
      unfolding t(1) using t(2) by (subst takeWhile_prefix_stop) auto
    have f: "first_escape t = map_option (\<lambda>v. length w + v) (first_escape (37 # r'))"
      unfolding t(1) by (rule first_escape_skip [OF t(2)])
    have bw: "a_str s = w @ 37 # r' @ 0 # z" using b t(1) by simp
    have nr: "0 \<notin> set r'" using nz t(1) by simp
    note un = unescape_unchanged [OF bw nr, of acp "ma_cchLen s" "length w"]
    show ?thesis
    proof (cases "first_escape (37 # r')")
      case None
      then show ?thesis using un assms(1) f c
        unfolding Unescape_def unescaped_def t_def [symmetric]
        by (simp add: same b) (simp add: a_set_def b [symmetric] t_def [symmetric])
    next
      case (Some v)
      let ?k = "count_list (take v (37 # r')) 37"
      have fv: "first_escape t = Some (length w + v)" using f Some by simp
      have cw: "count_list (take (length w + v) t) 37 = ?k" using t by (simp add: count_notin)
      have le: "length w + ?k \<le> length w + v" using first_escape_first [OF fv] unfolding tw cw .
      have vt: "length w + v < length t" "t ! (length w + v) = 37" using first_escape_bound [OF fv] by auto
      let ?pre = "take (length w + ?k) t"
      let ?junk = "drop (length w + ?k) (take (length w + v) t)"
      let ?r = "drop (Suc (length w + v)) t"
      have d: "drop (length w + v) t = 37 # ?r" using vt by (metis Cons_nth_drop_Suc)
      have l: "length ?pre = length w + ?k" "length ?pre + length ?junk = length w + v"
        "length ?pre + length ?junk + 1 + length ?r = ma_cchLen s"
        using le vt(1) lt by simp_all
      have "t = take (length w + v) t @ 37 # ?r" unfolding d [symmetric] by simp
      also have "take (length w + v) t = ?pre @ ?junk"
        using append_take_drop_id [of "length w + ?k" "take (length w + v) t"] le by (simp add: min_def)
      finally have bb: "a_str s = ?pre @ ?junk @ 37 # ?r @ 0 # z" unfolding b by simp
      have nr2: "0 \<notin> set ?r" using nz by (meson in_set_dropD)
      obtain z' where u: "unescape_loop acp (ma_cchLen s) (a_str s) (length w + ?k) (length w + v) True =
          Some (?pre @ decoded acp (37 # ?r) @ 0 # z', True)"
        "length (?pre @ decoded acp (37 # ?r) @ 0 # z') = length (a_str s)"
        using unescape_changed [OF bb assms(3) nr2] unfolding l(3) unfolding l(2) unfolding l(1) by blast
      let ?b = "(?pre @ decoded acp (37 # ?r)) @ 0 # z'"
      have ue: "unescaped acp t = ?pre @ decoded acp (37 # ?r)"
        unfolding unescaped_def fv option.case tw cw d ..
      have loop: "unescape_loop acp (ma_cchLen s) (a_str s) (length w) (length w) False = Some (?b, True)"
        unfolding un Some option.case u(1) by simp
      have "wcschr (a_str s) 37 = Some (length w)" unfolding b by (rule c)
      then have run: "Unescape acp s = cstr ?b \<bind> (\<lambda>u. Some ((a_set s ?b)\<lparr>ma_cchLen := u32 (length u)\<rparr>))"
        unfolding Unescape_def by (simp only: option.case loop bind.bind_lunit prod.case if_True)
      let ?u = "takeWhile (\<lambda>c. c \<noteq> 0) (unescaped acp t)"
      have cs: "cstr ?b = Some ?u" unfolding ue by (rule cstr_takeWhile)
      note cl = cstr_length [OF cs]
      have lb: "length ?b = length (a_str s)" using u(2) by simp
      have "length ?u < 4294967296" using cl lb stra_invD(1,2) [OF assms(1)] by (simp add: MAXDWORD_def)
      then have r: "Unescape acp s = Some ((a_set s ?b)\<lparr>ma_cchLen := length ?u\<rparr>)"
        unfolding run cs by simp
      have "stra_inv ((a_set s ?b)\<lparr>ma_cchLen := length ?u\<rparr>)"
        using stra_inv_buffer [OF assms(1)] cl lb by (simp add: stra_inv_def buffer_inv_def)
      moreover have "a_text ((a_set s ?b)\<lparr>ma_cchLen := length ?u\<rparr>) = ?u"
        using conjunct2 [OF conjunct2 [OF cl]] unfolding a_text_def by simp
      ultimately show ?thesis unfolding r t_def [symmetric] by (simp del: a_set_simps)
    qed
  qed
qed


lemma unescaped_cons:
  assumes "c \<noteq> 37"
  shows "unescaped acp (c # t) = c # unescaped acp t"
  using assms by (cases "first_escape t") (simp_all add: unescaped_def)

lemma unescaped_start: "kind_of t \<noteq> Bare \<Longrightarrow> unescaped acp (37 # t) = decoded acp (37 # t)"
  by (simp add: unescaped_def)

lemma TODIGIT_hex:
  assumes "d < 16"
  shows "isxdigit (TODIGIT d)" "a_TOHEX (TODIGIT d) = unat d" "TODIGIT d \<noteq> of_char CHR ''u''"
    "TODIGIT d \<noteq> of_char CHR ''U''" "TODIGIT d \<noteq> 0"
proof -
  let ?P = "\<lambda>d. isxdigit (TODIGIT d) \<and> a_TOHEX (TODIGIT d) = unat d \<and> TODIGIT d \<noteq> of_char CHR ''u'' \<and>
      TODIGIT d \<noteq> of_char CHR ''U'' \<and> TODIGIT d \<noteq> 0"
  have "list_all ?P [0, 1, 2, 3, 4, 5, 6, 7, 8, 9, 10, 11, 12, 13, 14, 15]"
    by (simp add: isxdigit_def a_TOHEX_def TODIGIT_def)
  moreover have "d \<in> set [0, 1, 2, 3, 4, 5, 6, 7, 8, 9, 10, 11, 12, 13, 14, 15]"
  proof -
    have n: "unat d < 16" using assms by (simp add: word_less_nat_alt)
    have "d = word_of_nat (unat d)" by simp
    moreover have "unat d \<in> {0, 1, 2, 3, 4, 5, 6, 7, 8, 9, 10, 11, 12, 13, 14, 15}"
      using n unfolding insert_iff empty_iff by arith
    ultimately show ?thesis by (elim insertE emptyE) simp_all
  qed
  ultimately have "?P d" unfolding list_all_iff by blast
  then show "isxdigit (TODIGIT d)" "a_TOHEX (TODIGIT d) = unat d" "TODIGIT d \<noteq> of_char CHR ''u''"
    "TODIGIT d \<noteq> of_char CHR ''U''" "TODIGIT d \<noteq> 0" by blast+
qed

lemma kind_of_hex_escape: "kind_of (tl (hex_escape c) @ t) = Byte c"
proof -
  have h: "c div 16 < 16" "c mod 16 < 16"
    using unsigned_less [where 'a = nat, of c] by (simp_all add: word_less_nat_alt unat_div unat_mod)
  have "word_of_nat (unat (c div 16) * 16 + unat (c mod 16)) = c"
    by (simp add: unat_div unat_mod)
  then show ?thesis
    using TODIGIT_hex [OF h(1)] TODIGIT_hex [OF h(2)]
    by (simp add: kind_of_def hex_escape_def hex_digits_def hex_value_def)
qed

lemma hex_escape_Cons: "hex_escape c = 37 # tl (hex_escape c)"
  by (simp add: hex_escape_def)

lemma decoded_hex_escape: "decoded acp (hex_escape c @ t) = c # decoded acp t"
proof -
  have "decoded acp (37 # tl (hex_escape c) @ t) = c # decoded acp t"
    using kind_of_hex_escape [of c t] by simp
  then show ?thesis by (metis append_Cons hex_escape_Cons)
qed

lemma decoded_escaped:
  assumes "should 37"
  shows "decoded acp (escaped should t) = t"
proof (induction t)
  case (Cons c t)
  then show ?case using assms decoded_hex_escape [of acp c] by auto
qed simp

lemma unescaped_escaped:
  assumes "should 37"
  shows "unescaped acp (escaped should t) = t"
proof (induction t)
  case Nil
  then show ?case by (simp add: unescaped_def)
next
  case (Cons c t)
  show ?case
  proof (cases "should c")
    case True
    have "unescaped acp (hex_escape c @ escaped should t) = decoded acp (hex_escape c @ escaped should t)"
      using unescaped_start [of "tl (hex_escape c) @ escaped should t" acp] kind_of_hex_escape [of c]
      by (metis append_Cons escape.distinct(6) hex_escape_Cons)
    then show ?thesis using True decoded_hex_escape decoded_escaped [of should, OF assms] by simp
  next
    case False
    then have "c \<noteq> 37" using assms by auto
    then show ?thesis using unescaped_cons [of c acp] Cons False by simp
  qed
qed

lemma escaped_nul_free:
  assumes "0 \<notin> set t"
  shows "0 \<notin> set (escaped should t)"
proof -
  have "c div 16 < 16" "c mod 16 < 16" for c :: BYTE
    using unsigned_less [where 'a = nat, of c] by (simp_all add: word_less_nat_alt unat_div unat_mod)
  note TODIGIT_hex(5) [OF this(1)] TODIGIT_hex(5) [OF this(2)]
  then show ?thesis
    using assms by (induction t) (auto simp: hex_escape_def)
qed

subsection \<open>Appending wide strings\<close>

text \<open>
  What is documented of \<open>WideCharToMultiByte\<close>: the converted text when it fits, and then it is not
  empty for a nonempty source; \<open>ERROR_INSUFFICIENT_BUFFER\<close> when it does not fit; another error when the
  source cannot be converted. It never writes more than the given room.
\<close>

definition wide_cp_ok :: "wide_cp \<Rightarrow> (wstr \<Rightarrow> astr option) \<Rightarrow> bool" where
  "wide_cp_ok cp conv \<longleftrightarrow>
     (\<forall>src room. case wc_convert cp src room of
        Inr t \<Rightarrow> conv src = Some t \<and> length t \<le> room \<and> (src \<noteq> [] \<longrightarrow> t \<noteq> [])
      | Inl (err, part) \<Rightarrow> length part \<le> room \<and> FAILED (HRESULT_FROM_WIN32 err) \<and>
          (\<forall>t. conv src = Some t \<longrightarrow> err = ERROR_INSUFFICIENT_BUFFER \<and> room < length t)) \<and>
     (\<forall>src. case wc_size cp src of
        Inr n \<Rightarrow> map_option length (conv src) = Some n
      | Inl err \<Rightarrow> conv src = None \<and> FAILED (HRESULT_FROM_WIN32 err))"

lemma WideCharToMultiByte_spec:
  assumes "wide_cp_ok cp conv" "k + room \<le> length b" "src \<noteq> []"
  shows "returns (WideCharToMultiByte cp src b k room) (\<lambda>(n, err, b'). length b' = length b \<and> take k b' = take k b \<and>
    (if n = 0 then FAILED (HRESULT_FROM_WIN32 err) \<and>
       (\<forall>t. conv src = Some t \<longrightarrow> err = ERROR_INSUFFICIENT_BUFFER \<and> room < length t)
     else \<exists>t. conv src = Some t \<and> n = length t \<and> n \<le> room \<and> take (k + n) b' = take k b @ t))"
proof -
  have "case wc_convert cp src room of
        Inr t \<Rightarrow> conv src = Some t \<and> length t \<le> room \<and> (src \<noteq> [] \<longrightarrow> t \<noteq> [])
      | Inl (err, part) \<Rightarrow> length part \<le> room \<and> FAILED (HRESULT_FROM_WIN32 err) \<and>
          (\<forall>t. conv src = Some t \<longrightarrow> err = ERROR_INSUFFICIENT_BUFFER \<and> room < length t)"
    using assms(1) unfolding wide_cp_ok_def by blast
  then show ?thesis
    using assms(2,3) by (auto simp: WideCharToMultiByte_def split: sum.splits prod.splits)
qed

lemma aw_finish_spec:
  assumes "buffer_inv 1 (ma_Buff s)" "k \<le> ma_cchLen s" "ma_cchLen s < length (a_str s)" "k + n < 4294967296"
    "SUCCEEDED hr \<and> n \<noteq> 0 \<longrightarrow> k + n < length (a_str s)"
  shows "returns (aw_finish hr n k s) (\<lambda>(hr', s'). hr' = hr \<and> stra_inv s' \<and>
    (if SUCCEEDED hr \<and> n \<noteq> 0 then a_text s' = take (k + n) (a_str s)
     else ma_cchLen s' = ma_cchLen s \<and> a_text s' = take (ma_cchLen s) (a_str s)))"
  using assms by (auto simp: aw_finish_def stra_inv_def buffer_inv_def a_text_def Let_def add.commute)

text \<open>Between the calls the terminator may be overwritten; the first \<open>k\<close> bytes stay.\<close>

definition aw_mid :: "nat \<Rightarrow> STRA \<Rightarrow> STRA \<Rightarrow> bool" where
  "aw_mid k s0 s \<longleftrightarrow> buffer_inv 1 (ma_Buff s) \<and> ma_cchLen s = ma_cchLen s0 \<and> k \<le> ma_cchLen s \<and>
     ma_cchLen s < length (a_str s) \<and> take k (a_str s) = take k (a_text s0)"

lemma aw_mid_init: "stra_inv s \<Longrightarrow> k \<le> ma_cchLen s \<Longrightarrow> aw_mid k s s"
  by (simp add: aw_mid_def stra_inv_def a_text_def)

lemma aw_mid_resize:
  assumes "aw_mid k s0 s" "heap_ok 1 heap" "BUFFER_Resize 1 heap n z (ma_Buff s) = (ok, B)"
  shows "aw_mid k s0 (s\<lparr>ma_Buff := B\<rparr>)" "m \<le> length (a_str s) \<Longrightarrow> take m (m_pBuffer B) = take m (a_str s)"
    "ok \<Longrightarrow> n \<le> length (m_pBuffer B)" "length (a_str s) \<le> length (m_pBuffer B)"
    "heap_total heap \<and> n \<le> MAXDWORD \<longrightarrow> ok"
proof -
  have inv: "buffer_inv 1 (ma_Buff s)" using assms(1) by (simp add: aw_mid_def)
  note R = BUFFER_Resize_spec [OF inv assms(2,3)]
  show t: "m \<le> length (a_str s) \<Longrightarrow> take m (m_pBuffer B) = take m (a_str s)" for m
    using arg_cong [OF R(4), of "take m"] by simp
  show "length (a_str s) \<le> length (m_pBuffer B)" by (rule R(5))
  then show "aw_mid k s0 (s\<lparr>ma_Buff := B\<rparr>)" using assms(1) R(1) t [of k] by (simp add: aw_mid_def)
  show "ok \<Longrightarrow> n \<le> length (m_pBuffer B)" using R(1,3) by (simp add: buffer_inv_def)
  show "heap_total heap \<and> n \<le> MAXDWORD \<longrightarrow> ok"
    using BUFFER_Resize_ok [of n heap 1 z "ma_Buff s"] assms(3) by (auto simp: heap_total_def)
qed

lemma aw_mid_fail:
  assumes "aw_mid k s0 s" "FAILED hr"
  shows "returns (aw_finish hr n k s) (\<lambda>(hr', s'). hr' = hr \<and> stra_inv s' \<and> ma_cchLen s' = ma_cchLen s0 \<and>
    take k (a_text s') = take k (a_text s0))"
  using assms by (auto simp: aw_finish_def aw_mid_def stra_inv_def buffer_inv_def a_text_def min_def)

text \<open>The conversion of the text into the room behind the first \<open>k\<close> bytes.\<close>

lemma aw_convert:
  assumes "aw_mid k s0 s" "wide_cp_ok cp conv" "src \<noteq> []"
  obtains n err b where "WideCharToMultiByte cp src (a_str s) k (a_size s - k) = Some (n, err, b)"
    "aw_mid k s0 (a_set s b)"
    "if n = 0 then FAILED (HRESULT_FROM_WIN32 err) \<and>
       (\<forall>t. conv src = Some t \<longrightarrow> err = ERROR_INSUFFICIENT_BUFFER \<and> length (a_str s) - k < length t)
     else \<exists>t. conv src = Some t \<and> n = length t \<and> k + n \<le> length b \<and> take (k + n) b = take k (a_text s0) @ t"
proof -
  have l: "k + (a_size s - k) \<le> length (a_str s)" "length (a_str s) = a_size s"
    using assms(1) by (auto simp: aw_mid_def buffer_inv_def)
  show thesis
    by (rule returns_tripleE [OF WideCharToMultiByte_spec [OF assms(2) l(1) assms(3)]], rule that, assumption)
      (use assms(1) l in \<open>auto simp: aw_mid_def buffer_inv_def\<close>)
qed


lemma aw_mid_done:
  assumes "aw_mid k s0 s" "n \<noteq> 0" "k + n < length (a_str s)" "take (k + n) (a_str s) = take k (a_text s0) @ t"
    "k + n < 4294967296"
  shows "returns (aw_finish S_OK n k s) (\<lambda>(hr, s'). hr = S_OK \<and> stra_inv s' \<and> a_text s' = take k (a_text s0) @ t)"
  using assms by (auto simp: aw_finish_def aw_mid_def stra_inv_def buffer_inv_def a_text_def add.commute)

definition aw_post :: "aheap \<Rightarrow> astr option \<Rightarrow> nat \<Rightarrow> STRA \<Rightarrow> HRESULT \<times> STRA \<Rightarrow> bool" where
  "aw_post heap t k s = (\<lambda>(hr, s'). stra_inv s' \<and>
     (if SUCCEEDED hr then \<exists>u. t = Some u \<and> a_text s' = take k (a_text s) @ u
      else ma_cchLen s' = ma_cchLen s \<and> take k (a_text s') = take k (a_text s)) \<and>
     (heap_total heap \<and> t \<noteq> None \<longrightarrow> SUCCEEDED hr))"

lemma aw_post_fail:
  assumes "aw_mid k s0 s" "FAILED hr" "heap_total heap \<longrightarrow> t = None"
  shows "returns (aw_finish hr n k s) (aw_post heap t k s0)"
  using returns_mono [OF aw_mid_fail [OF assms(1,2)]] assms(2,3) by (auto simp: aw_post_def)

lemma aw_post_done:
  assumes "aw_mid k s0 s" "n \<noteq> 0" "k + n < length (a_str s)" "take (k + n) (a_str s) = take k (a_text s0) @ t"
    "k + n < 4294967296"
  shows "returns (aw_finish S_OK n k s) (aw_post heap (Some t) k s0)"
  using returns_mono [OF aw_mid_done [OF assms]] by (auto simp: aw_post_def)

lemma STRA_AuxAppendW_spec:
  assumes "stra_inv s" "heap_ok 1 heap" "k \<le> ma_cchLen s" "wide_cp_ok cp conv" "src \<noteq> []"
    "k + length src + 1 \<le> MAXDWORD" "\<forall>t. conv src = Some t \<longrightarrow> k + length t + 1 \<le> MAXDWORD"
  shows "returns (STRA_AuxAppendW heap cp src k s) (aw_post heap (conv src) k s)"
proof -
  let ?post = "aw_post heap (conv src) k s"
  obtain ok1 B1 where B1: "BUFFER_Resize 1 heap (u32 (k + length src) + 1) False (ma_Buff s) = (ok1, B1)" by force
  let ?s1 = "s\<lparr>ma_Buff := B1\<rparr>"
  note r1 = aw_mid_resize [OF aw_mid_init [OF assms(1,3)] assms(2) B1]
  have small: "u32 (k + length src) + 1 \<le> MAXDWORD" using assms(6) by (simp add: MAXDWORD_def)
  obtain n err b where c1: "WideCharToMultiByte cp src (a_str ?s1) k (a_size ?s1 - k) = Some (n, err, b)"
    "aw_mid k s (a_set ?s1 b)"
    "if n = 0 then FAILED (HRESULT_FROM_WIN32 err) \<and>
       (\<forall>t. conv src = Some t \<longrightarrow> err = ERROR_INSUFFICIENT_BUFFER \<and> length (a_str ?s1) - k < length t)
     else \<exists>t. conv src = Some t \<and> n = length t \<and> k + n \<le> length b \<and> take (k + n) b = take k (a_text s) @ t"
    by (rule aw_convert [OF r1(1) assms(4,5)])
  let ?s2 = "a_set ?s1 b"
  note unfold = STRA_AuxAppendW_def Let_def B1 prod.case
  show ?thesis
  proof (cases ok1)
    case False
    then have "\<not> heap_total heap" using r1(5) small by blast
    then have "returns (aw_finish E_OUTOFMEMORY 0 k ?s1) ?post" by (intro aw_post_fail [OF r1(1)]) simp_all
    then show ?thesis unfolding unfold using False assms(5) by simp
  next
    case ok1: True
    show ?thesis
    proof (cases "n = 0")
      case False
      then obtain t where t: "conv src = Some t" "n = length t" "k + n \<le> length b" "take (k + n) b = take k (a_text s) @ t"
        using c1(3) by auto
      have kn: "u32 (k + n + 1) = k + n + 1" "k + n + 1 \<le> MAXDWORD" "k + n < 4294967296"
        using assms(7) t(1,2) by (simp_all add: MAXDWORD_def)
      obtain ok B where B: "BUFFER_Resize 1 heap (u32 (k + n + 1)) False (ma_Buff ?s2) = (ok, B)" by force
      note r = aw_mid_resize [OF c1(2) assms(2) B]
      have tk: "take (k + n) (a_str (?s2\<lparr>ma_Buff := B\<rparr>)) = take k (a_text s) @ t" using r(2) [of "k + n"] t(3,4) by simp
      have "returns (aw_finish (if ok then S_OK else E_OUTOFMEMORY) n k (?s2\<lparr>ma_Buff := B\<rparr>)) ?post"
      proof (cases ok)
        case True
        then show ?thesis using aw_post_done [OF r(1) False _ tk kn(3)] r(3) kn(1) t(1) by simp
      next
        case notok: False
        then show ?thesis using aw_post_fail [OF r(1)] r(5) kn by auto
      qed
      then show ?thesis unfolding unfold c1(1) bind.bind_lunit using assms(5) ok1 False B by simp
    next
      case n: True
      have e: "FAILED (HRESULT_FROM_WIN32 err)"
        "\<And>t. conv src = Some t \<Longrightarrow> err = ERROR_INSUFFICIENT_BUFFER" using c1(3) n by auto
      have sz: "case wc_size cp src of Inr n \<Rightarrow> map_option length (conv src) = Some n
          | Inl err \<Rightarrow> conv src = None \<and> FAILED (HRESULT_FROM_WIN32 err)"
        using assms(4) by (simp add: wide_cp_ok_def)
      show ?thesis
      proof (cases "HRESULT_FROM_WIN32 err = HRESULT_FROM_WIN32 ERROR_INSUFFICIENT_BUFFER")
        case False
        then have "conv src = None" using e(2) by (cases "conv src") auto
        then show ?thesis
          unfolding unfold c1(1) bind.bind_lunit using assms(5) ok1 n False aw_post_fail [OF c1(2) e(1)] by simp
      next
        case insufficient: True
        note head = unfold c1(1) bind.bind_lunit
        show ?thesis
        proof (cases "wc_size cp src")
          case (Inl err')
          then show ?thesis
            unfolding head using assms(5) ok1 n insufficient sz aw_post_fail [OF c1(2), of "HRESULT_FROM_WIN32 err'"]
            by simp
        next
          case (Inr m)
          then obtain t where t: "conv src = Some t" "length t = m" using sz by auto
          have km: "u32 (k + m + 1) = k + m + 1" "k + m + 1 \<le> MAXDWORD" "k + m < 4294967296"
            using assms(7) t by (simp_all add: MAXDWORD_def)
          obtain ok B where B: "BUFFER_Resize 1 heap (u32 (k + m + 1)) False (ma_Buff ?s2) = (ok, B)" by force
          note r = aw_mid_resize [OF c1(2) assms(2) B]
          let ?s3 = "?s2\<lparr>ma_Buff := B\<rparr>"
          show ?thesis
          proof (cases ok)
            case False
            then have "returns (aw_finish E_OUTOFMEMORY m k ?s3) ?post"
              using r(5) km by (intro aw_post_fail [OF r(1)]) auto
            then show ?thesis unfolding head using assms(5) ok1 n insufficient Inr B False by simp
          next
            case True
            obtain n' err' b' where c2: "WideCharToMultiByte cp src (a_str ?s3) k (a_size ?s3 - k) = Some (n', err', b')"
              "aw_mid k s (a_set ?s3 b')"
              "if n' = 0 then FAILED (HRESULT_FROM_WIN32 err') \<and>
                 (\<forall>t. conv src = Some t \<longrightarrow> err' = ERROR_INSUFFICIENT_BUFFER \<and> length (a_str ?s3) - k < length t)
               else \<exists>t. conv src = Some t \<and> n' = length t \<and> k + n' \<le> length b' \<and> take (k + n') b' = take k (a_text s) @ t"
              by (rule aw_convert [OF r(1) assms(4,5)])
            have l: "k + m + 1 \<le> length (a_str ?s3)" using r(3) True km(1) by simp
            have n': "n' \<noteq> 0" using c2(3) t l by (auto split: if_splits)
            have c3: "n' = m" "take (k + n') b' = take k (a_text s) @ t" using c2(3) n' t by auto
            have "length b' = length (a_str ?s3)"
              using c2(2) r(1) by (simp add: aw_mid_def buffer_inv_def)
            then have "returns (aw_finish S_OK n' k (a_set ?s3 b')) ?post"
              using aw_post_done [OF c2(2) n', of t heap] c3 l km(3) t(1) by simp
            then show ?thesis unfolding head using assms(5) ok1 n insufficient Inr B True c2(1) n' by simp
          qed
        qed
      qed
    qed
  qed
qed

lemma STRA_AuxAppendW_empty:
  assumes "stra_inv s"
  shows "STRA_AuxAppendW heap cp [] k s = Some (S_OK, s)"
  using stra_invD(3,4) [OF assms] list_update_id [of "a_str s" "ma_cchLen s"]
  by (simp add: STRA_AuxAppendW_def aw_finish_def a_set_def)

text \<open>Copying the empty wide string leaves the old text in place.\<close>

lemma CopyW_empty_keeps_text:
  assumes "stra_inv s"
  shows "STRA_CopyW heap cp [] s = Some (S_OK, s)"
proof -
  have "StringCchLengthW ([] @ [0 :: WCHAR]) STRSAFE_MAX_CCH = (S_OK, 0)"
    using StringCchLengthW_nul_free [of "[] :: wstr"] by (simp add: STRSAFE_MAX_CCH_def)
  then show ?thesis using STRA_AuxAppendW_empty [OF assms] by (simp add: STRA_CopyW_def)
qed

section \<open>Properties\<close>

text \<open>
  C16: Unescaping an escaped text gives the text back: for every valid string without NUL that leaves
  room for three bytes per byte, \<open>Escape\<close> succeeds when memory does, and \<open>Unescape\<close> on its result
  restores the original text, whatever the system code page is; neither accesses memory out of bounds.
\<close>

theorem Escape_round_trip:
  assumes "stra_inv s" "heap_ok 1 heap" "heap_total heap" "0 \<notin> set (a_text s)" "esc_small s"
    "InlineBuffer \<noteq> []" "length InlineBuffer \<le> MAXDWORD" "\<forall>w. length (acp w) \<le> 6"
  shows "returns (Escape heap err InlineBuffer s) (\<lambda>(hr, s1). SUCCEEDED hr \<and> stra_inv s1 \<and>
    a_text s1 = escaped FShouldEscapeUrl (a_text s) \<and>
    returns (Unescape acp s1) (\<lambda>s2. stra_inv s2 \<and> a_text s2 = a_text s))"
proof -
  have p: "FShouldEscapeUrl 37" by (simp add: FShouldEscapeUrl_def)
  have tw: "takeWhile (\<lambda>c. c \<noteq> 0) (a_text s) = a_text s"
    using assms(4) unfolding takeWhile_eq_all_conv by metis
  have "returns (Unescape acp s1) (\<lambda>s2. stra_inv s2 \<and> a_text s2 = a_text s)"
    if "stra_inv s1" "a_text s1 = escaped FShouldEscapeUrl (a_text s)" for s1
    using Unescape_spec [OF that(1) _ assms(8)] that(2) escaped_nul_free [OF assms(4), of FShouldEscapeUrl]
      unescaped_escaped [of FShouldEscapeUrl acp, OF p] tw by simp
  then show ?thesis
    using returns_mono [OF EscapeInternal_spec [OF assms(1,2,4,6,7), of FShouldEscapeUrl err]] assms(3,5)
    by (auto simp: Escape_def)
qed


text \<open>
  C23: Unescaping in place computes the text described by \<open>unescaped\<close>: the escape sequences are decoded
  up to the first NUL they produce, everything else stays, except that the text between a \<open>%\<close>
  that starts no escape sequence and the first escape sequence is dropped. No byte outside the string
  is accessed, and the result is a valid string again.
\<close>

theorem Unescape_correct:
  assumes "stra_inv s" "0 \<notin> set (a_text s)" "\<forall>w. length (acp w) \<le> 6"
  shows "returns (Unescape acp s) (\<lambda>s'. stra_inv s' \<and>
    a_text s' = takeWhile (\<lambda>c. c \<noteq> 0) (unescaped acp (a_text s)))"
  by (rule Unescape_spec [OF assms])

text \<open>The text dropped, on \<open>%zz%41b\<close>: the result is \<open>%Ab\<close>.\<close>

lemma Unescape_drops_text:
  "unescaped acp (LA ''%zz%41b'') = LA ''%Ab''"
  by code_simp

text \<open>
  C35: Appending a wide string converts it behind the text and keeps the string valid whatever the code
  page and the allocator do: on success the converted text follows the old one, on failure length and
  text are the old ones, and it succeeds when memory does and the text can be converted.
\<close>

theorem STRA_AppendW_correct:
  assumes "stra_inv s" "heap_ok 1 heap" "wide_cp_ok cp conv" "0 \<notin> set src"
    "ma_cchLen s + length src + 1 \<le> STRSAFE_MAX_CCH"
    "\<And>t. conv src = Some t \<Longrightarrow> ma_cchLen s + length t + 1 \<le> MAXDWORD"
  shows "returns (STRA_AppendW heap cp src s) (\<lambda>(hr, s'). stra_inv s' \<and>
    (if src = [] then SUCCEEDED hr \<and> s' = s
     else if SUCCEEDED hr then \<exists>t. conv src = Some t \<and> a_text s' = a_text s @ t
     else ma_cchLen s' = ma_cchLen s \<and> a_text s' = a_text s) \<and>
    (src \<noteq> [] \<and> heap_total heap \<and> conv src \<noteq> None \<longrightarrow> SUCCEEDED hr))"
proof -
  have l: "StringCchLengthW (src @ [0]) STRSAFE_MAX_CCH = (S_OK, length src)"
    using StringCchLengthW_nul_free [OF assms(4)] assms(5) by simp
  show ?thesis
  proof (cases "src = []")
    case True
    then show ?thesis using l assms(1) by (simp add: STRA_AppendW_def)
  next
    case False
    have a: "ma_cchLen s + length src + 1 \<le> MAXDWORD"
      using assms(5) by (simp add: STRSAFE_MAX_CCH_def MAXDWORD_def)
    have old: "take (ma_cchLen s) (a_text s) = a_text s" using length_a_text [OF assms(1)] by simp
    have new: "take (ma_cchLen s) (a_text s') = a_text s'" if "stra_inv s'" "ma_cchLen s' = ma_cchLen s" for s'
      using length_a_text [OF that(1)] that(2) by simp
    have e: "STRA_AppendW heap cp src s = STRA_AuxAppendW heap cp src (ma_cchLen s) s"
      using l False by (simp add: STRA_AppendW_def a_QueryCB_def)
    have post: "\<forall>t. conv src = Some t \<longrightarrow> ma_cchLen s + length t + 1 \<le> MAXDWORD" using assms(6) by blast
    show ?thesis
      unfolding e
    proof (rule returns_mono [OF STRA_AuxAppendW_spec [OF assms(1,2) order_refl assms(3) False a post]])
      fix r
      assume "aw_post heap (conv src) (ma_cchLen s) s r"
      then show "case r of (hr, s') \<Rightarrow> stra_inv s' \<and>
          (if src = [] then SUCCEEDED hr \<and> s' = s
           else if SUCCEEDED hr then \<exists>t. conv src = Some t \<and> a_text s' = a_text s @ t
           else ma_cchLen s' = ma_cchLen s \<and> a_text s' = a_text s) \<and>
          (src \<noteq> [] \<and> heap_total heap \<and> conv src \<noteq> None \<longrightarrow> SUCCEEDED hr)"
        using False old new [of "snd r"] by (cases r) (auto simp: aw_post_def)
    qed
  qed
qed

definition byte_heap :: aheap where
  "byte_heap n = Some (replicate n 0)"

lemma byte_heap_ok [simp]: "heap_ok 1 byte_heap" "heap_ok (Suc 0) byte_heap" "heap_total byte_heap"
  by (simp_all add: heap_ok_def heap_total_def byte_heap_def)

definition ascii_cp :: wide_cp where
  "ascii_cp = \<lparr>wc_convert = (\<lambda>src room. if length src \<le> room then Inr (map ucast src)
       else Inl (ERROR_INSUFFICIENT_BUFFER, [])), wc_size = (\<lambda>src. Inr (length src))\<rparr>"

lemma ascii_cp_ok: "wide_cp_ok ascii_cp (\<lambda>src. Some (map ucast src))"
  by (simp add: wide_cp_ok_def ascii_cp_def)

definition stra_ab :: STRA where
  "stra_ab = \<lparr>ma_Buff = \<lparr>m_cbBuffer = 4, m_fHeapAllocated = True, m_pBuffer = [97, 37, 200, 0]\<rparr>, ma_cchLen = 3\<rparr>"

lemma stra_ab: "stra_inv stra_ab" "a_text stra_ab = [97, 37, 200]" "esc_small stra_ab" "ma_cchLen stra_ab = 3"
  by (simp_all add: stra_ab_def stra_inv_def buffer_inv_def a_text_def esc_small_def MAXDWORD_def numeral_3_eq_3)

lemma Escape_round_trip_witness:
  "returns (Escape byte_heap 8 (replicate 512 0) stra_ab) (\<lambda>(hr, s1). SUCCEEDED hr \<and> stra_inv s1 \<and>
    a_text s1 = escaped FShouldEscapeUrl (a_text stra_ab) \<and>
    returns (Unescape (\<lambda>w. [63]) s1) (\<lambda>s2. stra_inv s2 \<and> a_text s2 = a_text stra_ab))"
  by (rule Escape_round_trip) (simp_all add: stra_ab MAXDWORD_def)

lemma Unescape_correct_witness:
  "returns (Unescape (\<lambda>w. [63]) stra_ab) (\<lambda>s'. stra_inv s' \<and>
    a_text s' = takeWhile (\<lambda>c. c \<noteq> 0) (unescaped (\<lambda>w. [63]) (a_text stra_ab)))"
  by (rule Unescape_correct) (simp_all add: stra_ab)

lemma STRA_AppendW_correct_witness:
  "returns (STRA_AppendW byte_heap ascii_cp (L ''x'') stra_ab) (\<lambda>(hr, s'). stra_inv s' \<and>
    (if L ''x'' = [] then SUCCEEDED hr \<and> s' = stra_ab
     else if SUCCEEDED hr then \<exists>t. Some (map ucast (L ''x'')) = Some t \<and> a_text s' = a_text stra_ab @ t
     else ma_cchLen s' = ma_cchLen stra_ab \<and> a_text s' = a_text stra_ab) \<and>
    (L ''x'' \<noteq> [] \<and> heap_total byte_heap \<and> Some (map ucast (L ''x'') :: astr) \<noteq> None \<longrightarrow> SUCCEEDED hr))"
  by (rule STRA_AppendW_correct [OF _ _ ascii_cp_ok]) (simp_all add: stra_ab STRSAFE_MAX_CCH_def MAXDWORD_def)

end
