(* ===== verification/ProcEnv.thy ===== *)
theory ProcEnv
  imports Utility StrA
begin

section \<open>Launching the backend (RequestHandler/outofprocess/serverprocess.cxx, first part)\<close>

text \<open>
  What \<open>SERVER_PROCESS\<close> prepares before it creates the backend process: the port it has to listen on,
  the variables that pass port, path and token to it, the environment block and the command line.
  The network stack, \<open>rand\<close>, the UUID generator, the environment of the worker process and the file
  system are parameters; answers that may change over time are indexed by a clock that advances with
  every question.
\<close>

definition MIN_PORT :: nat where "MIN_PORT = 1025"
definition MAX_PORT :: nat where "MAX_PORT = 48000"
definition MAX_RETRY :: nat where "MAX_RETRY = 10"

definition ASPNETCORE_PORT_ENV_STR :: wstr where "ASPNETCORE_PORT_ENV_STR = L ''ASPNETCORE_PORT=''"
definition ASPNETCORE_APP_PATH_ENV_STR :: wstr where "ASPNETCORE_APP_PATH_ENV_STR = L ''ASPNETCORE_APPL_PATH=''"
definition ASPNETCORE_APP_TOKEN_ENV_STR :: wstr where "ASPNETCORE_APP_TOKEN_ENV_STR = L ''ASPNETCORE_TOKEN=''"

text \<open>\<open>ERROR_PORT_NOT_SET\<close> and \<open>ERROR_INVALID_ENVIRONMENT\<close> are \<open>winerror.h\<close> codes.\<close>

definition ERROR_PORT_NOT_SET :: DWORD where "ERROR_PORT_NOT_SET = 642"
definition ERROR_INVALID_ENVIRONMENT :: DWORD where "ERROR_INVALID_ENVIRONMENT = 1007"
definition WSAECONNREFUSED :: DWORD where "WSAECONNREFUSED = 10061"

lemma failed_launch_codes [simp]:
  "FAILED (HRESULT_FROM_WIN32 ERROR_PORT_NOT_SET)" "FAILED (HRESULT_FROM_WIN32 ERROR_INVALID_ENVIRONMENT)"
  by (simp_all add: ERROR_PORT_NOT_SET_def ERROR_INVALID_ENVIRONMENT_def hresult_defs)

subsection \<open>Is somebody listening on a port?\<close>

text \<open>
  \<open>net_table t n\<close> is \<open>GetExtendedTcpTable\<close> with a buffer of \<open>n\<close> bytes: the error code and the size it
  asks for, or the listeners (local port as stored in the table, process id). The socket calls give
  the error code of a failure.
\<close>

record net_os =
  net_nsi_missing :: bool
  net_rand :: "nat \<Rightarrow> nat"
  net_alloc :: "nat \<Rightarrow> bool"
  net_table :: "nat \<Rightarrow> nat \<Rightarrow> DWORD \<times> nat + (DWORD \<times> DWORD) list"
  net_socket :: "nat \<Rightarrow> DWORD option"
  net_pton :: "nat \<Rightarrow> DWORD option"
  net_connect :: "nat \<Rightarrow> 16 word \<Rightarrow> DWORD option"
  net_close :: "nat \<Rightarrow> DWORD option"

definition ntohs :: "16 word \<Rightarrow> 16 word" where
  "ntohs w = push_bit 8 w OR drop_bit 8 w"

text \<open>The loop ends when the table fits; \<open>None\<close> is a loop that never ends.\<close>

partial_function (option) tcp_listeners :: "net_os \<Rightarrow> nat \<Rightarrow> nat \<Rightarrow> ((HRESULT + (DWORD \<times> DWORD) list) \<times> nat) option" where
  "tcp_listeners S dwSize t =
     (let n = u32 (dwSize + 200)
      in if \<not> net_alloc S t then Some (Inl E_OUTOFMEMORY, Suc t)
         else case net_table S t n of
           Inr rows \<Rightarrow> Some (Inr rows, Suc t)
         | Inl (err, n') \<Rightarrow>
             if err = ERROR_INSUFFICIENT_BUFFER then tcp_listeners S n' (Suc t)
             else Some (Inl (HRESULT_FROM_WIN32 err), Suc t))"

fun listener_on :: "DWORD \<Rightarrow> (DWORD \<times> DWORD) list \<Rightarrow> DWORD option" where
  "listener_on dwPort [] = None"
| "listener_on dwPort ((dwLocalPort, pid) # rows) =
     (if ucast (ntohs (ucast dwLocalPort)) = dwPort then Some pid else listener_on dwPort rows)"

text \<open>Pinging the port with a socket: the result code and whether the connection was accepted.\<close>

definition ping :: "net_os \<Rightarrow> DWORD \<Rightarrow> nat \<Rightarrow> HRESULT \<times> bool" where
  "ping S dwPort t =
     (case net_socket S t of
        Some err \<Rightarrow> (HRESULT_FROM_WIN32 err, False)
      | None \<Rightarrow>
          let (hr, fReady) =
                (case net_pton S t of
                   Some err \<Rightarrow> (HRESULT_FROM_WIN32 err, False)
                 | None \<Rightarrow>
                     (case net_connect S t (ucast dwPort) of
                        Some err \<Rightarrow>
                          (if HRESULT_FROM_WIN32 err = HRESULT_FROM_WIN32 WSAECONNREFUSED then S_OK
                           else HRESULT_FROM_WIN32 err, False)
                      | None \<Rightarrow> (S_OK, True)))
          in (case net_close S t of Some err \<Rightarrow> HRESULT_FROM_WIN32 err | None \<Rightarrow> hr, fReady))"

text \<open>The result is the code, the process id (0 when it is not known), the answer and the new time.\<close>

definition CheckIfServerIsUp :: "net_os \<Rightarrow> DWORD \<Rightarrow> nat \<Rightarrow> (HRESULT \<times> DWORD \<times> bool \<times> nat) option" where
  "CheckIfServerIsUp S dwPort t =
     (if \<not> net_nsi_missing S then do {
        (r, t') \<leftarrow> tcp_listeners S 1000 t;
        Some (case r of
            Inl hr \<Rightarrow> (hr, 0, False, t')
          | Inr rows \<Rightarrow>
              (case listener_on dwPort rows of
                 Some pid \<Rightarrow> (S_OK, pid, True, t')
               | None \<Rightarrow> (S_OK, 0, False, t')))
      }
      else let (hr, fReady) = ping S dwPort t in Some (hr, 0, fReady, Suc t))"

subsection \<open>Choosing a port\<close>

partial_function (option) draw_port :: "net_os \<Rightarrow> nat \<Rightarrow> nat \<Rightarrow> (nat \<times> nat) option" where
  "draw_port S dwExcludedPort t =
     (let port = net_rand S t mod (MAX_PORT - MIN_PORT) + MIN_PORT + 1
      in if port = dwExcludedPort then draw_port S dwExcludedPort (Suc t) else Some (port, Suc t))"

function random_port_loop :: "net_os \<Rightarrow> nat \<Rightarrow> nat \<Rightarrow> nat \<Rightarrow> (HRESULT \<times> nat \<times> nat) option" where
  "random_port_loop S dwExcludedPort cRetry t = do {
     (port, t1) \<leftarrow> draw_port S dwExcludedPort t;
     (hr, pid, fPortInUse, t2) \<leftarrow> CheckIfServerIsUp S (word_of_nat port) t1;
     (if \<not> fPortInUse then Some (hr, port, t2)
      else if Suc cRetry < MAX_RETRY then random_port_loop S dwExcludedPort (Suc cRetry) t2
      else Some (HRESULT_FROM_WIN32 ERROR_PORT_NOT_SET, port, t2))
   }"
  by pat_completeness auto

termination
  by (relation "measure (\<lambda>(_, _, cRetry, _). MAX_RETRY - cRetry)") auto

declare random_port_loop.simps [simp del]

definition GetRandomPort :: "net_os \<Rightarrow> nat \<Rightarrow> nat \<Rightarrow> (HRESULT \<times> nat \<times> nat) option" where
  "GetRandomPort S dwExcludedPort t =
     (if net_nsi_missing S then do { (port, t1) \<leftarrow> draw_port S dwExcludedPort t; Some (S_OK, port, t1) }
      else random_port_loop S dwExcludedPort 0 t)"

text \<open>\<open>_wtoi\<close>: white space, a sign, digits; too large numbers saturate.\<close>

definition iswspace :: "WCHAR \<Rightarrow> bool" where
  "iswspace c \<longleftrightarrow> c = 32 \<or> 9 \<le> c \<and> c \<le> 13"

definition wtoi :: "wstr \<Rightarrow> int" where
  "wtoi s =
     (let s1 = dropWhile iswspace s;
          neg = (s1 \<noteq> [] \<and> hd s1 = of_char CHR ''-'');
          s2 = (if s1 \<noteq> [] \<and> (hd s1 = of_char CHR ''-'' \<or> hd s1 = of_char CHR ''+'') then tl s1 else s1);
          n = int (decimal_value (takeWhile is_digit s2))
      in if neg then max (- n) (- 2147483648) else min n 2147483647)"

text \<open>
  The pointer \<open>QueryValue\<close> returns is never NULL, so the second branch is not taken; it is kept as
  the code has it. The result is the code, whether the error is critical, \<open>m_dwPort\<close>, \<open>m_struPort\<close>,
  the table and the time.
\<close>

definition value_pointer :: "ENVIRONMENT_VAR_ENTRY \<Rightarrow> wstr option" where
  "value_pointer e = Some (QueryValue e)"

definition port_entry :: "env_os \<Rightarrow> DWORD \<Rightarrow> STRU \<Rightarrow> env_table \<Rightarrow> (HRESULT \<times> STRU \<times> env_table) option" where
  "port_entry os m_dwPort struPort st =
     (let buffer = decimal (sint m_dwPort)
      in if buffer = [] then Some (E_INVALIDARG, struPort, st)
         else case new_entry os st of
           (None, st1) \<Rightarrow> Some (E_OUTOFMEMORY, struPort, st1)
         | (Some q, st1) \<Rightarrow> do {
             (hr, st2) \<leftarrow> init_and_insert os q ASPNETCORE_PORT_ENV_STR buffer st1;
             (if FAILED hr then Some (hr, struPort, deref_entry (Some q) st2)
              else do {
                (hr, struPort') \<leftarrow> STRU_Copy (os_heap os) buffer struPort;
                Some (hr, struPort', deref_entry (Some q) st2)
              })
           })"

definition choose_port :: "env_os \<Rightarrow> net_os \<Rightarrow> STRU \<Rightarrow> env_table \<Rightarrow> nat \<Rightarrow>
    (HRESULT \<times> bool \<times> DWORD \<times> STRU \<times> env_table \<times> nat) option" where
  "choose_port os S struPort st t = do {
     (hr, port, t') \<leftarrow> GetRandomPort S 0 t;
     (if FAILED hr then Some (hr, False, word_of_nat port, struPort, st, t')
      else do {
        (hr, struPort', st') \<leftarrow> port_entry os (word_of_nat port) struPort st;
        Some (hr, False, word_of_nat port, struPort', st', t')
      })
   }"

definition SetupListenPort :: "env_os \<Rightarrow> net_os \<Rightarrow> STRU \<Rightarrow> env_table \<Rightarrow> nat \<Rightarrow>
    (HRESULT \<times> bool \<times> DWORD \<times> STRU \<times> env_table \<times> nat) option" where
  "SetupListenPort os S struPort st t = do {
     (pEntry, T) \<leftarrow> FindKey (et_vt st) ASPNETCORE_PORT_ENV_STR (et_table st);
     (let st1 = st\<lparr>et_table := T\<rparr>
      in case pEntry of
        None \<Rightarrow> choose_port os S struPort st1 t
      | Some p \<Rightarrow>
          (let e = et_entries st1 p
           in if value_pointer e \<noteq> None \<or> QueryValue e \<noteq> [] then
                (let m_dwPort = word_of_int (wtoi (QueryValue e))
                 in if MAX_PORT < unat m_dwPort \<or> unat m_dwPort < MIN_PORT
                    then Some (E_INVALIDARG, True, m_dwPort, struPort, deref_entry (Some p) st1, t)
                    else do {
                      (hr, struPort') \<leftarrow> STRU_Copy (os_heap os) (QueryValue e) struPort;
                      Some (hr, False, m_dwPort, struPort', deref_entry (Some p) st1, t)
                    })
              else do {
                T' \<leftarrow> DeleteKey (et_vt st1) ASPNETCORE_PORT_ENV_STR (et_table st1);
                choose_port os S struPort (deref_entry (Some p) (st1\<lparr>et_table := T'\<rparr>)) t
              }))
   }"

subsection \<open>Path and token\<close>

definition delete_and_release :: "wstr \<Rightarrow> env_table \<Rightarrow> env_table option" where
  "delete_and_release key st = do {
     (pEntry, T) \<leftarrow> FindKey (et_vt st) key (et_table st);
     (case pEntry of
        None \<Rightarrow> Some (st\<lparr>et_table := T\<rparr>)
      | Some p \<Rightarrow> do {
          T' \<leftarrow> DeleteKey (et_vt st) key T;
          Some (deref_entry (Some p) (st\<lparr>et_table := T'\<rparr>))
        })
   }"

definition add_entry :: "env_os \<Rightarrow> wstr \<Rightarrow> wstr \<Rightarrow> env_table \<Rightarrow> (HRESULT \<times> env_table) option" where
  "add_entry os name val st =
     (case new_entry os st of
        (None, st1) \<Rightarrow> Some (E_OUTOFMEMORY, st1)
      | (Some q, st1) \<Rightarrow> do {
          (hr, st2) \<leftarrow> init_and_insert os q name val st1;
          Some (hr, deref_entry (Some q) st2)
        })"

definition SetupAppPath :: "env_os \<Rightarrow> STRU \<Rightarrow> env_table \<Rightarrow> (HRESULT \<times> env_table) option" where
  "SetupAppPath os m_struAppVirtualPath st = do {
     st1 \<leftarrow> delete_and_release ASPNETCORE_APP_PATH_ENV_STR st;
     add_entry os ASPNETCORE_APP_PATH_ENV_STR (c_text m_struAppVirtualPath) st1
   }"

text \<open>
  \<open>uuid\<close> is the text \<open>UuidToStringA\<close> makes of a new UUID, or the status of the call that fails, which
  is returned as if it were an \<open>HRESULT\<close>. The failure of \<open>CopyA\<close> does not reach \<open>hr\<close>.
\<close>

definition make_guid :: "aheap \<Rightarrow> (HRESULT + astr) \<Rightarrow> STRA \<Rightarrow> (bool \<times> HRESULT \<times> STRA) option" where
  "make_guid aheap uuid m_straGuid =
     (if \<not> a_IsEmpty m_straGuid then Some (True, S_OK, m_straGuid)
      else case uuid of
        Inl rpcStatus \<Rightarrow> Some (False, rpcStatus, m_straGuid)
      | Inr pszLogUuid \<Rightarrow> do {
          (hr, g) \<leftarrow> STRA_Copy aheap pszLogUuid m_straGuid;
          Some (SUCCEEDED hr, hr, g)
        })"

definition token_entry :: "env_os \<Rightarrow> code_page \<Rightarrow> HRESULT \<Rightarrow> STRA \<Rightarrow> env_table \<Rightarrow> (HRESULT \<times> env_table) option" where
  "token_entry os acp hr m_straGuid st =
     (case new_entry os st of
        (None, st1) \<Rightarrow> Some (E_OUTOFMEMORY, st1)
      | (Some q, st1) \<Rightarrow> do {
          guid \<leftarrow> cstr (a_str m_straGuid);
          (hrCopy, strAppToken) \<leftarrow> STRU_CopyA (os_heap os) acp (Some guid) STRU_new;
          (if FAILED hrCopy then Some (hr, deref_entry (Some q) st1)
           else do {
             (hr', st2) \<leftarrow> init_and_insert os q ASPNETCORE_APP_TOKEN_ENV_STR (c_text strAppToken) st1;
             Some (hr', deref_entry (Some q) st2)
           })
        })"

definition SetupAppToken :: "env_os \<Rightarrow> aheap \<Rightarrow> wide_cp \<Rightarrow> code_page \<Rightarrow> (HRESULT + astr) \<Rightarrow> STRA \<Rightarrow> env_table \<Rightarrow>
    (HRESULT \<times> STRA \<times> env_table) option" where
  "SetupAppToken os aheap utf8 acp uuid m_straGuid st = do {
     (pEntry, T) \<leftarrow> FindKey (et_vt st) ASPNETCORE_APP_TOKEN_ENV_STR (et_table st);
     (let st1 = st\<lparr>et_table := T\<rparr>
      in case pEntry of
        Some p \<Rightarrow> do {
          g1 \<leftarrow> STRA_Reset m_straGuid;
          (hr, g2) \<leftarrow> STRA_CopyW aheap utf8 (QueryValue (et_entries st1 p)) g1;
          Some (hr, g2, deref_entry (Some p) st1)
        }
      | None \<Rightarrow> do {
          (made, hr, g) \<leftarrow> make_guid aheap uuid m_straGuid;
          (if \<not> made then Some (hr, g, st1)
           else do {
             (hr', st2) \<leftarrow> token_entry os acp hr g st1;
             Some (hr', g, st2)
           })
        })
   }"

subsection \<open>The environment block\<close>

text \<open>
  One line \<open>NAME=value\<close> of the worker process: the configured value wins, and its entry is deleted
  because it has been output. The result is the code, whether the loop goes on, and the multi-string,
  the scratch string and the table.
\<close>

definition output_line :: "wheap \<Rightarrow> wstr \<Rightarrow> WCHAR MULTISZ \<Rightarrow> STRU \<Rightarrow> env_table \<Rightarrow>
    (HRESULT \<times> WCHAR MULTISZ \<times> STRU \<times> env_table) option" where
  "output_line heap pszCurrentVariable M strEnvVar st =
     (case wcschr (pszCurrentVariable @ [0]) 61 of
        None \<Rightarrow> Some (HRESULT_FROM_WIN32 ERROR_INVALID_ENVIRONMENT, M, strEnvVar, st)
      | Some k \<Rightarrow> do {
          (hr, v1) \<leftarrow> STRU_CopyN heap (pszCurrentVariable @ [0]) (k + 1) strEnvVar;
          (if FAILED hr then Some (hr, M, v1, st)
           else do {
             (pEntry, T) \<leftarrow> FindKey (et_vt st) (c_text v1) (et_table st);
             (let st1 = st\<lparr>et_table := T\<rparr>
              in case pEntry of
                None \<Rightarrow> do {
                  (_, M') \<leftarrow> MULTISZ_Append 2 heap (Some pszCurrentVariable) M;
                  Some (hr, M', v1, st1)
                }
              | Some p \<Rightarrow> do {
                  (hr, v2) \<leftarrow> STRU_Append heap (QueryValue (et_entries st1 p)) v1;
                  (if FAILED hr then Some (hr, M, v2, st1)
                   else do {
                     (_, M') \<leftarrow> MULTISZ_AuxAppend 2 heap (QueryStr v2) (u32 (QueryCCH v2 * 2)) True M;
                     T' \<leftarrow> DeleteKey (et_vt st1) (QueryName (et_entries st1 p)) (et_table (deref_entry (Some p) st1));
                     v3 \<leftarrow> STRU_Reset v2;
                     Some (hr, M', v3, st1\<lparr>et_table := T'\<rparr>)
                   })
                })
           })
        })"

fun output_lines :: "wheap \<Rightarrow> wstr list \<Rightarrow> WCHAR MULTISZ \<Rightarrow> STRU \<Rightarrow> env_table \<Rightarrow>
    (HRESULT \<times> WCHAR MULTISZ \<times> env_table) option" where
  "output_lines heap [] M strEnvVar st = Some (S_OK, M, st)"
| "output_lines heap (line # lines) M strEnvVar st = do {
     (hr, M1, v1, st1) \<leftarrow> output_line heap line M strEnvVar st;
     (if FAILED hr then Some (hr, M1, st1) else output_lines heap lines M1 v1 st1)
   }"

text \<open>\<open>GetEnvironmentStringsW\<close> gives the lines of the process, or nothing.\<close>

definition OutputEnvironmentVariables :: "wheap \<Rightarrow> wstr list option \<Rightarrow> WCHAR MULTISZ \<Rightarrow> env_table \<Rightarrow>
    (HRESULT \<times> WCHAR MULTISZ \<times> env_table) option" where
  "OutputEnvironmentVariables heap env_strings mszOutput st = do {
     M \<leftarrow> MULTISZ_Reset mszOutput;
     (case env_strings of
        None \<Rightarrow> Some (HRESULT_FROM_WIN32 ERROR_INVALID_ENVIRONMENT, M, st)
      | Some lines \<Rightarrow> do {
          (hr, M1, st1) \<leftarrow> output_lines heap lines M STRU_new st;
          (if FAILED hr then Some (hr, M1, st1)
           else do {
             r \<leftarrow> Apply (\<lambda>p r. r \<bind> CopyToMultiSz heap (et_entries st1) p) (et_table st1) (Some M1);
             M2 \<leftarrow> r;
             Some (hr, M2, st1)
           })
        })
   }"

subsection \<open>The command line\<close>

text \<open>
  \<open>fullpath p n\<close> is \<open>_wfullpath\<close> with a buffer of \<open>n\<close> characters, \<open>can_open\<close> says that \<open>_wfsopen\<close> finds the
  file, \<open>new_ok\<close> that the buffer can be allocated.
\<close>

definition executable_path :: "wheap \<Rightarrow> (nat \<Rightarrow> bool) \<Rightarrow> (wstr \<Rightarrow> nat \<Rightarrow> wstr option) \<Rightarrow> (wstr \<Rightarrow> bool) \<Rightarrow> wstr \<Rightarrow> wstr \<Rightarrow>
    (HRESULT \<times> wstr) option" where
  "executable_path heap new_ok fullpath can_open physicalPath pszPath =
     (if wcsstr (pszPath @ [0]) (L '':'') = None \<and> wcsstr (pszPath @ [0]) (L ''%'') = None then do {
        (hr, r1) \<leftarrow> STRU_Copy heap physicalPath STRU_new;
        (if FAILED hr then Some (hr, pszPath)
         else do {
           (hr, r2) \<leftarrow> STRU_Append heap [BACKSLASH] r1;
           (if FAILED hr then Some (hr, pszPath)
            else do {
              (hr, strRelativePath) \<leftarrow> STRU_Append heap pszPath r2;
              (if FAILED hr then Some (hr, pszPath)
               else
                 let dwBufferSize = u32 (QueryCCH strRelativePath + 1)
                 in if \<not> new_ok dwBufferSize then Some (E_OUTOFMEMORY, pszPath)
                    else case fullpath (c_text strRelativePath) dwBufferSize of
                      None \<Rightarrow> Some (HRESULT_FROM_WIN32 ERROR_INVALID_PARAMETER, pszPath)
                    | Some pszFullPath \<Rightarrow> Some (hr, if can_open pszFullPath then pszFullPath else pszPath))
            })
         })
      }
      else Some (S_OK, pszPath))"

definition SetupCommandLine :: "wheap \<Rightarrow> (nat \<Rightarrow> bool) \<Rightarrow> (wstr \<Rightarrow> nat \<Rightarrow> wstr option) \<Rightarrow> (wstr \<Rightarrow> bool) \<Rightarrow>
    STRU \<Rightarrow> STRU \<Rightarrow> STRU \<Rightarrow> STRU \<Rightarrow> (HRESULT \<times> STRU) option" where
  "SetupCommandLine heap new_ok fullpath can_open m_ProcessPath m_struPhysicalPath m_Arguments m_struCommandLine =
     (if \<not> IsEmpty m_struCommandLine then Some (S_OK, m_struCommandLine)
      else do {
        (hr, pszPath) \<leftarrow> executable_path heap new_ok fullpath can_open (c_text m_struPhysicalPath) (c_text m_ProcessPath);
        (if FAILED hr then Some (hr, m_struCommandLine)
         else do {
           (hr, c1) \<leftarrow> STRU_Copy heap pszPath m_struCommandLine;
           (if FAILED hr then Some (hr, c1)
            else do {
              (hr, c2) \<leftarrow> STRU_Append heap (L '' '') c1;
              (if FAILED hr then Some (hr, c2) else STRU_Append heap (c_text m_Arguments) c2)
            })
         })
      })"

subsection \<open>Ports\<close>

lemma port_bound: "r mod 46975 + 1026 \<le> (48000 :: nat)"
  using mod_less_divisor [of 46975 r] by linarith

lemma draw_port_range:
  "draw_port S x t = Some y \<Longrightarrow> MIN_PORT < fst y \<and> fst y \<le> MAX_PORT \<and> fst y \<noteq> x \<and> t < snd y"
proof (erule draw_port.raw_induct [rotated])
  fix f S x t y
  assume IH: "\<And>S x t y. f S x t = Some y \<Longrightarrow> MIN_PORT < fst y \<and> fst y \<le> MAX_PORT \<and> fst y \<noteq> x \<and> t < snd y"
    and run: "(let port = net_rand S t mod (MAX_PORT - MIN_PORT) + MIN_PORT + 1
       in if port = x then f S x (Suc t) else Some (port, Suc t)) = Some y"
  show "MIN_PORT < fst y \<and> fst y \<le> MAX_PORT \<and> fst y \<noteq> x \<and> t < snd y"
  proof (cases "net_rand S t mod (MAX_PORT - MIN_PORT) + MIN_PORT + 1 = x")
    case True
    then have "f S x (Suc t) = Some y" using run by (simp add: Let_def)
    from IH [OF this] show ?thesis by simp
  next
    case False
    then show ?thesis using run port_bound [of "net_rand S t"] by (auto simp: Let_def MIN_PORT_def MAX_PORT_def)
  qed
qed

text \<open>Without an excluded port the first draw is taken.\<close>

definition port_of_rand :: "nat \<Rightarrow> nat" where
  "port_of_rand r = r mod (MAX_PORT - MIN_PORT) + MIN_PORT + 1"

lemma draw_port_first: "draw_port S 0 t = Some (port_of_rand (net_rand S t), Suc t)"
  by (subst draw_port.simps) (simp add: MIN_PORT_def port_of_rand_def)

lemma port_of_rand_range: "MIN_PORT < port_of_rand r" "port_of_rand r \<le> MAX_PORT"
  using mod_less_divisor [of 46975 r] by (auto simp: port_of_rand_def MIN_PORT_def MAX_PORT_def)

text \<open>With the \<open>rand\<close> of the C runtime, which is below 32768, the upper ports are never drawn.\<close>

lemma high_ports_never_drawn: "r \<le> 32767 \<Longrightarrow> port_of_rand r \<le> 33793"
  by (simp add: port_of_rand_def MIN_PORT_def MAX_PORT_def)

text \<open>
  What is documented of \<open>GetExtendedTcpTable\<close>: its error codes differ from \<open>NO_ERROR\<close>, and a buffer that is
  too small is refused with the larger size that is needed. The sizes stay below 4 GB less the 200 bytes
  that the code adds. The table may change in any way between two calls, the queries and the allocations may fail.
\<close>

definition tcp_table_ok :: "net_os \<Rightarrow> bool" where
  "tcp_table_ok S \<longleftrightarrow> (\<forall>t n e n'. net_table S t n = Inl (e, n') \<longrightarrow>
     e \<noteq> 0 \<and> (e = ERROR_INSUFFICIENT_BUFFER \<longrightarrow> n < n' \<and> n' + 200 < 4294967296))"

lemma tcp_table_okD:
  assumes "tcp_table_ok S" "net_table S t n = Inl (e, n')"
  shows "e \<noteq> 0" "e = ERROR_INSUFFICIENT_BUFFER \<Longrightarrow> n < n' \<and> n' + 200 < 4294967296"
  using assms by (auto simp: tcp_table_ok_def)

lemma failed_HRESULT_FROM_WIN32: "e \<noteq> 0 \<Longrightarrow> FAILED (HRESULT_FROM_WIN32 e)"
proof (cases "sint e \<le> 0")
  case True
  assume "e \<noteq> 0"
  then have "sint e \<noteq> 0" by (metis signed_0 signed_word_eqI)
  then show ?thesis using True by (simp add: FAILED_def HRESULT_FROM_WIN32_def)
next
  case False
  then have "bit (HRESULT_FROM_WIN32 e) 31" by (simp add: HRESULT_FROM_WIN32_def bit_simps)
  then show ?thesis using bit_last_iff [of "HRESULT_FROM_WIN32 e"] by (simp add: FAILED_def)
qed

text \<open>The reasons why a query fails: no memory, or an error of the network stack.\<close>

definition query_error :: "net_os \<Rightarrow> nat \<Rightarrow> HRESULT \<Rightarrow> bool" where
  "query_error S t hr \<longleftrightarrow> \<not> net_alloc S t \<and> hr = E_OUTOFMEMORY \<or>
     (\<exists>n err n'. net_table S t n = Inl (err, n') \<and> err \<noteq> ERROR_INSUFFICIENT_BUFFER \<and> hr = HRESULT_FROM_WIN32 err)"

lemma query_error_failed: "tcp_table_ok S \<Longrightarrow> query_error S t hr \<Longrightarrow> FAILED hr"
  by (auto simp: query_error_def intro: failed_HRESULT_FROM_WIN32 dest: tcp_table_okD(1))

lemma tcp_listeners_spec:
  assumes "tcp_table_ok S"
  shows "returns (tcp_listeners S n t) (\<lambda>(r, t'). \<exists>u. t \<le> u \<and> u < t' \<and>
    (case r of Inl hr \<Rightarrow> query_error S u hr | Inr rows \<Rightarrow> \<exists>m. net_table S u m = Inr rows))"
proof -
  have step: "returns (tcp_listeners S n t) (\<lambda>(r, t'). \<exists>u. t \<le> u \<and> u < t' \<and>
      (case r of Inl hr \<Rightarrow> query_error S u hr | Inr rows \<Rightarrow> \<exists>m. net_table S u m = Inr rows))"
    if more: "\<And>n'. u32 (n + 200) < n' \<Longrightarrow> n' + 200 < 4294967296 \<Longrightarrow>
      returns (tcp_listeners S n' (Suc t)) (\<lambda>(r, t'). \<exists>u. Suc t \<le> u \<and> u < t' \<and>
        (case r of Inl hr \<Rightarrow> query_error S u hr | Inr rows \<Rightarrow> \<exists>m. net_table S u m = Inr rows))" for n t
  proof (cases "net_alloc S t")
    case False
    then show ?thesis by (subst tcp_listeners.simps) (auto simp: Let_def query_error_def)
  next
    case alloc: True
    show ?thesis
    proof (cases "net_table S t (u32 (n + 200))")
      case (Inr rows)
      then show ?thesis using alloc by (subst tcp_listeners.simps) (auto simp: Let_def)
    next
      case (Inl e)
      obtain err n' where e: "e = (err, n')" by force
      show ?thesis
      proof (cases "err = ERROR_INSUFFICIENT_BUFFER")
        case True
        have "returns (tcp_listeners S n' (Suc t)) (\<lambda>(r, t'). \<exists>u. Suc t \<le> u \<and> u < t' \<and>
            (case r of Inl hr \<Rightarrow> query_error S u hr | Inr rows \<Rightarrow> \<exists>m. net_table S u m = Inr rows))"
          using tcp_table_okD(2) [OF assms Inl [unfolded e] True] by (intro more) auto
        then have "returns (tcp_listeners S n' (Suc t)) (\<lambda>(r, t'). \<exists>u. t \<le> u \<and> u < t' \<and>
            (case r of Inl hr \<Rightarrow> query_error S u hr | Inr rows \<Rightarrow> \<exists>m. net_table S u m = Inr rows))"
          by (rule returns_mono) (auto dest: Suc_leD)
        then show ?thesis using alloc Inl e True by (subst tcp_listeners.simps) (simp add: Let_def)
      next
        case False
        then have "query_error S t (HRESULT_FROM_WIN32 err)" using Inl e by (auto simp: query_error_def)
        then show ?thesis using alloc Inl e False by (subst tcp_listeners.simps) (auto simp: Let_def)
      qed
    qed
  qed
  have all_k: "\<forall>n t. n + 200 < 4294967296 \<longrightarrow> k = 4294967296 - n \<longrightarrow>
      returns (tcp_listeners S n t) (\<lambda>(r, t'). \<exists>u. t \<le> u \<and> u < t' \<and>
        (case r of Inl hr \<Rightarrow> query_error S u hr | Inr rows \<Rightarrow> \<exists>m. net_table S u m = Inr rows))" for k :: nat
  proof (induction k rule: less_induct)
    case (less k)
    show ?case
    proof (intro allI impI)
      fix n t
      assume n: "n + 200 < (4294967296 :: nat)" "k = 4294967296 - n"
      show "returns (tcp_listeners S n t) (\<lambda>(r, t'). \<exists>u. t \<le> u \<and> u < t' \<and>
        (case r of Inl hr \<Rightarrow> query_error S u hr | Inr rows \<Rightarrow> \<exists>m. net_table S u m = Inr rows))"
      proof (rule step)
        fix n' assume "u32 (n + 200) < n'" "n' + 200 < (4294967296 :: nat)"
        moreover from this n have "4294967296 - n' < k" by simp
        ultimately show "returns (tcp_listeners S n' (Suc t)) (\<lambda>(r, t'). \<exists>u. Suc t \<le> u \<and> u < t' \<and>
          (case r of Inl hr \<Rightarrow> query_error S u hr | Inr rows \<Rightarrow> \<exists>m. net_table S u m = Inr rows))"
          using less.IH by blast
      qed
    qed
  qed
  have "returns (tcp_listeners S n' (Suc t)) (\<lambda>(r, t'). \<exists>u. Suc t \<le> u \<and> u < t' \<and>
        (case r of Inl hr \<Rightarrow> query_error S u hr | Inr rows \<Rightarrow> \<exists>m. net_table S u m = Inr rows))"
    if "n' + 200 < 4294967296" for n'
    using all_k that by blast
  then show ?thesis by (rule step)
qed

text \<open>The answer of \<open>CheckIfServerIsUp\<close> when the table of listeners can be read.\<close>

definition listener_answer :: "net_os \<Rightarrow> DWORD \<Rightarrow> nat \<Rightarrow> nat \<Rightarrow> HRESULT \<Rightarrow> DWORD \<Rightarrow> bool \<Rightarrow> bool" where
  "listener_answer S dwPort t t' hr pid fReady \<longleftrightarrow> (\<exists>u. t \<le> u \<and> u < t' \<and>
     (if SUCCEEDED hr
      then \<exists>n rows. net_table S u n = Inr rows \<and> fReady = (listener_on dwPort rows \<noteq> None) \<and>
             pid = (case listener_on dwPort rows of None \<Rightarrow> 0 | Some q \<Rightarrow> q)
      else \<not> fReady \<and> pid = 0 \<and> query_error S u hr))"

lemma CheckIfServerIsUp_spec:
  assumes "tcp_table_ok S"
  shows "returns (CheckIfServerIsUp S port t) (\<lambda>(hr, pid, up, t'). t < t' \<and>
    (\<not> net_nsi_missing S \<longrightarrow> listener_answer S port t t' hr pid up))"
proof (cases "net_nsi_missing S")
  case True
  then show ?thesis by (simp add: CheckIfServerIsUp_def split: prod.split)
next
  case False
  obtain r t' u where r: "tcp_listeners S 1000 t = Some (r, t')" "t \<le> u" "u < t'"
    "case r of Inl hr \<Rightarrow> query_error S u hr | Inr rows \<Rightarrow> \<exists>m. net_table S u m = Inr rows"
    by (rule returns_pairE [OF tcp_listeners_spec [OF assms, of 1000 t]]) (elim exE conjE, rule that)
  show ?thesis
  proof (cases r)
    case (Inl hr)
    then have "listener_answer S port t t' hr 0 False"
      unfolding listener_answer_def using r query_error_failed [OF assms, of u hr] by auto
    then show ?thesis using False r(1-3) Inl by (simp add: CheckIfServerIsUp_def)
  next
    case (Inr rows)
    then obtain m where m: "net_table S u m = Inr rows" using r(4) by auto
    have "listener_answer S port t t' S_OK (case listener_on port rows of None \<Rightarrow> 0 | Some q \<Rightarrow> q)
        (listener_on port rows \<noteq> None)"
      unfolding listener_answer_def using r(2,3) m by auto
    then show ?thesis using False r(1-3) Inr by (simp add: CheckIfServerIsUp_def split: option.splits)
  qed
qed

text \<open>
  \<open>n\<close> ports drawn one after the other from time \<open>t\<close> to time \<open>t'\<close>, for each of which a process was listening
  in the table that was read.
\<close>

fun busy_draws :: "net_os \<Rightarrow> nat \<Rightarrow> nat \<Rightarrow> nat \<Rightarrow> bool" where
  "busy_draws S 0 t t' \<longleftrightarrow> t' = t"
| "busy_draws S (Suc n) t t' \<longleftrightarrow> (\<exists>t1 u m rows. t < u \<and> u < t1 \<and> net_table S u m = Inr rows \<and>
     listener_on (word_of_nat (port_of_rand (net_rand S t))) rows \<noteq> None \<and> busy_draws S n t1 t')"

text \<open>What \<open>GetRandomPort\<close> does when it reads the table: ports in use are passed over.\<close>

definition picked_port :: "net_os \<Rightarrow> nat \<Rightarrow> nat \<Rightarrow> HRESULT \<Rightarrow> nat \<Rightarrow> nat \<Rightarrow> bool" where
  "picked_port S tries t hr port t' \<longleftrightarrow> (\<exists>n t1. n < tries \<and> busy_draws S n t t1 \<and> t1 < t' \<and>
     port = port_of_rand (net_rand S t1) \<and>
     (if SUCCEEDED hr
      then \<exists>u m rows. t1 < u \<and> u < t' \<and> net_table S u m = Inr rows \<and> listener_on (word_of_nat port) rows = None
      else (\<exists>u. t1 < u \<and> u < t' \<and> query_error S u hr) \<or>
        hr = HRESULT_FROM_WIN32 ERROR_PORT_NOT_SET \<and> Suc n = tries \<and> busy_draws S tries t t'))"

lemma picked_port_later:
  assumes "picked_port S tries t1 hr port t'" "t < u" "u < t1" "net_table S u m = Inr rows"
    "listener_on (word_of_nat (port_of_rand (net_rand S t))) rows \<noteq> None"
  shows "picked_port S (Suc tries) t hr port t'"
proof -
  obtain n t2 where n: "n < tries" "busy_draws S n t1 t2" "t2 < t'" "port = port_of_rand (net_rand S t2)"
    "if SUCCEEDED hr then \<exists>u m rows. t2 < u \<and> u < t' \<and> net_table S u m = Inr rows \<and> listener_on (word_of_nat port) rows = None
      else (\<exists>u. t2 < u \<and> u < t' \<and> query_error S u hr) \<or>
        hr = HRESULT_FROM_WIN32 ERROR_PORT_NOT_SET \<and> Suc n = tries \<and> busy_draws S tries t1 t'"
    using assms(1) unfolding picked_port_def by blast
  have more: "busy_draws S (Suc k) t v" if "busy_draws S k t1 v" for k v
    unfolding busy_draws.simps using that assms(2-5) by blast
  show ?thesis
    unfolding picked_port_def
    by (rule exI [of _ "Suc n"], rule exI [of _ t2]) (use n more in \<open>auto simp del: busy_draws.simps\<close>)
qed

lemma busy_draws_mono: "busy_draws S n t t' \<Longrightarrow> t \<le> t'"
  by (induction n arbitrary: t) fastforce+

lemma random_port_loop_spec:
  assumes "tcp_table_ok S" "\<not> net_nsi_missing S" "c < MAX_RETRY"
  shows "returns (random_port_loop S 0 c t) (\<lambda>(hr, port, t'). picked_port S (MAX_RETRY - c) t hr port t')"
  using assms(3)
proof (induction "MAX_RETRY - c" arbitrary: c t rule: less_induct)
  case less
  let ?p = "port_of_rand (net_rand S t)"
  obtain hr pid up t1 where check: "CheckIfServerIsUp S (word_of_nat ?p) (Suc t) = Some (hr, pid, up, t1)" "Suc t < t1"
    "listener_answer S (word_of_nat ?p) (Suc t) t1 hr pid up"
    using CheckIfServerIsUp_spec [OF assms(1), of "word_of_nat ?p" "Suc t"] assms(2) by (auto elim!: returnsE)
  obtain u where u: "t < u" "u < t1" "if SUCCEEDED hr
      then \<exists>n rows. net_table S u n = Inr rows \<and> up = (listener_on (word_of_nat ?p) rows \<noteq> None) \<and>
             pid = (case listener_on (word_of_nat ?p) rows of None \<Rightarrow> 0 | Some q \<Rightarrow> q)
      else \<not> up \<and> pid = 0 \<and> query_error S u hr"
    using check(3) unfolding listener_answer_def by (auto simp: Suc_le_eq)
  have run: "random_port_loop S 0 c t =
     (if \<not> up then Some (hr, ?p, t1) else if Suc c < MAX_RETRY then random_port_loop S 0 (Suc c) t1
      else Some (HRESULT_FROM_WIN32 ERROR_PORT_NOT_SET, ?p, t1))"
    using check(1) by (simp add: random_port_loop.simps [of S 0 c t] draw_port_first)
  show ?case
  proof (cases up)
    case False
    have "picked_port S (MAX_RETRY - c) t hr ?p t1"
      unfolding picked_port_def
      by (rule exI [of _ 0], rule exI [of _ t]) (use u False less.prems check(2) in \<open>auto split: if_splits\<close>)
    then show ?thesis unfolding run using False by simp
  next
    case True
    then obtain m rows where rows: "net_table S u m = Inr rows" "listener_on (word_of_nat ?p) rows \<noteq> None"
      using u(3) by (auto split: if_splits)
    have tries: "MAX_RETRY - c = Suc (MAX_RETRY - Suc c)" using less.prems by simp
    show ?thesis
    proof (cases "Suc c < MAX_RETRY")
      case next_try: True
      have "MAX_RETRY - Suc c < MAX_RETRY - c" using less.prems by simp
      from less.hyps [OF this next_try, of t1] show ?thesis
        unfolding run tries using True next_try picked_port_later [OF _ u(1,2) rows]
        by (auto elim!: returns_mono)
    next
      case False
      then have one: "MAX_RETRY - c = Suc 0" using less.prems by simp
      have busy: "busy_draws S (Suc 0) t t1" unfolding busy_draws.simps using u(1,2) rows by blast
      have "picked_port S (Suc 0) t (HRESULT_FROM_WIN32 ERROR_PORT_NOT_SET) ?p t1"
        unfolding picked_port_def
        by (rule exI [of _ 0], rule exI [of _ t]) (use u(1,2) rows busy in \<open>auto simp del: busy_draws.simps(2)\<close>)
      then show ?thesis unfolding run one using True False by simp
    qed
  qed
qed

lemma GetRandomPort_spec:
  assumes "tcp_table_ok S"
  shows "returns (GetRandomPort S 0 t) (\<lambda>(hr, port, t'). t < t' \<and> MIN_PORT < port \<and> port \<le> MAX_PORT \<and>
    (if net_nsi_missing S then hr = S_OK \<and> port = port_of_rand (net_rand S t)
     else picked_port S MAX_RETRY t hr port t'))"
proof (cases "net_nsi_missing S")
  case True
  then show ?thesis by (simp add: GetRandomPort_def draw_port_first port_of_rand_range)
next
  case False
  have later: "t < t'" if "picked_port S k t hr port t'" for k hr port t'
    using that busy_draws_mono unfolding picked_port_def by fastforce
  have range: "MIN_PORT < port \<and> port \<le> MAX_PORT" if "picked_port S k t hr port t'" for k hr port t'
    using that unfolding picked_port_def by (auto simp: port_of_rand_range)
  have "0 < MAX_RETRY" by (simp add: MAX_RETRY_def)
  then show ?thesis
    using random_port_loop_spec [OF assms False, of 0 t] False
    unfolding GetRandomPort_def by (auto simp: later range elim!: returns_mono)
qed

subsection \<open>Looking entries up\<close>

text \<open>
  \<open>refs\<close> counts the references to entries besides those of the table; entries not yet made have none.
\<close>

definition refs_ok :: "(nat \<Rightarrow> int) \<Rightarrow> env_table \<Rightarrow> bool" where
  "refs_ok refs st \<longleftrightarrow> env_refs refs st \<and> (\<forall>q. et_next st \<le> q \<longrightarrow> refs q = 0)"

lemma refs_okD:
  assumes "refs_ok refs st"
  shows "env_refs refs st" "ht_inv (et_vt st) (et_table st)" "et_next st \<le> q \<Longrightarrow> refs q = 0"
    "p \<in> set (ht_records (et_table st)) \<Longrightarrow> p < et_next st \<and> entry_ok (et_entries st p)"
  using assms by (auto simp: refs_ok_def env_refs_def)

lemma env_ok_refs_ok: "env_ok {} st \<Longrightarrow> refs_ok (\<lambda>_. 0) st"
  by (simp add: env_ok_refs refs_ok_def)

lemma refs_ok_table:
  assumes "refs_ok refs st" "ht_inv (et_vt st) T" "ext_refs T = ext_refs (et_table st)"
    "set (ht_records T) \<subseteq> set (ht_records (et_table st))"
  shows "refs_ok refs (st\<lparr>et_table := T\<rparr>)"
  using assms by (auto simp: refs_ok_def env_refs_def)

lemma reference_ok:
  assumes "refs_ok refs st" "p < et_next st"
  shows "refs_ok (refs(p := refs p + 1)) (st\<lparr>et_table := ReferenceRecord p (et_table st)\<rparr>)"
  using assms by (auto simp: refs_ok_def env_refs_def)

lemma find_entry_spec:
  assumes "refs_ok refs st"
  obtains (absent) "FindKey (et_vt st) key (et_table st) = Some (None, et_table st)"
      "env_map (et_entries st) (et_table st) key = None"
  | (present) p where "FindKey (et_vt st) key (et_table st) = Some (Some p, ReferenceRecord p (et_table st))"
      "env_map (et_entries st) (et_table st) key = Some (QueryValue (et_entries st p))"
      "wcsicmp_equal key (QueryName (et_entries st p))"
      "refs_ok (refs(p := refs p + 1)) (st\<lparr>et_table := ReferenceRecord p (et_table st)\<rparr>)"
      "p < et_next st" "entry_ok (et_entries st p)"
proof -
  have inv: "ht_inv (et_vt st) (et_table st)" by (rule refs_okD(2) [OF assms])
  note F = env.FindKey_spec [OF inv, of key]
  show thesis
  proof (cases "ht_lookup (et_vt st) (et_table st) key")
    case None
    then show thesis using F absent by (simp add: env_map_def)
  next
    case (Some p)
    have in_T: "p \<in> set (ht_records (et_table st))" "wcsicmp_equal key (QueryName (et_entries st p))"
      using Some by (auto simp: ht_lookup_def find_Some_iff)
    note e = refs_okD(4) [OF assms in_T(1)]
    show thesis using F Some in_T e reference_ok [OF assms conjunct1 [OF e]] by (intro present) (auto simp: env_map_def)
  qed
qed

lemma env_map_cong: "wcsicmp_equal k k' \<Longrightarrow> env_map E T k = env_map E T k'"
  by (simp add: env_map_def ht_lookup_def wcsicmp_equal_def)

lemma deref_entry_ok:
  assumes "refs_ok refs st" "p < et_next st"
  shows "refs_ok (refs(p := refs p - 1)) (deref_entry (Some p) st)"
    "env_map (et_entries (deref_entry (Some p) st)) (et_table (deref_entry (Some p) st)) = env_map (et_entries st) (et_table st)"
    "et_next (deref_entry (Some p) st) = et_next st" "et_entries (deref_entry (Some p) st) = et_entries st"
    "Count (et_table (deref_entry (Some p) st)) = Count (et_table st)"
  using deref_refs [OF refs_okD(1) [OF assms(1)], of p] assms by (auto simp: deref_entry_def refs_ok_def)

lemma deref_found:
  assumes "refs_ok (refs(p := refs p + 1)) st" "p < et_next st"
  shows "refs_ok refs (deref_entry (Some p) st)"
    "env_map (et_entries (deref_entry (Some p) st)) (et_table (deref_entry (Some p) st)) = env_map (et_entries st) (et_table st)"
    "et_next (deref_entry (Some p) st) = et_next st" "et_entries (deref_entry (Some p) st) = et_entries st"
    "Count (et_table (deref_entry (Some p) st)) = Count (et_table st)"
  using deref_entry_ok [OF assms] by simp_all

lemma delete_entry_spec:
  assumes "refs_ok refs st"
  shows "returns (DeleteKey (et_vt st) key (et_table st)) (\<lambda>T'. refs_ok refs (st\<lparr>et_table := T'\<rparr>) \<and>
    Count T' \<le> Count (et_table st) \<and> set (ht_records T') \<subseteq> set (ht_records (et_table st)) \<and>
    env_map (et_entries st) T' = env_del (env_map (et_entries st) (et_table st)) key)"
proof -
  let ?T = "et_table st" and ?vt = "et_vt st"
  have inv: "ht_inv ?vt ?T" by (rule refs_okD(2) [OF assms])
  obtain T' where T': "DeleteKey ?vt key ?T = Some T'" "ht_inv ?vt T'" "ext_refs T' = ext_refs ?T" "Count T' \<le> Count ?T"
    "ht_lookup ?vt T' = (\<lambda>l. if wcsicmp_equal l key then None else ht_lookup ?vt ?T l)"
    using env.DeleteKey_lookup [OF inv, of key, unfolded ENVIRONMENT_VAR_HASH_simps] by (elim returnsE conjE) (rule that)
  have sub: "set (ht_records T') \<subseteq> set (ht_records ?T)"
  proof
    fix q
    assume "q \<in> set (ht_records T')"
    then have "ht_lookup ?vt T' (QueryName (et_entries st q)) = Some q"
      by (simp add: env.ht_lookup_iff [OF T'(2)] wcsicmp_equal_laws)
    then show "q \<in> set (ht_records ?T)" unfolding T'(5) by (auto split: if_splits dest: ht_lookup_in)
  qed
  have "env_map (et_entries st) T' = env_del (env_map (et_entries st) ?T) key"
    unfolding env_map_def env_del_def T'(5) by (simp add: fun_eq_iff)
  then show ?thesis using refs_ok_table [OF assms T'(2,3) sub] T'(1,4) sub by auto
qed

text \<open>A new entry, its insertion and the release of the local variable.\<close>

lemma new_entry_ok:
  assumes "refs_ok refs st" "new_entry os st = (r, st1)"
  shows "Count (et_table st1) = Count (et_table st)"
    "env_map (et_entries st1) (et_table st1) = env_map (et_entries st) (et_table st)"
    "r = None \<Longrightarrow> refs_ok refs st1 \<and> \<not> (\<forall>q. os_new os q)"
    "r = Some q \<Longrightarrow> refs_ok (refs(q := 1)) st1 \<and> refs q = 0 \<and> entry_ok (et_entries st1 q) \<and> q < et_next st1 \<and>
       q \<notin> set (ht_records (et_table st1))"
proof -
  note N = new_entry_refs [OF refs_okD(1) [OF assms(1)] assms(2)]
  show "Count (et_table st1) = Count (et_table st)"
    "env_map (et_entries st1) (et_table st1) = env_map (et_entries st) (et_table st)" by (fact N)+
  show "r = None \<Longrightarrow> refs_ok refs st1 \<and> \<not> (\<forall>q. os_new os q)"
    using N(1,5,6) assms(1) by (auto simp: refs_ok_def split: if_splits)
  show "r = Some q \<Longrightarrow> refs_ok (refs(q := 1)) st1 \<and> refs q = 0 \<and> entry_ok (et_entries st1 q) \<and> q < et_next st1 \<and>
       q \<notin> set (ht_records (et_table st1))"
    using N(1,5,6,7) assms(1) by (auto simp: refs_ok_def split: if_splits)
qed

lemma init_and_insert_ok:
  assumes "refs_ok refs st" "new_entry os st = (Some q, st1)" "heap_ok 2 (os_heap os)" "0 \<notin> set name" "0 \<notin> set v"
    "Count (et_table st) < MAXDWORD"
  shows "returns (init_and_insert os q name v st1) (\<lambda>(hr, st2). refs_ok refs (deref_entry (Some q) st2) \<and>
    Count (et_table (deref_entry (Some q) st2)) \<le> Suc (Count (et_table st)) \<and>
    (SUCCEEDED hr \<longrightarrow> env_map (et_entries (deref_entry (Some q) st2)) (et_table (deref_entry (Some q) st2)) =
       env_upd (env_map (et_entries st) (et_table st)) name v) \<and>
    (heap_total (os_heap os) \<and> os_node os q \<and> 2 * (length name + 1) \<le> MAXDWORD \<and> 2 * (length v + 1) \<le> MAXDWORD \<longrightarrow>
       SUCCEEDED hr = (env_map (et_entries st) (et_table st) name = None)))"
proof -
  note N = new_entry_ok [OF assms(1,2)]
  have q: "refs_ok (refs(q := 1)) st1" "refs q = 0" "entry_ok (et_entries st1 q)" "q < et_next st1"
    "q \<notin> set (ht_records (et_table st1))" using N(4) by simp_all
  have c: "Count (et_table st1) < MAXDWORD" using N(1) assms(6) by simp
  have d: "refs_ok refs (deref_entry (Some q) st2)" if "env_refs (refs(q := 1)) st2" "et_next st2 = et_next st1" for st2
  proof -
    have "refs_ok (refs(q := 1)) st2" using that q(1) by (simp add: refs_ok_def)
    from deref_entry_ok(1) [OF this, of q] show ?thesis using that(2) q(2,4) by (simp add: fun_upd_idem)
  qed
  note I = init_and_insert_refs [OF refs_okD(1) [OF q(1)] assms(3) q(3-5) assms(4,5) c]
  have e: "env_map (et_entries (deref_entry (Some q) st2)) (et_table (deref_entry (Some q) st2)) = env_map (et_entries st2) (et_table st2)"
    "Count (et_table (deref_entry (Some q) st2)) = Count (et_table st2)" for st2 by (simp_all add: deref_entry_def)
  show ?thesis using I d N(1,2) by (auto simp: e elim!: returns_mono)
qed

lemma deref_new_entry_ok:
  assumes "refs_ok refs st" "new_entry os st = (Some q, st1)"
  shows "refs_ok refs (deref_entry (Some q) st1)"
  using new_entry_ok(4) [OF assms] deref_entry_ok(1) [of "refs(q := 1)" st1 q] by (auto simp: fun_upd_idem)

lemma add_entry_spec:
  assumes "refs_ok refs st" "heap_ok 2 (os_heap os)" "0 \<notin> set name" "0 \<notin> set v" "Count (et_table st) < MAXDWORD"
  shows "returns (add_entry os name v st) (\<lambda>(hr, st'). refs_ok refs st' \<and>
    Count (et_table st') \<le> Suc (Count (et_table st)) \<and>
    (SUCCEEDED hr \<longrightarrow> env_map (et_entries st') (et_table st') = env_upd (env_map (et_entries st) (et_table st)) name v) \<and>
    (heap_total (os_heap os) \<and> (\<forall>q. os_new os q \<and> os_node os q) \<and> 2 * (length name + 1) \<le> MAXDWORD \<and>
       2 * (length v + 1) \<le> MAXDWORD \<and> env_map (et_entries st) (et_table st) name = None \<longrightarrow> SUCCEEDED hr))"
proof -
  obtain r st1 where n: "new_entry os st = (r, st1)" by force
  note N = new_entry_ok [OF assms(1) n]
  show ?thesis
  proof (cases r)
    case None
    then show ?thesis using N(1,3) n by (auto simp: add_entry_def)
  next
    case (Some q)
    show ?thesis
      using init_and_insert_ok [OF assms(1) n [unfolded Some] assms(2-5)] n Some
      by (auto simp: add_entry_def elim!: returns_mono)
  qed
qed

lemma delete_and_release_spec:
  assumes "refs_ok refs st"
  shows "returns (delete_and_release key st) (\<lambda>st'. refs_ok refs st' \<and> Count (et_table st') \<le> Count (et_table st) \<and>
    env_map (et_entries st') (et_table st') = env_del (env_map (et_entries st) (et_table st)) key)"
proof (rule find_entry_spec [OF assms, of key])
  assume F: "FindKey (et_vt st) key (et_table st) = Some (None, et_table st)"
    and m: "env_map (et_entries st) (et_table st) key = None"
  have "env_del (env_map (et_entries st) (et_table st)) key = env_map (et_entries st) (et_table st)"
    using m env_map_cong by (fastforce simp: env_del_def)
  then show ?thesis using F assms by (simp add: delete_and_release_def)
next
  fix p
  assume F: "FindKey (et_vt st) key (et_table st) = Some (Some p, ReferenceRecord p (et_table st))"
    and ok: "refs_ok (refs(p := refs p + 1)) (st\<lparr>et_table := ReferenceRecord p (et_table st)\<rparr>)" and p: "p < et_next st"
  have d: "refs_ok refs (deref_entry (Some p) st2)"
    "env_map (et_entries (deref_entry (Some p) st2)) (et_table (deref_entry (Some p) st2)) = env_map (et_entries st2) (et_table st2)"
    "Count (et_table (deref_entry (Some p) st2)) = Count (et_table st2)"
    if "refs_ok (refs(p := refs p + 1)) st2" "p < et_next st2" for st2
    using deref_entry_ok [OF that] by simp_all
  show ?thesis
    using delete_entry_spec [OF ok, of key] F d p by (auto simp: delete_and_release_def elim!: returns_mono)
qed


subsection \<open>The port of the backend\<close>

lemma is_digit_not_special:
  assumes "is_digit c"
  shows "\<not> iswspace c" "c \<noteq> of_char CHR ''-''" "c \<noteq> of_char CHR ''+''"
  using assms by (auto simp: is_digit_iff iswspace_def word_le_nat_alt)

lemma wtoi_decimal:
  assumes "n \<le> 48000"
  shows "wtoi (decimal (int n)) = int n"
proof -
  have d: "decimal_digits n \<noteq> []" "\<forall>c \<in> set (decimal_digits n). is_digit c" "decimal_value (decimal_digits n) = n"
    using decimal_digits_spec [of n] by auto
  have h: "is_digit (hd (decimal_digits n))" using d(1,2) by simp
  have w: "dropWhile iswspace (decimal_digits n) = decimal_digits n"
    using is_digit_not_special(1) [OF h] d(1) by (cases "decimal_digits n") auto
  have t: "takeWhile is_digit (decimal_digits n) = decimal_digits n" using d(2) by simp
  show ?thesis
    unfolding wtoi_def decimal_def using assms d(1,3) is_digit_not_special(2,3) [OF h]
    by (simp add: Let_def w t del: takeWhile_eq_all_conv)
qed

lemma decimal_length: "n < 10 ^ Suc k \<Longrightarrow> length (decimal_digits n) \<le> Suc k"
proof (induction k arbitrary: n)
  case 0
  then show ?case by (subst decimal_digits.simps) simp
next
  case (Suc k)
  then have "n div 10 < 10 ^ Suc k" by auto
  from Suc.IH [OF this] show ?case by (subst decimal_digits.simps) auto
qed

lemma decimal_nul_free: "0 \<notin> set (decimal (int n))"
  using decimal_digits_spec [of n] by (auto simp: decimal_def is_digit_iff)

lemma port_entry_spec:
  assumes "refs_ok refs st" "heap_ok 2 (os_heap os)" "stru_inv struPort" "Count (et_table st) < MAXDWORD"
    "n \<le> 48000" "m_dwPort = word_of_nat n"
  shows "returns (port_entry os m_dwPort struPort st) (\<lambda>(hr, struPort', st'). refs_ok refs st' \<and> stru_inv struPort' \<and>
    Count (et_table st') \<le> Suc (Count (et_table st)) \<and>
    (SUCCEEDED hr \<longrightarrow> c_text struPort' = decimal (int n) \<and>
       env_map (et_entries st') (et_table st') =
         env_upd (env_map (et_entries st) (et_table st)) ASPNETCORE_PORT_ENV_STR (decimal (int n))) \<and>
    (heap_total (os_heap os) \<and> (\<forall>q. os_new os q \<and> os_node os q) \<and>
       env_map (et_entries st) (et_table st) ASPNETCORE_PORT_ENV_STR = None \<longrightarrow> SUCCEEDED hr))"
proof -
  have s: "sint m_dwPort = int n"
    unfolding assms(6) using assms(5) by (simp add: sint_uint signed_take_bit_int_eq_self unsigned_of_nat take_bit_nat_eq_self)
  let ?b = "decimal (int n)"
  have b: "?b \<noteq> []" "2 * (length ?b + 1) \<le> MAXDWORD" "0 \<notin> set ?b"
    using decimal_digits_spec [of n] decimal_length [of n 4] assms(5) decimal_nul_free [of n]
    by (simp_all add: decimal_def MAXDWORD_def)
  have n0: "0 \<notin> set ASPNETCORE_PORT_ENV_STR" "2 * (length ASPNETCORE_PORT_ENV_STR + 1) \<le> MAXDWORD"
    by (simp_all add: ASPNETCORE_PORT_ENV_STR_def MAXDWORD_def)
  have run: "port_entry os m_dwPort struPort st = do {
      (hr, st') \<leftarrow> add_entry os ASPNETCORE_PORT_ENV_STR ?b st;
      (if FAILED hr then Some (hr, struPort, st')
       else do { (hr, p) \<leftarrow> STRU_Copy (os_heap os) ?b struPort; Some (hr, p, st') }) }"
  proof -
    obtain r st1 where n: "new_entry os st = (r, st1)" by force
    show ?thesis
    proof (cases r)
      case (Some q)
      then show ?thesis
        using b(1) n by (cases "init_and_insert os q ASPNETCORE_PORT_ENV_STR ?b st1")
          (auto simp: port_entry_def add_entry_def s Let_def)
    qed (use b(1) n in \<open>simp add: port_entry_def add_entry_def s Let_def\<close>)
  qed
  obtain hr st' where a: "add_entry os ASPNETCORE_PORT_ENV_STR ?b st = Some (hr, st')" "refs_ok refs st'"
    "Count (et_table st') \<le> Suc (Count (et_table st))"
    "SUCCEEDED hr \<longrightarrow> env_map (et_entries st') (et_table st') =
       env_upd (env_map (et_entries st) (et_table st)) ASPNETCORE_PORT_ENV_STR ?b"
    "heap_total (os_heap os) \<and> (\<forall>q. os_new os q \<and> os_node os q) \<and> 2 * (length ASPNETCORE_PORT_ENV_STR + 1) \<le> MAXDWORD \<and>
       2 * (length ?b + 1) \<le> MAXDWORD \<and> env_map (et_entries st) (et_table st) ASPNETCORE_PORT_ENV_STR = None \<longrightarrow> SUCCEEDED hr"
    by (rule returns_pairE [OF add_entry_spec [OF assms(1,2) n0(1) b(3) assms(4)]]) (elim conjE, rule that)
  show ?thesis
    unfolding run a(1) using a(2-) assms(3) Copy_c_text [OF assms(2,3) b(3)] b(2) n0(2)
    by (auto elim!: returns_mono)
qed

text \<open>
  The outcome of \<open>SetupListenPort\<close>: nothing is leaked, an error is critical exactly when the
  configuration asks for an unusable port, and on success the backend is told, in the table, the port
  that \<open>m_dwPort\<close> and \<open>m_struPort\<close> hold.
\<close>

definition port_outcome :: "(wstr \<Rightarrow> wstr option) \<Rightarrow> HRESULT \<Rightarrow> bool \<Rightarrow> DWORD \<Rightarrow> STRU \<Rightarrow> (wstr \<Rightarrow> wstr option) \<Rightarrow> bool" where
  "port_outcome m hr fCritical m_dwPort struPort m' \<longleftrightarrow>
     (fCritical \<longleftrightarrow> (case m ASPNETCORE_PORT_ENV_STR of None \<Rightarrow> False
        | Some v \<Rightarrow> wtoi v < int MIN_PORT \<or> int MAX_PORT < wtoi v)) \<and>
     (fCritical \<longrightarrow> FAILED hr) \<and>
     (SUCCEEDED hr \<longrightarrow> MIN_PORT \<le> unat m_dwPort \<and> unat m_dwPort \<le> MAX_PORT \<and>
        m' ASPNETCORE_PORT_ENV_STR = Some (c_text struPort) \<and> wtoi (c_text struPort) = int (unat m_dwPort) \<and>
        (\<forall>k. \<not> wcsicmp_equal k ASPNETCORE_PORT_ENV_STR \<longrightarrow> m' k = m k))"

lemma choose_port_spec:
  assumes "refs_ok refs st" "heap_ok 2 (os_heap os)" "stru_inv struPort" "Count (et_table st) < MAXDWORD"
    "tcp_table_ok S" "env_map (et_entries st) (et_table st) ASPNETCORE_PORT_ENV_STR = None"
  shows "returns (choose_port os S struPort st t) (\<lambda>(hr, fCritical, m_dwPort, struPort', st', t'). refs_ok refs st' \<and>
    stru_inv struPort' \<and> Count (et_table st') \<le> Suc (Count (et_table st)) \<and> t \<le> t' \<and>
    port_outcome (env_map (et_entries st) (et_table st)) hr fCritical m_dwPort struPort' (env_map (et_entries st') (et_table st')))"
proof -
  obtain hr port t' where g: "GetRandomPort S 0 t = Some (hr, port, t')" "t < t'" "MIN_PORT < port" "port \<le> MAX_PORT"
    by (rule returns_tripleE [OF GetRandomPort_spec [OF assms(5), of t]]) (elim conjE, rule that)
  have n: "port \<le> 48000" "unat (word_of_nat port :: DWORD) = port"
    using g(4) by (simp_all add: MAX_PORT_def unat_of_nat_32)
  note P = port_entry_spec [OF assms(1-4) n(1) refl]
  have w: "wtoi (decimal (int port)) = int port" by (rule wtoi_decimal [OF n(1)])
  show ?thesis
  proof (cases "FAILED hr")
    case True
    then show ?thesis using g assms by (simp add: choose_port_def port_outcome_def)
  next
    case False
    obtain hr2 p2 st2 where p: "port_entry os (word_of_nat port) struPort st = Some (hr2, p2, st2)" "refs_ok refs st2"
      "stru_inv p2" "Count (et_table st2) \<le> Suc (Count (et_table st))"
      "SUCCEEDED hr2 \<longrightarrow> c_text p2 = decimal (int port) \<and> env_map (et_entries st2) (et_table st2) =
         env_upd (env_map (et_entries st) (et_table st)) ASPNETCORE_PORT_ENV_STR (decimal (int port))"
      by (rule returns_tripleE [OF P]) (elim conjE, rule that)
    have run: "choose_port os S struPort st t = Some (hr2, False, word_of_nat port, p2, st2, t')"
      using g(1) p(1) False by (simp add: choose_port_def)
    have "port_outcome (env_map (et_entries st) (et_table st)) hr2 False (word_of_nat port) p2
        (env_map (et_entries st2) (et_table st2))"
      unfolding port_outcome_def n(2) assms(6) using p(5) w g(3,4) by (auto simp: env_upd_def wcsicmp_equal_laws(1))
    then show ?thesis unfolding run using p(2-4) g(2) by simp
  qed
qed


lemma port_word:
  assumes "- 2147483648 \<le> w" "w \<le> 2147483647"
  shows "MAX_PORT < unat (word_of_int w :: DWORD) \<or> unat (word_of_int w :: DWORD) < MIN_PORT \<longleftrightarrow>
      w < int MIN_PORT \<or> int MAX_PORT < w"
    "\<not> (MAX_PORT < unat (word_of_int w :: DWORD) \<or> unat (word_of_int w :: DWORD) < MIN_PORT) \<Longrightarrow>
      int (unat (word_of_int w :: DWORD)) = w"
proof -
  have e: "int (unat (word_of_int w :: DWORD)) = w mod 4294967296"
    by (simp add: take_bit_eq_mod uint_word_of_int flip: uint_nat)
  have m: "w mod 4294967296 = (if 0 \<le> w then w else w + 4294967296)"
    using assms mod_add_self2 [of w 4294967296] mod_pos_pos_trivial [of "w + 4294967296" 4294967296]
    by (auto simp: mod_pos_pos_trivial)
  obtain n where n: "unat (word_of_int w :: DWORD) = n" by blast
  have "int n = (if 0 \<le> w then w else w + 4294967296)" using e unfolding n m .
  then show "MAX_PORT < unat (word_of_int w :: DWORD) \<or> unat (word_of_int w :: DWORD) < MIN_PORT \<longleftrightarrow>
      w < int MIN_PORT \<or> int MAX_PORT < w"
    "\<not> (MAX_PORT < unat (word_of_int w :: DWORD) \<or> unat (word_of_int w :: DWORD) < MIN_PORT) \<Longrightarrow>
      int (unat (word_of_int w :: DWORD)) = w"
    using assms unfolding n MIN_PORT_def MAX_PORT_def by (auto split: if_splits)
qed

lemma SetupListenPort_spec:
  assumes "refs_ok refs st" "heap_ok 2 (os_heap os)" "stru_inv struPort" "Count (et_table st) < MAXDWORD"
    "tcp_table_ok S"
  shows "returns (SetupListenPort os S struPort st t) (\<lambda>(hr, fCritical, m_dwPort, struPort', st', t'). refs_ok refs st' \<and>
    stru_inv struPort' \<and> Count (et_table st') \<le> Suc (Count (et_table st)) \<and> t \<le> t' \<and>
    port_outcome (env_map (et_entries st) (et_table st)) hr fCritical m_dwPort struPort' (env_map (et_entries st') (et_table st')))"
proof (rule find_entry_spec [OF assms(1), of ASPNETCORE_PORT_ENV_STR])
  assume F: "FindKey (et_vt st) ASPNETCORE_PORT_ENV_STR (et_table st) = Some (None, et_table st)"
    and m: "env_map (et_entries st) (et_table st) ASPNETCORE_PORT_ENV_STR = None"
  show ?thesis
    using choose_port_spec [OF assms m, of t] F by (simp add: SetupListenPort_def)
next
  fix p
  assume F: "FindKey (et_vt st) ASPNETCORE_PORT_ENV_STR (et_table st) = Some (Some p, ReferenceRecord p (et_table st))"
    and m: "env_map (et_entries st) (et_table st) ASPNETCORE_PORT_ENV_STR = Some (QueryValue (et_entries st p))"
    and ok: "refs_ok (refs(p := refs p + 1)) (st\<lparr>et_table := ReferenceRecord p (et_table st)\<rparr>)" and p: "p < et_next st"
  let ?v = "QueryValue (et_entries st p)"
  let ?st = "deref_entry (Some p) (st\<lparr>et_table := ReferenceRecord p (et_table st)\<rparr>)"
  note D = deref_found [OF ok, simplified, OF p]
  let ?d = "word_of_int (wtoi ?v) :: DWORD"
  have r: "- 2147483648 \<le> wtoi ?v \<and> wtoi ?v \<le> 2147483647" by (simp add: wtoi_def Let_def)
  have u: "MAX_PORT < unat ?d \<or> unat ?d < MIN_PORT \<longleftrightarrow> wtoi ?v < int MIN_PORT \<or> int MAX_PORT < wtoi ?v"
    "\<not> (MAX_PORT < unat ?d \<or> unat ?d < MIN_PORT) \<Longrightarrow> int (unat ?d) = wtoi ?v"
    using port_word [OF conjunct1 [OF r] conjunct2 [OF r]] by blast+
  show ?thesis
  proof (cases "MAX_PORT < unat ?d \<or> unat ?d < MIN_PORT")
    case True
    then have "SetupListenPort os S struPort st t = Some (E_INVALIDARG, True, ?d, struPort, ?st, t)"
      using F by (simp add: SetupListenPort_def value_pointer_def Let_def)
    then show ?thesis using D assms(3) m u(1) True by (simp add: port_outcome_def)
  next
    case False
    obtain hr p' where c: "STRU_Copy (os_heap os) ?v struPort = Some (hr, p')" "stru_inv p'"
      "SUCCEEDED hr \<longrightarrow> c_text p' = ?v"
      using Copy_c_text [OF assms(2,3), of ?v] by (auto elim: returnsE)
    have "SetupListenPort os S struPort st t = Some (hr, False, ?d, p', ?st, t)"
      using F False c(1) by (simp add: SetupListenPort_def value_pointer_def Let_def)
    then show ?thesis using D c(2,3) m u False by (auto simp: port_outcome_def)
  qed
qed


subsection \<open>Path and token\<close>

lemma env_upd_same: "env_upd m k v k = Some v"
  by (simp add: env_upd_def wcsicmp_equal_laws(1))

lemma SetupAppPath_spec:
  assumes "refs_ok refs st" "heap_ok 2 (os_heap os)" "Count (et_table st) < MAXDWORD" "stru_inv vpath"
  shows "returns (SetupAppPath os vpath st) (\<lambda>(hr, st'). refs_ok refs st' \<and> Count (et_table st') \<le> Suc (Count (et_table st)) \<and>
    (SUCCEEDED hr \<longrightarrow> env_map (et_entries st') (et_table st') =
       env_upd (env_map (et_entries st) (et_table st)) ASPNETCORE_APP_PATH_ENV_STR (c_text vpath)) \<and>
    (heap_total (os_heap os) \<and> (\<forall>q. os_new os q \<and> os_node os q) \<longrightarrow> SUCCEEDED hr))"
proof -
  let ?k = ASPNETCORE_APP_PATH_ENV_STR
  obtain st1 where st1: "delete_and_release ?k st = Some st1" "refs_ok refs st1" "Count (et_table st1) \<le> Count (et_table st)"
    "env_map (et_entries st1) (et_table st1) = env_del (env_map (et_entries st) (et_table st)) ?k"
    using delete_and_release_spec [OF assms(1), of ?k] by (auto elim: returnsE)
  have k: "0 \<notin> set ?k" "2 * (length ?k + 1) \<le> MAXDWORD" by (simp_all add: ASPNETCORE_APP_PATH_ENV_STR_def MAXDWORD_def)
  have c: "Count (et_table st1) < MAXDWORD" using st1(3) assms(3) by simp
  show ?thesis
    using add_entry_spec [OF st1(2) assms(2) k(1) c_text_nul_free [of vpath] c] st1 k(2) c_text_length [OF assms(4)]
    by (auto simp: SetupAppPath_def elim!: returns_mono)
qed

subsection \<open>The environment block\<close>

text \<open>The name of a line, with its \<open>=\<close>, as the table has its keys.\<close>

definition line_name :: "wstr \<Rightarrow> wstr" where
  "line_name l = takeWhile (\<lambda>c. c \<noteq> 61) l @ [61]"

definition lines_ok :: "wstr list \<Rightarrow> bool" where
  "lines_ok lines \<longleftrightarrow> (\<forall>l \<in> set lines. 61 \<in> set l \<and> 0 \<notin> set l)"

text \<open>
  The lines of the process with the values of the configuration \<open>m\<close>, and what is left of the
  configuration.
\<close>

fun merged_lines :: "(wstr \<Rightarrow> wstr option) \<Rightarrow> wstr list \<Rightarrow> wstr list" where
  "merged_lines m [] = []"
| "merged_lines m (l # ls) =
     (case m (line_name l) of
        None \<Rightarrow> l # merged_lines m ls
      | Some v \<Rightarrow> (line_name l @ v) # merged_lines (env_del m (line_name l)) ls)"

fun unused_entries :: "(wstr \<Rightarrow> wstr option) \<Rightarrow> wstr list \<Rightarrow> wstr \<Rightarrow> wstr option" where
  "unused_entries m [] = m"
| "unused_entries m (l # ls) = unused_entries (env_del m (line_name l)) ls"

lemma env_del_absent: "m k = None \<Longrightarrow> (\<And>k'. wcsicmp_equal k' k \<Longrightarrow> m k' = m k) \<Longrightarrow> env_del m k = m"
  by (auto simp: env_del_def fun_eq_iff)

lemma env_del_cong: "wcsicmp_equal a b \<Longrightarrow> env_del m a = env_del m b"
  by (auto simp: env_del_def fun_eq_iff wcsicmp_equal_def)

lemma line_split:
  assumes "61 \<in> set l" "0 \<notin> set l"
  shows "wcschr (l @ [0]) 61 = Some (length (takeWhile (\<lambda>c. c \<noteq> 61) l))"
    "take (length (takeWhile (\<lambda>c. c \<noteq> 61) l) + 1) (l @ [0]) = line_name l"
    "length (takeWhile (\<lambda>c. c \<noteq> 61) l) < length l" "0 \<notin> set (line_name l)" "length (line_name l) \<le> length l"
proof -
  have n: "length (takeWhile (\<lambda>c. c \<noteq> 61) l) < length l" by (rule length_takeWhile_lt [OF assms(1)])
  show "wcschr (l @ [0]) 61 = Some (length (takeWhile (\<lambda>c. c \<noteq> 61) l))"
    using wcschr_spec [OF assms(2), of 61 "[]"] assms(1) by simp
  show "length (takeWhile (\<lambda>c. c \<noteq> 61) l) < length l" by (rule n)
  show "0 \<notin> set (line_name l)" using assms(2) by (auto simp: line_name_def dest: set_takeWhileD)
  show "length (line_name l) \<le> length l" using n by (simp add: line_name_def)
  have "l ! length (takeWhile (\<lambda>c. c \<noteq> 61) l) = 61" using nth_length_takeWhile [OF n] by simp
  then have "take (length (takeWhile (\<lambda>c. c \<noteq> 61) l) + 1) l = line_name l"
    using n by (simp add: take_Suc_conv_app_nth line_name_def takeWhile_eq_take [symmetric])
  then show "take (length (takeWhile (\<lambda>c. c \<noteq> 61) l) + 1) (l @ [0]) = line_name l" using n by simp
qed

lemma returns_conj: "returns r P \<Longrightarrow> returns r Q \<Longrightarrow> returns r (\<lambda>x. P x \<and> Q x)"
  by (cases r) simp_all

lemma delete_records:
  assumes "refs_ok refs st"
  shows "returns (DeleteKey (et_vt st) key (et_table st)) (\<lambda>T'. mset (ht_records T') \<subseteq># mset (ht_records (et_table st)))"
  using env.DeleteKey_spec [OF refs_okD(2) [OF assms], of key] by (auto elim!: returns_mono)

lemma output_line_spec:
  assumes "refs_ok refs st" "heap_ok 2 heap" "heap_total heap" "stru_inv s" "mz_inv 2 M ss" "61 \<in> set l" "0 \<notin> set l"
    "out = (case env_map (et_entries st) (et_table st) (line_name l) of None \<Rightarrow> l | Some v \<Rightarrow> line_name l @ v)"
    "2 * (length (msz_enc ss) + length l + length out + 2) + STR_SLOP \<le> MAXDWORD"
  shows "returns (output_line heap l M s st) (\<lambda>(hr, M', s', st'). SUCCEEDED hr \<and> mz_inv 2 M' (ss @ [out]) \<and> stru_inv s' \<and>
    refs_ok refs st' \<and> et_entries st' = et_entries st \<and>
    env_map (et_entries st') (et_table st') = env_del (env_map (et_entries st) (et_table st)) (line_name l) \<and>
    mset (ht_records (et_table st')) \<subseteq># mset (ht_records (et_table st)))"
proof -
  let ?m = "env_map (et_entries st) (et_table st)" and ?k = "length (takeWhile (\<lambda>c. c \<noteq> 61) l)"
  note L = line_split [OF assms(6,7)]
  have kl: "?k + 1 \<le> length (l @ [0])" "?k + 1 < 4294967296" "2 * (?k + 1 + 1) \<le> MAXDWORD"
    using L(3) assms(9) by (simp_all add: MAXDWORD_def)
  obtain hr1 v1 where c: "STRU_CopyN heap (l @ [0]) (?k + 1) s = Some (hr1, v1)" "stru_inv v1"
    "if SUCCEEDED hr1 then str_text v1 = take (?k + 1) (l @ [0]) else v1 = s"
    "2 * (?k + 1 + 1) \<le> MAXDWORD \<and> heap_total heap \<longrightarrow> SUCCEEDED hr1"
    by (rule returns_pairE [OF STRU_CopyN_spec [OF assms(2,4) kl(1,2)]]) (elim conjE, rule that)
  have ok1: "SUCCEEDED hr1" using c(4) kl(3) assms(3) by simp
  have t1: "str_text v1 = line_name l" using c(3) ok1 L(2) by simp
  have n1: "c_text v1 = line_name l" using c_text_str_text [OF c(2)] t1 L(4) by simp
  show ?thesis
  proof (rule find_entry_spec [OF assms(1), of "line_name l"])
    assume F: "FindKey (et_vt st) (line_name l) (et_table st) = Some (None, et_table st)" and m: "?m (line_name l) = None"
    have nl: "l \<noteq> []" "length l < 2147483648" using assms(6,9) by (auto simp: MAXDWORD_def)
    obtain err M' where a: "MULTISZ_Append 2 heap (Some l) M = Some (err, M')"
      "if err = None then mz_inv 2 M' (if l = [] then ss else ss @ [l]) else M' = M"
      "heap_total heap \<and> 2 * (length (msz_enc ss) + length l + 2) + STR_SLOP \<le> MAXDWORD \<longrightarrow> err = None"
      by (rule returns_pairE [OF MULTISZ_Append_spec [OF assms(5,2) _ assms(7) nl(2)]]) (simp, elim conjE, rule that)
    have "mz_inv 2 M' (ss @ [out])" using a(2,3) assms(3,8,9) m nl(1) by simp
    moreover have "env_del ?m (line_name l) = ?m" using m env_map_cong by (intro env_del_absent) auto
    ultimately show ?thesis
      using F a(1) c(1,2) ok1 L(1) n1 assms(1) by (simp add: output_line_def)
  next
    fix p
    assume F: "FindKey (et_vt st) (line_name l) (et_table st) = Some (Some p, ReferenceRecord p (et_table st))"
      and m: "?m (line_name l) = Some (QueryValue (et_entries st p))"
      and eq: "wcsicmp_equal (line_name l) (QueryName (et_entries st p))"
      and ok: "refs_ok (refs(p := refs p + 1)) (st\<lparr>et_table := ReferenceRecord p (et_table st)\<rparr>)" and p: "p < et_next st"
    let ?v = "QueryValue (et_entries st p)"
    let ?st1 = "st\<lparr>et_table := ReferenceRecord p (et_table st)\<rparr>"
    have out: "out = line_name l @ ?v" using assms(8) m by simp
    have lo: "2 * (length (str_text v1 @ ?v) + 1) \<le> MAXDWORD" "length out < 2147483648" "0 \<notin> set out"
      using assms(9) L(4) unfolding t1 out by (simp_all add: MAXDWORD_def STR_SLOP_def)
    obtain hr2 v2 where a: "STRU_Append heap ?v v1 = Some (hr2, v2)" "stru_inv v2"
      "if SUCCEEDED hr2 then str_text v2 = str_text v1 @ ?v else v2 = v1"
      "2 * (length (str_text v1 @ ?v) + 1) \<le> MAXDWORD \<and> heap_total heap \<longrightarrow> SUCCEEDED hr2"
      by (rule returns_pairE [OF STRU_Append_spec [OF assms(2) c(2) Query_nul_free(2)]]) (elim conjE, rule that)
    have ok2: "SUCCEEDED hr2" using a(4) lo(1) assms(3) by simp
    have t2: "str_text v2 = out" using a(3) ok2 t1 out by simp
    have l2: "m_cchLen v2 = length out" using length_str_text [OF a(2)] t2 by simp
    obtain ys where q: "QueryStr v2 = out @ ys"
      using t2 unfolding str_text_def by (metis append_take_drop_id)
    have u: "u32 (QueryCCH v2 * 2) = 2 * length out" using l2 lo(2) by (simp add: QueryCCH_def)
    obtain err M' where M: "MULTISZ_AuxAppend 2 heap (out @ ys) (2 * length out) True M = Some (err, M')"
      "if err = None then mz_inv 2 M' (if out = [] then ss else ss @ [out]) else M' = M"
      "heap_total heap \<and> 2 * (length (msz_enc ss) + length out + 2) + STR_SLOP \<le> MAXDWORD \<longrightarrow> err = None"
      by (rule returns_pairE [OF MULTISZ_AuxAppend_spec [OF assms(5,2) _ lo(3,2)]]) (simp, elim conjE, rule that)
    have M': "mz_inv 2 M' (ss @ [out])" using M(2,3) assms(3,9) out by (auto simp: line_name_def)
    note D = deref_found [OF ok, simplified, OF p]
    obtain T' where T': "DeleteKey (et_vt (deref_entry (Some p) ?st1)) (QueryName (et_entries st p)) (et_table (deref_entry (Some p) ?st1)) = Some T'"
      "refs_ok refs ((deref_entry (Some p) ?st1)\<lparr>et_table := T'\<rparr>)"
      "env_map (et_entries st) T' = env_del ?m (QueryName (et_entries st p))"
      "mset (ht_records T') \<subseteq># mset (ht_records (et_table st))"
      using returns_conj [OF delete_entry_spec [OF D(1), of "QueryName (et_entries st p)"]
          delete_records [OF D(1), of "QueryName (et_entries st p)"]] D by (auto simp: deref_entry_def elim: returnsE)
    obtain v3 where v3: "STRU_Reset v2 = Some v3" "stru_inv v3"
    proof -
      have "buffer_inv 2 (m_Buff v2)" "QueryStr v2 \<noteq> []" using a(2) stru_invD(3) [OF a(2)] by (auto simp: stru_inv_def)
      then show thesis using STRU_Reset_spec [of v2] that by (auto elim: returnsE)
    qed
    have "et_vt (deref_entry (Some p) ?st1) = et_vt ?st1" by (simp add: D)
    moreover have "(deref_entry (Some p) ?st1)\<lparr>et_table := T'\<rparr> = st\<lparr>et_table := T'\<rparr>" by (simp add: deref_entry_def)
    ultimately have run: "output_line heap l M s st = Some (hr2, M', v3, st\<lparr>et_table := T'\<rparr>)"
      using F c(1) ok1 L(1) n1 a(1) ok2 M(1) T'(1) v3(1) q u by (simp add: output_line_def)
    have "env_del ?m (QueryName (et_entries st p)) = env_del ?m (line_name l)" using env_del_cong [OF eq] by simp
    then show ?thesis
      unfolding run using ok2 M' v3(2) T'(2-4) by (simp add: deref_entry_def)
  qed
qed


lemma output_lines_spec:
  assumes "heap_ok 2 heap" "heap_total heap" "lines_ok lines" "refs_ok refs st" "stru_inv s" "mz_inv 2 M ss"
    "2 * (length (msz_enc (ss @ merged_lines (env_map (et_entries st) (et_table st)) lines)) + length (msz_enc lines)) + STR_SLOP \<le> MAXDWORD"
  shows "returns (output_lines heap lines M s st) (\<lambda>(hr, M', st'). SUCCEEDED hr \<and> refs_ok refs st' \<and>
    mz_inv 2 M' (ss @ merged_lines (env_map (et_entries st) (et_table st)) lines) \<and> et_entries st' = et_entries st \<and>
    env_map (et_entries st') (et_table st') = unused_entries (env_map (et_entries st) (et_table st)) lines \<and>
    mset (ht_records (et_table st')) \<subseteq># mset (ht_records (et_table st)))"
  using assms(3-)
proof (induction lines arbitrary: st s M ss)
  case (Cons l lines)
  let ?m = "env_map (et_entries st) (et_table st)"
  let ?out = "case ?m (line_name l) of None \<Rightarrow> l | Some v \<Rightarrow> line_name l @ v"
  have merged: "merged_lines ?m (l # lines) = ?out # merged_lines (env_del ?m (line_name l)) lines"
    using env_del_absent [of ?m "line_name l"] env_map_cong by (auto split: option.split)
  have l: "61 \<in> set l" "0 \<notin> set l" "lines_ok lines" using Cons.prems(1) by (auto simp: lines_ok_def)
  have b: "2 * (length (msz_enc ss) + length l + length ?out + 2) + STR_SLOP \<le> MAXDWORD"
    using Cons.prems(5) unfolding merged by simp
  obtain hr M1 s1 st1 where o: "output_line heap l M s st = Some (hr, M1, s1, st1)" "SUCCEEDED hr" "mz_inv 2 M1 (ss @ [?out])"
    "stru_inv s1" "refs_ok refs st1" "et_entries st1 = et_entries st"
    "env_map (et_entries st1) (et_table st1) = env_del ?m (line_name l)"
    "mset (ht_records (et_table st1)) \<subseteq># mset (ht_records (et_table st))"
    using output_line_spec [OF Cons.prems(2) assms(1,2) Cons.prems(3,4) l(1,2) refl b] by (auto elim: returnsE)
  have b1: "2 * (length (msz_enc ((ss @ [?out]) @ merged_lines (env_map (et_entries st1) (et_table st1)) lines)) + length (msz_enc lines)) + STR_SLOP \<le> MAXDWORD"
    using Cons.prems(5) unfolding merged o(7) by simp
  show ?case
    using Cons.IH [OF l(3) o(5,4,3) b1] o(1,2,6,8) unfolding o(7) merged
    by (auto elim!: returns_mono intro: subset_mset.order_trans)
qed simp

lemma length_msz_enc: "length (msz_enc xs) = (\<Sum>x \<in># mset xs. Suc (length x))"
  by (induction xs) (auto simp: msz_enc_def)

lemma length_msz_enc_mono:
  assumes "mset ps \<subseteq># mset qs"
  shows "length (msz_enc (map f ps)) \<le> length (msz_enc (map f qs))"
proof -
  obtain K where "mset qs = mset ps + K" using assms by (auto simp: subset_mset.le_iff_add)
  then show ?thesis by (simp add: length_msz_enc)
qed

lemma OutputEnvironmentVariables_spec:
  assumes "refs_ok refs st" "heap_ok 2 heap" "heap_total heap" "buffer_inv 2 (mz_Buff M)" "2 \<le> length (mz_str M)"
    "lines_ok lines" "m = env_map (et_entries st) (et_table st)"
    "2 * (length (msz_enc (merged_lines m lines)) + length (msz_enc lines) +
      length (msz_enc (map (\<lambda>p. env_line (et_entries st p)) (ht_records (et_table st)))) + 2) + STR_SLOP \<le> MAXDWORD"
  shows "returns (OutputEnvironmentVariables heap (Some lines) M st) (\<lambda>(hr, M', st'). SUCCEEDED hr \<and> refs_ok refs st' \<and>
    env_map (et_entries st') (et_table st') = unused_entries m lines \<and>
    mz_inv 2 M' (merged_lines m lines @ filter (\<lambda>l. l \<noteq> []) (map (\<lambda>p. env_line (et_entries st' p)) (ht_records (et_table st')))))"
proof -
  obtain M0 where M0: "MULTISZ_Reset M = Some M0" "mz_inv 2 M0 []"
    using MULTISZ_Reset_spec [OF assms(4,5)] by (auto elim: returnsE)
  have b: "2 * (length (msz_enc ([] @ merged_lines (env_map (et_entries st) (et_table st)) lines)) + length (msz_enc lines)) + STR_SLOP \<le> MAXDWORD"
    using assms(7,8) by simp
  obtain hr M1 st1 where o: "output_lines heap lines M0 STRU_new st = Some (hr, M1, st1)" "SUCCEEDED hr" "refs_ok refs st1"
    "mz_inv 2 M1 (merged_lines m lines)" "et_entries st1 = et_entries st"
    "env_map (et_entries st1) (et_table st1) = unused_entries m lines"
    "mset (ht_records (et_table st1)) \<subseteq># mset (ht_records (et_table st))"
    using output_lines_spec [OF assms(2,3,6,1) stru_inv_new(1) M0(2) b] assms(7) by (auto elim: returnsE)
  have inv: "ht_inv (et_vt st1) (et_table st1)" by (rule refs_okD(2) [OF o(3)])
  have "2 * (length (msz_enc (merged_lines m lines)) + length (msz_enc (map (\<lambda>p. env_line (et_entries st1 p)) (ht_records (et_table st1)))) + 2) + STR_SLOP \<le> MAXDWORD"
    using length_msz_enc_mono [OF o(7), of "\<lambda>p. env_line (et_entries st p)"]
    unfolding o(5) by (intro order_trans [OF _ assms(8)] add_right_mono mult_left_mono) simp_all
  from CopyToMultiSz_all [OF assms(2,3) o(4) this]
  obtain M2 where M2: "fold (\<lambda>p r. r \<bind> CopyToMultiSz heap (et_entries st1) p) (ht_records (et_table st1)) (Some M1) = Some M2"
    "mz_inv 2 M2 (merged_lines m lines @ filter (\<lambda>l. l \<noteq> []) (map (\<lambda>p. env_line (et_entries st1 p)) (ht_records (et_table st1))))"
    by (auto elim: returnsE)
  show ?thesis
    using M0(1) o(1-3,6) M2 by (simp add: OutputEnvironmentVariables_def Apply_spec [OF inv])
qed

subsection \<open>The token\<close>

lemma STRA_Reset_spec:
  assumes "stra_inv s"
  shows "returns (STRA_Reset s) (\<lambda>s'. stra_inv s' \<and> a_text s' = [])"
  using assms stra_invD(3) [OF assms] by (auto simp: STRA_Reset_def stra_inv_def buffer_inv_def a_text_def)

lemma STRA_Copy_spec:
  assumes "heap_ok 1 heap" "stra_inv s" "0 \<notin> set x"
  shows "returns (STRA_Copy heap x s) (\<lambda>(hr, s'). stra_inv s' \<and> (SUCCEEDED hr \<longrightarrow> a_text s' = x))"
proof (cases "length x < STRSAFE_MAX_CCH")
  case True
  then have "StringCchLengthW (x @ [0]) STRSAFE_MAX_CCH = (S_OK, length x)" "length x < 4294967296"
    using StringCchLengthW_nul_free [OF assms(3)] by (simp_all add: STRSAFE_MAX_CCH_def)
  then show ?thesis
    using STRA_CopyN_spec [OF assms(1,2), of "length x" "x @ [0]"]
    by (auto simp: STRA_Copy_def elim!: returns_mono split: if_splits)
next
  case False
  then show ?thesis
    using StringCchLengthW_nul_free [OF assms(3)] assms(2) by (simp add: STRA_Copy_def)
qed

lemma STRA_CopyW_safe:
  assumes "heap_ok 1 heap" "stra_inv s" "wide_cp_ok cp conv" "0 \<notin> set x" "length x + 1 \<le> MAXDWORD"
    "\<forall>t. conv x = Some t \<longrightarrow> length t + 1 \<le> MAXDWORD"
  shows "returns (STRA_CopyW heap cp x s) (\<lambda>(hr, s'). stra_inv s' \<and>
    (SUCCEEDED hr \<longrightarrow> (if x = [] then s' = s else conv x = Some (a_text s'))))"
proof (cases "length x < STRSAFE_MAX_CCH \<and> x \<noteq> []")
  case True
  then have "StringCchLengthW (x @ [0]) STRSAFE_MAX_CCH = (S_OK, length x)"
    using StringCchLengthW_nul_free [OF assms(4)] by simp
  then show ?thesis
    using STRA_AuxAppendW_spec [OF assms(2,1) le0 assms(3) conjunct2 [OF True], of] assms(5,6) True
    by (auto simp: STRA_CopyW_def aw_post_def elim!: returns_mono split: if_splits)
next
  case False
  then show ?thesis
    using StringCchLengthW_nul_free [OF assms(4)] assms(2) CopyW_empty_keeps_text [OF assms(2), of heap cp]
    by (auto simp: STRA_CopyW_def)
qed

lemma token_entry_spec:
  assumes "refs_ok refs st" "heap_ok 2 (os_heap os)" "code_page_ok acp" "stra_inv g" "Count (et_table st) < MAXDWORD"
  shows "returns (token_entry os acp hr0 g st) (\<lambda>(hr, st'). refs_ok refs st' \<and> Count (et_table st') \<le> Suc (Count (et_table st)) \<and>
    (env_map (et_entries st') (et_table st') = env_map (et_entries st) (et_table st) \<or> FAILED hr \<or>
      (\<exists>w. env_map (et_entries st') (et_table st') = env_upd (env_map (et_entries st) (et_table st)) ASPNETCORE_APP_TOKEN_ENV_STR w)))"
proof -
  obtain r st1 where n: "new_entry os st = (r, st1)" by force
  note N = new_entry_ok [OF assms(1) n]
  show ?thesis
  proof (cases r)
    case None
    then show ?thesis using N(1-3) n by (simp add: token_entry_def)
  next
    case (Some q)
    obtain guid where guid: "cstr (a_str g) = Some guid"
      using cstr_takeWhile [of "a_text g"] a_str_split [OF assms(4)] by metis
    have gl: "length guid < 4611686018427387904"
      using cstr_length [OF guid] stra_invD(1,2) [OF assms(4)] by (simp add: MAXDWORD_def)
    have so: "stru_ok (os_heap os) STRU_new" using assms(2) by (simp add: stru_ok_def)
    obtain hrc tok where tok: "STRU_CopyA (os_heap os) acp (Some guid) STRU_new = Some (hrc, tok)"
      using AuxAppendA_spec [OF so assms(3) le0 gl] by (auto simp: STRU_CopyA_def elim: returnsE)
    have k: "0 \<notin> set ASPNETCORE_APP_TOKEN_ENV_STR" by (simp add: ASPNETCORE_APP_TOKEN_ENV_STR_def)
    have d: "env_map (et_entries (deref_entry (Some q) st1)) (et_table (deref_entry (Some q) st1)) = env_map (et_entries st) (et_table st)"
      "Count (et_table (deref_entry (Some q) st1)) = Count (et_table st)"
      using N(1,2) by (simp_all add: deref_entry_def)
    show ?thesis
      using init_and_insert_ok [OF assms(1) n [unfolded Some] assms(2) k c_text_nul_free [of tok] assms(5)]
        deref_new_entry_ok [OF assms(1) n [unfolded Some]] d n Some guid tok
      by (cases "FAILED hrc") (auto simp: token_entry_def elim!: returns_mono)
  qed
qed

lemma SetupAppToken_spec:
  assumes "refs_ok refs st" "heap_ok 2 (os_heap os)" "heap_ok 1 aheap" "wide_cp_ok utf8 conv" "code_page_ok acp" "stra_inv g"
    "Count (et_table st) < MAXDWORD" "\<forall>u. uuid = Inr u \<longrightarrow> 0 \<notin> set u"
    "\<forall>v t. env_map (et_entries st) (et_table st) ASPNETCORE_APP_TOKEN_ENV_STR = Some v \<and> conv v = Some t \<longrightarrow> length t + 1 \<le> MAXDWORD"
  shows "returns (SetupAppToken os aheap utf8 acp uuid g st) (\<lambda>(hr, g', st'). refs_ok refs st' \<and> stra_inv g' \<and>
    Count (et_table st') \<le> Suc (Count (et_table st)) \<and>
    (case env_map (et_entries st) (et_table st) ASPNETCORE_APP_TOKEN_ENV_STR of
       Some v \<Rightarrow> env_map (et_entries st') (et_table st') = env_map (et_entries st) (et_table st) \<and>
         (SUCCEEDED hr \<longrightarrow> (if v = [] then a_text g' = [] else conv v = Some (a_text g')))
     | None \<Rightarrow> env_map (et_entries st') (et_table st') = env_map (et_entries st) (et_table st) \<or> FAILED hr \<or>
         (\<exists>w. env_map (et_entries st') (et_table st') =
            env_upd (env_map (et_entries st) (et_table st)) ASPNETCORE_APP_TOKEN_ENV_STR w)))"
proof (rule find_entry_spec [OF assms(1), of ASPNETCORE_APP_TOKEN_ENV_STR])
  let ?m = "env_map (et_entries st) (et_table st)"
  assume F: "FindKey (et_vt st) ASPNETCORE_APP_TOKEN_ENV_STR (et_table st) = Some (None, et_table st)"
    and m: "?m ASPNETCORE_APP_TOKEN_ENV_STR = None"
  have "returns (make_guid aheap uuid g) (\<lambda>(made, hr, g'). stra_inv g')"
  proof (cases uuid)
    case (Inr u)
    then have "0 \<notin> set u" using assms(8) by simp
    then obtain hr g' where "STRA_Copy aheap u g = Some (hr, g')" "stra_inv g'"
      using STRA_Copy_spec [OF assms(3,6), of u] by (auto elim: returnsE)
    then show ?thesis using Inr assms(6) by (simp add: make_guid_def)
  qed (use assms(6) in \<open>simp add: make_guid_def\<close>)
  then obtain made hr g' where mg: "make_guid aheap uuid g = Some (made, hr, g')" "stra_inv g'"
    by (rule returns_tripleE) (rule that)
  show ?thesis
    using F m mg assms(1) token_entry_spec [OF assms(1,2,5) mg(2) assms(7), of hr]
    by (auto simp: SetupAppToken_def elim!: returns_mono)
next
  let ?m = "env_map (et_entries st) (et_table st)"
  fix p
  assume F: "FindKey (et_vt st) ASPNETCORE_APP_TOKEN_ENV_STR (et_table st) = Some (Some p, ReferenceRecord p (et_table st))"
    and m: "?m ASPNETCORE_APP_TOKEN_ENV_STR = Some (QueryValue (et_entries st p))"
    and ok: "refs_ok (refs(p := refs p + 1)) (st\<lparr>et_table := ReferenceRecord p (et_table st)\<rparr>)" and p: "p < et_next st" and e: "entry_ok (et_entries st p)"
  let ?v = "QueryValue (et_entries st p)"
  note D = deref_found [OF ok, simplified, OF p]
  obtain g1 where g1: "STRA_Reset g = Some g1" "stra_inv g1" "a_text g1 = []"
    using STRA_Reset_spec [OF assms(6)] by (auto elim: returnsE)
  have l: "length ?v + 1 \<le> MAXDWORD"
    using c_text_length [of "en_strValue (et_entries st p)"] e by (simp add: entry_ok_def QueryValue_def)
  have t: "\<forall>t. conv ?v = Some t \<longrightarrow> length t + 1 \<le> MAXDWORD" using assms(9) m by blast
  show ?thesis
    using F m D g1 STRA_CopyW_safe [OF assms(3) g1(2) assms(4) Query_nul_free(2) l t]
    by (auto simp: SetupAppToken_def elim!: returns_mono)
qed

text \<open>
  A status of the UUID functions is a positive number, so their failure counts as success: the backend
  is started without a token.
\<close>

lemma SetupAppToken_loses_status:
  assumes "refs_ok refs st" "env_map (et_entries st) (et_table st) ASPNETCORE_APP_TOKEN_ENV_STR = None" "a_IsEmpty g"
  shows "SetupAppToken os aheap utf8 acp (Inl 1824) g st = Some (1824, g, st) \<and> SUCCEEDED 1824"
  by (rule find_entry_spec [OF assms(1), of ASPNETCORE_APP_TOKEN_ENV_STR])
    (use assms(2,3) in \<open>simp_all add: SetupAppToken_def make_guid_def FAILED_def\<close>)


subsection \<open>The command line\<close>

lemma executable_path_spec:
  assumes "heap_ok 2 heap" "0 \<notin> set dir" "0 \<notin> set p" "\<forall>q n r. fullpath q n = Some r \<longrightarrow> 0 \<notin> set r \<and> length r < n"
  shows "returns (executable_path heap new_ok fullpath can_open dir p) (\<lambda>(hr, q). 0 \<notin> set q \<and>
    (SUCCEEDED hr \<longrightarrow> q = p \<or> (\<exists>n. fullpath (dir @ BACKSLASH # p) n = Some q \<and> can_open q)))"
proof -
  have b: "0 \<notin> set [BACKSLASH]" by (simp add: BACKSLASH_def)
  obtain hr1 r1 where r1: "STRU_Copy heap dir STRU_new = Some (hr1, r1)" "stru_inv r1" "SUCCEEDED hr1 \<longrightarrow> str_text r1 = dir"
    by (rule returns_pairE [OF STRU_Copy_spec [OF assms(1) stru_inv_new(1) assms(2)]]) (rule that, auto)
  obtain hr2 r2 where r2: "STRU_Append heap [BACKSLASH] r1 = Some (hr2, r2)" "stru_inv r2"
    "SUCCEEDED hr2 \<longrightarrow> str_text r2 = str_text r1 @ [BACKSLASH]"
    by (rule returns_pairE [OF STRU_Append_spec [OF assms(1) r1(2) b]]) (rule that, auto)
  obtain hr3 r3 where r3: "STRU_Append heap p r2 = Some (hr3, r3)" "stru_inv r3" "SUCCEEDED hr3 \<longrightarrow> str_text r3 = str_text r2 @ p"
    by (rule returns_pairE [OF STRU_Append_spec [OF assms(1) r2(2) assms(3)]]) (rule that, auto)
  have c: "c_text r3 = dir @ BACKSLASH # p" if "SUCCEEDED hr1" "SUCCEEDED hr2" "SUCCEEDED hr3"
    using that r1(3) r2(3) r3(3) assms(2,3) b by (subst c_text_str_text [OF r3(2)]) auto
  show ?thesis
    using r1(1) r2(1) r3(1) assms(3,4) c
    by (auto simp: executable_path_def Let_def split: option.split)
qed

text \<open>
  A command line that could not be completed is not empty, so the next attempt takes it as it is.
\<close>

lemma SetupCommandLine_reuses:
  "\<not> IsEmpty c \<Longrightarrow> SetupCommandLine heap new_ok fullpath can_open pp dir args c = Some (S_OK, c)"
  by (simp add: SetupCommandLine_def)

lemma SetupCommandLine_spec:
  assumes "heap_ok 2 heap" "stru_inv c" "IsEmpty c" "\<forall>q n r. fullpath q n = Some r \<longrightarrow> 0 \<notin> set r \<and> length r < n"
  shows "returns (SetupCommandLine heap new_ok fullpath can_open pp dir args c) (\<lambda>(hr, c'). stru_inv c' \<and>
    (SUCCEEDED hr \<longrightarrow> (\<exists>path. c_text c' = path @ L '' '' @ c_text args \<and>
      (path = c_text pp \<or> (\<exists>n. fullpath (c_text dir @ BACKSLASH # c_text pp) n = Some path \<and> can_open path)))))"
proof -
  obtain hr1 q where q: "executable_path heap new_ok fullpath can_open (c_text dir) (c_text pp) = Some (hr1, q)" "0 \<notin> set q"
    "SUCCEEDED hr1 \<longrightarrow> q = c_text pp \<or> (\<exists>n. fullpath (c_text dir @ BACKSLASH # c_text pp) n = Some q \<and> can_open q)"
    by (rule returns_pairE [OF executable_path_spec [OF assms(1) c_text_nul_free c_text_nul_free assms(4)]]) (elim conjE, rule that)
  have b: "0 \<notin> set (L '' '')" by simp
  obtain hr2 c1 where c1: "STRU_Copy heap q c = Some (hr2, c1)" "stru_inv c1" "SUCCEEDED hr2 \<longrightarrow> str_text c1 = q"
    by (rule returns_pairE [OF STRU_Copy_spec [OF assms(1,2) q(2)]]) (rule that, auto)
  obtain hr3 c2 where c2: "STRU_Append heap (L '' '') c1 = Some (hr3, c2)" "stru_inv c2"
    "SUCCEEDED hr3 \<longrightarrow> str_text c2 = str_text c1 @ L '' ''"
    by (rule returns_pairE [OF STRU_Append_spec [OF assms(1) c1(2) b]]) (rule that, auto)
  obtain hr4 c3 where c3: "STRU_Append heap (c_text args) c2 = Some (hr4, c3)" "stru_inv c3"
    "SUCCEEDED hr4 \<longrightarrow> str_text c3 = str_text c2 @ c_text args"
    by (rule returns_pairE [OF STRU_Append_spec [OF assms(1) c2(2) c_text_nul_free]]) (rule that, auto)
  have t: "c_text c3 = q @ L '' '' @ c_text args" if "SUCCEEDED hr2" "SUCCEEDED hr3" "SUCCEEDED hr4"
  proof -
    have "str_text c3 = q @ L '' '' @ c_text args" using that c1(3) c2(3) c3(3) by simp
    then show ?thesis using c_text_str_text [OF c3(2)] q(2) by simp
  qed
  have run: "SetupCommandLine heap new_ok fullpath can_open pp dir args c =
      Some (if FAILED hr1 then (hr1, c) else if FAILED hr2 then (hr2, c1) else if FAILED hr3 then (hr3, c2) else (hr4, c3))"
    using q(1) c1(1) c2(1) c3(1) assms(3) by (simp add: SetupCommandLine_def)
  show ?thesis unfolding run using assms(2) c1(2) c2(2) c3(2) q(3) t by auto
qed

section \<open>Properties\<close>

text \<open>
  C15: choosing a port ends: at most ten ports are drawn, each in the documented range. A drawn port on which
  the table shows a listener is passed over. On success nobody listened on the port in a table that was
  read after drawing it; the error is the one of the query, or \<open>ERROR_PORT_NOT_SET\<close> after ten ports in use.
  Where the table cannot be read on this version of Windows, the first port drawn is taken without a check. The table may change at will between
  the queries, which may fail; a query that is refused for the size of the buffer names a larger size, and
  the sizes stay below 4 GB less 200 bytes.
\<close>

theorem GetRandomPort_correct:
  assumes "tcp_table_ok S"
  shows "returns (GetRandomPort S 0 t) (\<lambda>(hr, port, t'). t < t' \<and> MIN_PORT < port \<and> port \<le> MAX_PORT \<and>
    (if net_nsi_missing S then hr = S_OK \<and> port = port_of_rand (net_rand S t)
     else \<exists>n t1. n < MAX_RETRY \<and> busy_draws S n t t1 \<and> t1 < t' \<and> port = port_of_rand (net_rand S t1) \<and>
       (if SUCCEEDED hr
        then \<exists>u m rows. t1 < u \<and> u < t' \<and> net_table S u m = Inr rows \<and> listener_on (word_of_nat port) rows = None
        else (\<exists>u. t1 < u \<and> u < t' \<and> query_error S u hr) \<or>
          hr = HRESULT_FROM_WIN32 ERROR_PORT_NOT_SET \<and> Suc n = MAX_RETRY \<and> busy_draws S MAX_RETRY t t')))"
  using GetRandomPort_spec [OF assms, of t] unfolding picked_port_def .

definition busy_net :: net_os where
  "busy_net = \<lparr>net_nsi_missing = False, net_rand = (\<lambda>t. t), net_alloc = (\<lambda>_. True),
     net_table = (\<lambda>t n. if n < 1400 then Inl (ERROR_INSUFFICIENT_BUFFER, 1400) else Inr [(0x0204, 7)]),
     net_socket = (\<lambda>_. None), net_pton = (\<lambda>_. None), net_connect = (\<lambda>_ _. None), net_close = (\<lambda>_. None)\<rparr>"

lemma busy_net_ok: "tcp_table_ok busy_net"
  by (simp add: tcp_table_ok_def busy_net_def ERROR_INSUFFICIENT_BUFFER_def)

lemma GetRandomPort_correct_witness:
  "returns (GetRandomPort busy_net 0 3) (\<lambda>(hr, port, t'). 3 < t' \<and> MIN_PORT < port \<and> port \<le> MAX_PORT \<and>
    (\<exists>n t1. n < MAX_RETRY \<and> busy_draws busy_net n 3 t1 \<and> t1 < t' \<and> port = port_of_rand t1 \<and>
       (if SUCCEEDED hr
        then \<exists>u m rows. t1 < u \<and> u < t' \<and> net_table busy_net u m = Inr rows \<and> listener_on (word_of_nat port) rows = None
        else (\<exists>u. t1 < u \<and> u < t' \<and> query_error busy_net u hr) \<or>
          hr = HRESULT_FROM_WIN32 ERROR_PORT_NOT_SET \<and> Suc n = MAX_RETRY \<and> busy_draws busy_net MAX_RETRY 3 t')))"
proof -
  have "\<not> net_nsi_missing busy_net" "net_rand busy_net t = t" for t by (simp_all add: busy_net_def)
  then show ?thesis using GetRandomPort_correct [OF busy_net_ok, of 3] by simp
qed

text \<open>
  C9: \<open>SetupListenPort\<close> makes module and backend agree on the port: on success \<open>m_dwPort\<close> lies in the
  allowed range and the table tells the backend that same port, all other variables being unchanged;
  the error is critical exactly when the configuration asks for a port outside the range; whatever
  fails, no reference to an entry is gained or lost.
\<close>

theorem SetupListenPort_correct:
  assumes "refs_ok refs st" "heap_ok 2 (os_heap os)" "stru_inv struPort" "Count (et_table st) < MAXDWORD"
    "tcp_table_ok S"
  shows "returns (SetupListenPort os S struPort st t) (\<lambda>(hr, fCritical, m_dwPort, struPort', st', t'). refs_ok refs st' \<and>
    stru_inv struPort' \<and> Count (et_table st') \<le> Suc (Count (et_table st)) \<and> t \<le> t' \<and>
    port_outcome (env_map (et_entries st) (et_table st)) hr fCritical m_dwPort struPort' (env_map (et_entries st') (et_table st')))"
  by (rule SetupListenPort_spec [OF assms])

lemma SetupListenPort_correct_witness:
  "returns (SetupListenPort calm_os busy_net STRU_new no_entries 0) (\<lambda>(hr, fCritical, m_dwPort, struPort', st', t'). refs_ok (\<lambda>_. 0) st' \<and>
    stru_inv struPort' \<and> Count (et_table st') \<le> Suc (Count (et_table no_entries)) \<and> 0 \<le> t' \<and>
    port_outcome (env_map (et_entries no_entries) (et_table no_entries)) hr fCritical m_dwPort struPort'
      (env_map (et_entries st') (et_table st')))"
  by (rule SetupListenPort_correct [OF env_ok_refs_ok [OF no_entries_ok(4)] _ stru_inv_new(1) _ busy_net_ok]) (simp_all add: MAXDWORD_def calm_os_def)



end
