(* ===== verification/ServerProc.thy ===== *)
theory ServerProc
  imports ProcEnv
begin

section \<open>The backend process (RequestHandler/outofprocess/serverprocess.cxx, second part)\<close>

text \<open>
  One \<open>SERVER_PROCESS\<close> object and the kernel objects it uses: starting the backend, waiting until it
  listens, finding the process that does, cleaning up. The kernel is a ledger of open handles and of
  registered waits; closing a handle that is not open is a fault (\<open>None\<close>), as is an access outside the
  arrays of child processes. The answers of the operating system are parameters indexed by a clock
  that advances with every question.
\<close>

definition MAX_ACTIVE_CHILD_PROCESSES :: nat where "MAX_ACTIVE_CHILD_PROCESSES = 16"

text \<open>Codes of \<open>winerror.h\<close> and \<open>winbase.h\<close>.\<close>

definition STILL_ACTIVE :: DWORD where "STILL_ACTIVE = 259"
definition ERROR_NOT_SUPPORTED :: DWORD where "ERROR_NOT_SUPPORTED = 50"
definition ERROR_MORE_DATA :: DWORD where "ERROR_MORE_DATA = 234"
definition ERROR_PROCESS_ABORTED :: DWORD where "ERROR_PROCESS_ABORTED = 1067"
definition ERROR_CREATE_FAILED :: DWORD where "ERROR_CREATE_FAILED = 1631"
definition E_APPLICATION_ACTIVATION_TIMED_OUT :: HRESULT where "E_APPLICATION_ACTIVATION_TIMED_OUT = 0x8027025A"
definition E_APPLICATION_ACTIVATION_EXEC_FAILURE :: HRESULT where "E_APPLICATION_ACTIVATION_EXEC_FAILURE = 0x8027025B"

lemma failed_start_codes [simp]:
  "FAILED E_APPLICATION_ACTIVATION_TIMED_OUT" "FAILED E_APPLICATION_ACTIVATION_EXEC_FAILURE"
  "FAILED (HRESULT_FROM_WIN32 ERROR_CREATE_FAILED)" "FAILED (HRESULT_FROM_WIN32 ERROR_PROCESS_ABORTED)"
  by (simp_all add: E_APPLICATION_ACTIVATION_TIMED_OUT_def E_APPLICATION_ACTIVATION_EXEC_FAILURE_def ERROR_CREATE_FAILED_def
      ERROR_PROCESS_ABORTED_def hresult_defs FAILED_def)

subsection \<open>Handles\<close>

datatype handle = NULL_HANDLE | INVALID_HANDLE_VALUE | Handle nat

text \<open>
  \<open>pw_waits\<close> are the registered waits whose callback has not run, with the object the callback is for;
  \<open>pw_killed\<close> are the handles given to \<open>TerminateProcess\<close>; \<open>pw_connections\<close> counts the live
  \<open>FORWARDER_CONNECTION\<close> objects; \<open>pw_env\<close> is the store of environment entries and the table in use.
\<close>

record proc_world =
  pw_clock :: nat
  pw_next :: nat
  pw_open :: "handle list"
  pw_waits :: "(handle \<times> nat) list"
  pw_killed :: "handle list"
  pw_connections :: int
  pw_env :: env_table

definition new_handle :: "'a proc_world_scheme \<Rightarrow> handle \<times> 'a proc_world_scheme" where
  "new_handle w = (Handle (pw_next w), w\<lparr>pw_next := Suc (pw_next w), pw_open := Handle (pw_next w) # pw_open w\<rparr>)"

definition later :: "'a proc_world_scheme \<Rightarrow> 'a proc_world_scheme" where
  "later w = w\<lparr>pw_clock := Suc (pw_clock w)\<rparr>"

definition CloseHandle :: "handle \<Rightarrow> 'a proc_world_scheme \<Rightarrow> 'a proc_world_scheme option" where
  "CloseHandle h w = (if h \<in> set (pw_open w) then Some (w\<lparr>pw_open := remove1 h (pw_open w)\<rparr>) else None)"

definition TerminateProcess :: "handle \<Rightarrow> 'a proc_world_scheme \<Rightarrow> 'a proc_world_scheme" where
  "TerminateProcess h w = w\<lparr>pw_killed := h # pw_killed w\<rparr>"

definition UnregisterWait :: "handle \<Rightarrow> 'a proc_world_scheme \<Rightarrow> 'a proc_world_scheme" where
  "UnregisterWait h w = w\<lparr>pw_waits := filter (\<lambda>(h', _). h' \<noteq> h) (pw_waits w)\<rparr>"

text \<open>The idioms of the sources around them: nothing is done for \<open>NULL\<close> and \<open>INVALID_HANDLE_VALUE\<close>.\<close>

definition close_real :: "handle \<Rightarrow> 'a proc_world_scheme \<Rightarrow> 'a proc_world_scheme option" where
  "close_real h w = (if h \<noteq> NULL_HANDLE \<and> h \<noteq> INVALID_HANDLE_VALUE then CloseHandle h w else Some w)"

definition kill_close :: "handle \<Rightarrow> 'a proc_world_scheme \<Rightarrow> 'a proc_world_scheme option" where
  "kill_close h w =
     (if h \<noteq> NULL_HANDLE \<and> h \<noteq> INVALID_HANDLE_VALUE then CloseHandle h (TerminateProcess h w) else Some w)"

fun kill_close_all :: "handle list \<Rightarrow> 'a proc_world_scheme \<Rightarrow> 'a proc_world_scheme option" where
  "kill_close_all [] w = Some w"
| "kill_close_all (h # hs) w = kill_close h w \<bind> kill_close_all hs"

definition unregister :: "handle \<Rightarrow> 'a proc_world_scheme \<Rightarrow> 'a proc_world_scheme" where
  "unregister h w = (if h \<noteq> NULL_HANDLE then UnregisterWait h w else w)"

subsection \<open>The object\<close>

text \<open>\<open>m_pForwarderConnection\<close> is never shared, so it is modelled by whether it is set.\<close>

record SERVER_PROCESS =
  m_cRefs :: int
  m_lStopping :: int
  m_fReady :: bool
  m_fDebuggerAttached :: bool
  m_fStdoutLogEnabled :: bool
  m_fWindowsAuthEnabled :: bool
  m_fBasicAuthEnabled :: bool
  m_fAnonymousAuthEnabled :: bool
  m_fWebsocketsEnabled :: bool
  m_dwPort :: DWORD
  m_dwStartupTimeLimitInMS :: DWORD
  m_dwShutdownTimeLimitInMS :: DWORD
  m_dwProcessId :: DWORD
  m_dwListeningProcessId :: DWORD
  m_cChildProcess :: nat
  m_dwChildProcessIds :: "DWORD list"
  m_hChildProcessHandles :: "handle list"
  m_hChildProcessWaitHandles :: "handle list"
  m_hJobObject :: handle
  m_hStdoutHandle :: handle
  m_hProcessHandle :: handle
  m_hListeningProcessHandle :: handle
  m_hProcessWaitHandle :: handle
  m_hShutdownHandle :: handle
  m_pForwarderConnection :: bool
  m_ProcessPath :: STRU
  m_Arguments :: STRU
  m_struAppVirtualPath :: STRU
  m_struAppFullPath :: STRU
  m_struPhysicalPath :: STRU
  m_struLogFile :: STRU
  m_struFullLogFile :: STRU
  m_struPort :: STRU
  m_struCommandLine :: STRU
  m_straGuid :: STRA
  m_pEnvironmentVarTable :: "nat HASH_TABLE"

text \<open>
  The constructor. The members without an initialiser (\<open>m_dwPort\<close>, the time limits and the flags that
  \<open>Initialize\<close> sets) start with arbitrary values, which are parameters.
\<close>

definition SERVER_PROCESS_new :: "DWORD \<Rightarrow> bool \<Rightarrow> SERVER_PROCESS" where
  "SERVER_PROCESS_new any_number any_flag =
     \<lparr>m_cRefs = 1, m_lStopping = 0, m_fReady = False, m_fDebuggerAttached = any_flag, m_fStdoutLogEnabled = False,
      m_fWindowsAuthEnabled = any_flag, m_fBasicAuthEnabled = any_flag, m_fAnonymousAuthEnabled = any_flag,
      m_fWebsocketsEnabled = any_flag, m_dwPort = any_number, m_dwStartupTimeLimitInMS = any_number,
      m_dwShutdownTimeLimitInMS = any_number, m_dwProcessId = 0, m_dwListeningProcessId = 0, m_cChildProcess = 0,
      m_dwChildProcessIds = replicate MAX_ACTIVE_CHILD_PROCESSES 0,
      m_hChildProcessHandles = replicate MAX_ACTIVE_CHILD_PROCESSES NULL_HANDLE,
      m_hChildProcessWaitHandles = replicate MAX_ACTIVE_CHILD_PROCESSES NULL_HANDLE,
      m_hJobObject = NULL_HANDLE, m_hStdoutHandle = NULL_HANDLE, m_hProcessHandle = NULL_HANDLE,
      m_hListeningProcessHandle = NULL_HANDLE, m_hProcessWaitHandle = NULL_HANDLE, m_hShutdownHandle = NULL_HANDLE,
      m_pForwarderConnection = False, m_ProcessPath = STRU_new, m_Arguments = STRU_new, m_struAppVirtualPath = STRU_new,
      m_struAppFullPath = STRU_new, m_struPhysicalPath = STRU_new, m_struLogFile = STRU_new, m_struFullLogFile = STRU_new,
      m_struPort = STRU_new, m_struCommandLine = STRU_new, m_straGuid = STRA_new, m_pEnvironmentVarTable = HASH_TABLE_new\<rparr>"

text \<open>The answers of the operating system and of the code the object relies on.\<close>

record proc_os =
  po_env :: env_os
  po_net :: net_os
  po_aheap :: aheap
  po_utf8 :: wide_cp
  po_acp :: code_page
  po_uuid :: "nat \<Rightarrow> HRESULT + astr"
  po_env_strings :: "nat \<Rightarrow> wstr list option"
  po_new :: "nat \<Rightarrow> bool"
  po_path_is_relative :: "wstr \<Rightarrow> bool"
  po_fullpath :: "wstr \<Rightarrow> nat \<Rightarrow> wstr option"
  po_can_open :: "wstr \<Rightarrow> bool"
  po_create_directory :: "wstr \<Rightarrow> nat \<Rightarrow> DWORD option \<times> nat"
  po_log_name :: "nat \<Rightarrow> wstr \<Rightarrow> wstr option"
  po_create_file :: "nat \<Rightarrow> DWORD option"
  po_create_job :: "nat \<Rightarrow> bool"
  po_job_limits :: "nat \<Rightarrow> DWORD option"
  po_create_process :: "nat \<Rightarrow> DWORD + DWORD"
  po_assign :: "nat \<Rightarrow> DWORD option"
  po_resume :: "nat \<Rightarrow> DWORD option"
  po_exit_code :: "nat \<Rightarrow> DWORD option"
  po_debugger :: "nat \<Rightarrow> bool option"
  po_tick :: "nat \<Rightarrow> DWORD"
  po_job_alloc :: "nat \<Rightarrow> bool"
  po_job_query :: "nat \<Rightarrow> nat \<Rightarrow> DWORD option \<times> nat \<times> DWORD list"
  po_worker :: DWORD
  po_open_process :: "nat \<Rightarrow> DWORD \<Rightarrow> bool"
  po_terminate :: "nat \<Rightarrow> DWORD option"
  po_register :: "nat \<Rightarrow> bool"
  po_connection :: "nat \<Rightarrow> HRESULT option"

subsection \<open>Job object and clean-up\<close>

definition SetupJobObject :: "proc_os \<Rightarrow> 'a proc_world_scheme \<Rightarrow> SERVER_PROCESS \<Rightarrow> HRESULT \<times> 'a proc_world_scheme \<times> SERVER_PROCESS" where
  "SetupJobObject os w p =
     (if m_hJobObject p \<noteq> NULL_HANDLE then (S_OK, w, p)
      else if \<not> po_create_job os (pw_clock w) then (S_OK, later w, p)
      else let (h, w1) = new_handle w
           in (case po_job_limits os (pw_clock w) of Some err \<Rightarrow> HRESULT_FROM_WIN32 err | None \<Rightarrow> S_OK,
               later w1, p\<lparr>m_hJobObject := h\<rparr>))"

text \<open>The ids of the children whose handle is closed are reset, the others stay.\<close>

definition reset_ids :: "handle list \<Rightarrow> DWORD list \<Rightarrow> DWORD list" where
  "reset_ids hs ids = map2 (\<lambda>h pid. if h \<noteq> NULL_HANDLE then 0 else pid) hs ids"

definition release_connection :: "'a proc_world_scheme \<Rightarrow> SERVER_PROCESS \<Rightarrow> 'a proc_world_scheme \<times> SERVER_PROCESS" where
  "release_connection w p =
     (if m_pForwarderConnection p then (w\<lparr>pw_connections := pw_connections w - 1\<rparr>, p\<lparr>m_pForwarderConnection := False\<rparr>)
      else (w, p))"

definition CleanUp :: "'a proc_world_scheme \<Rightarrow> SERVER_PROCESS \<Rightarrow> ('a proc_world_scheme \<times> SERVER_PROCESS) option" where
  "CleanUp w p =
     (let w1 = fold unregister (m_hChildProcessWaitHandles p) (unregister (m_hProcessWaitHandle p) w)
      in do {
        w2 \<leftarrow> kill_close (m_hProcessHandle p) w1;
        w3 \<leftarrow> close_real (m_hListeningProcessHandle p) w2;
        w4 \<leftarrow> kill_close_all (m_hChildProcessHandles p) w3;
        w5 \<leftarrow> close_real (m_hJobObject p) w4;
        Some (release_connection w5
          (p\<lparr>m_hProcessWaitHandle := NULL_HANDLE,
             m_hChildProcessWaitHandles := map (\<lambda>_. NULL_HANDLE) (m_hChildProcessWaitHandles p),
             m_hProcessHandle := NULL_HANDLE, m_hListeningProcessHandle := NULL_HANDLE,
             m_dwChildProcessIds := reset_ids (m_hChildProcessHandles p) (m_dwChildProcessIds p),
             m_hChildProcessHandles := map (\<lambda>_. NULL_HANDLE) (m_hChildProcessHandles p),
             m_hJobObject := NULL_HANDLE\<rparr>))
      })"

text \<open>The part of \<open>StopProcess\<close> that concerns the object itself.\<close>

definition stop_handles :: "'a proc_world_scheme \<Rightarrow> SERVER_PROCESS \<Rightarrow> ('a proc_world_scheme \<times> SERVER_PROCESS) option" where
  "stop_handles w p = do {
     w1 \<leftarrow> kill_close_all (m_hChildProcessHandles p) w;
     w2 \<leftarrow> kill_close (m_hProcessHandle p) w1;
     Some (w2, p\<lparr>m_fReady := False,
                 m_dwChildProcessIds := reset_ids (m_hChildProcessHandles p) (m_dwChildProcessIds p),
                 m_hChildProcessHandles := map (\<lambda>_. NULL_HANDLE) (m_hChildProcessHandles p),
                 m_hProcessHandle := NULL_HANDLE\<rparr>)
   }"

text \<open>The part of the destructor that concerns the object itself.\<close>

definition destroy_handles :: "'a proc_world_scheme \<Rightarrow> SERVER_PROCESS \<Rightarrow> ('a proc_world_scheme \<times> SERVER_PROCESS) option" where
  "destroy_handles w p = do {
     (w1, p1) \<leftarrow> CleanUp w p;
     w2 \<leftarrow> close_real (m_hStdoutHandle p1) w1;
     Some (w2, p1\<lparr>m_hStdoutHandle := NULL_HANDLE\<rparr>)
   }"


subsection \<open>The processes of the job\<close>

text \<open>
  \<open>po_job_query t n\<close> is \<open>QueryInformationJobObject\<close> with a buffer of \<open>n\<close> bytes: the error code, the
  number of processes in the job and the ids that fitted. The loop doubles the buffer up to five
  times; the three callers look at the result in different ways.
\<close>

function job_list_loop :: "proc_os \<Rightarrow> nat \<Rightarrow> nat \<Rightarrow> nat \<Rightarrow> (HRESULT + DWORD option \<times> nat \<times> DWORD list) \<times> nat" where
  "job_list_loop os dwRetries cbNumBytes t =
     (if \<not> po_job_alloc os t then (Inl E_OUTOFMEMORY, Suc t)
      else let (err, assigned, ids) = po_job_query os t cbNumBytes
           in if err \<noteq> None \<and> err \<noteq> Some ERROR_MORE_DATA then (Inl (HRESULT_FROM_WIN32 (the err)), Suc t)
              else if dwRetries < 5 \<and> (length ids < assigned \<or> ids = [])
              then job_list_loop os (Suc dwRetries) (cbNumBytes * 2) (Suc t)
              else (Inr (err, assigned, ids), Suc t))"
  by pat_completeness auto

termination
  by (relation "measure (\<lambda>(_, dwRetries, _). 5 - dwRetries)") auto

declare job_list_loop.simps [simp del]

definition job_processes :: "proc_os \<Rightarrow> nat \<Rightarrow> (HRESULT + DWORD list) \<times> nat" where
  "job_processes os t =
     (case job_list_loop os 0 1024 t of
        (Inl hr, t') \<Rightarrow> (Inl hr, t')
      | (Inr (err, assigned, ids), t') \<Rightarrow>
          (if err = Some ERROR_MORE_DATA then Inl E_OUTOFMEMORY
           else if length ids < assigned \<or> ids = [] then Inl (HRESULT_FROM_WIN32 ERROR_PROCESS_ABORTED)
           else if MAX_ACTIVE_CHILD_PROCESSES < length ids then Inl (HRESULT_FROM_WIN32 ERROR_CREATE_FAILED)
           else Inr ids, t'))"

fun debugger_in :: "proc_os \<Rightarrow> DWORD list \<Rightarrow> nat \<Rightarrow> bool \<times> nat" where
  "debugger_in os [] t = (False, t)"
| "debugger_in os (dwPid # ids) t =
     (if dwPid = po_worker os then debugger_in os ids t
      else if \<not> po_open_process os t dwPid then (False, Suc t)
      else case po_debugger os t of
        None \<Rightarrow> (False, Suc t)
      | Some True \<Rightarrow> (True, Suc t)
      | Some False \<Rightarrow> debugger_in os ids (Suc t))"

definition IsDebuggerIsAttached :: "proc_os \<Rightarrow> nat \<Rightarrow> bool \<times> nat" where
  "IsDebuggerIsAttached os t =
     (case job_processes os t of
        (Inl hr, t') \<Rightarrow> (False, t')
      | (Inr ids, t') \<Rightarrow> debugger_in os ids t')"

definition open_process :: "proc_os \<Rightarrow> DWORD \<Rightarrow> 'a proc_world_scheme \<Rightarrow> handle \<times> 'a proc_world_scheme" where
  "open_process os dwPid w =
     (if po_open_process os (pw_clock w) dwPid then new_handle (later w) else (NULL_HANDLE, later w))"

text \<open>
  The child processes are stored behind those already known. \<open>m_cChildProcess\<close> is never reset, and
  only the number of ids in the list is checked: storing outside the arrays is a fault.
\<close>

fun child_loop :: "proc_os \<Rightarrow> DWORD list \<Rightarrow> 'a proc_world_scheme \<Rightarrow> SERVER_PROCESS \<Rightarrow> ('a proc_world_scheme \<times> SERVER_PROCESS) option" where
  "child_loop os [] w p = Some (w, p)"
| "child_loop os (dwPid # ids) w p =
     (if dwPid \<noteq> m_dwProcessId p \<and> dwPid \<noteq> po_worker os
      then let (h, w1) = open_process os dwPid w; i = m_cChildProcess p
           in if MAX_ACTIVE_CHILD_PROCESSES \<le> i then None
              else child_loop os ids w1
                (p\<lparr>m_hChildProcessHandles := (m_hChildProcessHandles p)[i := h],
                   m_dwChildProcessIds := (m_dwChildProcessIds p)[i := dwPid],
                   m_cChildProcess := Suc i\<rparr>)
      else child_loop os ids w p)"

definition GetChildProcessHandles :: "proc_os \<Rightarrow> 'a proc_world_scheme \<Rightarrow> SERVER_PROCESS \<Rightarrow>
    (HRESULT \<times> 'a proc_world_scheme \<times> SERVER_PROCESS) option" where
  "GetChildProcessHandles os w p =
     (case job_processes os (pw_clock w) of
        (Inl hr, t') \<Rightarrow> Some (hr, w\<lparr>pw_clock := t'\<rparr>, p)
      | (Inr ids, t') \<Rightarrow> map_option (Pair S_OK) (child_loop os ids (w\<lparr>pw_clock := t'\<rparr>) p))"

text \<open>
  \<open>StopAllProcessesInJobObject\<close> opens each process with its own handle, terminates it and closes the
  handle again; the ids of the processes it terminates are returned with the code.
\<close>

fun stop_all :: "proc_os \<Rightarrow> DWORD list \<Rightarrow> HRESULT \<Rightarrow> nat \<Rightarrow> HRESULT \<times> DWORD list \<times> nat" where
  "stop_all os [] hr t = (hr, [], t)"
| "stop_all os (dwPid # ids) hr t =
     (if dwPid = po_worker os \<or> \<not> po_open_process os t dwPid then stop_all os ids hr (Suc t)
      else case po_terminate os t of
        Some err \<Rightarrow> stop_all os ids (HRESULT_FROM_WIN32 err) (Suc t)
      | None \<Rightarrow> (let (hr', killed, t') = stop_all os ids hr (Suc t) in (hr', dwPid # killed, t')))"

definition StopAllProcessesInJobObject :: "proc_os \<Rightarrow> nat \<Rightarrow> HRESULT \<times> DWORD list \<times> nat" where
  "StopAllProcessesInJobObject os t =
     (case job_list_loop os 0 1024 t of
        (Inl hr, t') \<Rightarrow> (hr, [], t')
      | (Inr (err, assigned, ids), t') \<Rightarrow>
          if length ids < assigned \<or> ids = [] then (HRESULT_FROM_WIN32 ERROR_NOT_ENOUGH_MEMORY, [], t')
          else stop_all os ids S_OK t')"

subsection \<open>Waiting for the end of a process\<close>

text \<open>
  The wait takes a reference for its callback. \<open>RegisterWaitForSingleObject\<close> returns a \<open>BOOL\<close>, which
  the code reads as an \<open>NTSTATUS\<close>: the failure 0 is not negative.
\<close>

definition HRESULT_FROM_NT :: "int \<Rightarrow> HRESULT" where
  "HRESULT_FROM_NT x = word_of_int x OR 0x10000000"

definition RegisterProcessWait :: "proc_os \<Rightarrow> nat \<Rightarrow> 'a proc_world_scheme \<Rightarrow> SERVER_PROCESS \<Rightarrow>
    (HRESULT \<times> handle \<times> 'a proc_world_scheme \<times> SERVER_PROCESS) option" where
  "RegisterProcessWait os this w p =
     (let p1 = p\<lparr>m_cRefs := m_cRefs p + 1\<rparr>;
          (status, h, w1) =
            (if po_register os (pw_clock w)
             then (1 :: int, Handle (pw_next w),
                   w\<lparr>pw_next := Suc (pw_next w), pw_waits := (Handle (pw_next w), this) # pw_waits w\<rparr>)
             else (0, NULL_HANDLE, w));
          hr = (if status < 0 then HRESULT_FROM_NT status else S_OK)
      in if FAILED hr
         then if m_cRefs p1 = 1 then None
              else Some (hr, NULL_HANDLE, later w1, p1\<lparr>m_cRefs := m_cRefs p1 - 1\<rparr>)
         else Some (hr, h, later w1, p1))"

subsection \<open>Is the backend ready?\<close>

datatype wait_result = Exited (wr_debugger: bool) | WaitDone (wr_pid: DWORD) (wr_ready: bool) (wr_debugger: bool)

definition process_exited :: "proc_os \<Rightarrow> nat \<Rightarrow> bool" where
  "process_exited os t \<longleftrightarrow>
     (case po_exit_code os t of
        None \<Rightarrow> False
      | Some st \<Rightarrow> st \<noteq> STILL_ACTIVE \<and>
          (case po_exit_code os (Suc t) of None \<Rightarrow> False | Some st' \<Rightarrow> st' \<noteq> STILL_ACTIVE))"

text \<open>
  The loop of \<open>PostStartCheck\<close>: it goes on while the port is not served and the time is not over or a
  debugger is attached, so it may run forever (\<open>None\<close>). \<open>Sleep\<close> takes one unit of the clock; the time
  difference wraps around. \<open>fDebuggerAttached\<close> is the answer of the round before.
\<close>

partial_function (option) wait_ready :: "proc_os \<Rightarrow> DWORD \<Rightarrow> DWORD \<Rightarrow> DWORD \<Rightarrow> bool \<Rightarrow> nat \<Rightarrow> (wait_result \<times> nat) option" where
  "wait_ready os dwPort limit dwTickCount fDebuggerAttached t =
     (if process_exited os t then Some (Exited fDebuggerAttached, Suc (Suc t))
      else do {
        (hr, dwActualProcessId, fReady, t1) \<leftarrow> CheckIfServerIsUp (po_net os) dwPort (Suc (Suc t));
        (let (fDebugger, t2) = IsDebuggerIsAttached os t1;
             t3 = (if fReady then t2 else Suc t2);
             dwTimeDifference = po_tick os t3 - dwTickCount
         in if \<not> fReady \<and> (dwTimeDifference < limit \<or> fDebugger)
            then wait_ready os dwPort limit dwTickCount fDebugger (Suc t3)
            else Some (WaitDone dwActualProcessId fReady fDebugger, Suc t3))
      })"


text \<open>What is done at \<open>Finished\<close>.\<close>

definition post_finish :: "HRESULT \<Rightarrow> bool \<Rightarrow> 'a proc_world_scheme \<Rightarrow> SERVER_PROCESS \<Rightarrow> HRESULT \<times> 'a proc_world_scheme \<times> SERVER_PROCESS" where
  "post_finish hr fDebuggerAttached w p =
     (let p1 = p\<lparr>m_fDebuggerAttached := fDebuggerAttached\<rparr>
      in if FAILED hr then let (w', p') = release_connection w p1 in (hr, w', p') else (hr, w, p1))"

definition mark_ready :: "proc_os \<Rightarrow> bool \<Rightarrow> 'a proc_world_scheme \<Rightarrow> SERVER_PROCESS \<Rightarrow> HRESULT \<times> 'a proc_world_scheme \<times> SERVER_PROCESS" where
  "mark_ready os fDebuggerAttached w p =
     (if net_nsi_missing (po_net os) then post_finish S_OK fDebuggerAttached w (p\<lparr>m_fReady := True\<rparr>)
      else let (h, w1) = open_process os (m_dwListeningProcessId p) w
           in post_finish S_OK fDebuggerAttached w1 (p\<lparr>m_hListeningProcessHandle := h, m_fReady := True\<rparr>))"

text \<open>
  A last look when a child process listens (\<open>fChild\<close>), the connection, and the flag. A child that is
  no longer up ends the start without an error code.
\<close>

definition connect_and_mark :: "proc_os \<Rightarrow> bool \<Rightarrow> 'a proc_world_scheme \<Rightarrow> SERVER_PROCESS \<Rightarrow> HRESULT \<times> 'a proc_world_scheme \<times> SERVER_PROCESS" where
  "connect_and_mark os fDebuggerAttached w p =
     (if m_pForwarderConnection p then mark_ready os fDebuggerAttached w p
      else case po_connection os (pw_clock w) of
        None \<Rightarrow> post_finish E_OUTOFMEMORY fDebuggerAttached (later w) p
      | Some hr \<Rightarrow>
          (let w1 = (later w)\<lparr>pw_connections := pw_connections w + 1\<rparr>; p1 = p\<lparr>m_pForwarderConnection := True\<rparr>
           in if FAILED hr then post_finish hr fDebuggerAttached w1 p1 else mark_ready os fDebuggerAttached w1 p1))"

definition post_ready :: "proc_os \<Rightarrow> bool \<Rightarrow> bool \<Rightarrow> 'a proc_world_scheme \<Rightarrow> SERVER_PROCESS \<Rightarrow>
    (HRESULT \<times> 'a proc_world_scheme \<times> SERVER_PROCESS) option" where
  "post_ready os fChild fDebuggerAttached w p =
     (if fChild then do {
        (hr, dwActualProcessId, fReady, t) \<leftarrow> CheckIfServerIsUp (po_net os) (m_dwPort p) (pw_clock w);
        Some (if FAILED hr \<or> \<not> fReady then post_finish hr fDebuggerAttached (w\<lparr>pw_clock := t\<rparr>) p
              else connect_and_mark os fDebuggerAttached (w\<lparr>pw_clock := t\<rparr>) p)
      }
      else Some (connect_and_mark os fDebuggerAttached w p))"

text \<open>\<open>CheckRemoteDebuggerPresent\<close> is asked only while no debugger is known; its failure means none.\<close>

definition recheck_debugger :: "proc_os \<Rightarrow> bool \<Rightarrow> 'a proc_world_scheme \<Rightarrow> bool \<times> 'a proc_world_scheme" where
  "recheck_debugger os fDebuggerAttached w =
     (if fDebuggerAttached then (True, w) else (po_debugger os (pw_clock w) = Some True, later w))"

definition listening_child :: "proc_os \<Rightarrow> nat \<Rightarrow> nat \<Rightarrow> bool \<Rightarrow> 'a proc_world_scheme \<Rightarrow> SERVER_PROCESS \<Rightarrow>
    (HRESULT \<times> 'a proc_world_scheme \<times> SERVER_PROCESS) option" where
  "listening_child os this i fDebuggerAttached w p =
     (let p1 = p\<lparr>m_dwListeningProcessId := m_dwChildProcessIds p ! i\<rparr>; h = m_hChildProcessHandles p ! i
      in if h = NULL_HANDLE then post_ready os False fDebuggerAttached w p1
         else let (fDebugger, w1) = recheck_debugger os fDebuggerAttached w
              in do {
                (hr, hWait, w2, p2) \<leftarrow> RegisterProcessWait os this w1 p1;
                (let p3 = p2\<lparr>m_hChildProcessWaitHandles := (m_hChildProcessWaitHandles p2)[i := hWait]\<rparr>
                 in if FAILED hr then Some (post_finish hr fDebugger w2 p3) else post_ready os True fDebugger w2 p3)
              })"

definition match_listener :: "proc_os \<Rightarrow> nat \<Rightarrow> DWORD \<Rightarrow> bool \<Rightarrow> 'a proc_world_scheme \<Rightarrow> SERVER_PROCESS \<Rightarrow>
    (HRESULT \<times> 'a proc_world_scheme \<times> SERVER_PROCESS) option" where
  "match_listener os this dwActualProcessId fDebuggerAttached w p =
     (if net_nsi_missing (po_net os) then post_ready os False fDebuggerAttached w p
      else if dwActualProcessId = m_dwProcessId p
      then post_ready os False fDebuggerAttached w (p\<lparr>m_dwListeningProcessId := m_dwProcessId p\<rparr>)
      else do {
        (hr, w1, p1) \<leftarrow> GetChildProcessHandles os w p;
        (if FAILED hr then Some (post_finish hr fDebuggerAttached w1 p1)
         else case find (\<lambda>i. dwActualProcessId = m_dwChildProcessIds p1 ! i) [0..<m_cChildProcess p1] of
           None \<Rightarrow> Some (post_finish (HRESULT_FROM_WIN32 ERROR_CREATE_FAILED) fDebuggerAttached w1 p1)
         | Some i \<Rightarrow> listening_child os this i fDebuggerAttached w1 p1)
      })"

definition PostStartCheck :: "proc_os \<Rightarrow> nat \<Rightarrow> 'a proc_world_scheme \<Rightarrow> SERVER_PROCESS \<Rightarrow>
    (HRESULT \<times> 'a proc_world_scheme \<times> SERVER_PROCESS) option" where
  "PostStartCheck os this w p =
     (let fDebuggerAttached = (po_debugger os (pw_clock w) = Some True);
          dwTickCount = po_tick os (pw_clock w)
      in do {
        (r, t) \<leftarrow> wait_ready os (m_dwPort p) (m_dwStartupTimeLimitInMS p) dwTickCount fDebuggerAttached (Suc (pw_clock w));
        (let w1 = w\<lparr>pw_clock := t\<rparr>
         in case r of
           Exited fDebugger \<Rightarrow> Some (post_finish E_APPLICATION_ACTIVATION_EXEC_FAILURE fDebugger w1 p)
         | WaitDone dwActualProcessId fReady fDebugger \<Rightarrow>
             if \<not> fReady then Some (post_finish E_APPLICATION_ACTIVATION_TIMED_OUT fDebugger w1 p)
             else do {
               (hr, hWait, w2, p2) \<leftarrow> RegisterProcessWait os this w1 p;
               (let p3 = p2\<lparr>m_hProcessWaitHandle := hWait\<rparr>
                in if FAILED hr then Some (post_finish hr fDebugger w2 p3)
                   else let (fDebugger', w3) = recheck_debugger os fDebugger w2
                        in match_listener os this dwActualProcessId fDebugger' w3 p3)
             })
      })"

section \<open>The ledger of handles\<close>

text \<open>The open handles are those the object owns and \<open>rest\<close>, which belong to somebody else.\<close>

definition real_handle :: "handle \<Rightarrow> bool" where
  "real_handle h \<longleftrightarrow> h \<noteq> NULL_HANDLE \<and> h \<noteq> INVALID_HANDLE_VALUE"

lemma real_handle_simps [simp]: "\<not> real_handle NULL_HANDLE" "\<not> real_handle INVALID_HANDLE_VALUE" "real_handle (Handle n)"
  by (simp_all add: real_handle_def)

definition owned :: "SERVER_PROCESS \<Rightarrow> handle multiset" where
  "owned p = filter_mset real_handle ({#m_hJobObject p, m_hStdoutHandle p, m_hProcessHandle p, m_hListeningProcessHandle p,
     m_hShutdownHandle p#} + mset (m_hChildProcessHandles p))"

definition ledger :: "handle multiset \<Rightarrow> 'a proc_world_scheme \<Rightarrow> SERVER_PROCESS \<Rightarrow> bool" where
  "ledger rest w p \<longleftrightarrow> mset (pw_open w) = owned p + rest"

text \<open>The shape of an object: its arrays have their length, its strings are valid.\<close>

definition server_wf :: "SERVER_PROCESS \<Rightarrow> bool" where
  "server_wf p \<longleftrightarrow> length (m_dwChildProcessIds p) = MAX_ACTIVE_CHILD_PROCESSES \<and>
     length (m_hChildProcessHandles p) = MAX_ACTIVE_CHILD_PROCESSES \<and>
     length (m_hChildProcessWaitHandles p) = MAX_ACTIVE_CHILD_PROCESSES \<and>
     (\<forall>s \<in> {m_ProcessPath p, m_Arguments p, m_struAppVirtualPath p, m_struAppFullPath p, m_struPhysicalPath p, m_struLogFile p,
        m_struFullLogFile p, m_struPort p, m_struCommandLine p}. stru_inv s) \<and> stra_inv (m_straGuid p)"

lemma server_wf_handles [simp]:
  "server_wf (p\<lparr>m_cRefs := i\<rparr>) = server_wf p" "server_wf (p\<lparr>m_lStopping := i\<rparr>) = server_wf p"
  "server_wf (p\<lparr>m_fReady := b\<rparr>) = server_wf p" "server_wf (p\<lparr>m_fDebuggerAttached := b\<rparr>) = server_wf p"
  "server_wf (p\<lparr>m_hJobObject := h\<rparr>) = server_wf p" "server_wf (p\<lparr>m_hStdoutHandle := h\<rparr>) = server_wf p"
  "server_wf (p\<lparr>m_hProcessHandle := h\<rparr>) = server_wf p" "server_wf (p\<lparr>m_hListeningProcessHandle := h\<rparr>) = server_wf p"
  "server_wf (p\<lparr>m_hProcessWaitHandle := h\<rparr>) = server_wf p" "server_wf (p\<lparr>m_hShutdownHandle := h\<rparr>) = server_wf p"
  "server_wf (p\<lparr>m_pForwarderConnection := b\<rparr>) = server_wf p" "server_wf (p\<lparr>m_dwPort := d\<rparr>) = server_wf p"
  "server_wf (p\<lparr>m_dwProcessId := d\<rparr>) = server_wf p" "server_wf (p\<lparr>m_dwListeningProcessId := d\<rparr>) = server_wf p"
  "server_wf (p\<lparr>m_cChildProcess := n\<rparr>) = server_wf p"
  by (simp_all add: server_wf_def)

lemma owned_simps [simp]:
  "owned (p\<lparr>m_cRefs := i\<rparr>) = owned p" "owned (p\<lparr>m_lStopping := i\<rparr>) = owned p"
  "owned (p\<lparr>m_fReady := b\<rparr>) = owned p" "owned (p\<lparr>m_fDebuggerAttached := b\<rparr>) = owned p"
  "owned (p\<lparr>m_hProcessWaitHandle := h\<rparr>) = owned p" "owned (p\<lparr>m_hChildProcessWaitHandles := hs\<rparr>) = owned p"
  "owned (p\<lparr>m_pForwarderConnection := b\<rparr>) = owned p" "owned (p\<lparr>m_dwPort := d\<rparr>) = owned p"
  "owned (p\<lparr>m_dwProcessId := d\<rparr>) = owned p" "owned (p\<lparr>m_dwListeningProcessId := d\<rparr>) = owned p"
  "owned (p\<lparr>m_cChildProcess := n\<rparr>) = owned p" "owned (p\<lparr>m_dwChildProcessIds := ids\<rparr>) = owned p"
  "owned (p\<lparr>m_struCommandLine := s\<rparr>) = owned p" "owned (p\<lparr>m_struPort := s\<rparr>) = owned p"
  "owned (p\<lparr>m_struFullLogFile := s\<rparr>) = owned p" "owned (p\<lparr>m_straGuid := g\<rparr>) = owned p"
  by (simp_all add: owned_def)

text \<open>What an operation that only closes and terminates may change of the world.\<close>

definition closes :: "'a proc_world_scheme \<Rightarrow> 'a proc_world_scheme \<Rightarrow> bool" where
  "closes w w' \<longleftrightarrow> (\<exists>hs ks. w' = w\<lparr>pw_open := hs, pw_killed := ks\<rparr> \<and> set (pw_killed w) \<subseteq> set ks)"

lemma closesI: "set (pw_killed w) \<subseteq> set ks \<Longrightarrow> closes w (w\<lparr>pw_open := hs, pw_killed := ks\<rparr>)"
  unfolding closes_def by blast

lemma closes_refl [simp]: "closes w w"
proof -
  have "w = w\<lparr>pw_open := pw_open w, pw_killed := pw_killed w\<rparr>" by simp
  then show ?thesis unfolding closes_def by blast
qed

lemma closes_trans:
  assumes "closes w w'" "closes w' w''"
  shows "closes w w''"
proof -
  obtain hs ks hs' ks' where "w' = w\<lparr>pw_open := hs, pw_killed := ks\<rparr>" "w'' = w'\<lparr>pw_open := hs', pw_killed := ks'\<rparr>"
    "set (pw_killed w) \<subseteq> set ks" "set (pw_killed w') \<subseteq> set ks'" using assms unfolding closes_def by blast
  then show ?thesis using closesI [of w ks' hs'] by simp
qed

lemma closes_frame:
  assumes "closes w w'"
  shows "pw_clock w' = pw_clock w" "pw_next w' = pw_next w" "pw_waits w' = pw_waits w"
    "pw_connections w' = pw_connections w" "pw_env w' = pw_env w" "set (pw_killed w) \<subseteq> set (pw_killed w')"
    "proc_world.more w' = proc_world.more w"
  using assms by (auto simp: closes_def)

text \<open>Closing a handle takes it from the ledger; its owner may be the object or not.\<close>

lemma CloseHandle_spec:
  assumes "mset (pw_open w) = add_mset h M"
  shows "returns (CloseHandle h w) (\<lambda>w'. closes w w' \<and> mset (pw_open w') = M \<and> pw_killed w' = pw_killed w)"
proof -
  have "h \<in> set (pw_open w)" using assms by (metis set_mset_mset union_single_eq_member)
  moreover have "closes w (w\<lparr>pw_open := remove1 h (pw_open w)\<rparr>)"
    using closesI [OF subset_refl, of w "remove1 h (pw_open w)"] by simp
  ultimately show ?thesis using assms by (simp add: CloseHandle_def mset_remove1)
qed

lemma close_real_spec:
  assumes "mset (pw_open w) = filter_mset real_handle {#h#} + M"
  shows "returns (close_real h w) (\<lambda>w'. closes w w' \<and> mset (pw_open w') = M)"
proof (cases "real_handle h")
  case True
  then show ?thesis using CloseHandle_spec [of w h M] assms by (auto simp: close_real_def real_handle_def elim!: returns_mono)
qed (use assms in \<open>auto simp: close_real_def real_handle_def\<close>)

lemma TerminateProcess_closes: "closes w (TerminateProcess h w)"
  using closesI [of w "h # pw_killed w" "pw_open w"] by (auto simp: TerminateProcess_def)

lemma kill_close_spec:
  assumes "mset (pw_open w) = filter_mset real_handle {#h#} + M"
  shows "returns (kill_close h w) (\<lambda>w'. closes w w' \<and> mset (pw_open w') = M \<and> (real_handle h \<longrightarrow> h \<in> set (pw_killed w')))"
proof (cases "real_handle h")
  case True
  then have "mset (pw_open (TerminateProcess h w)) = add_mset h M" using assms by (simp add: TerminateProcess_def)
  from CloseHandle_spec [OF this] show ?thesis
    using True closes_trans [OF TerminateProcess_closes]
    by (auto simp: kill_close_def real_handle_def TerminateProcess_def elim!: returns_mono)
qed (use assms in \<open>auto simp: kill_close_def real_handle_def\<close>)

lemma kill_close_all_spec:
  assumes "mset (pw_open w) = filter_mset real_handle (mset hs) + M"
  shows "returns (kill_close_all hs w) (\<lambda>w'. closes w w' \<and> mset (pw_open w') = M \<and>
    (\<forall>h \<in> set hs. real_handle h \<longrightarrow> h \<in> set (pw_killed w')))"
  using assms
proof (induction hs arbitrary: w)
  case (Cons h hs)
  have "mset (pw_open w) = filter_mset real_handle {#h#} + (filter_mset real_handle (mset hs) + M)"
    using Cons.prems by simp
  from kill_close_spec [OF this] obtain w1 where w1: "kill_close h w = Some w1" "closes w w1"
    "mset (pw_open w1) = filter_mset real_handle (mset hs) + M" "real_handle h \<longrightarrow> h \<in> set (pw_killed w1)"
    by (auto elim: returnsE)
  show ?case using Cons.IH [OF w1(3)] w1(1,2,4) closes_frame(6)
    by (fastforce elim!: returns_mono intro: closes_trans)
qed simp

text \<open>The waits of the object: the registered ones that are stored in its fields.\<close>

definition wait_handles :: "SERVER_PROCESS \<Rightarrow> handle set" where
  "wait_handles p = {h \<in> insert (m_hProcessWaitHandle p) (set (m_hChildProcessWaitHandles p)). h \<noteq> NULL_HANDLE}"

lemma unregister_eq:
  "unregister h w = w\<lparr>pw_waits := filter (\<lambda>(h', _). h' \<noteq> h \<or> h = NULL_HANDLE) (pw_waits w)\<rparr>"
  by (simp add: unregister_def UnregisterWait_def case_prod_beta' filter_True)

lemma unregister_all:
  "fold unregister hs w = w\<lparr>pw_waits := filter (\<lambda>(h', _). h' \<notin> set hs \<or> h' = NULL_HANDLE) (pw_waits w)\<rparr>"
proof (induction hs arbitrary: w)
  case Nil
  show ?case by (simp add: filter_True)
next
  case (Cons h hs)
  show ?case
    by (simp add: Cons.IH) (auto simp: unregister_eq intro!: arg_cong [where f = "\<lambda>ws. w\<lparr>pw_waits := ws\<rparr>"] filter_cong)
qed

lemma owned_nothing:
  assumes "m_hProcessHandle p = NULL_HANDLE" "m_hListeningProcessHandle p = NULL_HANDLE" "m_hJobObject p = NULL_HANDLE"
    "set (m_hChildProcessHandles p) \<subseteq> {NULL_HANDLE}"
  shows "owned p = filter_mset real_handle {#m_hStdoutHandle p, m_hShutdownHandle p#}"
proof -
  have "filter_mset real_handle (mset (m_hChildProcessHandles p)) = {#}"
    using assms(4) by auto
  then show ?thesis using assms by (simp add: owned_def)
qed

text \<open>
  \<open>CleanUp\<close>: everything but the handle of the log file (and of a shutdown in progress) is closed, the
  processes are terminated, the waits are unregistered and the connection is released.
\<close>

lemma CleanUp_spec:
  assumes "ledger rest w p" "server_wf p"
  shows "returns (CleanUp w p) (\<lambda>(w', p'). ledger rest w' p' \<and> server_wf p' \<and> wait_handles p' = {} \<and>
    owned p' = filter_mset real_handle {#m_hStdoutHandle p', m_hShutdownHandle p'#} \<and> \<not> m_pForwarderConnection p' \<and>
    pw_waits w' = filter (\<lambda>(h, _). h \<notin> wait_handles p) (pw_waits w) \<and>
    pw_connections w' - of_bool (m_pForwarderConnection p') = pw_connections w - of_bool (m_pForwarderConnection p) \<and>
    pw_clock w' = pw_clock w \<and> pw_next w' = pw_next w \<and> pw_env w' = pw_env w \<and>
    proc_world.more w' = proc_world.more w \<and> set (pw_killed w) \<subseteq> set (pw_killed w') \<and>
    (\<forall>h \<in> insert (m_hProcessHandle p) (set (m_hChildProcessHandles p)). real_handle h \<longrightarrow> h \<in> set (pw_killed w')) \<and>
    p' = p\<lparr>m_hProcessWaitHandle := NULL_HANDLE,
           m_hChildProcessWaitHandles := map (\<lambda>_. NULL_HANDLE) (m_hChildProcessWaitHandles p),
           m_hProcessHandle := NULL_HANDLE, m_hListeningProcessHandle := NULL_HANDLE,
           m_dwChildProcessIds := reset_ids (m_hChildProcessHandles p) (m_dwChildProcessIds p),
           m_hChildProcessHandles := map (\<lambda>_. NULL_HANDLE) (m_hChildProcessHandles p),
           m_hJobObject := NULL_HANDLE, m_pForwarderConnection := False\<rparr>)"
proof -
  let ?w1 = "fold unregister (m_hChildProcessWaitHandles p) (unregister (m_hProcessWaitHandle p) w)"
  let ?F = "filter_mset real_handle" and ?C = "m_hChildProcessHandles p"
  let ?keep = "?F {#m_hStdoutHandle p, m_hShutdownHandle p#} + rest"
  have w1: "?w1 = w\<lparr>pw_waits := filter (\<lambda>(h, _). h \<notin> wait_handles p) (pw_waits w)\<rparr>"
    unfolding unregister_all unregister_eq wait_handles_def
    by (auto intro!: arg_cong [where f = "\<lambda>ws. w\<lparr>pw_waits := ws\<rparr>"] filter_cong)
  have o: "mset (pw_open ?w1) = ?F {#m_hProcessHandle p#} + (?F {#m_hListeningProcessHandle p#} + (?F (mset ?C) + (?F {#m_hJobObject p#} + ?keep)))"
    unfolding w1 using assms(1) by (simp add: ledger_def owned_def)
  obtain w2 where w2: "kill_close (m_hProcessHandle p) ?w1 = Some w2" "closes ?w1 w2"
    "mset (pw_open w2) = ?F {#m_hListeningProcessHandle p#} + (?F (mset ?C) + (?F {#m_hJobObject p#} + ?keep))"
    "real_handle (m_hProcessHandle p) \<longrightarrow> m_hProcessHandle p \<in> set (pw_killed w2)"
    using kill_close_spec [OF o] by (auto elim: returnsE)
  obtain w3 where w3: "close_real (m_hListeningProcessHandle p) w2 = Some w3" "closes w2 w3"
    "mset (pw_open w3) = ?F (mset ?C) + (?F {#m_hJobObject p#} + ?keep)"
    using close_real_spec [OF w2(3)] by (elim returnsE conjE) (rule that)
  obtain w4 where w4: "kill_close_all ?C w3 = Some w4" "closes w3 w4" "mset (pw_open w4) = ?F {#m_hJobObject p#} + ?keep"
    "\<forall>h \<in> set ?C. real_handle h \<longrightarrow> h \<in> set (pw_killed w4)"
    using kill_close_all_spec [OF w3(3)] by (auto elim: returnsE)
  obtain w5 where w5: "close_real (m_hJobObject p) w4 = Some w5" "closes w4 w5" "mset (pw_open w5) = ?keep"
    using close_real_spec [OF w4(3)] by (elim returnsE conjE) (rule that)
  note c = closes_trans [OF closes_trans [OF closes_trans [OF w2(2) w3(2)] w4(2)] w5(2)]
  let ?p = "p\<lparr>m_hProcessWaitHandle := NULL_HANDLE,
           m_hChildProcessWaitHandles := map (\<lambda>_. NULL_HANDLE) (m_hChildProcessWaitHandles p),
           m_hProcessHandle := NULL_HANDLE, m_hListeningProcessHandle := NULL_HANDLE,
           m_dwChildProcessIds := reset_ids (m_hChildProcessHandles p) (m_dwChildProcessIds p),
           m_hChildProcessHandles := map (\<lambda>_. NULL_HANDLE) (m_hChildProcessHandles p),
           m_hJobObject := NULL_HANDLE, m_pForwarderConnection := False\<rparr>"
  have ow: "owned ?p = ?F {#m_hStdoutHandle ?p, m_hShutdownHandle ?p#}" by (rule owned_nothing) auto
  have k: "\<forall>h \<in> insert (m_hProcessHandle p) (set ?C). real_handle h \<longrightarrow> h \<in> set (pw_killed w5)"
    using w2(4) w4(4) closes_frame(6) [OF w3(2)] closes_frame(6) [OF w4(2)] closes_frame(6) [OF w5(2)] by blast
  have wf: "server_wf ?p" using assms(2) by (simp add: server_wf_def reset_ids_def)
  have wh: "wait_handles ?p = {}" by (auto simp: wait_handles_def)
  have run: "CleanUp w p = Some (w5\<lparr>pw_connections := pw_connections w5 - of_bool (m_pForwarderConnection p)\<rparr>, ?p)"
    using w2(1) w3(1) w4(1) w5(1) by (simp add: CleanUp_def release_connection_def)
  show ?thesis
    unfolding run using w5(3) ow k wf wh closes_frame [OF c] w1 by (simp add: ledger_def)
qed

lemma stop_handles_spec:
  assumes "ledger rest w p" "server_wf p"
  shows "returns (stop_handles w p) (\<lambda>(w', p'). ledger rest w' p' \<and> server_wf p' \<and> closes w w' \<and>
    (\<forall>h \<in> insert (m_hProcessHandle p) (set (m_hChildProcessHandles p)). real_handle h \<longrightarrow> h \<in> set (pw_killed w')) \<and>
    p' = p\<lparr>m_fReady := False,
           m_dwChildProcessIds := reset_ids (m_hChildProcessHandles p) (m_dwChildProcessIds p),
           m_hChildProcessHandles := map (\<lambda>_. NULL_HANDLE) (m_hChildProcessHandles p),
           m_hProcessHandle := NULL_HANDLE\<rparr>)"
proof -
  let ?F = "filter_mset real_handle" and ?C = "m_hChildProcessHandles p"
  let ?keep = "?F {#m_hJobObject p, m_hStdoutHandle p, m_hListeningProcessHandle p, m_hShutdownHandle p#} + rest"
  have o: "mset (pw_open w) = ?F (mset ?C) + (?F {#m_hProcessHandle p#} + ?keep)"
    using assms(1) by (simp add: ledger_def owned_def)
  obtain w1 where w1: "kill_close_all ?C w = Some w1" "closes w w1" "mset (pw_open w1) = ?F {#m_hProcessHandle p#} + ?keep"
    "\<forall>h \<in> set ?C. real_handle h \<longrightarrow> h \<in> set (pw_killed w1)"
    using kill_close_all_spec [OF o] by (auto elim: returnsE)
  obtain w2 where w2: "kill_close (m_hProcessHandle p) w1 = Some w2" "closes w1 w2" "mset (pw_open w2) = ?keep"
    "real_handle (m_hProcessHandle p) \<longrightarrow> m_hProcessHandle p \<in> set (pw_killed w2)"
    using kill_close_spec [OF w1(3)] by (auto elim: returnsE)
  have ow: "filter_mset real_handle (mset (map (\<lambda>_. NULL_HANDLE) ?C)) = {#}" by auto
  have l: "owned (p\<lparr>m_fReady := False, m_dwChildProcessIds := reset_ids ?C (m_dwChildProcessIds p),
      m_hChildProcessHandles := map (\<lambda>_. NULL_HANDLE) ?C, m_hProcessHandle := NULL_HANDLE\<rparr>) =
      ?F {#m_hJobObject p, m_hStdoutHandle p, m_hListeningProcessHandle p, m_hShutdownHandle p#}"
    using ow by (simp add: owned_def del: mset_map)
  have wf: "server_wf (p\<lparr>m_fReady := False, m_dwChildProcessIds := reset_ids ?C (m_dwChildProcessIds p),
      m_hChildProcessHandles := map (\<lambda>_. NULL_HANDLE) ?C, m_hProcessHandle := NULL_HANDLE\<rparr>)"
    using assms(2) by (simp add: server_wf_def reset_ids_def)
  show ?thesis
    using w1(1,4) w2(1,3,4) closes_trans [OF w1(2) w2(2)] closes_frame(6) [OF w2(2)] wf
    by (auto simp: stop_handles_def ledger_def l)
qed

lemma destroy_handles_spec:
  assumes "ledger rest w p" "server_wf p" "m_hShutdownHandle p = NULL_HANDLE"
  shows "returns (destroy_handles w p) (\<lambda>(w', p'). mset (pw_open w') = rest \<and>
    pw_waits w' = filter (\<lambda>(h, _). h \<notin> wait_handles p) (pw_waits w) \<and>
    pw_connections w' = pw_connections w - of_bool (m_pForwarderConnection p) \<and>
    pw_clock w' = pw_clock w \<and> pw_next w' = pw_next w \<and> pw_env w' = pw_env w \<and>
    proc_world.more w' = proc_world.more w \<and> set (pw_killed w) \<subseteq> set (pw_killed w') \<and>
    (\<forall>h \<in> insert (m_hProcessHandle p) (set (m_hChildProcessHandles p)). real_handle h \<longrightarrow> h \<in> set (pw_killed w')))"
proof -
  obtain w1 p1 where c: "CleanUp w p = Some (w1, p1)" "ledger rest w1 p1" "\<not> m_pForwarderConnection p1"
    "owned p1 = filter_mset real_handle {#m_hStdoutHandle p1, m_hShutdownHandle p1#}"
    "pw_waits w1 = filter (\<lambda>(h, _). h \<notin> wait_handles p) (pw_waits w)"
    "pw_connections w1 - of_bool (m_pForwarderConnection p1) = pw_connections w - of_bool (m_pForwarderConnection p)"
    "pw_clock w1 = pw_clock w \<and> pw_next w1 = pw_next w \<and> pw_env w1 = pw_env w \<and> proc_world.more w1 = proc_world.more w \<and>
      set (pw_killed w) \<subseteq> set (pw_killed w1)"
    "\<forall>h \<in> insert (m_hProcessHandle p) (set (m_hChildProcessHandles p)). real_handle h \<longrightarrow> h \<in> set (pw_killed w1)"
    "p1 = p\<lparr>m_hProcessWaitHandle := NULL_HANDLE,
           m_hChildProcessWaitHandles := map (\<lambda>_. NULL_HANDLE) (m_hChildProcessWaitHandles p),
           m_hProcessHandle := NULL_HANDLE, m_hListeningProcessHandle := NULL_HANDLE,
           m_dwChildProcessIds := reset_ids (m_hChildProcessHandles p) (m_dwChildProcessIds p),
           m_hChildProcessHandles := map (\<lambda>_. NULL_HANDLE) (m_hChildProcessHandles p),
           m_hJobObject := NULL_HANDLE, m_pForwarderConnection := False\<rparr>"
    by (rule returns_pairE [OF CleanUp_spec [OF assms(1,2)]]) (elim conjE, rule that, assumption+, simp_all)
  have o: "mset (pw_open w1) = filter_mset real_handle {#m_hStdoutHandle p1#} + rest"
    using c(2,4,9) assms(3) by (simp add: ledger_def)
  obtain w2 where w2: "close_real (m_hStdoutHandle p1) w1 = Some w2" "closes w1 w2" "mset (pw_open w2) = rest"
    using close_real_spec [OF o] by (elim returnsE conjE) (rule that)
  show ?thesis
    using c(1,3,5-8) w2(1,3) closes_frame [OF w2(2)] by (auto simp: destroy_handles_def)
qed

section \<open>The processes of the job\<close>

lemma job_list_loop_clock:
  assumes "r \<le> 5"
  shows "t < snd (job_list_loop os r cb t) \<and> snd (job_list_loop os r cb t) \<le> t + (6 - r)"
  using assms
proof (induction os r cb t rule: job_list_loop.induct)
  case (1 os r cb t)
  obtain err assigned ids where q: "po_job_query os t cb = (err, assigned, ids)" by (cases "po_job_query os t cb")
  have "r < 5 \<and> (length ids < assigned \<or> ids = []) \<Longrightarrow> po_job_alloc os t \<Longrightarrow> err = None \<or> err = Some ERROR_MORE_DATA \<Longrightarrow>
      Suc t < snd (job_list_loop os (Suc r) (cb * 2) (Suc t)) \<and> snd (job_list_loop os (Suc r) (cb * 2) (Suc t)) \<le> Suc t + (6 - Suc r)"
    using "1.IH" [of "(err, assigned, ids)" err "(assigned, ids)" assigned ids] q by auto
  then show ?case using "1.prems" by (subst (1 2) job_list_loop.simps) (auto simp: q)
qed

lemma job_list_loop_ids:
  assumes "job_list_loop os r cb t = (Inr (err, assigned, ids), t')"
  shows "\<exists>u n. po_job_query os u n = (err, assigned, ids)"
  using assms
proof (induction os r cb t rule: job_list_loop.induct)
  case (1 os r cb t)
  obtain e a l where q: "po_job_query os t cb = (e, a, l)" by (cases "po_job_query os t cb")
  have ih: "r < 5 \<and> (length l < a \<or> l = []) \<Longrightarrow> po_job_alloc os t \<Longrightarrow> e = None \<or> e = Some ERROR_MORE_DATA \<Longrightarrow>
      job_list_loop os (Suc r) (cb * 2) (Suc t) = (Inr (err, assigned, ids), t') \<Longrightarrow> ?case"
    using "1.IH" [of "(e, a, l)" e "(a, l)" a l] q by auto
  have "job_list_loop os r cb t = (if \<not> po_job_alloc os t then (Inl E_OUTOFMEMORY, Suc t)
      else if e \<noteq> None \<and> e \<noteq> Some ERROR_MORE_DATA then (Inl (HRESULT_FROM_WIN32 (the e)), Suc t)
      else if r < 5 \<and> (length l < a \<or> l = []) then job_list_loop os (Suc r) (cb * 2) (Suc t)
      else (Inr (e, a, l), Suc t))" by (subst job_list_loop.simps) (simp add: q)
  with "1.prems" ih q show ?case by (auto split: if_splits)
qed

lemma job_processes_spec:
  assumes "job_processes os t = (r, t')"
  shows "t < t'" "t' \<le> t + 6"
    "r = Inr ids \<Longrightarrow> length ids \<le> MAX_ACTIVE_CHILD_PROCESSES \<and> (\<exists>u n. snd (snd (po_job_query os u n)) = ids)"
proof -
  obtain j u where j: "job_list_loop os 0 1024 t = (j, u)" by force
  have u: "t < u" "u \<le> t + 6" using job_list_loop_clock [of 0 t os 1024] j by auto
  show "t < t'" "t' \<le> t + 6" using assms j u by (auto simp: job_processes_def split: sum.splits)
  show "r = Inr ids \<Longrightarrow> length ids \<le> MAX_ACTIVE_CHILD_PROCESSES \<and> (\<exists>u n. snd (snd (po_job_query os u n)) = ids)"
    using assms j job_list_loop_ids [of os 0 1024 t]
    by (auto simp: job_processes_def split: sum.splits if_splits) (metis snd_conv)
qed

lemma debugger_in_spec:
  assumes "debugger_in os ids t = (b, t')"
  shows "t \<le> t'" "t' \<le> t + length ids" "\<forall>u. po_debugger os u \<noteq> Some True \<Longrightarrow> \<not> b"
  using assms by (induction os ids t arbitrary: b rule: debugger_in.induct) (fastforce split: if_splits option.splits bool.splits)+

lemma IsDebuggerIsAttached_spec:
  assumes "IsDebuggerIsAttached os t = (b, t')"
  shows "t < t'" "t' \<le> t + 22" "\<forall>u. po_debugger os u \<noteq> Some True \<Longrightarrow> \<not> b"
proof -
  obtain r u where j: "job_processes os t = (r, u)" by force
  note J = job_processes_spec [OF j]
  show "t < t'" "t' \<le> t + 22" "\<forall>u. po_debugger os u \<noteq> Some True \<Longrightarrow> \<not> b"
    using assms J j debugger_in_spec [of os _ u b t']
    by (force simp: IsDebuggerIsAttached_def MAX_ACTIVE_CHILD_PROCESSES_def split: sum.splits)+
qed

text \<open>Slots behind the known children are empty, so filling them loses no handle.\<close>

definition children_ok :: "SERVER_PROCESS \<Rightarrow> bool" where
  "children_ok p \<longleftrightarrow> (\<forall>i < MAX_ACTIVE_CHILD_PROCESSES. m_cChildProcess p \<le> i \<longrightarrow> m_hChildProcessHandles p ! i = NULL_HANDLE)"

lemma filter_mset_fill:
  assumes "i < length hs" "hs ! i = NULL_HANDLE"
  shows "filter_mset real_handle (mset (hs[i := h])) = filter_mset real_handle {#h#} + filter_mset real_handle (mset hs)"
proof -
  have "NULL_HANDLE \<in># mset hs" using assms by (metis nth_mem set_mset_mset)
  then show ?thesis using assms by (simp add: mset_update filter_diff_mset)
qed

text \<open>What opening handles may change of the world.\<close>

definition opens :: "'a proc_world_scheme \<Rightarrow> 'a proc_world_scheme \<Rightarrow> bool" where
  "opens w w' \<longleftrightarrow> pw_clock w \<le> pw_clock w' \<and> pw_next w \<le> pw_next w' \<and> pw_waits w' = pw_waits w \<and> pw_killed w' = pw_killed w \<and>
     pw_connections w' = pw_connections w \<and> pw_env w' = pw_env w \<and> proc_world.more w' = proc_world.more w"

lemma opens_refl [simp]: "opens w w"
  by (simp add: opens_def)

lemma opens_trans: "opens w w' \<Longrightarrow> opens w' w'' \<Longrightarrow> opens w w''"
  by (auto simp: opens_def)

lemma opens_clock: "pw_clock w \<le> t \<Longrightarrow> opens w (w\<lparr>pw_clock := t\<rparr>)"
  by (simp add: opens_def)

lemma new_handle_spec:
  assumes "new_handle w = (h, w')"
  shows "opens w w'" "mset (pw_open w') = add_mset h (mset (pw_open w))" "real_handle h"
  using assms by (auto simp: new_handle_def opens_def)

lemma open_process_spec:
  assumes "open_process os pid w = (h, w')"
  shows "opens w w'" "mset (pw_open w') = filter_mset real_handle {#h#} + mset (pw_open w)"
  using assms by (auto simp: open_process_def new_handle_def later_def opens_def split: if_splits)

text \<open>The parts of an object that waiting for it a process leaves alone.\<close>

definition settings where
  "settings (p :: SERVER_PROCESS) = ((m_lStopping p, m_fStdoutLogEnabled p, m_fWindowsAuthEnabled p, m_fBasicAuthEnabled p, m_fAnonymousAuthEnabled p,
     m_fWebsocketsEnabled p, m_dwPort p, m_dwStartupTimeLimitInMS p, m_dwShutdownTimeLimitInMS p),
     (m_hStdoutHandle p, m_hShutdownHandle p), (m_ProcessPath p, m_Arguments p, m_struAppVirtualPath p, m_struAppFullPath p,
     m_struPhysicalPath p, m_struLogFile p, m_struFullLogFile p, m_struPort p, m_struCommandLine p, m_straGuid p,
     m_pEnvironmentVarTable p))"

definition child_frame :: "SERVER_PROCESS \<Rightarrow> SERVER_PROCESS \<Rightarrow> bool" where
  "child_frame p p' \<longleftrightarrow>
     (\<exists>hs pids n. p' = p\<lparr>m_hChildProcessHandles := hs, m_dwChildProcessIds := pids, m_cChildProcess := n\<rparr>)"

lemma child_frame_refl [simp]: "child_frame p p"
  unfolding child_frame_def
  by (intro exI [of _ "m_hChildProcessHandles p"] exI [of _ "m_dwChildProcessIds p"] exI [of _ "m_cChildProcess p"]) simp

lemma child_frame_step:
  "child_frame (p\<lparr>m_hChildProcessHandles := hs, m_dwChildProcessIds := pids, m_cChildProcess := n\<rparr>) p' \<Longrightarrow> child_frame p p'"
  by (force simp: child_frame_def)

lemma child_loop_spec:
  assumes "ledger rest w p" "server_wf p" "children_ok p" "m_cChildProcess p \<le> MAX_ACTIVE_CHILD_PROCESSES"
    "ends \<Longrightarrow> m_cChildProcess p + length ids \<le> MAX_ACTIVE_CHILD_PROCESSES"
  shows "returns_if ends (child_loop os ids w p) (\<lambda>(w', p'). ledger rest w' p' \<and> server_wf p' \<and> children_ok p' \<and> opens w w' \<and>
    m_cChildProcess p' \<le> m_cChildProcess p + length ids \<and> m_cChildProcess p' \<le> MAX_ACTIVE_CHILD_PROCESSES \<and>
    child_frame p p')"
  using assms
proof (induction os ids w p rule: child_loop.induct)
  case (1 os w p)
  then show ?case by simp
next
  case (2 os pid ids w p)
  consider (full) "pid \<noteq> m_dwProcessId p \<and> pid \<noteq> po_worker os" "m_cChildProcess p = MAX_ACTIVE_CHILD_PROCESSES"
    | (store) "pid \<noteq> m_dwProcessId p \<and> pid \<noteq> po_worker os" "m_cChildProcess p < MAX_ACTIVE_CHILD_PROCESSES"
    | (skip) "\<not> (pid \<noteq> m_dwProcessId p \<and> pid \<noteq> po_worker os)"
    using "2.prems"(4) by linarith
  then show ?case
  proof cases
    case full
    then have "child_loop os (pid # ids) w p = None" by (simp add: Let_def split: prod.split)
    moreover have "\<not> ends" using "2.prems"(5) full(2) by auto
    ultimately show ?thesis by simp
  next
    case store
    obtain h w1 where o: "open_process os pid w = (h, w1)" by force
    note O = open_process_spec [OF o]
    let ?i = "m_cChildProcess p"
    let ?p = "p\<lparr>m_hChildProcessHandles := (m_hChildProcessHandles p)[?i := h],
        m_dwChildProcessIds := (m_dwChildProcessIds p)[?i := pid], m_cChildProcess := Suc ?i\<rparr>"
    have i: "?i < length (m_hChildProcessHandles p)" "m_hChildProcessHandles p ! ?i = NULL_HANDLE"
      using "2.prems" store(2) by (auto simp: server_wf_def children_ok_def)
    have l: "ledger rest w1 ?p"
      using "2.prems"(1) O(2) filter_mset_fill [OF i] by (simp add: ledger_def owned_def)
    have wf: "server_wf ?p" "children_ok ?p" using "2.prems"(2,3) by (auto simp: server_wf_def children_ok_def)
    have c: "m_cChildProcess ?p \<le> MAX_ACTIVE_CHILD_PROCESSES" "ends \<Longrightarrow> m_cChildProcess ?p + length ids \<le> MAX_ACTIVE_CHILD_PROCESSES"
      using "2.prems"(5) store(2) by auto
    have run: "child_loop os (pid # ids) w p = child_loop os ids w1 ?p" using store o by (simp add: Let_def)
    show ?thesis
      unfolding run using "2.IH"(1) [OF store(1) refl o [symmetric] refl _ l wf c] store(2) opens_trans [OF O(1)] child_frame_step
      by (auto elim!: returns_if_mono)
  next
    case skip
    then have run: "child_loop os (pid # ids) w p = child_loop os ids w p" by auto
    have "ends \<Longrightarrow> m_cChildProcess p + length ids \<le> MAX_ACTIVE_CHILD_PROCESSES" using "2.prems"(5) by simp
    from "2.IH"(2) [OF skip "2.prems"(1-4) this] show ?thesis
      unfolding run by (rule returns_if_mono) auto
  qed
qed

section \<open>Waiting for the backend\<close>

text \<open>
  The conditions under which a start ends without a fault: time goes on, without jumps of more than ten
  minutes between two questions or during one check of the port, no debugger is attached, and there
  are at most eight processes in the job. Nothing documents them; what holds without them is
  stated for the results there are.
\<close>

definition time_passes :: "(nat \<Rightarrow> DWORD) \<Rightarrow> (nat \<Rightarrow> nat) \<Rightarrow> bool" where
  "time_passes tick ms \<longleftrightarrow> (\<forall>t. tick t = word_of_nat (ms t) \<and> ms t \<le> ms (Suc t) \<and> ms (Suc t) \<le> ms t + 600000) \<and>
     (\<forall>n. \<exists>t. n \<le> ms t)"

lemma time_passes_mono:
  assumes "time_passes tick ms" "t \<le> t'"
  shows "ms t \<le> ms t'" "ms t' \<le> ms t + 600000 * (t' - t)"
proof -
  have s: "ms n \<le> ms (Suc n)" "ms (Suc n) \<le> ms n + 600000" for n using assms(1) by (auto simp: time_passes_def)
  have "ms t \<le> ms t' \<and> ms t' \<le> ms t + 600000 * (t' - t)"
    using assms(2)
  proof (induction t' rule: dec_induct)
    case (step n)
    then show ?case using s [of n] by (simp add: Suc_diff_le)
  qed simp
  then show "ms t \<le> ms t'" "ms t' \<le> ms t + 600000 * (t' - t)" by blast+
qed

definition start_limits :: "proc_os \<Rightarrow> (nat \<Rightarrow> nat) \<Rightarrow> bool" where
  "start_limits os ms \<longleftrightarrow> time_passes (po_tick os) ms \<and>
     (\<forall>port t. case CheckIfServerIsUp (po_net os) port t of None \<Rightarrow> True | Some (_, _, _, t') \<Rightarrow> ms t' \<le> ms t + 600000) \<and>
     (\<forall>t. po_debugger os t \<noteq> Some True) \<and> (\<forall>t n. length (snd (snd (po_job_query os t n))) \<le> 8)"

lemma start_limitsD:
  assumes "start_limits os ms"
  shows "time_passes (po_tick os) ms" "po_debugger os t \<noteq> Some True"
    "length (snd (snd (po_job_query os t n))) \<le> 8"
    "CheckIfServerIsUp (po_net os) port t = Some (hr, pid, up, t') \<Longrightarrow> ms t' \<le> ms t + 600000"
  using assms by (auto simp: start_limits_def split: option.splits)

text \<open>The longest startup time limit, about 46 days.\<close>

definition start_limit :: nat where "start_limit = 4000000000"

lemma tick_difference:
  assumes "time_passes tick ms" "ms t0 \<le> ms t" "ms t - ms t0 < 4294967296"
  shows "unat (tick t - tick t0) = ms t - ms t0"
proof -
  have e: "tick t - tick t0 = word_of_nat (ms t - ms t0)"
    using assms(1,2) by (simp add: time_passes_def of_nat_diff)
  show ?thesis unfolding e using assms(3) by (simp add: unat_of_nat_32)
qed

text \<open>One round of the loop and the time it takes.\<close>

lemma wait_round:
  assumes "tcp_table_ok (po_net os)" "start_limits os ms"
  obtains pid up t3 where "t < t3" "ms t \<le> ms t3" "ms t3 \<le> ms t + 600000 * 27"
    "\<And>limit tick0 d. wait_ready os port limit tick0 d t =
       (if process_exited os t then Some (Exited d, Suc (Suc t))
        else if \<not> up \<and> po_tick os t3 - tick0 < limit then wait_ready os port limit tick0 False (Suc t3)
        else Some (WaitDone pid up False, Suc t3))"
proof -
  note lim = start_limitsD [OF assms(2)]
  obtain hr pid up t1 where c: "CheckIfServerIsUp (po_net os) port (Suc (Suc t)) = Some (hr, pid, up, t1)" "Suc (Suc t) < t1"
    using CheckIfServerIsUp_spec [OF assms(1), of port "Suc (Suc t)"] by (auto elim!: returnsE)
  obtain d t2 where d: "IsDebuggerIsAttached os t1 = (d, t2)" by force
  have D: "t1 < t2" "t2 \<le> t1 + 22" "\<not> d" using IsDebuggerIsAttached_spec [OF d] lim(2) by auto
  let ?t3 = "if up then t2 else Suc t2"
  have t: "t < ?t3" using c(2) D(1) by auto
  have m: "ms (Suc (Suc t)) \<le> ms t + 1200000" "ms t1 \<le> ms (Suc (Suc t)) + 600000"
    using time_passes_mono(2) [OF lim(1), of t "Suc (Suc t)"] lim(4) [OF c(1)] by auto
  have "600000 * (?t3 - t1) \<le> 600000 * 23" using D(2) by auto
  then have "ms ?t3 \<le> ms t1 + 13800000" using time_passes_mono(2) [OF lim(1), of t1 ?t3] D(1) by auto
  then have "ms ?t3 \<le> ms t + 600000 * 27" using m by linarith
  moreover have "ms t \<le> ms ?t3" using time_passes_mono(1) [OF lim(1), of t ?t3] t by linarith
  moreover have "wait_ready os port limit tick0 fd t =
       (if process_exited os t then Some (Exited fd, Suc (Suc t))
        else if \<not> up \<and> po_tick os ?t3 - tick0 < limit then wait_ready os port limit tick0 False (Suc ?t3)
        else Some (WaitDone pid up False, Suc ?t3))" for limit tick0 fd
    using D(3) by (subst wait_ready.simps) (simp add: c(1) d)
  ultimately show thesis using t by (intro that)
qed

text \<open>The loop that waits for the backend ends.\<close>

lemma wait_ready_returns:
  assumes "tcp_table_ok (po_net os)" "start_limits os ms" "unat limit \<le> start_limit" "t0 \<le> t" "ms t \<le> ms t0 + unat limit + 600000"
  shows "wait_ready os port limit (po_tick os t0) d t \<noteq> None"
proof -
  note lim = start_limitsD [OF assms(2)]
  obtain T where T: "ms t0 + unat limit \<le> ms T" using lim(1) by (auto simp: time_passes_def)
  show ?thesis
    using assms(4,5)
  proof (induction "Suc T - t" arbitrary: t d rule: less_induct)
    case less
    obtain pid up t3 where r: "t < t3" "ms t \<le> ms t3" "ms t3 \<le> ms t + 600000 * 27"
      "\<And>limit tick0 d. wait_ready os port limit tick0 d t =
         (if process_exited os t then Some (Exited d, Suc (Suc t))
          else if \<not> up \<and> po_tick os t3 - tick0 < limit then wait_ready os port limit tick0 False (Suc t3)
          else Some (WaitDone pid up False, Suc t3))" by (rule wait_round [OF assms(1,2), of t port]) (rule that)
    show ?case
    proof (cases "process_exited os t \<or> \<not> (\<not> up \<and> po_tick os t3 - po_tick os t0 < limit)")
      case True
      then show ?thesis unfolding r(4) by auto
    next
      case False
      have m: "ms t0 \<le> ms t3" using time_passes_mono(1) [OF lim(1), of t0 t3] less.prems(1) r(1) by auto
      have "ms t3 - ms t0 < 4294967296" using r(3) less.prems(2) assms(3) unfolding start_limit_def by linarith
      from tick_difference [OF lim(1) m this] have lt: "ms t3 - ms t0 < unat limit"
        using False by (simp add: word_less_nat_alt)
      have "\<not> T \<le> t3" using T lt m time_passes_mono(1) [OF lim(1), of T t3] by linarith
      then have 1: "Suc T - Suc t3 < Suc T - t" using r(1) by linarith
      have 2: "t0 \<le> Suc t3" using less.prems(1) r(1) by linarith
      have "ms (Suc t3) \<le> ms t3 + 600000" using lim(1) by (auto simp: time_passes_def)
      then have 3: "ms (Suc t3) \<le> ms t0 + unat limit + 600000" using lt m by linarith
      show ?thesis using less.hyps [OF 1 2 3] False unfolding r(4) by auto
    qed
  qed
qed

text \<open>When it ends, the clock has moved on.\<close>

lemma wait_ready_clock:
  assumes "tcp_table_ok (po_net os)" "wait_ready os port limit tick0 d t = Some y"
  shows "t < snd y"
proof -
  have "po_net os' = po_net os \<longrightarrow> t < snd y" if "wait_ready os' port limit tick0 d t = Some y" for os' port limit tick0 d t y
    using that
  proof (rule wait_ready.raw_induct [rotated])
    fix f os' port limit tick0 d t y
    assume IH: "\<And>os' port limit tick0 d t y. f os' port limit tick0 d t = Some y \<Longrightarrow> po_net os' = po_net os \<longrightarrow> t < snd y"
      and run: "(if process_exited os' t then Some (Exited d, Suc (Suc t))
        else do {
          (hr, pid, up, t1) \<leftarrow> CheckIfServerIsUp (po_net os') port (Suc (Suc t));
          (let (fDebugger, t2) = IsDebuggerIsAttached os' t1; t3 = (if up then t2 else Suc t2); diff = po_tick os' t3 - tick0
           in if \<not> up \<and> (diff < limit \<or> fDebugger) then f os' port limit tick0 fDebugger (Suc t3)
              else Some (WaitDone pid up fDebugger, Suc t3))
        }) = Some y"
    show "po_net os' = po_net os \<longrightarrow> t < snd y"
    proof (cases "process_exited os' t")
      case True
      then show ?thesis using run by auto
    next
      case False
      show ?thesis
      proof
        assume n: "po_net os' = po_net os"
        obtain hr pid up t1 where c: "CheckIfServerIsUp (po_net os) port (Suc (Suc t)) = Some (hr, pid, up, t1)" "Suc (Suc t) < t1"
          using CheckIfServerIsUp_spec [OF assms(1), of port "Suc (Suc t)"] by (auto elim!: returnsE)
        obtain b t2 where b: "IsDebuggerIsAttached os' t1 = (b, t2)" by force
        note B = IsDebuggerIsAttached_spec(1) [OF b]
        let ?t3 = "if up then t2 else Suc t2"
        have "t < ?t3" using c(2) B by auto
        moreover have "(if \<not> up \<and> (po_tick os' ?t3 - tick0 < limit \<or> b) then f os' port limit tick0 b (Suc ?t3)
              else Some (WaitDone pid up b, Suc ?t3)) = Some y"
          using run False b c(1) unfolding n by (simp add: Let_def)
        ultimately show "t < snd y"
          using IH [of os' port limit tick0 b "Suc ?t3" y] n
          by (cases "\<not> up \<and> (po_tick os' ?t3 - tick0 < limit \<or> b)") (simp_all del: if_split add: if_P, auto)
      qed
    qed
  qed
  then show ?thesis using assms(2) by blast
qed

section \<open>The object and its waits\<close>

text \<open>
  The waits the object \<open>this\<close> has stored are registered for it, all handles are old, and the references
  cover one for each registered wait and \<open>k\<close> others.
\<close>

definition old_handle :: "'a proc_world_scheme \<Rightarrow> handle \<Rightarrow> bool" where
  "old_handle w h \<longleftrightarrow> (\<exists>n < pw_next w. h = Handle n)"

definition waits_of :: "nat \<Rightarrow> 'a proc_world_scheme \<Rightarrow> (handle \<times> nat) list" where
  "waits_of this w = filter (\<lambda>(_, q). q = this) (pw_waits w)"

definition waits_ok :: "nat \<Rightarrow> int \<Rightarrow> 'a proc_world_scheme \<Rightarrow> SERVER_PROCESS \<Rightarrow> bool" where
  "waits_ok this k w p \<longleftrightarrow>
     (\<forall>(h, q) \<in> set (pw_waits w). old_handle w h \<and> (h \<in> wait_handles p \<longleftrightarrow> q = this)) \<and>
     (\<forall>h \<in> wait_handles p. old_handle w h) \<and>
     (m_lStopping p = 0 \<and> m_hProcessWaitHandle p \<noteq> NULL_HANDLE \<longrightarrow> (m_hProcessWaitHandle p, this) \<in> set (pw_waits w)) \<and>
     int (length (waits_of this w)) + k \<le> m_cRefs p"

definition proc_ok :: "nat \<Rightarrow> int \<Rightarrow> handle multiset \<Rightarrow> 'a proc_world_scheme \<Rightarrow> SERVER_PROCESS \<Rightarrow> bool" where
  "proc_ok this k rest w p \<longleftrightarrow> ledger rest w p \<and> server_wf p \<and> children_ok p \<and> waits_ok this k w p"

text \<open>New waits have new handles.\<close>

definition waits_fresh :: "'a proc_world_scheme \<Rightarrow> 'a proc_world_scheme \<Rightarrow> bool" where
  "waits_fresh w w' \<longleftrightarrow> (\<forall>(h, q) \<in> set (pw_waits w'). (h, q) \<in> set (pw_waits w) \<or> \<not> old_handle w h)"

lemma waits_freshI: "set (pw_waits w') \<subseteq> set (pw_waits w) \<Longrightarrow> waits_fresh w w'"
  by (auto simp: waits_fresh_def)

lemma waits_fresh_same [simp]: "pw_waits w' = pw_waits w \<Longrightarrow> waits_fresh w w'"
  by (simp add: waits_freshI)

lemma waits_fresh_trans:
  assumes "waits_fresh w w'" "waits_fresh w' w''" "pw_next w \<le> pw_next w'"
  shows "waits_fresh w w''"
proof -
  have "old_handle w h \<Longrightarrow> old_handle w' h" for h using assms(3) by (auto simp: old_handle_def)
  then show ?thesis using assms(1,2) unfolding waits_fresh_def by blast
qed

text \<open>What a step on behalf of one object leaves alone.\<close>

definition proc_frame :: "nat \<Rightarrow> 'a proc_world_scheme \<Rightarrow> SERVER_PROCESS \<Rightarrow> 'a proc_world_scheme \<Rightarrow> SERVER_PROCESS \<Rightarrow> bool" where
  "proc_frame this w p w' p' \<longleftrightarrow> settings p' = settings p \<and> pw_env w' = pw_env w \<and> set (pw_killed w) \<subseteq> set (pw_killed w') \<and>
     filter (\<lambda>(_, q). q \<noteq> this) (pw_waits w') = filter (\<lambda>(_, q). q \<noteq> this) (pw_waits w) \<and>
     pw_clock w \<le> pw_clock w' \<and> pw_next w \<le> pw_next w' \<and> proc_world.more w' = proc_world.more w \<and>
     pw_connections w' - of_bool (m_pForwarderConnection p') = pw_connections w - of_bool (m_pForwarderConnection p) \<and>
     waits_fresh w w'"

lemma proc_frame_refl [simp]: "proc_frame this w p w p"
  by (simp add: proc_frame_def waits_freshI)

lemma proc_frame_trans: "proc_frame this w p w' p' \<Longrightarrow> proc_frame this w' p' w'' p'' \<Longrightarrow> proc_frame this w p w'' p''"
  using waits_fresh_trans [of w w' w''] unfolding proc_frame_def by auto

lemma opens_proc_frame: "opens w w' \<Longrightarrow> settings p' = settings p \<Longrightarrow> m_pForwarderConnection p' = m_pForwarderConnection p \<Longrightarrow>
    proc_frame this w p w' p'"
  by (simp add: opens_def proc_frame_def waits_freshI)

lemma old_handle_mono: "pw_next w \<le> pw_next w' \<Longrightarrow> old_handle w h \<Longrightarrow> old_handle w' h"
  by (auto simp: old_handle_def)

lemma waits_ok_opens:
  assumes "waits_ok this k w p" "opens w w'" "wait_handles p' = wait_handles p" "m_hProcessWaitHandle p' = m_hProcessWaitHandle p"
    "m_cRefs p' = m_cRefs p" "m_lStopping p' = m_lStopping p"
  shows "waits_ok this k w' p'"
proof -
  have o: "pw_waits w' = pw_waits w" "pw_next w \<le> pw_next w'" using assms(2) by (simp_all add: opens_def)
  show ?thesis
    using assms(1) old_handle_mono [OF o(2)] unfolding waits_ok_def waits_of_def assms(3-6) o(1) by blast
qed

lemma proc_ok_opens:
  assumes "proc_ok this k rest w p" "opens w w'" "pw_open w' = pw_open w" "owned p' = owned p" "server_wf p'" "children_ok p'"
    "wait_handles p' = wait_handles p" "m_hProcessWaitHandle p' = m_hProcessWaitHandle p" "m_cRefs p' = m_cRefs p"
    "m_lStopping p' = m_lStopping p"
  shows "proc_ok this k rest w' p'"
  using assms waits_ok_opens [OF _ assms(2) assms(7-10)] by (simp add: proc_ok_def ledger_def)

lemma later_opens [simp]: "opens w (later w)" "pw_open (later w) = pw_open w"
  by (simp_all add: later_def opens_def)

lemma wait_handles_simps [simp]:
  "wait_handles (p\<lparr>m_cRefs := i\<rparr>) = wait_handles p" "wait_handles (p\<lparr>m_fReady := b\<rparr>) = wait_handles p"
  "wait_handles (p\<lparr>m_fDebuggerAttached := b\<rparr>) = wait_handles p" "wait_handles (p\<lparr>m_pForwarderConnection := b\<rparr>) = wait_handles p"
  "wait_handles (p\<lparr>m_hListeningProcessHandle := h\<rparr>) = wait_handles p" "wait_handles (p\<lparr>m_dwListeningProcessId := d\<rparr>) = wait_handles p"
  "wait_handles (p\<lparr>m_hChildProcessHandles := hs\<rparr>) = wait_handles p" "wait_handles (p\<lparr>m_dwChildProcessIds := ids\<rparr>) = wait_handles p"
  "wait_handles (p\<lparr>m_cChildProcess := n\<rparr>) = wait_handles p" "wait_handles (p\<lparr>m_hProcessHandle := h\<rparr>) = wait_handles p"
  "wait_handles (p\<lparr>m_hJobObject := h\<rparr>) = wait_handles p" "wait_handles (p\<lparr>m_dwProcessId := d\<rparr>) = wait_handles p"
  "wait_handles (p\<lparr>m_hStdoutHandle := h\<rparr>) = wait_handles p" "wait_handles (p\<lparr>m_hShutdownHandle := h\<rparr>) = wait_handles p"
  "wait_handles (p\<lparr>m_dwPort := d\<rparr>) = wait_handles p" "wait_handles (p\<lparr>m_lStopping := i\<rparr>) = wait_handles p"
  by (simp_all add: wait_handles_def)

lemma children_ok_simps [simp]:
  "children_ok (p\<lparr>m_cRefs := i\<rparr>) = children_ok p" "children_ok (p\<lparr>m_fReady := b\<rparr>) = children_ok p"
  "children_ok (p\<lparr>m_fDebuggerAttached := b\<rparr>) = children_ok p" "children_ok (p\<lparr>m_pForwarderConnection := b\<rparr>) = children_ok p"
  "children_ok (p\<lparr>m_hListeningProcessHandle := h\<rparr>) = children_ok p" "children_ok (p\<lparr>m_dwListeningProcessId := d\<rparr>) = children_ok p"
  "children_ok (p\<lparr>m_hChildProcessWaitHandles := hs\<rparr>) = children_ok p" "children_ok (p\<lparr>m_hProcessWaitHandle := h\<rparr>) = children_ok p"
  "children_ok (p\<lparr>m_hProcessHandle := h\<rparr>) = children_ok p" "children_ok (p\<lparr>m_hJobObject := h\<rparr>) = children_ok p"
  "children_ok (p\<lparr>m_dwProcessId := d\<rparr>) = children_ok p" "children_ok (p\<lparr>m_hStdoutHandle := h\<rparr>) = children_ok p"
  "children_ok (p\<lparr>m_dwPort := d\<rparr>) = children_ok p"  "children_ok (p\<lparr>m_lStopping := i\<rparr>) = children_ok p"
  by (simp_all add: children_ok_def)

lemma settings_simps [simp]:
  "settings (p\<lparr>m_cRefs := i\<rparr>) = settings p" "settings (p\<lparr>m_fReady := b\<rparr>) = settings p"
  "settings (p\<lparr>m_fDebuggerAttached := b\<rparr>) = settings p" "settings (p\<lparr>m_pForwarderConnection := b\<rparr>) = settings p"
  "settings (p\<lparr>m_hListeningProcessHandle := h\<rparr>) = settings p" "settings (p\<lparr>m_dwListeningProcessId := d\<rparr>) = settings p"
  "settings (p\<lparr>m_hChildProcessWaitHandles := hs\<rparr>) = settings p" "settings (p\<lparr>m_hProcessWaitHandle := h\<rparr>) = settings p"
  "settings (p\<lparr>m_hChildProcessHandles := hs\<rparr>) = settings p" "settings (p\<lparr>m_dwChildProcessIds := ids\<rparr>) = settings p"
  "settings (p\<lparr>m_cChildProcess := n\<rparr>) = settings p" "settings (p\<lparr>m_hProcessHandle := h\<rparr>) = settings p"
  "settings (p\<lparr>m_hJobObject := h\<rparr>) = settings p" "settings (p\<lparr>m_dwProcessId := d\<rparr>) = settings p"
  by (simp_all add: settings_def)

text \<open>
  Registering a wait never fails for the code. \<open>f\<close> stores the handle in one of the two places it is put.
\<close>

lemma RegisterProcessWait_cases:
  obtains "RegisterProcessWait os this w p = Some (S_OK, NULL_HANDLE, later w, p\<lparr>m_cRefs := m_cRefs p + 1\<rparr>)"
  | "RegisterProcessWait os this w p = Some (S_OK, Handle (pw_next w),
       later (w\<lparr>pw_next := Suc (pw_next w), pw_waits := (Handle (pw_next w), this) # pw_waits w\<rparr>), p\<lparr>m_cRefs := m_cRefs p + 1\<rparr>)"
  by (cases "po_register os (pw_clock w)") (simp_all add: RegisterProcessWait_def)

lemma RegisterProcessWait_spec:
  assumes "proc_ok this k rest w p"
    "\<And>h p. owned (f h p) = owned p \<and> server_wf (f h p) = server_wf p \<and> children_ok (f h p) = children_ok p \<and> m_cRefs (f h p) = m_cRefs p \<and>
       settings (f h p) = settings p \<and> m_pForwarderConnection (f h p) = m_pForwarderConnection p"
    "\<And>h. wait_handles (f h (p\<lparr>m_cRefs := m_cRefs p + 1\<rparr>)) = insert h (wait_handles p) - {NULL_HANDLE}"
    "\<And>h p. m_hProcessWaitHandle (f h p) = h \<or> m_hProcessWaitHandle (f h p) = m_hProcessWaitHandle p"
  shows "returns (RegisterProcessWait os this w p) (\<lambda>(hr, h, w', p'). hr = S_OK \<and> proc_ok this k rest w' (f h p') \<and>
    proc_frame this w p w' (f h p') \<and> p' = p\<lparr>m_cRefs := m_cRefs p + 1\<rparr>)"
proof -
  let ?p = "p\<lparr>m_cRefs := m_cRefs p + 1\<rparr>"
  note ok = assms(1) [unfolded proc_ok_def waits_ok_def ledger_def]
  show ?thesis
  proof (rule RegisterProcessWait_cases [of os this w p])
    assume r: "RegisterProcessWait os this w p = Some (S_OK, NULL_HANDLE, later w, ?p)"
    have wh: "wait_handles (f NULL_HANDLE ?p) = wait_handles p"
      unfolding assms(3) by (auto simp: wait_handles_def)
    have st: "m_lStopping (f NULL_HANDLE ?p) = m_lStopping p" using assms(2) [of NULL_HANDLE ?p] by (simp add: settings_def)
    show ?thesis
      unfolding r using ok assms(2,4) [of NULL_HANDLE ?p]
      by (auto simp: proc_ok_def waits_ok_def ledger_def later_def proc_frame_def waits_of_def old_handle_def wh st waits_fresh_def)
  next
    let ?h = "Handle (pw_next w)"
    let ?w = "later (w\<lparr>pw_next := Suc (pw_next w), pw_waits := (?h, this) # pw_waits w\<rparr>)"
    assume r: "RegisterProcessWait os this w p = Some (S_OK, ?h, ?w, ?p)"
    have wh: "wait_handles (f ?h ?p) = insert ?h (wait_handles p)" unfolding assms(3) by (auto simp: wait_handles_def)
    have st: "m_lStopping (f ?h ?p) = m_lStopping p" using assms(2) [of ?h ?p] by (simp add: settings_def)
    have new: "\<And>q. (?h, q) \<notin> set (pw_waits w)" using ok by (auto simp: old_handle_def)
    have "waits_ok this k ?w (f ?h ?p)"
      unfolding waits_ok_def
    proof (intro conjI)
      show "\<forall>(h, q) \<in> set (pw_waits ?w). old_handle ?w h \<and> (h \<in> wait_handles (f ?h ?p) \<longleftrightarrow> q = this)"
        using ok wh new by (auto simp: later_def old_handle_def less_Suc_eq)
      show "\<forall>h \<in> wait_handles (f ?h ?p). old_handle ?w h"
      proof
        fix h
        assume "h \<in> wait_handles (f ?h ?p)"
        then consider "h = ?h" | "h \<in> wait_handles p" using wh by blast
        then show "old_handle ?w h" using ok by cases (auto simp: later_def old_handle_def less_Suc_eq)
      qed
      show "m_lStopping (f ?h ?p) = 0 \<and> m_hProcessWaitHandle (f ?h ?p) \<noteq> NULL_HANDLE \<longrightarrow> (m_hProcessWaitHandle (f ?h ?p), this) \<in> set (pw_waits ?w)"
        using ok assms(4) [of ?h ?p] st by (auto simp: later_def)
      show "int (length (waits_of this ?w)) + k \<le> m_cRefs (f ?h ?p)"
        using ok assms(2) [of ?h ?p] by (simp add: waits_of_def later_def)
    qed
    then show ?thesis
      unfolding r using ok assms(2) [of ?h ?p] new by (auto simp: proc_ok_def ledger_def proc_frame_def later_def waits_fresh_def old_handle_def)
  qed
qed

section \<open>The check after the start\<close>

lemma proc_ok_simps [simp]:
  "proc_ok this k rest (w\<lparr>pw_connections := c\<rparr>) p = proc_ok this k rest w p"
  "proc_ok this k rest (w\<lparr>pw_clock := t\<rparr>) p = proc_ok this k rest w p"
  "proc_ok this k rest w (p\<lparr>m_fReady := b\<rparr>) = proc_ok this k rest w p"
  "proc_ok this k rest w (p\<lparr>m_fDebuggerAttached := b\<rparr>) = proc_ok this k rest w p"
  "proc_ok this k rest w (p\<lparr>m_pForwarderConnection := b\<rparr>) = proc_ok this k rest w p"
  "proc_ok this k rest w (p\<lparr>m_dwListeningProcessId := d\<rparr>) = proc_ok this k rest w p"
  "proc_ok this k rest (later w) p = proc_ok this k rest w p"
  by (auto simp: proc_ok_def ledger_def waits_ok_def waits_of_def old_handle_def later_def)

text \<open>What a start check leaves behind, whatever its result \<open>hr\<close>.\<close>

definition check_post where
  "check_post c this k rest w p = (\<lambda>(hr, w', p'). proc_ok this k rest w' p' \<and> proc_frame this w p w' p' \<and>
     m_cChildProcess p' \<le> c \<and> (m_fReady p' \<longrightarrow> SUCCEEDED hr \<and> m_pForwarderConnection p'))"

lemma check_post_trans:
  assumes "proc_frame this w p w1 p1" "check_post c this k rest w1 p1 r"
  shows "check_post c this k rest w p r"
  using assms proc_frame_trans [OF assms(1)] by (auto simp: check_post_def)

lemma post_finish_post:
  assumes "proc_ok this k rest w p" "m_fReady p \<longrightarrow> SUCCEEDED hr \<and> m_pForwarderConnection p" "m_cChildProcess p \<le> c"
  shows "check_post c this k rest w p (post_finish hr d w p)"
  using assms
  by (cases "FAILED hr"; cases "m_pForwarderConnection p")
    (simp_all add: post_finish_def check_post_def release_connection_def proc_frame_def Let_def)

lemma mark_ready_post:
  assumes "proc_ok this k rest w p" "m_pForwarderConnection p" "m_hListeningProcessHandle p = NULL_HANDLE" "m_cChildProcess p \<le> c"
  shows "check_post c this k rest w p (mark_ready os d w p)"
proof (cases "net_nsi_missing (po_net os)")
  case True
  then show ?thesis
    using assms by (simp add: mark_ready_def post_finish_def check_post_def proc_frame_def Let_def)
next
  case False
  obtain h w1 where o: "open_process os (m_dwListeningProcessId p) w = (h, w1)" by force
  note O = open_process_spec [OF o]
  let ?p = "p\<lparr>m_hListeningProcessHandle := h, m_fReady := True\<rparr>"
  have "owned ?p = filter_mset real_handle {#h#} + owned p" using assms(3) by (simp add: owned_def)
  then have l: "ledger rest w1 ?p" using assms(1) O(2) by (simp add: proc_ok_def ledger_def)
  have "waits_ok this k w1 ?p"
    by (rule waits_ok_opens [OF _ O(1)]) (use assms(1) in \<open>simp_all add: proc_ok_def\<close>)
  then have ok: "proc_ok this k rest w1 ?p" using l assms(1) by (simp add: proc_ok_def)
  have f: "proc_frame this w p w1 ?p" by (rule opens_proc_frame [OF O(1)]) simp_all
  show ?thesis
    using False o check_post_trans [OF f post_finish_post [OF ok]] assms(2,4)
    by (simp add: mark_ready_def)
qed

lemma connect_and_mark_post:
  assumes "proc_ok this k rest w p" "m_hListeningProcessHandle p = NULL_HANDLE" "\<not> m_fReady p" "m_cChildProcess p \<le> c"
  shows "check_post c this k rest w p (connect_and_mark os d w p)"
proof (cases "m_pForwarderConnection p")
  case True
  then show ?thesis using assms mark_ready_post by (simp add: connect_and_mark_def)
next
  case False
  have f: "proc_frame this w p (later w) p" by (rule opens_proc_frame) simp_all
  have f1: "proc_frame this w p ((later w)\<lparr>pw_connections := pw_connections w + 1\<rparr>) (p\<lparr>m_pForwarderConnection := True\<rparr>)"
    using False by (simp add: proc_frame_def later_def)
  show ?thesis
    using False assms check_post_trans [OF f post_finish_post] check_post_trans [OF f1 post_finish_post]
      check_post_trans [OF f1 mark_ready_post]
    by (auto simp: connect_and_mark_def Let_def split: option.split)
qed

lemma post_ready_post:
  assumes "proc_ok this k rest w p" "m_hListeningProcessHandle p = NULL_HANDLE" "\<not> m_fReady p"
    "tcp_table_ok (po_net os)" "m_cChildProcess p \<le> c"
  shows "returns (post_ready os fChild d w p) (check_post c this k rest w p)"
proof (cases fChild)
  case True
  obtain hr pid up t where u: "CheckIfServerIsUp (po_net os) (m_dwPort p) (pw_clock w) = Some (hr, pid, up, t)" "pw_clock w \<le> t"
    using CheckIfServerIsUp_spec [OF assms(4), of "m_dwPort p" "pw_clock w"] by (auto elim!: returnsE)
  have f: "proc_frame this w p (w\<lparr>pw_clock := t\<rparr>) p" by (rule opens_proc_frame) (simp_all add: opens_clock u(2))
  show ?thesis
    using True u(1) assms(1-3,5) check_post_trans [OF f post_finish_post] check_post_trans [OF f connect_and_mark_post]
    by (simp add: post_ready_def)
qed (use assms connect_and_mark_post in \<open>simp add: post_ready_def\<close>)

lemma recheck_debugger_spec:
  assumes "recheck_debugger os d w = (d', w')"
  shows "opens w w'" "pw_open w' = pw_open w" "w' = w \<or> w' = later w"
  using assms by (auto simp: recheck_debugger_def split: if_splits)

lemma listening_child_post:
  assumes "proc_ok this k rest w p" "m_hListeningProcessHandle p = NULL_HANDLE" "\<not> m_fReady p"
    "tcp_table_ok (po_net os)" "i < m_cChildProcess p" "m_cChildProcess p \<le> c" "c \<le> MAX_ACTIVE_CHILD_PROCESSES"
    "set (m_hChildProcessWaitHandles p) \<subseteq> {NULL_HANDLE}"
  shows "returns (listening_child os this i d w p) (check_post c this k rest w p)"
proof -
  let ?p1 = "p\<lparr>m_dwListeningProcessId := m_dwChildProcessIds p ! i\<rparr>"
  have f1: "proc_frame this w p w ?p1" by (simp add: proc_frame_def)
  show ?thesis
  proof (cases "m_hChildProcessHandles p ! i = NULL_HANDLE")
    case True
    then show ?thesis
      using post_ready_post [of this k rest w ?p1 os c False d] assms(1-4,6) check_post_trans [OF f1]
      by (auto simp: listening_child_def elim!: returns_mono)
  next
    case False
    obtain d' w1 where r: "recheck_debugger os d w = (d', w1)" by force
    note R = recheck_debugger_spec [OF r]
    have ok1: "proc_ok this k rest w1 ?p1" using assms(1) R(3) by auto
    have f2: "proc_frame this w p w1 ?p1" by (rule opens_proc_frame [OF R(1)]) simp_all
    let ?f = "\<lambda>h p. p\<lparr>m_hChildProcessWaitHandles := (m_hChildProcessWaitHandles p)[i := h]\<rparr>"
    have sw: "server_wf (?f h p) = server_wf p" for h p by (simp add: server_wf_def)
    have i: "i < length (m_hChildProcessWaitHandles p)" using assms(1,5-7) by (simp add: proc_ok_def server_wf_def)
    have w1: "wait_handles (?f h (?p1\<lparr>m_cRefs := n\<rparr>)) = insert h (wait_handles ?p1) - {NULL_HANDLE}" for h n
      using set_update_subset_insert [of "m_hChildProcessWaitHandles p" i h] set_update_memI [OF i, of h] assms(8)
      by (auto simp: wait_handles_def)
    obtain h w2 p2 where w: "RegisterProcessWait os this w1 ?p1 = Some (S_OK, h, w2, p2)" "proc_ok this k rest w2 (?f h p2)"
      "proc_frame this w1 ?p1 w2 (?f h p2)" "p2 = ?p1\<lparr>m_cRefs := m_cRefs ?p1 + 1\<rparr>"
    proof -
      have "returns (RegisterProcessWait os this w1 ?p1) (\<lambda>(hr, h, w', p'). hr = S_OK \<and> proc_ok this k rest w' (?f h p') \<and>
          proc_frame this w1 ?p1 w' (?f h p') \<and> p' = ?p1\<lparr>m_cRefs := m_cRefs ?p1 + 1\<rparr>)"
        by (rule RegisterProcessWait_spec [where f = ?f, OF ok1 _ w1]) (simp_all add: sw)
      then show thesis using that by (elim returnsE) (simp split: prod.splits)
    qed
    have f3: "proc_frame this w p w2 (?f h p2)" by (rule proc_frame_trans [OF f2 w(3)])
    show ?thesis
      using False r w(1) post_ready_post [OF w(2) _ _ assms(4), of c True d'] assms(2,3,6) w(4) check_post_trans [OF f3]
      by (auto simp: listening_child_def Let_def elim!: returns_mono)
  qed
qed


text \<open>
  How many child processes are known after one more look at the job: eight more at most when \<open>ends\<close> says that the limits hold,
  else as many as the arrays can hold.
\<close>

definition more_children :: "bool \<Rightarrow> nat \<Rightarrow> nat" where
  "more_children ends c = (if ends then c + 8 else max c MAX_ACTIVE_CHILD_PROCESSES)"

lemma more_children_ge [simp]: "c \<le> more_children ends c"
  by (simp add: more_children_def)

lemma more_children_max:
  "c \<le> MAX_ACTIVE_CHILD_PROCESSES \<Longrightarrow> (ends \<Longrightarrow> c \<le> 8) \<Longrightarrow> more_children ends c \<le> MAX_ACTIVE_CHILD_PROCESSES"
  by (cases ends) (simp_all add: more_children_def MAX_ACTIVE_CHILD_PROCESSES_def)

lemma GetChildProcessHandles_spec:
  assumes "proc_ok this k rest w p" "ends \<Longrightarrow> start_limits os ms" "m_cChildProcess p \<le> c" "c \<le> MAX_ACTIVE_CHILD_PROCESSES" "ends \<Longrightarrow> c \<le> 8"
  shows "returns_if ends (GetChildProcessHandles os w p) (\<lambda>(hr, w', p'). proc_ok this k rest w' p' \<and> proc_frame this w p w' p' \<and>
    m_cChildProcess p' \<le> more_children ends c \<and> child_frame p p')"
proof -
  obtain r t where j: "job_processes os (pw_clock w) = (r, t)" by force
  note J = job_processes_spec [OF j]
  have o: "opens w (w\<lparr>pw_clock := t\<rparr>)" using J(1) by (simp add: opens_clock)
  show ?thesis
  proof (cases r)
    case (Inl hr)
    have "m_cChildProcess p \<le> more_children ends c" using assms(3) more_children_ge le_trans by blast
    then show ?thesis using Inl j assms(1) opens_proc_frame [OF o] by (simp add: GetChildProcessHandles_def)
  next
    case (Inr ids)
    have n: "length ids \<le> 8" if ends using J(3) [OF Inr] start_limitsD(3) [OF assms(2) [OF that]] by metis
    then have c: "m_cChildProcess p + length ids \<le> MAX_ACTIVE_CHILD_PROCESSES" if ends
      using assms(3,5) that by (fastforce simp: MAX_ACTIVE_CHILD_PROCESSES_def)
    have pre: "ledger rest (w\<lparr>pw_clock := t\<rparr>) p" "server_wf p" "children_ok p" "m_cChildProcess p \<le> MAX_ACTIVE_CHILD_PROCESSES"
      using assms(1,3,4) by (simp_all add: proc_ok_def ledger_def)
    have loop: "returns_if ends (child_loop os ids (w\<lparr>pw_clock := t\<rparr>) p) (\<lambda>(w', p'). proc_ok this k rest w' p' \<and> proc_frame this w p w' p' \<and>
        m_cChildProcess p' \<le> more_children ends c \<and> child_frame p p')"
    proof (rule returns_if_mono [OF child_loop_spec [OF pre, of ends ids os]], rule c, assumption, clarify)
      fix w' p'
      assume l: "ledger rest w' p'" "server_wf p'" "children_ok p'" "opens (w\<lparr>pw_clock := t\<rparr>) w'"
        "m_cChildProcess p' \<le> m_cChildProcess p + length ids" "m_cChildProcess p' \<le> MAX_ACTIVE_CHILD_PROCESSES" "child_frame p p'"
      have o': "opens w w'" by (rule opens_trans [OF o l(4)])
      have e: "wait_handles p' = wait_handles p" "m_hProcessWaitHandle p' = m_hProcessWaitHandle p" "m_cRefs p' = m_cRefs p"
        "settings p' = settings p" "m_pForwarderConnection p' = m_pForwarderConnection p" "m_lStopping p' = m_lStopping p"
        using l(7) by (auto simp: child_frame_def)
      have "waits_ok this k w' p'" using assms(1) waits_ok_opens [OF _ o' e(1-3,6)] by (simp add: proc_ok_def)
      moreover have "m_cChildProcess p' \<le> more_children ends c"
        using l(5,6) n assms(3) by (cases ends) (auto simp: more_children_def)
      ultimately show "proc_ok this k rest w' p' \<and> proc_frame this w p w' p' \<and> m_cChildProcess p' \<le> more_children ends c \<and> child_frame p p'"
        using l(1-3,7) opens_proc_frame [OF o' e(4,5)] by (simp add: proc_ok_def)
    qed
    show ?thesis using Inr j by (auto simp: GetChildProcessHandles_def intro: returns_if_mono [OF loop])
  qed
qed

lemma match_listener_post:
  assumes "proc_ok this k rest w p" "m_hListeningProcessHandle p = NULL_HANDLE" "\<not> m_fReady p"
    "tcp_table_ok (po_net os)" "ends \<Longrightarrow> start_limits os ms" "m_cChildProcess p \<le> c" "c \<le> MAX_ACTIVE_CHILD_PROCESSES" "ends \<Longrightarrow> c \<le> 8"
    "set (m_hChildProcessWaitHandles p) \<subseteq> {NULL_HANDLE}"
  shows "returns_if ends (match_listener os this pid d w p) (check_post (more_children ends c) this k rest w p)"
proof -
  have c: "m_cChildProcess p \<le> more_children ends c" using assms(6) more_children_ge le_trans by blast
  consider (nsi) "net_nsi_missing (po_net os)" | (own) "\<not> net_nsi_missing (po_net os)" "pid = m_dwProcessId p"
    | (child) "\<not> net_nsi_missing (po_net os)" "pid \<noteq> m_dwProcessId p" by blast
  then show ?thesis
  proof cases
    case nsi
    then show ?thesis
      using returns_returns_if [OF post_ready_post [OF assms(1-4) c, of False d]] by (simp add: match_listener_def)
  next
    case own
    let ?p1 = "p\<lparr>m_dwListeningProcessId := m_dwProcessId p\<rparr>"
    have f: "proc_frame this w p w ?p1" by (simp add: proc_frame_def)
    have "returns (post_ready os False d w ?p1) (check_post (more_children ends c) this k rest w ?p1)"
      by (rule post_ready_post) (use assms(1-4) c in simp_all)
    then have "returns (post_ready os False d w ?p1) (check_post (more_children ends c) this k rest w p)"
      by (rule returns_mono) (rule check_post_trans [OF f])
    then show ?thesis using own by (simp add: match_listener_def returns_returns_if)
  next
    case child
    have run: "match_listener os this pid d w p = GetChildProcessHandles os w p \<bind> (\<lambda>(hr, w1, p1).
        if FAILED hr then Some (post_finish hr d w1 p1)
         else case find (\<lambda>i. pid = m_dwChildProcessIds p1 ! i) [0..<m_cChildProcess p1] of
           None \<Rightarrow> Some (post_finish (HRESULT_FROM_WIN32 ERROR_CREATE_FAILED) d w1 p1)
         | Some i \<Rightarrow> listening_child os this i d w1 p1)"
      using child by (simp add: match_listener_def)
    have step: "returns_if ends (if FAILED hr then Some (post_finish hr d w1 p1)
         else case find (\<lambda>i. pid = m_dwChildProcessIds p1 ! i) [0..<m_cChildProcess p1] of
           None \<Rightarrow> Some (post_finish (HRESULT_FROM_WIN32 ERROR_CREATE_FAILED) d w1 p1)
         | Some i \<Rightarrow> listening_child os this i d w1 p1) (check_post (more_children ends c) this k rest w p)"
      if g: "proc_ok this k rest w1 p1" "proc_frame this w p w1 p1" "m_cChildProcess p1 \<le> more_children ends c" "child_frame p p1" for hr w1 p1
    proof -
      have s: "m_hListeningProcessHandle p1 = NULL_HANDLE" "\<not> m_fReady p1" "set (m_hChildProcessWaitHandles p1) \<subseteq> {NULL_HANDLE}"
        using g(4) assms(2,3,9) by (auto simp: child_frame_def)
      note fin = check_post_trans [OF g(2) post_finish_post [OF g(1) _ g(3)]]
      show ?thesis
      proof (cases "FAILED hr \<or> find (\<lambda>i. pid = m_dwChildProcessIds p1 ! i) [0..<m_cChildProcess p1] = None")
        case True
        then show ?thesis using s(2) fin by auto
      next
        case found: False
        then obtain i where i: "find (\<lambda>i. pid = m_dwChildProcessIds p1 ! i) [0..<m_cChildProcess p1] = Some i" by auto
        then have "i < m_cChildProcess p1" by (auto simp: find_Some_iff)
        from listening_child_post [OF g(1) s(1,2) assms(4) this g(3) more_children_max [OF assms(7,8)] s(3), of d]
        have "returns (listening_child os this i d w1 p1) (check_post (more_children ends c) this k rest w1 p1)" by blast
        then have "returns (listening_child os this i d w1 p1) (check_post (more_children ends c) this k rest w p)"
          by (rule returns_mono) (rule check_post_trans [OF g(2)])
        then show ?thesis using found i by (simp add: returns_returns_if)
      qed
    qed
    show ?thesis
      unfolding run returns_if_bind
      by (rule returns_if_mono [OF GetChildProcessHandles_spec [OF assms(1,5-8)]]) (use step in auto)
  qed
qed

text \<open>
  The check after the start touches nothing outside the arrays and ends when the limits hold. It leaves the object valid:
  ready with a connection and a code of success, or not ready.
\<close>

lemma PostStartCheck_spec:
  assumes "proc_ok this k rest w p" "m_hListeningProcessHandle p = NULL_HANDLE" "\<not> m_fReady p"
    "tcp_table_ok (po_net os)" "ends \<Longrightarrow> start_limits os ms" "m_cChildProcess p \<le> c" "c \<le> MAX_ACTIVE_CHILD_PROCESSES" "ends \<Longrightarrow> c \<le> 8"
    "ends \<Longrightarrow> unat (m_dwStartupTimeLimitInMS p) \<le> start_limit" "wait_handles p = {}"
  shows "returns_if ends (PostStartCheck os this w p) (check_post (more_children ends c) this k rest w p)"
proof -
  let ?t = "pw_clock w" and ?d = "po_debugger os (pw_clock w) = Some True"
  let ?wait = "wait_ready os (m_dwPort p) (m_dwStartupTimeLimitInMS p) (po_tick os ?t) ?d (Suc ?t)"
  have c: "m_cChildProcess p \<le> more_children ends c" using assms(6) more_children_ge le_trans by blast
  show ?thesis
  proof (cases ?wait)
    case None
    have "\<not> ends"
    proof
      assume ends: ends
      have "ms (Suc ?t) \<le> ms ?t + unat (m_dwStartupTimeLimitInMS p) + 600000"
        using start_limitsD(1) [OF assms(5) [OF ends]] by (auto simp: time_passes_def intro: add_increasing2 order_trans)
      from wait_ready_returns [OF assms(4) assms(5) [OF ends] assms(9) [OF ends] _ this, of "m_dwPort p" ?d] show False using None by simp
    qed
    then show ?thesis using None by (simp add: PostStartCheck_def Let_def)
  next
    case (Some rt)
    obtain r t where r: "rt = (r, t)" by force
    have t: "Suc ?t < t" using wait_ready_clock [OF assms(4) Some] r by simp
    let ?w1 = "w\<lparr>pw_clock := t\<rparr>"
    have f1: "proc_frame this w p ?w1 p" by (rule opens_proc_frame) (use t in \<open>simp_all add: opens_clock\<close>)
    have ok1: "proc_ok this k rest ?w1 p" using assms(1) by simp
    note fin = check_post_trans [OF f1 post_finish_post [OF ok1 _ c]]
    show ?thesis
    proof (cases r)
      case (Exited d)
      then show ?thesis using Some r fin assms(3) by (simp add: PostStartCheck_def)
    next
      case (WaitDone pid up d)
      show ?thesis
      proof (cases up)
        case False
        then show ?thesis using WaitDone Some r fin assms(3) by (simp add: PostStartCheck_def)
      next
        case True
        let ?f = "\<lambda>h p. p\<lparr>m_hProcessWaitHandle := h\<rparr>"
        obtain h w2 p2 where w: "RegisterProcessWait os this ?w1 p = Some (S_OK, h, w2, p2)" "proc_ok this k rest w2 (?f h p2)"
          "proc_frame this ?w1 p w2 (?f h p2)" "p2 = p\<lparr>m_cRefs := m_cRefs p + 1\<rparr>"
        proof -
          have "returns (RegisterProcessWait os this ?w1 p) (\<lambda>(hr, h, w', p'). hr = S_OK \<and> proc_ok this k rest w' (?f h p') \<and>
              proc_frame this ?w1 p w' (?f h p') \<and> p' = p\<lparr>m_cRefs := m_cRefs p + 1\<rparr>)"
            by (rule RegisterProcessWait_spec [where f = ?f, OF ok1]) (use assms(10) in \<open>auto simp: wait_handles_def\<close>)
          then show thesis using that by (elim returnsE) (simp split: prod.splits)
        qed
        obtain d' w3 where d: "recheck_debugger os d w2 = (d', w3)" by force
        note R = recheck_debugger_spec [OF d]
        have ok3: "proc_ok this k rest w3 (?f h p2)" using w(2) R(3) by auto
        have f3: "proc_frame this w p w3 (?f h p2)"
          by (rule proc_frame_trans [OF f1 proc_frame_trans [OF w(3) opens_proc_frame [OF R(1)]]]) simp_all
        have m: "m_hListeningProcessHandle (?f h p2) = NULL_HANDLE" "\<not> m_fReady (?f h p2)" "m_cChildProcess (?f h p2) \<le> c"
          "set (m_hChildProcessWaitHandles (?f h p2)) \<subseteq> {NULL_HANDLE}"
          using assms(2,3,6,10) w(4) by (auto simp: wait_handles_def)
        have "returns_if ends (match_listener os this pid d' w3 (?f h p2)) (check_post (more_children ends c) this k rest w3 (?f h p2))"
          by (rule match_listener_post [OF ok3 m(1,2) assms(4) assms(5) m(3) assms(7,8) m(4)])
        then have "returns_if ends (match_listener os this pid d' w3 (?f h p2)) (check_post (more_children ends c) this k rest w p)"
          by (rule returns_if_mono) (rule check_post_trans [OF f3])
        then show ?thesis using Some r WaitDone True w(1) d by (simp add: PostStartCheck_def)
      qed
    qed
  qed
qed

end
