(* ===== verification/ServerStart.thy ===== *)
theory ServerStart
  imports ServerProc
begin

section \<open>Starting the backend (RequestHandler/outofprocess/serverprocess.cxx, StartProcess)\<close>

text \<open>
  The attempts of \<open>StartProcess\<close>: command line, environment table, port, path, token, environment block,
  process creation and the check that the backend listens, with the clean-up between two attempts.
\<close>

text \<open>
  The local variables of \<open>StartProcess\<close> and the state it works on. \<open>sv_failed\<close> says that the attempt has
  gone to \<open>Failure\<close>; \<open>sv_table\<close> that \<open>pHashTable\<close> is set.
\<close>

record 'w start_vars =
  sv_hr :: HRESULT
  sv_failed :: bool
  sv_critical :: bool
  sv_table :: bool
  sv_thread :: handle
  sv_env :: "WCHAR MULTISZ"
  sv_world :: 'w
  sv_proc :: SERVER_PROCESS

text \<open>A stage runs unless an earlier one has failed.\<close>

definition stage :: "('w start_vars \<Rightarrow> (HRESULT \<times> bool \<times> 'w start_vars) option) \<Rightarrow> 'w start_vars \<Rightarrow> 'w start_vars option" where
  "stage f v =
     (if sv_failed v then Some v
      else map_option (\<lambda>(hr, failed, v'). v'\<lparr>sv_hr := hr, sv_failed := failed\<rparr>) (f v))"

abbreviation put_env :: "env_table \<Rightarrow> 'a proc_world_scheme start_vars \<Rightarrow> 'a proc_world_scheme start_vars" where
  "put_env st v \<equiv> v\<lparr>sv_world := (sv_world v)\<lparr>pw_env := st\<rparr>\<rparr>"

definition stage_command_line :: "proc_os \<Rightarrow> 'a proc_world_scheme start_vars \<Rightarrow> (HRESULT \<times> bool \<times> 'a proc_world_scheme start_vars) option" where
  "stage_command_line os v =
     (let p = sv_proc v
      in do {
        (hr, c) \<leftarrow> SetupCommandLine (os_heap (po_env os)) (po_new os) (po_fullpath os) (po_can_open os)
           (m_ProcessPath p) (m_struPhysicalPath p) (m_Arguments p) (m_struCommandLine p);
        Some (hr, FAILED hr, v\<lparr>sv_proc := p\<lparr>m_struCommandLine := c\<rparr>\<rparr>)
      })"

definition stage_table :: "proc_os \<Rightarrow> 'a proc_world_scheme start_vars \<Rightarrow> (HRESULT \<times> bool \<times> 'a proc_world_scheme start_vars) option" where
  "stage_table os v =
     (let p = sv_proc v
      in do {
        (hr, published, st) \<leftarrow> InitEnvironmentVariablesTable (po_env os) (m_fWindowsAuthEnabled p) (m_fBasicAuthEnabled p)
           (m_fAnonymousAuthEnabled p) (m_pEnvironmentVarTable p) (pw_env (sv_world v));
        Some (hr, FAILED hr, put_env st (v\<lparr>sv_table := published\<rparr>))
      })"

definition stage_websockets :: "proc_os \<Rightarrow> 'a proc_world_scheme start_vars \<Rightarrow> (HRESULT \<times> bool \<times> 'a proc_world_scheme start_vars) option" where
  "stage_websockets os v = do {
     (hr, st) \<leftarrow> AddWebsocketEnabledToEnvironmentVariables (po_env os) (m_fWebsocketsEnabled (sv_proc v)) (pw_env (sv_world v));
     Some (hr, FAILED hr, put_env st v)
   }"

definition stage_port :: "proc_os \<Rightarrow> 'a proc_world_scheme start_vars \<Rightarrow> (HRESULT \<times> bool \<times> 'a proc_world_scheme start_vars) option" where
  "stage_port os v =
     (let p = sv_proc v; w = sv_world v
      in do {
        (hr, fCriticalError, dwPort, struPort, st, t) \<leftarrow> SetupListenPort (po_env os) (po_net os) (m_struPort p) (pw_env w) (pw_clock w);
        Some (hr, FAILED hr, v\<lparr>sv_critical := fCriticalError, sv_proc := p\<lparr>m_dwPort := dwPort, m_struPort := struPort\<rparr>,
                               sv_world := w\<lparr>pw_env := st, pw_clock := t\<rparr>\<rparr>)
      })"

definition stage_path :: "proc_os \<Rightarrow> 'a proc_world_scheme start_vars \<Rightarrow> (HRESULT \<times> bool \<times> 'a proc_world_scheme start_vars) option" where
  "stage_path os v = do {
     (hr, st) \<leftarrow> SetupAppPath (po_env os) (m_struAppVirtualPath (sv_proc v)) (pw_env (sv_world v));
     Some (hr, FAILED hr, put_env st v)
   }"

definition stage_token :: "proc_os \<Rightarrow> 'a proc_world_scheme start_vars \<Rightarrow> (HRESULT \<times> bool \<times> 'a proc_world_scheme start_vars) option" where
  "stage_token os v =
     (let p = sv_proc v; w = later (sv_world v)
      in do {
        (hr, g, st) \<leftarrow> SetupAppToken (po_env os) (po_aheap os) (po_utf8 os) (po_acp os) (po_uuid os (pw_clock w)) (m_straGuid p) (pw_env w);
        Some (hr, FAILED hr, v\<lparr>sv_proc := p\<lparr>m_straGuid := g\<rparr>, sv_world := w\<lparr>pw_env := st\<rparr>\<rparr>)
      })"

definition stage_environment :: "proc_os \<Rightarrow> 'a proc_world_scheme start_vars \<Rightarrow> (HRESULT \<times> bool \<times> 'a proc_world_scheme start_vars) option" where
  "stage_environment os v =
     (let w = later (sv_world v)
      in do {
        (hr, M, st) \<leftarrow> OutputEnvironmentVariables (os_heap (po_env os)) (po_env_strings os (pw_clock w)) (sv_env v) (pw_env w);
        Some (hr, FAILED hr, v\<lparr>sv_env := M, sv_world := w\<lparr>pw_env := st\<rparr>\<rparr>)
      })"

text \<open>\<open>CreateProcessW\<close> opens a handle for the process and one for its first thread.\<close>

definition stage_create :: "proc_os \<Rightarrow> 'a proc_world_scheme start_vars \<Rightarrow> (HRESULT \<times> bool \<times> 'a proc_world_scheme start_vars) option" where
  "stage_create os v =
     (let w = later (sv_world v); p = sv_proc v
      in case po_create_process os (pw_clock w) of
        Inl err \<Rightarrow> Some (HRESULT_FROM_WIN32 err, True, v\<lparr>sv_world := w\<rparr>)
      | Inr pid \<Rightarrow>
          (let (hProcess, w1) = new_handle w; (hThread, w2) = new_handle w1
           in Some (sv_hr v, False, v\<lparr>sv_world := w2, sv_thread := hThread,
                                      sv_proc := p\<lparr>m_hProcessHandle := hProcess, m_dwProcessId := pid\<rparr>\<rparr>)))"

definition stage_job :: "proc_os \<Rightarrow> 'a proc_world_scheme start_vars \<Rightarrow> (HRESULT \<times> bool \<times> 'a proc_world_scheme start_vars) option" where
  "stage_job os v =
     (let (hr, w, p) = SetupJobObject os (sv_world v) (sv_proc v); v1 = v\<lparr>sv_world := w, sv_proc := p\<rparr>
      in if FAILED hr \<or> m_hJobObject p = NULL_HANDLE then Some (hr, FAILED hr, v1)
         else case po_assign os (pw_clock w) of
           None \<Rightarrow> Some (hr, False, v1\<lparr>sv_world := later w\<rparr>)
         | Some err \<Rightarrow>
             (let hr' = HRESULT_FROM_WIN32 err
              in Some (hr', hr' \<noteq> HRESULT_FROM_WIN32 ERROR_NOT_SUPPORTED, v1\<lparr>sv_world := later w\<rparr>)))"

definition stage_resume :: "proc_os \<Rightarrow> 'a proc_world_scheme start_vars \<Rightarrow> (HRESULT \<times> bool \<times> 'a proc_world_scheme start_vars) option" where
  "stage_resume os v =
     (let w = later (sv_world v)
      in case po_resume os (pw_clock w) of
        Some err \<Rightarrow> Some (HRESULT_FROM_WIN32 err, True, v\<lparr>sv_world := w\<rparr>)
      | None \<Rightarrow> Some (sv_hr v, False, v\<lparr>sv_world := w\<rparr>))"

definition stage_check :: "proc_os \<Rightarrow> nat \<Rightarrow> 'a proc_world_scheme start_vars \<Rightarrow> (HRESULT \<times> bool \<times> 'a proc_world_scheme start_vars) option" where
  "stage_check os this v = do {
     (hr, w, p) \<leftarrow> PostStartCheck os this (sv_world v) (sv_proc v);
     Some (hr, FAILED hr, v\<lparr>sv_world := w, sv_proc := p\<rparr>)
   }"

definition attempt :: "proc_os \<Rightarrow> nat \<Rightarrow> 'a proc_world_scheme start_vars \<Rightarrow> 'a proc_world_scheme start_vars option" where
  "attempt os this v = do {
     v \<leftarrow> stage (stage_command_line os) (v\<lparr>sv_failed := False, sv_proc := (sv_proc v)\<lparr>m_dwPort := 0\<rparr>\<rparr>);
     v \<leftarrow> stage (stage_table os) v;
     v \<leftarrow> stage (stage_websockets os) v;
     v \<leftarrow> stage (stage_port os) v;
     v \<leftarrow> stage (stage_path os) v;
     v \<leftarrow> stage (stage_token os) v;
     v \<leftarrow> stage (stage_environment os) v;
     v \<leftarrow> stage (stage_create os) v;
     v \<leftarrow> stage (stage_job os) v;
     v \<leftarrow> stage (stage_resume os) v;
     stage (stage_check os this) v
   }"

text \<open>The code at \<open>Failure\<close>.\<close>

definition start_failure :: "'a proc_world_scheme start_vars \<Rightarrow> 'a proc_world_scheme start_vars option" where
  "start_failure v = do {
     w1 \<leftarrow> (if sv_thread v \<noteq> NULL_HANDLE then CloseHandle (sv_thread v) (sv_world v) else Some (sv_world v));
     w2 \<leftarrow> (if sv_table v
           then map_option (\<lambda>T. w1\<lparr>pw_env := (pw_env w1)\<lparr>et_table := T\<rparr>\<rparr>) (Clear (et_table (pw_env w1)))
           else Some w1);
     (w3, p) \<leftarrow> CleanUp w2 (sv_proc v);
     Some (v\<lparr>sv_thread := NULL_HANDLE, sv_table := False, sv_world := w3, sv_proc := p\<rparr>)
   }"

fun start_loop :: "proc_os \<Rightarrow> nat \<Rightarrow> nat \<Rightarrow> 'a proc_world_scheme start_vars \<Rightarrow> 'a proc_world_scheme start_vars option" where
  "start_loop os this 0 v = Some v"
| "start_loop os this (Suc dwRetryCount) v = do {
     v1 \<leftarrow> attempt os this v;
     (if \<not> sv_failed v1 then Some v1
      else do {
        v2 \<leftarrow> start_failure v1;
        start_loop os this (if sv_critical v1 then 0 else dwRetryCount) v2
      })
   }"

definition SetupStdHandles :: "proc_os \<Rightarrow> 'a proc_world_scheme \<Rightarrow> SERVER_PROCESS \<Rightarrow>
    (HRESULT \<times> 'a proc_world_scheme \<times> SERVER_PROCESS) option" where
  "SetupStdHandles os w p =
     (let heap = os_heap (po_env os);
          fail = (\<lambda>hr w p. map_option (\<lambda>s. (hr, w, p\<lparr>m_struFullLogFile := s\<rparr>)) (STRU_Reset (m_struFullLogFile p)))
      in if \<not> m_fStdoutLogEnabled p then Some (S_OK, w, p)
         else do {
           w0 \<leftarrow> close_real (m_hStdoutHandle p) w;
           (let p0 = (if m_hStdoutHandle p \<noteq> INVALID_HANDLE_VALUE then p\<lparr>m_hStdoutHandle := NULL_HANDLE\<rparr> else p)
            in do {
              (hr, struPath) \<leftarrow> ConvertPathToFullPath heap (po_path_is_relative os) (po_fullpath os) (po_new os (pw_clock w0))
                 (c_text (m_struLogFile p)) (c_text (m_struPhysicalPath p)) STRU_new;
              (if FAILED hr then fail hr w0 p0
               else do {
                 (hr, s) \<leftarrow> SafeVsnwprintf heap (po_log_name os (pw_clock w0) (c_text struPath)) (m_struFullLogFile p0);
                 (let p1 = p0\<lparr>m_struFullLogFile := s\<rparr>
                  in if FAILED hr then fail hr w0 p1
                     else do {
                       (hr, t) \<leftarrow> EnsureDirectoryPathExist heap (po_create_directory os) (c_text struPath) (pw_clock w0);
                       (let w1 = w0\<lparr>pw_clock := t\<rparr>
                        in if FAILED hr then fail hr w1 p1
                           else case po_create_file os t of
                             Some err \<Rightarrow>
                               (let hr = HRESULT_FROM_WIN32 err; p2 = p1\<lparr>m_hStdoutHandle := INVALID_HANDLE_VALUE\<rparr>
                                in if FAILED hr then fail hr (later w1) p2 else Some (hr, later w1, p2))
                           | None \<Rightarrow> (let (h, w2) = new_handle (later w1) in Some (hr, w2, p1\<lparr>m_hStdoutHandle := h\<rparr>)))
                     })
               })
            })
         })"

definition StartProcess :: "proc_os \<Rightarrow> nat \<Rightarrow> 'a proc_world_scheme \<Rightarrow> SERVER_PROCESS \<Rightarrow>
    (HRESULT \<times> 'a proc_world_scheme \<times> SERVER_PROCESS) option" where
  "StartProcess os this w p = do {
     (_, w0, p0) \<leftarrow> SetupStdHandles os w p;
     M \<leftarrow> MULTISZ_new 2 (os_stack (po_env os) (INLINED_BUFFER_LEN div 2));
     v \<leftarrow> start_loop os this 2 \<lparr>sv_hr = S_OK, sv_failed = False, sv_critical = False, sv_table = False, sv_thread = NULL_HANDLE,
            sv_env = M, sv_world = w0, sv_proc = p0\<rparr>;
     (if FAILED (sv_hr v) \<or> \<not> m_fReady (sv_proc v)
      then do {
        w1 \<leftarrow> close_real (m_hStdoutHandle (sv_proc v)) (sv_world v);
        Some (sv_hr v, w1, (sv_proc v)\<lparr>m_hStdoutHandle := NULL_HANDLE\<rparr>)
      }
      else Some (sv_hr v, sv_world v, sv_proc v))
   }"

section \<open>The store of environment entries\<close>

text \<open>\<open>n\<close> new entries at most; the old ones stay as they are.\<close>

definition env_grows :: "nat \<Rightarrow> env_table \<Rightarrow> env_table \<Rightarrow> bool" where
  "env_grows n st st' \<longleftrightarrow> et_next st \<le> et_next st' \<and> et_next st' \<le> et_next st + n \<and>
     (\<forall>q < et_next st. et_entries st' q = et_entries st q)"

lemma env_grows_refl [simp]: "env_grows n st st" "env_grows n st (st\<lparr>et_table := T\<rparr>)"
  by (simp_all add: env_grows_def)

lemma env_grows_trans: "env_grows m st st' \<Longrightarrow> env_grows n st' st'' \<Longrightarrow> m + n \<le> k \<Longrightarrow> env_grows k st st''"
  by (auto simp: env_grows_def)

lemma env_grows_mono: "env_grows m st st' \<Longrightarrow> m \<le> n \<Longrightarrow> env_grows n st st'"
  by (auto simp: env_grows_def)

lemma env_grows_table [simp]:
  "env_grows n st (st'\<lparr>et_table := T\<rparr>) = env_grows n st st'" "env_grows n (st\<lparr>et_table := T\<rparr>) st' = env_grows n st st'"
  by (simp_all add: env_grows_def)

lemma env_grows_deref [simp]: "env_grows n st (deref_entry p st') = env_grows n st st'"
  by (simp add: deref_entry_def split: option.split)

lemma new_entry_grows:
  assumes "new_entry os st = (r, st')"
  shows "env_grows 1 st st'" "r = Some q \<Longrightarrow> q = et_next st"
  using assms by (auto simp: new_entry_def env_grows_def Let_def split: if_splits)

lemma init_and_insert_grows:
  assumes "init_and_insert os q name v st1 = Some (hr, st2)" "env_grows n st st1" "et_next st \<le> q"
  shows "env_grows n st st2"
  using assms by (auto simp: init_and_insert_def env_grows_def Let_def split: bind_splits if_splits)

lemma add_entry_grows:
  assumes "add_entry os name v st = Some (hr, st')"
  shows "env_grows 1 st st'"
proof -
  obtain r st1 where n: "new_entry os st = (r, st1)" by force
  note N = new_entry_grows [OF n]
  show ?thesis
    using assms n N init_and_insert_grows [of os _ name v st1 _ _ 1 st]
    by (fastforce simp: add_entry_def split: bind_splits option.splits)
qed

lemma delete_and_release_grows: "delete_and_release key st = Some st' \<Longrightarrow> env_grows 0 st st'"
  by (auto simp: delete_and_release_def split: bind_splits option.splits)

lemma SetupAppPath_grows: "SetupAppPath os vpath st = Some (hr, st') \<Longrightarrow> env_grows 1 st st'"
  unfolding SetupAppPath_def
  by (auto split: bind_splits dest!: delete_and_release_grows add_entry_grows intro: env_grows_trans)


lemma wipe_off_grows: "wipe_off key st = Some st' \<Longrightarrow> env_grows 0 st st'"
  by (auto simp: wipe_off_def split: bind_splits option.splits)

lemma AddWebsocket_grows:
  assumes "AddWebsocketEnabledToEnvironmentVariables os f st = Some (hr, st')"
  shows "env_grows 1 st st'"
proof -
  obtain st1 hr1 s where w: "wipe_off ASPNETCORE_IIS_WEBSOCKETS_SUPPORTED_ENV_STR st = Some st1"
    "STRU_Copy (os_heap os) (if f then L ''true'' else L ''false'') (stack_stru os 40) = Some (hr1, s)"
    using assms by (auto simp: AddWebsocketEnabledToEnvironmentVariables_def split: bind_splits)
  note g = wipe_off_grows [OF w(1)]
  obtain r st2 where n: "new_entry os st1 = (r, st2)" by force
  note N = new_entry_grows [OF n]
  have "env_grows 1 st st2" using env_grows_trans [OF g N(1)] by simp
  moreover have "et_next st \<le> et_next st1" using g by (simp add: env_grows_def)
  ultimately show ?thesis
    using assms w n N(2) env_grows_mono [OF g, of 1] init_and_insert_grows [of os _ _ _ st2 hr st' 1 st]
    by (auto simp: AddWebsocketEnabledToEnvironmentVariables_def split: if_splits option.splits)
qed

lemma port_entry_grows:
  assumes "port_entry os port s st = Some (hr, s', st')"
  shows "env_grows 1 st st'"
proof -
  obtain r st1 where n: "new_entry os st = (r, st1)" by force
  note N = new_entry_grows [OF n]
  show ?thesis
    using assms n N init_and_insert_grows [of os _ _ _ st1 _ _ 1 st]
    by (fastforce simp: port_entry_def Let_def split: bind_splits option.splits if_splits)
qed

lemma choose_port_grows: "choose_port os S s st t = Some (hr, c, port, s', st', t') \<Longrightarrow> env_grows 1 st st'"
  by (auto simp: choose_port_def split: bind_splits if_splits dest!: port_entry_grows)

lemma SetupListenPort_grows:
  assumes "SetupListenPort os S s st t = Some (hr, c, port, s', st', t')"
  shows "env_grows 1 st st'"
proof -
  obtain q T where f: "FindKey (et_vt st) ASPNETCORE_PORT_ENV_STR (et_table st) = Some (q, T)"
    using assms by (auto simp: SetupListenPort_def split: bind_splits)
  show ?thesis
  proof (cases q)
    case None
    then show ?thesis using assms f choose_port_grows [of os S s "st\<lparr>et_table := T\<rparr>"]
      by (fastforce simp: SetupListenPort_def env_grows_def)
  next
    case (Some p)
    then show ?thesis using assms f
      by (auto simp: SetupListenPort_def value_pointer_def Let_def split: bind_splits if_splits)
  qed
qed

lemma token_entry_grows:
  assumes "token_entry os acp hr0 g st = Some (hr, st')"
  shows "env_grows 1 st st'"
proof -
  obtain r st1 where n: "new_entry os st = (r, st1)" by force
  note N = new_entry_grows [OF n]
  show ?thesis
    using assms n N init_and_insert_grows [of os _ _ _ st1 _ _ 1 st]
    by (fastforce simp: token_entry_def Let_def split: bind_splits option.splits if_splits)
qed

lemma SetupAppToken_grows:
  assumes "SetupAppToken os aheap utf8 acp uuid g st = Some (hr, g', st')"
  shows "env_grows 1 st st'"
proof -
  obtain q T where f: "FindKey (et_vt st) ASPNETCORE_APP_TOKEN_ENV_STR (et_table st) = Some (q, T)"
    using assms by (auto simp: SetupAppToken_def split: bind_splits)
  show ?thesis
  proof (cases q)
    case None
    then show ?thesis using assms f
      by (auto simp: SetupAppToken_def Let_def split: bind_splits if_splits dest!: token_entry_grows)
  next
    case (Some p)
    then show ?thesis using assms f by (auto simp: SetupAppToken_def Let_def split: bind_splits if_splits)
  qed
qed

lemma output_line_grows: "output_line heap l M s st = Some (hr, M', s', st') \<Longrightarrow> env_grows 0 st st'"
  by (auto simp: output_line_def Let_def split: option.splits bind_splits if_splits)

lemma output_lines_grows: "output_lines heap ls M s st = Some (hr, M', st') \<Longrightarrow> env_grows 0 st st'"
proof (induction ls arbitrary: M s st)
  case (Cons l ls)
  then show ?case
    by (fastforce split: bind_splits if_splits dest: output_line_grows intro: env_grows_trans [of 0 _ _ 0])
qed simp

lemma OutputEnvironmentVariables_grows: "OutputEnvironmentVariables heap env M st = Some (hr, M', st') \<Longrightarrow> env_grows 0 st st'"
  by (auto simp: OutputEnvironmentVariables_def split: bind_splits option.splits if_splits dest!: output_lines_grows)

lemma CopyToTable_grows:
  assumes "CopyToTable os p st = Some st'"
  shows "env_grows 1 st st'"
proof -
  obtain r st1 where n: "new_entry os st = (r, st1)" by force
  note N = new_entry_grows [OF n]
  show ?thesis
    using assms n N by (fastforce simp: CopyToTable_def env_grows_def Let_def split: bind_splits option.splits)
qed

lemma copy_all_grows:
  "fold (\<lambda>p r. r \<bind> CopyToTable os p) ps (Some st) = Some st' \<Longrightarrow> env_grows (length ps) st st'"
proof (induction ps arbitrary: st)
  case (Cons p ps)
  then show ?case
  proof (cases "CopyToTable os p st")
    case None
    have "fold (\<lambda>p r. r \<bind> CopyToTable os p) ps None = None" by (induction ps) simp_all
    then show ?thesis using Cons.prems None by simp
  next
    case (Some st1)
    then show ?thesis using Cons.prems Cons.IH [of st1] CopyToTable_grows [OF Some] by (auto intro: env_grows_trans)
  qed
qed simp

lemma env_finish_grows: "env_finish hr h a pub st = Some (hr', pub', st') \<Longrightarrow> env_grows 0 st st'"
  by (auto simp: env_finish_def Let_def split: bind_splits if_splits)

lemma startup_entry_grows:
  assumes "startup_entry os a st = Some (hr, pub, st')"
  shows "env_grows 1 st st'"
proof -
  obtain r st1 where n: "new_entry os st = (r, st1)" by force
  note N = new_entry_grows [OF n]
  have f: "env_finish hr2 h b pb st2 = Some (hr', pub', st3) \<Longrightarrow> env_grows (Suc 0) st st2 \<Longrightarrow> env_grows (Suc 0) st st3" for st2 hr2 h b pb hr' pub' st3
    using env_grows_trans [OF _ env_finish_grows] by fastforce
  show ?thesis
  proof (cases r)
    case None
    then show ?thesis using assms n N(1)
      by (auto simp: startup_entry_def Let_def split: bind_splits if_splits elim!: f)
  next
    case (Some q)
    then have "init_and_insert os q name v st1 = Some (hr2, st2) \<Longrightarrow> env_grows (Suc 0) st st2" for name v hr2 st2
      using init_and_insert_grows [of os q name v st1 hr2 st2 "Suc 0" st] N by auto
    then show ?thesis using assms n Some
      by (auto simp: startup_entry_def Let_def split: bind_splits if_splits elim!: f)
  qed
qed

lemma auth_entry_grows:
  assumes "auth_entry os v st = Some (hr, pub, st')"
  shows "env_grows 2 st st'"
proof -
  obtain r st1 where n: "new_entry os st = (r, st1)" by force
  note N = new_entry_grows [OF n]
  have f: "env_finish hr2 h b pb st2 = Some (hr', pub', st3) \<Longrightarrow> env_grows (Suc 0) st st2 \<Longrightarrow> env_grows 2 st st3" for st2 hr2 h b pb hr' pub' st3
    using env_grows_trans [OF _ env_finish_grows] by fastforce
  have s: "startup_entry os a st2 = Some (hr', pub', st3) \<Longrightarrow> env_grows (Suc 0) st st2 \<Longrightarrow> env_grows 2 st st3" for st2 a hr' pub' st3
    using env_grows_trans [OF _ startup_entry_grows] by fastforce
  show ?thesis
  proof (cases r)
    case None
    then show ?thesis using assms n N(1) by (auto simp: auth_entry_def elim!: f)
  next
    case (Some q)
    then have i: "init_and_insert os q name v st1 = Some (hr2, st2) \<Longrightarrow> env_grows (Suc 0) st st2" for name v hr2 st2
      using init_and_insert_grows [of os q name v st1 hr2 st2 "Suc 0" st] N by auto
    obtain hr2 st2 where st2: "init_and_insert os q ASPNETCORE_IIS_AUTH_ENV_STR (c_text v) st1 = Some (hr2, st2)"
      using assms n Some by (auto simp: auth_entry_def split: bind_splits)
    show ?thesis using assms n Some st2 i [OF st2]
      by (auto simp: auth_entry_def split: bind_splits if_splits option.splits elim!: f s)
  qed
qed

lemma InitEnvironmentVariablesTable_grows:
  assumes "InitEnvironmentVariablesTable os w b a pIn st = Some (hr, pub, st')" "ht_inv vt pIn"
  shows "env_grows (Count pIn + 2) st st'"
proof -
  let ?T = "snd (Initialize (os_lock os) (os_alloc_table os) 37 HASH_TABLE_new)"
  have f: "env_grows (Count pIn) st st2 \<Longrightarrow> env_finish hr2 h b pb st2 = Some (hr', pub', st3) \<Longrightarrow> env_grows (Count pIn + 2) st st3"
    for st2 hr2 h b pb hr' pub' st3 using env_grows_trans [OF _ env_finish_grows] by fastforce
  have a: "env_grows (Count pIn) st st2 \<Longrightarrow> auth_entry os v st2 = Some (hr', pub', st3) \<Longrightarrow> env_grows (Count pIn + 2) st st3"
    for st2 v hr' pub' st3 using env_grows_trans [OF _ auth_entry_grows] by fastforce
  have w: "env_grows (Count pIn) st st2 \<Longrightarrow> wipe_off key st2 = Some st3 \<Longrightarrow> env_grows (Count pIn) st st3"
    for st2 key st3 using env_grows_trans [OF _ wipe_off_grows] by fastforce
  have c: "fold (\<lambda>p r. r \<bind> CopyToTable os p) (ht_records pIn) (Some (st\<lparr>et_table := ?T\<rparr>)) = Some st2 \<Longrightarrow> env_grows (Count pIn) st st2" for st2
    using copy_all_grows [of os "ht_records pIn" "st\<lparr>et_table := ?T\<rparr>" st2] ht_inv_length [OF assms(2)] by simp
  have t: "env_grows (Count pIn) st (st\<lparr>et_table := ?T\<rparr>)" by simp
  show ?thesis
    using assms(1) f [OF t] f [OF c] a [OF w [OF c]]
    by (auto simp: InitEnvironmentVariablesTable_def Apply_spec [OF assms(2)] Let_def split: prod.splits bind_splits if_splits)
qed

text \<open>The entries of a table are different, so their number is bounded by the number of entries made.\<close>

lemma Count_le_next:
  assumes "refs_ok refs st"
  shows "Count (et_table st) \<le> et_next st"
proof -
  have inv: "ht_inv (et_vt st) (et_table st)" by (rule refs_okD(2) [OF assms])
  have "distinct (ht_records (et_table st))"
    using ht_inv_sorted [OF inv] wcsicmp_equal_laws(1)
    by (induction "ht_records (et_table st)" arbitrary: st) (auto simp: sorted_wrt_iff_nth_less distinct_conv_nth, metis linorder_neqE_nat)
  then have "length (ht_records (et_table st)) = card (set (ht_records (et_table st)))" by (simp add: distinct_card)
  also have "\<dots> \<le> card {..<et_next st}" using refs_okD(4) [OF assms] by (intro card_mono) auto
  finally show ?thesis using ht_inv_length [OF inv] by simp
qed

section \<open>The stages on the environment\<close>

text \<open>The table is well formed and its references are accounted for, whoever holds them.\<close>

definition table_ok :: "env_table \<Rightarrow> bool" where
  "table_ok st \<longleftrightarrow> (\<exists>refs. refs_ok refs st)"

lemma table_okI: "refs_ok refs st \<Longrightarrow> table_ok st"
  by (auto simp: table_ok_def)

lemma Count_le_table: "table_ok st \<Longrightarrow> Count (et_table st) \<le> et_next st"
  using Count_le_next by (auto simp: table_ok_def)

lemma wipe_off_ok:
  assumes "refs_ok refs st"
  shows "returns (wipe_off key st) (refs_ok refs)"
proof (rule find_entry_spec [OF assms, of key])
  assume "FindKey (et_vt st) key (et_table st) = Some (None, et_table st)"
  then show ?thesis using assms by (simp add: wipe_off_def)
next
  fix p
  assume F: "FindKey (et_vt st) key (et_table st) = Some (Some p, ReferenceRecord p (et_table st))"
    and ok: "refs_ok (refs(p := refs p + 1)) (st\<lparr>et_table := ReferenceRecord p (et_table st)\<rparr>)" and p: "p < et_next st"
  have "refs_ok refs (deref_entry (Some p) (st\<lparr>et_table := ReferenceRecord p (et_table st)\<rparr>))"
    using deref_found(1) [OF ok] p by simp
  from delete_entry_spec [OF this, of key] show ?thesis
    using F by (auto simp: wipe_off_def deref_entry_def elim!: returns_mono)
qed

lemma init_and_insert_total:
  assumes "refs_ok refs st" "new_entry os st = (Some q, st1)" "heap_ok 2 (os_heap os)" "0 \<notin> set name" "0 \<notin> set v"
    "Count (et_table st) < MAXDWORD"
  shows "returns (init_and_insert os q name v st1) (\<lambda>(hr, st2). refs_ok (refs(q := 1)) st2)"
proof -
  note N = new_entry_ok [OF assms(1,2)]
  have q: "refs_ok (refs(q := 1)) st1" "entry_ok (et_entries st1 q)" "q < et_next st1" "q \<notin> set (ht_records (et_table st1))"
    using N(4) by simp_all
  have c: "Count (et_table st1) < MAXDWORD" using N(1) assms(6) by simp
  show ?thesis
    using init_and_insert_refs [OF refs_okD(1) [OF q(1)] assms(3) q(2-4) assms(4,5) c] q(1)
    by (auto simp: refs_ok_def elim!: returns_mono)
qed

lemma AddWebsocket_total:
  assumes "refs_ok refs st" "env_os_ok os" "et_next st < MAXDWORD"
  shows "returns (AddWebsocketEnabledToEnvironmentVariables os f st) (\<lambda>(hr, st'). table_ok st')"
proof -
  let ?K = ASPNETCORE_IIS_WEBSOCKETS_SUPPORTED_ENV_STR and ?v = "if f then L ''true'' else L ''false''"
  have heap: "heap_ok 2 (os_heap os)" using assms(2) by (simp add: env_os_ok_def)
  obtain st1 where st1: "wipe_off ?K st = Some st1" "refs_ok refs st1" using wipe_off_ok [OF assms(1), of ?K] by (auto elim: returnsE)
  have "et_next st1 = et_next st" using wipe_off_grows [OF st1(1)] by (simp add: env_grows_def)
  then have c: "Count (et_table st1) < MAXDWORD" using Count_le_next [OF st1(2)] assms(3) by simp
  have nf: "0 \<notin> set ?v" "0 \<notin> set ?K" by (simp_all add: ASPNETCORE_IIS_WEBSOCKETS_SUPPORTED_ENV_STR_def)
  have S: "stru_inv (stack_stru os 40)" by (rule stack_stru_inv(1) [OF assms(2)]) simp_all
  obtain hr s where s: "STRU_Copy (os_heap os) ?v (stack_stru os 40) = Some (hr, s)"
    using STRU_Copy_spec [OF heap S nf(1)] by (auto elim: returnsE)
  obtain r st2 where n: "new_entry os st1 = (r, st2)" by force
  have ok: "SUCCEEDED hr \<Longrightarrow> r = None \<Longrightarrow> refs_ok refs st2" using new_entry_ok(3) [OF st1(2) n] by simp
  show ?thesis
  proof (cases r)
    case None
    then show ?thesis using st1 s n ok by (auto simp: AddWebsocketEnabledToEnvironmentVariables_def table_ok_def)
  next
    case (Some q)
    show ?thesis
      using st1 s n Some init_and_insert_total [OF st1(2) n [unfolded Some] heap nf(2) c_text_nul_free [of s] c]
      by (auto simp: AddWebsocketEnabledToEnvironmentVariables_def table_ok_def elim!: returns_mono)
  qed
qed

text \<open>One line of the environment block, whatever runs out; an entry may be left with a reference too many.\<close>

definition line_fits :: "wstr \<Rightarrow> bool" where
  "line_fits l \<longleftrightarrow> 0 \<notin> set l \<and> length l < 2147483647"

definition msz_live :: "WCHAR MULTISZ \<Rightarrow> bool" where
  "msz_live M \<longleftrightarrow> (\<exists>ss. mz_inv 2 M ss)"

lemma msz_liveI: "mz_inv 2 M ss \<Longrightarrow> msz_live M"
  by (auto simp: msz_live_def)

text \<open>Appending a string object appends its text.\<close>

lemma MULTISZ_AuxAppend_str:
  assumes "mz_inv 2 M ss" "heap_ok 2 heap" "stru_inv v" "0 \<notin> set (str_text v)"
  shows "returns (MULTISZ_AuxAppend 2 heap (QueryStr v) (u32 (QueryCCH v * 2)) True M) (\<lambda>(err, M'). msz_live M')"
proof -
  let ?t = "str_text v"
  have l: "m_cchLen v = length ?t" using length_str_text [OF assms(3)] by simp
  have b: "length ?t < 2147483648" using stru_invD(7) [OF assms(3)] l by simp
  obtain ys where q: "QueryStr v = ?t @ ys" unfolding str_text_def by (metis append_take_drop_id)
  have u: "u32 (QueryCCH v * 2) = 2 * length ?t" using l b by (simp add: QueryCCH_def)
  show ?thesis
    unfolding q u msz_live_def using assms(1) MULTISZ_AuxAppend_spec [OF assms(1,2) _ assms(4) b, of ys True]
    by (auto elim!: returns_mono split: if_splits)
qed

lemma output_line_total:
  assumes "refs_ok refs st" "heap_ok 2 heap" "stru_inv s" "mz_inv 2 M ss" "line_fits l"
  shows "returns (output_line heap l M s st) (\<lambda>(hr, M', s', st'). msz_live M' \<and> stru_inv s' \<and> table_ok st')"
proof (cases "61 \<in> set l")
  case False
  then have "wcschr (l @ [0]) 61 = None" using wcschr_spec [of l 61 "[]"] assms(5) by (simp add: line_fits_def)
  then show ?thesis using assms by (auto simp: output_line_def table_ok_def intro: msz_liveI)
next
  case True
  let ?k = "length (takeWhile (\<lambda>c. c \<noteq> 61) l)"
  have l: "0 \<notin> set l" "length l < 2147483648" using assms(5) by (simp_all add: line_fits_def)
  note L = line_split [OF True l(1)]
  have k: "?k + 1 \<le> length (l @ [0])" "?k + 1 < 4294967296" using L(3) l(2) by simp_all
  obtain hr1 v1 where c: "STRU_CopyN heap (l @ [0]) (?k + 1) s = Some (hr1, v1)" "stru_inv v1"
    "if SUCCEEDED hr1 then str_text v1 = take (?k + 1) (l @ [0]) else v1 = s"
    by (rule returns_pairE [OF STRU_CopyN_spec [OF assms(2,3) k]]) (elim conjE, rule that)
  show ?thesis
  proof (cases "FAILED hr1")
    case True
    then show ?thesis using L(1) c(1,2) assms(1,4) by (auto simp: output_line_def table_ok_def intro: msz_liveI)
  next
    case ok1: False
    then have t1: "0 \<notin> set (str_text v1)" using c(3) L(2,4) by simp
    show ?thesis
    proof (rule find_entry_spec [OF assms(1), of "c_text v1"])
      assume F: "FindKey (et_vt st) (c_text v1) (et_table st) = Some (None, et_table st)"
      obtain err M' where "MULTISZ_Append 2 heap (Some l) M = Some (err, M')" "if err = None then mz_inv 2 M' (if l = [] then ss else ss @ [l]) else M' = M"
        by (rule returns_pairE [OF MULTISZ_Append_spec [OF assms(4,2) _ l]]) (simp, elim conjE, rule that)
      then show ?thesis using L(1) c(1,2) ok1 F assms(1,4) by (auto simp: output_line_def table_ok_def intro: msz_liveI split: if_splits)
    next
      fix p
      assume F: "FindKey (et_vt st) (c_text v1) (et_table st) = Some (Some p, ReferenceRecord p (et_table st))"
        and ok: "refs_ok (refs(p := refs p + 1)) (st\<lparr>et_table := ReferenceRecord p (et_table st)\<rparr>)" and p: "p < et_next st"
      let ?v = "QueryValue (et_entries st p)" and ?st1 = "st\<lparr>et_table := ReferenceRecord p (et_table st)\<rparr>"
      obtain hr2 v2 where a: "STRU_Append heap ?v v1 = Some (hr2, v2)" "stru_inv v2"
        "if SUCCEEDED hr2 then str_text v2 = str_text v1 @ ?v else v2 = v1"
        by (rule returns_pairE [OF STRU_Append_spec [OF assms(2) c(2) Query_nul_free(2)]]) (elim conjE, rule that)
      show ?thesis
      proof (cases "FAILED hr2")
        case True
        then show ?thesis using L(1) c(1,2) ok1 F a(1,2) ok assms(4) by (auto simp: output_line_def table_ok_def Let_def intro: msz_liveI)
      next
        case ok2: False
        then have t2: "0 \<notin> set (str_text v2)" using a(3) t1 by simp
        obtain err M' where M: "MULTISZ_AuxAppend 2 heap (QueryStr v2) (u32 (QueryCCH v2 * 2)) True M = Some (err, M')" "msz_live M'"
          using MULTISZ_AuxAppend_str [OF assms(4,2) a(2) t2] by (auto elim: returnsE)
        note D = deref_found [OF ok, simplified, OF p]
        obtain T' where T': "DeleteKey (et_vt (deref_entry (Some p) ?st1)) (QueryName (et_entries st p)) (et_table (deref_entry (Some p) ?st1)) = Some T'"
          "refs_ok refs ((deref_entry (Some p) ?st1)\<lparr>et_table := T'\<rparr>)"
          using delete_entry_spec [OF D(1), of "QueryName (et_entries st p)"] by (auto simp: deref_entry_def elim: returnsE)
        obtain v3 where v3: "STRU_Reset v2 = Some v3" "stru_inv v3"
        proof -
          have "buffer_inv 2 (m_Buff v2)" "QueryStr v2 \<noteq> []" using a(2) stru_invD(3) [OF a(2)] by (auto simp: stru_inv_def)
          then show thesis using STRU_Reset_spec [of v2] that by (auto elim: returnsE)
        qed
        have "et_vt (deref_entry (Some p) ?st1) = et_vt ?st1" by (simp add: D)
        moreover have "(deref_entry (Some p) ?st1)\<lparr>et_table := T'\<rparr> = st\<lparr>et_table := T'\<rparr>" by (simp add: deref_entry_def)
        ultimately have run: "output_line heap l M s st = Some (hr2, M', v3, st\<lparr>et_table := T'\<rparr>)"
          using F c(1) ok1 L(1) a(1) ok2 M(1) T'(1) v3(1) by (simp add: output_line_def)
        have "table_ok (st\<lparr>et_table := T'\<rparr>)" using T'(2) by (auto simp: table_ok_def deref_entry_def)
        then show ?thesis unfolding run using M(2) v3(2) by auto
      qed
    qed
  qed
qed

lemma output_lines_total:
  assumes "heap_ok 2 heap" "\<forall>l \<in> set ls. line_fits l" "table_ok st" "stru_inv s" "msz_live M"
  shows "returns (output_lines heap ls M s st) (\<lambda>(hr, M', st'). msz_live M' \<and> table_ok st')"
  using assms(2-)
proof (induction ls arbitrary: M s st)
  case (Cons l ls)
  obtain refs ss where r: "refs_ok refs st" "mz_inv 2 M ss" using Cons.prems(2,4) by (auto simp: table_ok_def msz_live_def)
  have "line_fits l" using Cons.prems(1) by simp
  from output_line_total [OF r(1) assms(1) Cons.prems(3) r(2) this]
  obtain hr M1 s1 st1 where o: "output_line heap l M s st = Some (hr, M1, s1, st1)" "msz_live M1" "stru_inv s1" "table_ok st1"
    by (auto elim: returnsE)
  show ?case using o Cons.IH [OF _ o(4,3,2)] Cons.prems(1) by auto
qed simp

lemma CopyToMultiSz_total:
  assumes "heap_ok 2 heap" "mz_inv 2 M ss"
  shows "returns (CopyToMultiSz heap E p M) (\<lambda>M'. msz_live M')"
proof -
  obtain hr s where s: "STRU_Copy heap (QueryName (E p)) STRU_new = Some (hr, s)" "stru_inv s"
    by (rule returns_pairE [OF STRU_Copy_spec [OF assms(1) stru_inv_new(1) Query_nul_free(1)]]) (elim conjE, rule that)
  obtain hr' s' where s': "STRU_Append heap (QueryValue (E p)) s = Some (hr', s')" "stru_inv s'"
    by (rule returns_pairE [OF STRU_Append_spec [OF assms(1) s(2) Query_nul_free(2)]]) (elim conjE, rule that)
  have "length (c_text s') < 2147483648" using c_text_length [OF s'(2)] by (simp add: MAXDWORD_def)
  then show ?thesis
    using MULTISZ_Append_spec [OF assms(2,1) _ c_text_nul_free [of s']] msz_liveI [OF assms(2)] msz_liveI
    by (fastforce simp: CopyToMultiSz_def s(1) s'(1) elim!: returns_mono split: if_splits)
qed

lemma CopyToMultiSz_fold_total:
  assumes "heap_ok 2 heap" "msz_live M"
  shows "returns (fold (\<lambda>p r. r \<bind> CopyToMultiSz heap E p) ps (Some M)) (\<lambda>M'. msz_live M')"
  using assms(2)
proof (induction ps arbitrary: M)
  case (Cons p ps)
  obtain ss where "mz_inv 2 M ss" using Cons.prems by (auto simp: msz_live_def)
  from CopyToMultiSz_total [OF assms(1) this, of E p]
  obtain M1 where "CopyToMultiSz heap E p M = Some M1" "msz_live M1" by (auto elim: returnsE)
  then show ?case using Cons.IH by simp
qed simp

definition multisz_ok :: "WCHAR MULTISZ \<Rightarrow> bool" where
  "multisz_ok M \<longleftrightarrow> buffer_inv 2 (mz_Buff M) \<and> 2 \<le> length (mz_str M)"

lemma msz_live_ok: "msz_live M \<Longrightarrow> multisz_ok M" "mz_inv 2 M ss \<Longrightarrow> multisz_ok M"
  by (auto simp: multisz_ok_def mz_inv_def msz_live_def)

lemma OutputEnvironmentVariables_total:
  assumes "heap_ok 2 heap" "\<forall>ls. env = Some ls \<longrightarrow> (\<forall>l \<in> set ls. line_fits l)" "table_ok st" "multisz_ok M"
  shows "returns (OutputEnvironmentVariables heap env M st) (\<lambda>(hr, M', st'). multisz_ok M' \<and> table_ok st')"
proof -
  obtain M0 where M0: "MULTISZ_Reset M = Some M0" "mz_inv 2 M0 []"
    using MULTISZ_Reset_spec [of 2 M] assms(4) by (auto simp: multisz_ok_def elim: returnsE)
  show ?thesis
  proof (cases env)
    case None
    then show ?thesis using M0 assms(3) msz_live_ok by (auto simp: OutputEnvironmentVariables_def)
  next
    case (Some ls)
    then obtain hr M1 st1 where o: "output_lines heap ls M0 STRU_new st = Some (hr, M1, st1)" "msz_live M1" "table_ok st1"
      using output_lines_total [OF assms(1) _ assms(3) stru_inv_new(1), of ls M0] assms(2) msz_liveI [OF M0(2)] by (auto elim: returnsE)
    have inv: "ht_inv (et_vt st1) (et_table st1)" using o(3) refs_okD(2) by (auto simp: table_ok_def)
    obtain M2 where M2: "fold (\<lambda>p r. r \<bind> CopyToMultiSz heap (et_entries st1) p) (ht_records (et_table st1)) (Some M1) = Some M2" "msz_live M2"
      using CopyToMultiSz_fold_total [OF assms(1) o(2), of "et_entries st1" "ht_records (et_table st1)"] by (auto elim: returnsE)
    show ?thesis
      using Some M0(1) o M2 msz_live_ok by (auto simp: OutputEnvironmentVariables_def Apply_spec [OF inv])
  qed
qed

section \<open>The attempts\<close>

text \<open>Hypotheses on the services the stages use.\<close>

definition services_ok :: "proc_os \<Rightarrow> (wstr \<Rightarrow> astr option) \<Rightarrow> bool" where
  "services_ok os conv \<longleftrightarrow> env_os_ok (po_env os) \<and> heap_ok 1 (po_aheap os) \<and> wide_cp_ok (po_utf8 os) conv \<and> code_page_ok (po_acp os) \<and>
     (\<forall>t u. po_uuid os t = Inr u \<longrightarrow> 0 \<notin> set u) \<and> (\<forall>v t. conv v = Some t \<longrightarrow> length t + 1 \<le> MAXDWORD) \<and>
     (\<forall>q n r. po_fullpath os q n = Some r \<longrightarrow> 0 \<notin> set r \<and> length r < n) \<and>
     (\<forall>t ls l. po_env_strings os t = Some ls \<longrightarrow> l \<in> set ls \<longrightarrow> line_fits l)"

lemma services_okD:
  assumes "services_ok os conv"
  shows "env_os_ok (po_env os)" "heap_ok 2 (os_heap (po_env os))" "heap_ok 1 (po_aheap os)" "wide_cp_ok (po_utf8 os) conv" "code_page_ok (po_acp os)"
    "po_uuid os t = Inr u \<Longrightarrow> 0 \<notin> set u" "conv v = Some s \<Longrightarrow> length s + 1 \<le> MAXDWORD"
    "\<forall>q n r. po_fullpath os q n = Some r \<longrightarrow> 0 \<notin> set r \<and> length r < n"
    "\<forall>ls. po_env_strings os t = Some ls \<longrightarrow> (\<forall>l \<in> set ls. line_fits l)"
  using assms by (auto simp: services_ok_def env_os_ok_def)

text \<open>What a whole start leaves alone.\<close>

definition identity where
  "identity (p :: SERVER_PROCESS) = (m_lStopping p, m_fStdoutLogEnabled p, m_dwStartupTimeLimitInMS p, m_hShutdownHandle p, m_pEnvironmentVarTable p)"

lemma settings_identity: "settings p = settings q \<Longrightarrow> identity p = identity q"
  by (simp add: settings_def identity_def)

definition start_frame :: "nat \<Rightarrow> 'a proc_world_scheme \<Rightarrow> SERVER_PROCESS \<Rightarrow> 'a proc_world_scheme \<Rightarrow> SERVER_PROCESS \<Rightarrow> bool" where
  "start_frame this w p w' p' \<longleftrightarrow> identity p' = identity p \<and> set (pw_killed w) \<subseteq> set (pw_killed w') \<and>
     filter (\<lambda>(_, q). q \<noteq> this) (pw_waits w') = filter (\<lambda>(_, q). q \<noteq> this) (pw_waits w) \<and>
     pw_clock w \<le> pw_clock w' \<and> pw_next w \<le> pw_next w' \<and> proc_world.more w' = proc_world.more w \<and>
     (\<exists>n. env_grows n (pw_env w) (pw_env w')) \<and>
     pw_connections w' - of_bool (m_pForwarderConnection p') = pw_connections w - of_bool (m_pForwarderConnection p) \<and>
     waits_fresh w w'"

lemma start_frame_refl [simp]: "start_frame this w p w p"
  by (auto simp: start_frame_def)

lemma start_frame_trans:
  assumes "start_frame this w p w' p'" "start_frame this w' p' w'' p''"
  shows "start_frame this w p w'' p''"
proof -
  obtain m n where "env_grows m (pw_env w) (pw_env w')" "env_grows n (pw_env w') (pw_env w'')"
    using assms unfolding start_frame_def by blast
  then have "env_grows (m + n) (pw_env w) (pw_env w'')" using env_grows_trans by blast
  then have "\<exists>n. env_grows n (pw_env w) (pw_env w'')" by blast
  moreover have "waits_fresh w w''" using assms waits_fresh_trans [of w w' w''] unfolding start_frame_def by blast
  ultimately show ?thesis using assms unfolding start_frame_def by auto
qed

lemma proc_start_frame: "proc_frame this w p w' p' \<Longrightarrow> start_frame this w p w' p'"
  using settings_identity [of p' p] unfolding proc_frame_def start_frame_def by simp

text \<open>The configured table stays valid in the growing store; \<open>b\<close> is the number of entries that still fit.\<close>

definition config_ok :: "nat \<Rightarrow> env_table \<Rightarrow> nat HASH_TABLE \<Rightarrow> bool" where
  "config_ok b st T \<longleftrightarrow> ht_inv (et_vt st) T \<and> (\<forall>q \<in> set (ht_records T). q < et_next st) \<and> et_next st + b < MAXDWORD"

lemma config_ok_grows:
  assumes "config_ok (b + n) st T" "env_grows n st st'"
  shows "config_ok b st' T"
proof -
  have "ht_inv (et_vt st') T = ht_inv (et_vt st) T"
    by (rule env_ht_inv_cong) (use assms in \<open>auto simp: config_ok_def env_grows_def\<close>)
  then show ?thesis using assms by (auto simp: config_ok_def env_grows_def intro: order.strict_trans2)
qed

lemma config_ok_mono: "config_ok b st T \<Longrightarrow> c \<le> b \<Longrightarrow> config_ok c st T"
  by (auto simp: config_ok_def)

text \<open>
  The invariant of an attempt: \<open>b\<close> as above, \<open>c\<close> bounds the number of known children, \<open>w0\<close> and \<open>p0\<close> are
  the state at the beginning.
\<close>

definition attempt_inv where
  "attempt_inv this k rest b c w0 p0 (v :: 'a proc_world_scheme start_vars) \<longleftrightarrow>
     proc_ok this k (rest + filter_mset real_handle {#sv_thread v#}) (sv_world v) (sv_proc v) \<and>
     start_frame this w0 p0 (sv_world v) (sv_proc v) \<and> multisz_ok (sv_env v) \<and>
     (sv_table v \<longrightarrow> table_ok (pw_env (sv_world v))) \<and> config_ok b (pw_env (sv_world v)) (m_pEnvironmentVarTable (sv_proc v)) \<and>
     m_cChildProcess (sv_proc v) \<le> c \<and> \<not> m_fReady (sv_proc v) \<and> sv_thread v \<noteq> INVALID_HANDLE_VALUE"

text \<open>Nothing of a process is there yet.\<close>

definition idle :: "SERVER_PROCESS \<Rightarrow> bool" where
  "idle p \<longleftrightarrow> m_hProcessHandle p = NULL_HANDLE \<and> m_hListeningProcessHandle p = NULL_HANDLE \<and> wait_handles p = {}"

text \<open>The strings, the port and the token are the only things the first stages change in the object.\<close>

definition strings_frame :: "SERVER_PROCESS \<Rightarrow> SERVER_PROCESS \<Rightarrow> bool" where
  "strings_frame p p' \<longleftrightarrow> (\<exists>c d s g. p' = p\<lparr>m_struCommandLine := c, m_dwPort := d, m_struPort := s, m_straGuid := g\<rparr> \<and>
     stru_inv c \<and> stru_inv s \<and> stra_inv g)"

lemma strings_frame_proc_ok:
  assumes "strings_frame p p'" "proc_ok this k rest w p"
  shows "proc_ok this k rest (w\<lparr>pw_env := st, pw_clock := t\<rparr>) p'" "idle p' = idle p" "m_cChildProcess p' = m_cChildProcess p"
    "m_fReady p' = m_fReady p" "identity p' = identity p" "m_pForwarderConnection p' = m_pForwarderConnection p"
    "m_pEnvironmentVarTable p' = m_pEnvironmentVarTable p"
proof -
  obtain c d s g where p': "p' = p\<lparr>m_struCommandLine := c, m_dwPort := d, m_struPort := s, m_straGuid := g\<rparr>"
    "stru_inv c" "stru_inv s" "stra_inv g" using assms(1) by (auto simp: strings_frame_def)
  show "proc_ok this k rest (w\<lparr>pw_env := st, pw_clock := t\<rparr>) p'"
    using assms(2) p'(2-4) unfolding p'(1)
    by (auto simp: proc_ok_def ledger_def owned_def server_wf_def children_ok_def waits_ok_def waits_of_def wait_handles_def old_handle_def)
  show "idle p' = idle p" "m_cChildProcess p' = m_cChildProcess p"
    "m_fReady p' = m_fReady p" "identity p' = identity p" "m_pForwarderConnection p' = m_pForwarderConnection p"
    "m_pEnvironmentVarTable p' = m_pEnvironmentVarTable p"
    unfolding p'(1) by (simp_all add: idle_def wait_handles_def identity_def)
qed

lemma strings_frameI:
  assumes "server_wf p"
  shows "strings_frame p p" "stru_inv c \<Longrightarrow> strings_frame p (p\<lparr>m_struCommandLine := c\<rparr>)" "strings_frame p (p\<lparr>m_dwPort := d\<rparr>)"
    "stru_inv s \<Longrightarrow> strings_frame p (p\<lparr>m_dwPort := d, m_struPort := s\<rparr>)" "stra_inv g \<Longrightarrow> strings_frame p (p\<lparr>m_straGuid := g\<rparr>)"
proof -
  have inv: "stru_inv (m_struCommandLine p)" "stru_inv (m_struPort p)" "stra_inv (m_straGuid p)" using assms by (auto simp: server_wf_def)
  have "strings_frame p (p\<lparr>m_struCommandLine := c, m_dwPort := d, m_struPort := s, m_straGuid := g\<rparr>)"
    if "stru_inv c" "stru_inv s" "stra_inv g" for c d s g using that by (auto simp: strings_frame_def)
  from this [OF inv] this [OF _ inv(2,3), of c "m_dwPort p"] this [OF inv, of d] this [OF inv(1) _ inv(3), of s d] this [OF inv(1,2), of g "m_dwPort p"]
    this [OF inv, of "m_dwPort p"]
  show "strings_frame p p" "stru_inv c \<Longrightarrow> strings_frame p (p\<lparr>m_struCommandLine := c\<rparr>)" "strings_frame p (p\<lparr>m_dwPort := d\<rparr>)"
    "stru_inv s \<Longrightarrow> strings_frame p (p\<lparr>m_dwPort := d, m_struPort := s\<rparr>)" "stra_inv g \<Longrightarrow> strings_frame p (p\<lparr>m_straGuid := g\<rparr>)"
    by simp_all
qed

text \<open>A stage on strings and environment.\<close>

lemma environment_stage:
  assumes "attempt_inv this k rest (b + n) c w0 p0 v" "strings_frame (sv_proc v) (sv_proc v')" "env_grows n (pw_env (sv_world v)) st"
    "sv_world v' = (sv_world v)\<lparr>pw_env := st, pw_clock := t\<rparr>" "pw_clock (sv_world v) \<le> t" "sv_thread v' = sv_thread v"
    "multisz_ok (sv_env v')" "sv_table v' \<longrightarrow> table_ok st"
  shows "attempt_inv this k rest b c w0 p0 v'" "idle (sv_proc v') = idle (sv_proc v)"
proof -
  note A = assms(1) [unfolded attempt_inv_def]
  note F = strings_frame_proc_ok [OF assms(2) A [THEN conjunct1]]
  have "start_frame this (sv_world v) (sv_proc v) (sv_world v') (sv_proc v')"
    using F(5,6) assms(3,5) by (auto simp: start_frame_def assms(4))
  then have "start_frame this w0 p0 (sv_world v') (sv_proc v')" using A start_frame_trans by blast
  then show "attempt_inv this k rest b c w0 p0 v'"
    using A F(1,3,4,7) assms(6-8) config_ok_grows [OF _ assms(3)] by (simp add: attempt_inv_def assms(4))
  show "idle (sv_proc v') = idle (sv_proc v)" by (rule F(2))
qed

lemma attempt_inv_simps [simp]:
  "attempt_inv this k rest b c w0 p0 (v\<lparr>sv_hr := hr\<rparr>) = attempt_inv this k rest b c w0 p0 v"
  "attempt_inv this k rest b c w0 p0 (v\<lparr>sv_failed := f\<rparr>) = attempt_inv this k rest b c w0 p0 v"
  "attempt_inv this k rest b c w0 p0 (v\<lparr>sv_hr := hr, sv_failed := f\<rparr>) = attempt_inv this k rest b c w0 p0 v"
  by (simp_all add: attempt_inv_def)

lemma attempt_inv_mono:
  assumes "attempt_inv this k rest b c w0 p0 v" "b' \<le> b" "c \<le> c'"
  shows "attempt_inv this k rest b' c' w0 p0 v"
  using assms config_ok_mono by (auto simp: attempt_inv_def)

lemma attempt_inv_table:
  assumes "attempt_inv this k rest b c w0 p0 v"
  shows "m_pEnvironmentVarTable (sv_proc v) = m_pEnvironmentVarTable p0" "server_wf (sv_proc v)"
    "config_ok b (pw_env (sv_world v)) (m_pEnvironmentVarTable (sv_proc v))" "multisz_ok (sv_env v)"
    "sv_table v \<Longrightarrow> table_ok (pw_env (sv_world v))" "\<not> m_fReady (sv_proc v)"
  using assms by (auto simp: attempt_inv_def start_frame_def identity_def proc_ok_def)

lemma config_ok_Count: "config_ok b st T \<Longrightarrow> table_ok st \<Longrightarrow> Count (et_table st) + b < MAXDWORD"
  using Count_le_table by (fastforce simp: config_ok_def)

text \<open>
  Stages one after the other: \<open>I\<close> holds while no stage has failed, \<open>E\<close> when one has; the stages end when \<open>ends\<close> holds.
\<close>

definition stage_post :: "bool \<Rightarrow> ('w start_vars \<Rightarrow> bool) \<Rightarrow> ('w start_vars \<Rightarrow> bool) \<Rightarrow> 'w start_vars option \<Rightarrow> bool" where
  "stage_post ends E I r \<longleftrightarrow> returns_if ends r (\<lambda>v. if sv_failed v then E v else I v)"

definition stage_ok ::
    "bool \<Rightarrow> ('w start_vars \<Rightarrow> bool) \<Rightarrow> ('w start_vars \<Rightarrow> bool) \<Rightarrow> ('w start_vars \<Rightarrow> (HRESULT \<times> bool \<times> 'w start_vars) option) \<Rightarrow>
      ('w start_vars \<Rightarrow> bool) \<Rightarrow> bool" where
  "stage_ok ends E I f I' \<longleftrightarrow> (\<forall>v. I v \<longrightarrow> returns_if ends (f v) (\<lambda>(hr, failed, v'). if failed then E (v'\<lparr>sv_hr := hr, sv_failed := failed\<rparr>)
     else I' (v'\<lparr>sv_hr := hr, sv_failed := failed\<rparr>)))"

lemma stage_rule:
  assumes "stage_post ends E I r" "stage_ok ends E I f I'"
  shows "stage_post ends E I' (r \<bind> stage f)"
proof -
  have one: "returns_if ends (stage f v) (\<lambda>v. if sv_failed v then E v else I' v)" if "if sv_failed v then E v else I v" for v
  proof (cases "sv_failed v")
    case True
    then show ?thesis using that by (simp add: stage_def)
  next
    case False
    then have "returns_if ends (f v) (\<lambda>(hr, failed, v'). if failed then E (v'\<lparr>sv_hr := hr, sv_failed := failed\<rparr>)
        else I' (v'\<lparr>sv_hr := hr, sv_failed := failed\<rparr>))" using that assms(2) by (auto simp: stage_ok_def)
    then show ?thesis using False by (auto simp: stage_def elim!: returns_if_mono)
  qed
  show ?thesis
    using assms(1) unfolding stage_post_def returns_if_bind by (rule returns_if_mono) (rule one)
qed

definition idle_inv where
  "idle_inv this k rest b c w0 p0 tbl (v :: 'a proc_world_scheme start_vars) \<longleftrightarrow> attempt_inv this k rest b c w0 p0 v \<and> idle (sv_proc v) \<and> sv_thread v = NULL_HANDLE \<and>
     sv_table v = tbl"

text \<open>What a stage on strings and environment does: at most \<open>n\<close> new entries, \<open>tbl'\<close> says whether the table is there afterwards.\<close>

definition env_step :: "nat \<Rightarrow> bool \<Rightarrow> 'a proc_world_scheme start_vars \<Rightarrow> HRESULT \<times> bool \<times> 'a proc_world_scheme start_vars \<Rightarrow> bool" where
  "env_step n tbl' v r \<longleftrightarrow> (case r of (hr, failed, v') \<Rightarrow> \<exists>st t. strings_frame (sv_proc v) (sv_proc v') \<and>
     env_grows n (pw_env (sv_world v)) st \<and> sv_world v' = (sv_world v)\<lparr>pw_env := st, pw_clock := t\<rparr> \<and> pw_clock (sv_world v) \<le> t \<and>
     sv_thread v' = sv_thread v \<and> multisz_ok (sv_env v') \<and> (sv_table v' \<longrightarrow> table_ok st) \<and> (\<not> failed \<longrightarrow> sv_table v' = tbl'))"

lemma env_stepI:
  assumes "strings_frame (sv_proc v) (sv_proc v')" "env_grows n (pw_env (sv_world v)) st"
    "sv_world v' = (sv_world v)\<lparr>pw_env := st, pw_clock := t\<rparr>" "pw_clock (sv_world v) \<le> t" "sv_thread v' = sv_thread v"
    "multisz_ok (sv_env v')" "sv_table v' \<Longrightarrow> table_ok st" "\<not> failed \<Longrightarrow> sv_table v' = tbl'"
  shows "env_step n tbl' v (hr, failed, v')"
  using assms by (auto simp: env_step_def)

lemma environment_stage_ok:
  assumes "\<And>v. idle_inv this k rest (b + n) c w0 p0 tbl v \<Longrightarrow> returns (f v) (env_step n tbl' v)" "b0 \<le> b"
  shows "stage_ok ends (attempt_inv this k rest b0 (more_children ends c) w0 p0) (idle_inv this k rest (b + n) c w0 p0 tbl) f (idle_inv this k rest b c w0 p0 tbl')"
  unfolding stage_ok_def
proof (intro allI impI)
  fix v :: "'a proc_world_scheme start_vars"
  assume I: "idle_inv this k rest (b + n) c w0 p0 tbl v"
  note A = I [unfolded idle_inv_def]
  show "returns_if ends (f v) (\<lambda>(hr, failed, v'). if failed then attempt_inv this k rest b0 (more_children ends c) w0 p0 (v'\<lparr>sv_hr := hr, sv_failed := failed\<rparr>)
      else idle_inv this k rest b c w0 p0 tbl' (v'\<lparr>sv_hr := hr, sv_failed := failed\<rparr>))"
    using assms(1) [OF I]
  proof (rule returns_returns_if [OF returns_mono])
    fix r
    assume s: "env_step n tbl' v r"
    obtain hr failed v' where r: "r = (hr, failed, v')" by (cases r)
    obtain st t where s: "strings_frame (sv_proc v) (sv_proc v')" "env_grows n (pw_env (sv_world v)) st"
      "sv_world v' = (sv_world v)\<lparr>pw_env := st, pw_clock := t\<rparr>" "pw_clock (sv_world v) \<le> t" "sv_thread v' = sv_thread v"
      "multisz_ok (sv_env v')" "sv_table v' \<longrightarrow> table_ok st" "\<not> failed \<longrightarrow> sv_table v' = tbl'"
      using s unfolding r env_step_def by auto
    from environment_stage [OF A [THEN conjunct1] s(1-7)] A s(5,8) attempt_inv_mono [OF _ assms(2), of this k rest c w0 p0 v' "more_children ends c"] more_children_ge [of c ends]
    show "case r of (hr, failed, v') \<Rightarrow> if failed then attempt_inv this k rest b0 (more_children ends c) w0 p0 (v'\<lparr>sv_hr := hr, sv_failed := failed\<rparr>)
      else idle_inv this k rest b c w0 p0 tbl' (v'\<lparr>sv_hr := hr, sv_failed := failed\<rparr>)" unfolding r by (simp add: idle_inv_def)
  qed
qed

lemma stage_command_line_ok:
  assumes "services_ok os conv" "idle_inv this k rest b c w0 p0 tbl v"
  shows "returns (stage_command_line os v) (env_step 0 tbl v)"
proof -
  have A: "attempt_inv this k rest b c w0 p0 v" using assms(2) by (simp add: idle_inv_def)
  let ?p = "sv_proc v"
  note S = services_okD [OF assms(1)] and T = attempt_inv_table [OF A]
  have inv: "stru_inv (m_struCommandLine ?p)" using T(2) by (auto simp: server_wf_def)
  obtain hr cl where c: "SetupCommandLine (os_heap (po_env os)) (po_new os) (po_fullpath os) (po_can_open os)
      (m_ProcessPath ?p) (m_struPhysicalPath ?p) (m_Arguments ?p) (m_struCommandLine ?p) = Some (hr, cl)" "stru_inv cl"
  proof (cases "IsEmpty (m_struCommandLine ?p)")
    case True
    show ?thesis
      by (rule returns_pairE [OF SetupCommandLine_spec [OF S(2) inv True S(8)]]) (elim conjE, rule that)
  qed (use inv SetupCommandLine_reuses that in blast)
  show ?thesis
    using c strings_frameI(2) [OF T(2) c(2)] T(4,5) assms(2)
    by (auto simp: stage_command_line_def idle_inv_def intro!: env_stepI [where st = "pw_env (sv_world v)" and t = "pw_clock (sv_world v)"])
qed

lemma stage_table_ok:
  assumes "services_ok os conv" "idle_inv this k rest (b + (Count (m_pEnvironmentVarTable p0) + 2)) c w0 p0 False v"
  shows "returns (stage_table os v) (env_step (Count (m_pEnvironmentVarTable p0) + 2) True v)"
proof -
  let ?C = "Count (m_pEnvironmentVarTable p0)"
  have A: "attempt_inv this k rest (b + (?C + 2)) c w0 p0 v" using assms(2) by (simp add: idle_inv_def)
  let ?p = "sv_proc v" and ?st = "pw_env (sv_world v)"
  note S = services_okD [OF assms(1)] and T = attempt_inv_table [OF A]
  let ?T = "m_pEnvironmentVarTable ?p"
  have cfg: "ht_inv (et_vt ?st) ?T" "\<forall>q \<in> set (ht_records ?T). q < et_next ?st" "Count ?T + 1 < MAXDWORD"
    using T(1,3) by (auto simp: config_ok_def)
  obtain hr pub st where i: "InitEnvironmentVariablesTable (po_env os) (m_fWindowsAuthEnabled ?p) (m_fBasicAuthEnabled ?p)
      (m_fAnonymousAuthEnabled ?p) ?T ?st = Some (hr, pub, st)" "pub = SUCCEEDED hr" "pub \<longrightarrow> env_ok {} st"
    by (rule returns_tripleE [OF InitEnvironmentVariablesTable_spec [OF S(1) cfg, of "m_fWindowsAuthEnabled ?p" "m_fBasicAuthEnabled ?p"
          "m_fAnonymousAuthEnabled ?p"]]) (elim conjE, rule that, auto split: if_splits)
  have g: "env_grows (?C + 2) ?st st" using InitEnvironmentVariablesTable_grows [OF i(1) cfg(1)] T(1) by simp
  have t: "pub \<longrightarrow> table_ok st" using i(3) env_ok_refs_ok table_okI by blast
  show ?thesis
    using i(1,2) g t strings_frameI(1) [OF T(2)] T(4)
    by (auto simp: stage_table_def intro!: env_stepI [where st = st and t = "pw_clock (sv_world v)"])
qed

text \<open>What the stages between the table and the environment block start from.\<close>

lemma idle_invE:
  assumes "idle_inv this k rest b c w0 p0 True v"
  obtains refs where "refs_ok refs (pw_env (sv_world v))" "Count (et_table (pw_env (sv_world v))) < MAXDWORD"
    "et_next (pw_env (sv_world v)) < MAXDWORD" "server_wf (sv_proc v)" "multisz_ok (sv_env v)" "sv_table v"
proof -
  have A: "attempt_inv this k rest b c w0 p0 v" "sv_table v" using assms by (auto simp: idle_inv_def)
  note T = attempt_inv_table [OF A(1)]
  have t: "table_ok (pw_env (sv_world v))" using T(5) A(2) by blast
  have n: "et_next (pw_env (sv_world v)) < MAXDWORD" using T(3) by (auto simp: config_ok_def)
  from t obtain refs where "refs_ok refs (pw_env (sv_world v))" by (auto simp: table_ok_def)
  then show thesis using that T(2,4) A(2) n Count_le_table [OF t] by simp
qed

lemma stage_websockets_ok:
  assumes "services_ok os conv" "idle_inv this k rest b c w0 p0 True v"
  shows "returns (stage_websockets os v) (env_step 1 True v)"
proof -
  obtain refs where I: "refs_ok refs (pw_env (sv_world v))" "Count (et_table (pw_env (sv_world v))) < MAXDWORD"
    "et_next (pw_env (sv_world v)) < MAXDWORD" "server_wf (sv_proc v)" "multisz_ok (sv_env v)" "sv_table v"
    by (rule idle_invE [OF assms(2)])
  obtain hr st where a: "AddWebsocketEnabledToEnvironmentVariables (po_env os) (m_fWebsocketsEnabled (sv_proc v)) (pw_env (sv_world v)) = Some (hr, st)"
    "table_ok st"
    by (rule returns_pairE [OF AddWebsocket_total [OF I(1) services_okD(1) [OF assms(1)] I(3)]]) (rule that)
  show ?thesis
    using a AddWebsocket_grows [OF a(1)] strings_frameI(1) [OF I(4)] I(5,6)
    by (auto simp: stage_websockets_def intro!: env_stepI [where st = st and t = "pw_clock (sv_world v)"])
qed

lemma stage_port_ok:
  assumes "services_ok os conv" "tcp_table_ok (po_net os)" "idle_inv this k rest b c w0 p0 True v"
  shows "returns (stage_port os v) (env_step 1 True v)"
proof -
  obtain refs where I: "refs_ok refs (pw_env (sv_world v))" "Count (et_table (pw_env (sv_world v))) < MAXDWORD"
    "et_next (pw_env (sv_world v)) < MAXDWORD" "server_wf (sv_proc v)" "multisz_ok (sv_env v)" "sv_table v"
    by (rule idle_invE [OF assms(3)])
  have S: "stru_inv (m_struPort (sv_proc v))" using I(4) by (simp add: server_wf_def)
  from SetupListenPort_spec [OF I(1) services_okD(2) [OF assms(1)] S I(2) assms(2), of "pw_clock (sv_world v)"]
  obtain hr cr port s st t where a: "SetupListenPort (po_env os) (po_net os) (m_struPort (sv_proc v)) (pw_env (sv_world v)) (pw_clock (sv_world v))
      = Some (hr, cr, port, s, st, t)" "refs_ok refs st" "stru_inv s" "pw_clock (sv_world v) \<le> t"
    by (auto elim!: returnsE)
  show ?thesis
    using a SetupListenPort_grows [OF a(1)] strings_frameI(4) [OF I(4) a(3)] I(5,6) table_okI [OF a(2)]
    by (auto simp: stage_port_def Let_def intro!: env_stepI [where st = st and t = t])
qed

lemma stage_path_ok:
  assumes "services_ok os conv" "idle_inv this k rest b c w0 p0 True v"
  shows "returns (stage_path os v) (env_step 1 True v)"
proof -
  obtain refs where I: "refs_ok refs (pw_env (sv_world v))" "Count (et_table (pw_env (sv_world v))) < MAXDWORD"
    "et_next (pw_env (sv_world v)) < MAXDWORD" "server_wf (sv_proc v)" "multisz_ok (sv_env v)" "sv_table v"
    by (rule idle_invE [OF assms(2)])
  have S: "stru_inv (m_struAppVirtualPath (sv_proc v))" using I(4) by (simp add: server_wf_def)
  from SetupAppPath_spec [OF I(1) services_okD(2) [OF assms(1)] I(2) S]
  obtain hr st where a: "SetupAppPath (po_env os) (m_struAppVirtualPath (sv_proc v)) (pw_env (sv_world v)) = Some (hr, st)" "refs_ok refs st"
    by (auto elim!: returnsE)
  show ?thesis
    using a SetupAppPath_grows [OF a(1)] strings_frameI(1) [OF I(4)] I(5,6) table_okI [OF a(2)]
    by (auto simp: stage_path_def intro!: env_stepI [where st = st and t = "pw_clock (sv_world v)"])
qed

lemma stage_token_ok:
  assumes "services_ok os conv" "idle_inv this k rest b c w0 p0 True v"
  shows "returns (stage_token os v) (env_step 1 True v)"
proof -
  obtain refs where I: "refs_ok refs (pw_env (sv_world v))" "Count (et_table (pw_env (sv_world v))) < MAXDWORD"
    "et_next (pw_env (sv_world v)) < MAXDWORD" "server_wf (sv_proc v)" "multisz_ok (sv_env v)" "sv_table v"
    by (rule idle_invE [OF assms(2)])
  note S = services_okD [OF assms(1)]
  let ?t = "pw_clock (sv_world v)"
  have G: "stra_inv (m_straGuid (sv_proc v))" using I(4) by (simp add: server_wf_def)
  have u: "\<forall>u. po_uuid os (Suc ?t) = Inr u \<longrightarrow> 0 \<notin> set u" using S(6) by blast
  have c: "\<forall>v t. env_map (et_entries (pw_env (sv_world v0))) (et_table (pw_env (sv_world v0))) ASPNETCORE_APP_TOKEN_ENV_STR = Some v \<and>
      conv v = Some t \<longrightarrow> length t + 1 \<le> MAXDWORD" for v0 :: "'a proc_world_scheme start_vars" using S(7) by blast
  from SetupAppToken_spec [OF I(1) S(2-5) G I(2) u c]
  obtain hr g st where a: "SetupAppToken (po_env os) (po_aheap os) (po_utf8 os) (po_acp os) (po_uuid os (Suc ?t)) (m_straGuid (sv_proc v))
      (pw_env (sv_world v)) = Some (hr, g, st)" "refs_ok refs st" "stra_inv g"
    by (auto elim!: returnsE)
  show ?thesis
    using a SetupAppToken_grows [OF a(1)] strings_frameI(5) [OF I(4) a(3)] I(5,6) table_okI [OF a(2)]
    by (auto simp: stage_token_def Let_def later_def intro!: env_stepI [where st = st and t = "Suc ?t"])
qed

lemma stage_environment_ok:
  assumes "services_ok os conv" "idle_inv this k rest b c w0 p0 True v"
  shows "returns (stage_environment os v) (env_step 0 True v)"
proof -
  obtain refs where I: "refs_ok refs (pw_env (sv_world v))" "Count (et_table (pw_env (sv_world v))) < MAXDWORD"
    "et_next (pw_env (sv_world v)) < MAXDWORD" "server_wf (sv_proc v)" "multisz_ok (sv_env v)" "sv_table v"
    by (rule idle_invE [OF assms(2)])
  note S = services_okD [OF assms(1)]
  let ?t = "pw_clock (sv_world v)"
  from OutputEnvironmentVariables_total [OF S(2) S(9) [of "Suc ?t"] table_okI [OF I(1)] I(5)]
  obtain hr M st where a: "OutputEnvironmentVariables (os_heap (po_env os)) (po_env_strings os (Suc ?t)) (sv_env v) (pw_env (sv_world v)) = Some (hr, M, st)"
    "multisz_ok M" "table_ok st"
    by (auto elim!: returnsE)
  show ?thesis
    using a OutputEnvironmentVariables_grows [OF a(1)] strings_frameI(1) [OF I(4)] I(6)
    by (auto simp: stage_environment_def Let_def later_def intro!: env_stepI [where st = st and t = "Suc ?t"])
qed

text \<open>A stage on the process.\<close>

lemma process_stage:
  assumes "attempt_inv this k rest b c w0 p0 v" "proc_frame this (sv_world v) (sv_proc v) (sv_world v') (sv_proc v')"
    "proc_ok this k (rest + filter_mset real_handle {#sv_thread v'#}) (sv_world v') (sv_proc v')"
    "sv_env v' = sv_env v" "sv_table v' = sv_table v" "m_cChildProcess (sv_proc v') \<le> c'" "\<not> m_fReady (sv_proc v')"
    "sv_thread v' \<noteq> INVALID_HANDLE_VALUE"
  shows "attempt_inv this k rest b c' w0 p0 v'"
proof -
  note A = assms(1) [unfolded attempt_inv_def]
  have e: "pw_env (sv_world v') = pw_env (sv_world v)" "m_pEnvironmentVarTable (sv_proc v') = m_pEnvironmentVarTable (sv_proc v)"
    using assms(2) by (auto simp: proc_frame_def settings_def)
  have "start_frame this w0 p0 (sv_world v') (sv_proc v')"
    using A start_frame_trans [OF _ proc_start_frame [OF assms(2)]] by blast
  then show ?thesis unfolding attempt_inv_def using A assms(3-) e by simp
qed

text \<open>The process is there, its listening handle is not.\<close>

definition running_inv where
  "running_inv this k rest b c w0 p0 v \<longleftrightarrow> attempt_inv this k rest b c w0 p0 v \<and> m_hListeningProcessHandle (sv_proc v) = NULL_HANDLE \<and>
     wait_handles (sv_proc v) = {}"

lemma running_inv_simps [simp]:
  "running_inv this k rest b c w0 p0 (v\<lparr>sv_hr := hr\<rparr>) = running_inv this k rest b c w0 p0 v"
  "running_inv this k rest b c w0 p0 (v\<lparr>sv_failed := f\<rparr>) = running_inv this k rest b c w0 p0 v"
  by (simp_all add: running_inv_def)

lemma running_inv_attempt: "running_inv this k rest b c w0 p0 v \<Longrightarrow> attempt_inv this k rest b (more_children ends c) w0 p0 v"
  using attempt_inv_mono [of this k rest b c w0 p0 v b "more_children ends c"] by (simp add: running_inv_def)

lemma stage_create_ok:
  "stage_ok ends (attempt_inv this k rest b (more_children ends c) w0 p0) (idle_inv this k rest b c w0 p0 True) (stage_create os)
     (running_inv this k rest b c w0 p0)"
  unfolding stage_ok_def
proof (intro allI impI)
  fix v :: "'a proc_world_scheme start_vars"
  assume I: "idle_inv this k rest b c w0 p0 True v"
  note A = I [unfolded idle_inv_def, THEN conjunct1]
  let ?w = "later (sv_world v)" and ?p = "sv_proc v"
  have idle: "m_hProcessHandle ?p = NULL_HANDLE" "m_hListeningProcessHandle ?p = NULL_HANDLE" "sv_thread v = NULL_HANDLE" "wait_handles ?p = {}"
    using I by (auto simp: idle_inv_def idle_def)
  have ok: "proc_ok this k rest (sv_world v) ?p" "m_cChildProcess ?p \<le> c" "\<not> m_fReady ?p"
    using A idle(3) by (simp_all add: attempt_inv_def)
  show "returns_if ends (stage_create os v) (\<lambda>(hr, failed, v'). if failed then attempt_inv this k rest b (more_children ends c) w0 p0 (v'\<lparr>sv_hr := hr, sv_failed := failed\<rparr>)
      else running_inv this k rest b c w0 p0 (v'\<lparr>sv_hr := hr, sv_failed := failed\<rparr>))"
  proof (cases "po_create_process os (pw_clock ?w)")
    case (Inl err)
    have "attempt_inv this k rest b (more_children ends c) w0 p0 (v\<lparr>sv_world := ?w\<rparr>)"
      by (rule process_stage [OF A opens_proc_frame]) (use ok idle(3) le_trans [OF ok(2) more_children_ge] in simp_all)
    then show ?thesis using Inl by (simp add: stage_create_def Let_def)
  next
    case (Inr pid)
    obtain h1 w1 where h1: "new_handle ?w = (h1, w1)" by force
    obtain h2 w2 where h2: "new_handle w1 = (h2, w2)" by force
    note N1 = new_handle_spec [OF h1] and N2 = new_handle_spec [OF h2]
    let ?p' = "?p\<lparr>m_hProcessHandle := h1, m_dwProcessId := pid\<rparr>"
    let ?v = "v\<lparr>sv_world := w2, sv_thread := h2, sv_proc := ?p'\<rparr>"
    have o: "opens (sv_world v) w2" using N1(1) N2(1) opens_trans later_opens(1) by blast
    have f: "proc_frame this (sv_world v) ?p (sv_world ?v) (sv_proc ?v)" by (rule opens_proc_frame) (use o in simp_all)
    have "ledger (rest + filter_mset real_handle {#h2#}) w2 ?p'"
      using ok(1) N1(2,3) N2(2,3) idle(1) by (simp add: proc_ok_def ledger_def owned_def)
    moreover have "waits_ok this k w2 ?p'"
      by (rule waits_ok_opens [OF _ o]) (use ok(1) in \<open>simp_all add: proc_ok_def\<close>)
    ultimately have "proc_ok this k (rest + filter_mset real_handle {#sv_thread ?v#}) (sv_world ?v) (sv_proc ?v)"
      using ok(1) by (simp add: proc_ok_def server_wf_def)
    moreover have "h2 \<noteq> INVALID_HANDLE_VALUE" using N2(3) by auto
    ultimately have "running_inv this k rest b c w0 p0 ?v"
      using process_stage [OF A f] ok idle(2,4) by (simp add: running_inv_def wait_handles_def)
    then show ?thesis using Inr h1 h2 by (simp add: stage_create_def Let_def)
  qed
qed

lemma SetupJobObject_spec:
  assumes "proc_ok this k rest w p" "SetupJobObject os w p = (hr, w', p')"
  shows "proc_ok this k rest w' p'" "proc_frame this w p w' p'" "m_hListeningProcessHandle p' = m_hListeningProcessHandle p"
    "m_cChildProcess p' = m_cChildProcess p" "m_fReady p' = m_fReady p" "wait_handles p' = wait_handles p"
proof -
  have "proc_ok this k rest w' p' \<and> proc_frame this w p w' p' \<and> m_hListeningProcessHandle p' = m_hListeningProcessHandle p \<and>
    m_cChildProcess p' = m_cChildProcess p \<and> m_fReady p' = m_fReady p \<and> wait_handles p' = wait_handles p"
  proof (cases "m_hJobObject p = NULL_HANDLE \<and> po_create_job os (pw_clock w)")
    case True
    obtain h w1 where h: "new_handle w = (h, w1)" by force
    note N = new_handle_spec [OF h]
    have o: "opens w (later w1)" using N(1) opens_trans later_opens(1) by blast
    have "ledger rest (later w1) (p\<lparr>m_hJobObject := h\<rparr>)"
      using assms(1) N(2,3) True by (simp add: proc_ok_def ledger_def owned_def)
    moreover have "waits_ok this k (later w1) (p\<lparr>m_hJobObject := h\<rparr>)"
      by (rule waits_ok_opens [OF _ o]) (use assms(1) in \<open>simp_all add: proc_ok_def\<close>)
    ultimately have "proc_ok this k rest (later w1) (p\<lparr>m_hJobObject := h\<rparr>)" using assms(1) by (simp add: proc_ok_def)
    moreover have "proc_frame this w p (later w1) (p\<lparr>m_hJobObject := h\<rparr>)" by (rule opens_proc_frame) (use o in simp_all)
    ultimately show ?thesis using assms(2) True h by (auto simp: SetupJobObject_def)
  next
    case False
    have "proc_frame this w p (later w) p" by (rule opens_proc_frame) simp_all
    then show ?thesis using assms False by (auto simp: SetupJobObject_def split: if_splits)
  qed
  then show "proc_ok this k rest w' p'" "proc_frame this w p w' p'" "m_hListeningProcessHandle p' = m_hListeningProcessHandle p"
    "m_cChildProcess p' = m_cChildProcess p" "m_fReady p' = m_fReady p" "wait_handles p' = wait_handles p" by blast+
qed

lemma stage_job_ok:
  "stage_ok ends (attempt_inv this k rest b (more_children ends c) w0 p0) (running_inv this k rest b c w0 p0) (stage_job os)
     (running_inv this k rest b c w0 p0)"
  unfolding stage_ok_def
proof (intro allI impI)
  fix v :: "'a proc_world_scheme start_vars"
  assume I: "running_inv this k rest b c w0 p0 v"
  note A = I [unfolded running_inv_def, THEN conjunct1]
  have ok: "proc_ok this k (rest + filter_mset real_handle {#sv_thread v#}) (sv_world v) (sv_proc v)" "m_cChildProcess (sv_proc v) \<le> c"
    "\<not> m_fReady (sv_proc v)" "m_hListeningProcessHandle (sv_proc v) = NULL_HANDLE" "sv_thread v \<noteq> INVALID_HANDLE_VALUE"
    "wait_handles (sv_proc v) = {}"
    using I by (simp_all add: attempt_inv_def running_inv_def)
  obtain hr w p where j: "SetupJobObject os (sv_world v) (sv_proc v) = (hr, w, p)" by (cases "SetupJobObject os (sv_world v) (sv_proc v)")
  note J = SetupJobObject_spec [OF ok(1) j]
  have "proc_frame this w p (later w) p" by (rule opens_proc_frame) simp_all
  then have f: "proc_frame this (sv_world v) (sv_proc v) (later w) p" using J(2) proc_frame_trans by blast
  have R0: "attempt_inv this k rest b c w0 p0 v'" if "sv_world v' = w \<or> sv_world v' = later w" "sv_proc v' = p"
    "sv_thread v' = sv_thread v" "sv_env v' = sv_env v" "sv_table v' = sv_table v" for v' :: "'a proc_world_scheme start_vars"
    using that(1) by (rule disjE; intro process_stage [OF A]; use that(2-) J f ok in simp)
  have R: "running_inv this k rest b c w0 p0 v'" if "sv_world v' = w \<or> sv_world v' = later w" "sv_proc v' = p"
    "sv_thread v' = sv_thread v" "sv_env v' = sv_env v" "sv_table v' = sv_table v" for v' :: "'a proc_world_scheme start_vars"
    using that J(3,6) ok(4,6) R0 [OF that] by (simp add: running_inv_def)
  show "returns_if ends (stage_job os v) (\<lambda>(hr, failed, v'). if failed then attempt_inv this k rest b (more_children ends c) w0 p0 (v'\<lparr>sv_hr := hr, sv_failed := failed\<rparr>)
      else running_inv this k rest b c w0 p0 (v'\<lparr>sv_hr := hr, sv_failed := failed\<rparr>))"
    using j by (auto simp: stage_job_def Let_def split: option.split intro!: R intro: running_inv_attempt)
qed

lemma stage_resume_ok:
  "stage_ok ends (attempt_inv this k rest b (more_children ends c) w0 p0) (running_inv this k rest b c w0 p0) (stage_resume os)
     (running_inv this k rest b c w0 p0)"
  unfolding stage_ok_def
proof (intro allI impI)
  fix v :: "'a proc_world_scheme start_vars"
  assume I: "running_inv this k rest b c w0 p0 v"
  note A = I [unfolded running_inv_def]
  have "attempt_inv this k rest b c w0 p0 (v\<lparr>sv_world := later (sv_world v)\<rparr>)"
    by (rule process_stage [OF A [THEN conjunct1] opens_proc_frame]) (use A in \<open>simp_all add: attempt_inv_def\<close>)
  then have R: "running_inv this k rest b c w0 p0 (v\<lparr>sv_world := later (sv_world v)\<rparr>)" using A by (simp add: running_inv_def)
  show "returns_if ends (stage_resume os v) (\<lambda>(hr, failed, v'). if failed then attempt_inv this k rest b (more_children ends c) w0 p0 (v'\<lparr>sv_hr := hr, sv_failed := failed\<rparr>)
      else running_inv this k rest b c w0 p0 (v'\<lparr>sv_hr := hr, sv_failed := failed\<rparr>))"
    using R running_inv_attempt [OF R] by (auto simp: stage_resume_def Let_def split: option.split)
qed


text \<open>The end of an attempt that has not failed.\<close>

definition started_inv where
  "started_inv this k rest b c w0 p0 (v :: 'a proc_world_scheme start_vars) \<longleftrightarrow>
     attempt_inv this k rest b c w0 p0 (v\<lparr>sv_proc := (sv_proc v)\<lparr>m_fReady := False\<rparr>\<rparr>) \<and> SUCCEEDED (sv_hr v) \<and>
     (m_fReady (sv_proc v) \<longrightarrow> m_pForwarderConnection (sv_proc v))"

lemma stage_check_ok:
  assumes "tcp_table_ok (po_net os)" "ends \<Longrightarrow> start_limits os ms" "c \<le> MAX_ACTIVE_CHILD_PROCESSES" "ends \<Longrightarrow> c \<le> 8"
    "ends \<Longrightarrow> unat (m_dwStartupTimeLimitInMS p0) \<le> start_limit"
  shows "stage_ok ends (attempt_inv this k rest b (more_children ends c) w0 p0) (running_inv this k rest b c w0 p0) (stage_check os this)
     (started_inv this k rest b (more_children ends c) w0 p0)"
  unfolding stage_ok_def
proof (intro allI impI)
  fix v :: "'a proc_world_scheme start_vars"
  assume I: "running_inv this k rest b c w0 p0 v"
  note A = I [unfolded running_inv_def, THEN conjunct1]
  let ?R = "rest + filter_mset real_handle {#sv_thread v#}" and ?E = "attempt_inv this k rest b (more_children ends c) w0 p0"
  have ok: "proc_ok this k ?R (sv_world v) (sv_proc v)" "m_cChildProcess (sv_proc v) \<le> c"
    "\<not> m_fReady (sv_proc v)" "m_hListeningProcessHandle (sv_proc v) = NULL_HANDLE" "sv_thread v \<noteq> INVALID_HANDLE_VALUE"
    "wait_handles (sv_proc v) = {}"
    using I by (simp_all add: attempt_inv_def running_inv_def)
  have lim: "m_dwStartupTimeLimitInMS (sv_proc v) = m_dwStartupTimeLimitInMS p0"
    using A by (simp add: attempt_inv_def start_frame_def identity_def)
  have check: "returns_if ends (PostStartCheck os this (sv_world v) (sv_proc v))
      (check_post (more_children ends c) this k ?R (sv_world v) (sv_proc v))"
    by (rule PostStartCheck_spec [OF ok(1,4,3) assms(1,2) ok(2) assms(3,4) _ ok(6)]) (use assms(5) lim in auto)
  have G: "?E v'" if "check_post (more_children ends c) this k ?R (sv_world v) (sv_proc v) (hr, w, p)" "sv_world v' = w"
    "sv_proc v' = p\<lparr>m_fReady := False\<rparr>" "sv_thread v' = sv_thread v" "sv_env v' = sv_env v" "sv_table v' = sv_table v"
    for hr w p and v' :: "'a proc_world_scheme start_vars"
  proof -
    note P = that(1) [unfolded check_post_def, simplified]
    have "proc_frame this (sv_world v) (sv_proc v) w (p\<lparr>m_fReady := False\<rparr>)" using P by (simp add: proc_frame_def)
    then show ?thesis by (intro process_stage [OF A]) (use that P ok(5) in simp_all)
  qed
  have eq: "p = p\<lparr>m_fReady := False\<rparr>" if "\<not> m_fReady p" for p :: SERVER_PROCESS using that by simp
  show "returns_if ends (stage_check os this v) (\<lambda>(hr, failed, v').
      if failed then ?E (v'\<lparr>sv_hr := hr, sv_failed := failed\<rparr>)
      else started_inv this k rest b (more_children ends c) w0 p0 (v'\<lparr>sv_hr := hr, sv_failed := failed\<rparr>))"
  proof (cases "PostStartCheck os this (sv_world v) (sv_proc v)")
    case None
    then show ?thesis using check by (simp add: stage_check_def)
  next
    case (Some r)
    obtain hr w p where r: "r = (hr, w, p)" by (cases r)
    have c: "check_post (more_children ends c) this k ?R (sv_world v) (sv_proc v) (hr, w, p)" using check Some r by simp
    note P = c [unfolded check_post_def, simplified]
    show ?thesis using Some r P G [OF c] eq by (auto simp: stage_check_def started_inv_def)
  qed
qed

text \<open>A whole attempt: it ends with the backend started or failed, in both cases with everything accounted for.\<close>

lemma attempt_spec:
  assumes "services_ok os conv" "tcp_table_ok (po_net os)" "ends \<Longrightarrow> start_limits os ms" "c \<le> MAX_ACTIVE_CHILD_PROCESSES" "ends \<Longrightarrow> c \<le> 8"
    "ends \<Longrightarrow> unat (m_dwStartupTimeLimitInMS p0) \<le> start_limit"
    "idle_inv this k rest (b + (Count (m_pEnvironmentVarTable p0) + 6)) c w0 p0 False v"
  shows "stage_post ends (attempt_inv this k rest b (more_children ends c) w0 p0) (started_inv this k rest b (more_children ends c) w0 p0) (attempt os this v)"
proof -
  let ?C = "Count (m_pEnvironmentVarTable p0)" and ?E = "attempt_inv this k rest b (more_children ends c) w0 p0"
  let ?I = "\<lambda>b. idle_inv this k rest b c w0 p0" and ?R = "running_inv this k rest b c w0 p0"
  let ?v = "v\<lparr>sv_failed := False, sv_proc := (sv_proc v)\<lparr>m_dwPort := 0\<rparr>\<rparr>"
  note A = assms(7) [unfolded idle_inv_def, THEN conjunct1]
  have w: "sv_world ?v = (sv_world v)\<lparr>pw_env := pw_env (sv_world v), pw_clock := pw_clock (sv_world v)\<rparr>" by simp
  have "sv_table ?v \<longrightarrow> table_ok (pw_env (sv_world v))" using assms(7) by (simp add: idle_inv_def)
  from environment_stage [of this k rest _ 0, OF _ _ _ w, simplified, OF A strings_frameI(3) [OF attempt_inv_table(2) [OF A]] attempt_inv_table(4) [OF A]] this
  have start: "?I (b + (?C + 6)) False ?v" using assms(7) by (simp add: idle_inv_def)
  have e: "b + (?C + 6) = b + 4 + (?C + 2)" "b + 4 = b + 3 + 1" "b + 3 = b + 2 + 1" "b + 2 = b + 1 + 1" by simp_all
  have s1: "stage_ok ends ?E (?I (b + (?C + 6) + 0) False) (stage_command_line os) (?I (b + (?C + 6)) False)"
    by (rule environment_stage_ok, erule stage_command_line_ok [OF assms(1)], simp)
  have s2: "stage_ok ends ?E (?I (b + (?C + 6)) False) (stage_table os) (?I (b + 4) True)"
    unfolding e(1) by (rule environment_stage_ok, erule stage_table_ok [OF assms(1)], simp)
  have s3: "stage_ok ends ?E (?I (b + 4) True) (stage_websockets os) (?I (b + 3) True)"
    unfolding e(2) by (rule environment_stage_ok, erule stage_websockets_ok [OF assms(1)], simp)
  have s4: "stage_ok ends ?E (?I (b + 3) True) (stage_port os) (?I (b + 2) True)"
    unfolding e(3) by (rule environment_stage_ok, erule stage_port_ok [OF assms(1,2)], simp)
  have s5: "stage_ok ends ?E (?I (b + 2) True) (stage_path os) (?I (b + 1) True)"
    unfolding e(4) by (rule environment_stage_ok, erule stage_path_ok [OF assms(1)], simp)
  have s6: "stage_ok ends ?E (?I (b + 1) True) (stage_token os) (?I b True)"
    by (rule environment_stage_ok, erule stage_token_ok [OF assms(1)], simp)
  have s7: "stage_ok ends ?E (?I (b + 0) True) (stage_environment os) (?I b True)"
    by (rule environment_stage_ok, erule stage_environment_ok [OF assms(1)], simp)
  have "stage_post ends ?E (?I (b + (?C + 6)) False) (Some ?v)" using start by (simp add: stage_post_def)
  from stage_rule [OF this s1 [simplified]] have "stage_post ends ?E (?I (b + (?C + 6)) False) (stage (stage_command_line os) ?v)" by simp
  note early = stage_rule [OF stage_rule [OF stage_rule [OF stage_rule [OF stage_rule [OF stage_rule [OF this s2] s3] s4] s5] s6] s7 [simplified]]
  note r = stage_rule [OF stage_rule [OF stage_rule [OF stage_rule [OF early stage_create_ok] stage_job_ok] stage_resume_ok]
      stage_check_ok [OF assms(2-6)]]
  show ?thesis using r by (simp add: attempt_def bind_assoc)
qed

text \<open>Cleaning up after a failed attempt makes the object idle again.\<close>

lemma CleanUp_proc_ok:
  assumes "proc_ok this k rest w p"
  shows "returns (CleanUp w p) (\<lambda>(w', p'). proc_ok this k rest w' p' \<and> start_frame this w p w' p' \<and> idle p' \<and>
    owned p' = filter_mset real_handle {#m_hStdoutHandle p', m_hShutdownHandle p'#} \<and>
    m_cChildProcess p' = m_cChildProcess p \<and> m_fReady p' = m_fReady p \<and> \<not> m_pForwarderConnection p' \<and> pw_env w' = pw_env w)"
proof -
  have ok: "ledger rest w p" "server_wf p" "children_ok p" "waits_ok this k w p" using assms by (simp_all add: proc_ok_def)
  show ?thesis
    using CleanUp_spec [OF ok(1,2)]
  proof (rule returns_mono)
    fix r
    assume "case r of (w', p') \<Rightarrow> ledger rest w' p' \<and> server_wf p' \<and> wait_handles p' = {} \<and>
      owned p' = filter_mset real_handle {#m_hStdoutHandle p', m_hShutdownHandle p'#} \<and> \<not> m_pForwarderConnection p' \<and>
      pw_waits w' = filter (\<lambda>(h, _). h \<notin> wait_handles p) (pw_waits w) \<and>
      pw_connections w' - of_bool (m_pForwarderConnection p') = pw_connections w - of_bool (m_pForwarderConnection p) \<and>
      pw_clock w' = pw_clock w \<and> pw_next w' = pw_next w \<and> pw_env w' = pw_env w \<and>
      proc_world.more w' = proc_world.more w \<and> set (pw_killed w) \<subseteq> set (pw_killed w') \<and>
      (\<forall>h \<in> insert (m_hProcessHandle p) (set (m_hChildProcessHandles p)). real_handle h \<longrightarrow> h \<in> set (pw_killed w')) \<and>
      p' = p\<lparr>m_hProcessWaitHandle := NULL_HANDLE,
             m_hChildProcessWaitHandles := map (\<lambda>_. NULL_HANDLE) (m_hChildProcessWaitHandles p),
             m_hProcessHandle := NULL_HANDLE, m_hListeningProcessHandle := NULL_HANDLE,
             m_dwChildProcessIds := reset_ids (m_hChildProcessHandles p) (m_dwChildProcessIds p),
             m_hChildProcessHandles := map (\<lambda>_. NULL_HANDLE) (m_hChildProcessHandles p),
             m_hJobObject := NULL_HANDLE, m_pForwarderConnection := False\<rparr>"
    then obtain w' p' where r: "r = (w', p')" and c: "ledger rest w' p'" "server_wf p'" "wait_handles p' = {}"
      "owned p' = filter_mset real_handle {#m_hStdoutHandle p', m_hShutdownHandle p'#}" "\<not> m_pForwarderConnection p'"
      "pw_waits w' = filter (\<lambda>(h, _). h \<notin> wait_handles p) (pw_waits w)"
      "pw_connections w' - of_bool (m_pForwarderConnection p') = pw_connections w - of_bool (m_pForwarderConnection p)"
      "pw_clock w' = pw_clock w" "pw_next w' = pw_next w" "pw_env w' = pw_env w"
      "proc_world.more w' = proc_world.more w" "set (pw_killed w) \<subseteq> set (pw_killed w')"
      "p' = p\<lparr>m_hProcessWaitHandle := NULL_HANDLE,
             m_hChildProcessWaitHandles := map (\<lambda>_. NULL_HANDLE) (m_hChildProcessWaitHandles p),
             m_hProcessHandle := NULL_HANDLE, m_hListeningProcessHandle := NULL_HANDLE,
             m_dwChildProcessIds := reset_ids (m_hChildProcessHandles p) (m_dwChildProcessIds p),
             m_hChildProcessHandles := map (\<lambda>_. NULL_HANDLE) (m_hChildProcessHandles p),
             m_hJobObject := NULL_HANDLE, m_pForwarderConnection := False\<rparr>"
      by (cases r) simp
    have fields: "identity p' = identity p" "m_cChildProcess p' = m_cChildProcess p" "m_fReady p' = m_fReady p" "m_cRefs p' = m_cRefs p"
      "m_hProcessHandle p' = NULL_HANDLE" "m_hListeningProcessHandle p' = NULL_HANDLE" "m_hProcessWaitHandle p' = NULL_HANDLE"
      "m_hChildProcessHandles p' = map (\<lambda>_. NULL_HANDLE) (m_hChildProcessHandles p)"
      unfolding c(13) by (simp_all add: identity_def)
    have own: "\<forall>(h, q) \<in> set (pw_waits w). h \<in> wait_handles p \<longrightarrow> q = this" using ok(4) by (auto simp: waits_ok_def)
    have keep: "filter (\<lambda>(_, q). q \<noteq> this) (pw_waits w') = filter (\<lambda>(_, q). q \<noteq> this) (pw_waits w)"
      unfolding c(6) filter_filter by (rule filter_cong [OF refl]) (use own in auto)
    have "waits_of this w' = filter (\<lambda>(h, _). h \<notin> wait_handles p) (waits_of this w)"
      unfolding waits_of_def c(6) filter_filter by (rule filter_cong) auto
    then have "length (waits_of this w') \<le> length (waits_of this w)" by simp
    then have "waits_ok this k w' p'"
      using ok(4) c(3,9) fields(4,7) by (auto simp: waits_ok_def old_handle_def c(6))
    moreover have "waits_fresh w w'" by (rule waits_freshI) (simp add: c(6))
    moreover have "children_ok p'" using ok(2) fields(2,8) by (auto simp: children_ok_def server_wf_def)
    ultimately show "case r of (w', p') \<Rightarrow> proc_ok this k rest w' p' \<and> start_frame this w p w' p' \<and> idle p' \<and>
      owned p' = filter_mset real_handle {#m_hStdoutHandle p', m_hShutdownHandle p'#} \<and>
      m_cChildProcess p' = m_cChildProcess p \<and> m_fReady p' = m_fReady p \<and> \<not> m_pForwarderConnection p' \<and> pw_env w' = pw_env w"
      unfolding r using c(1-5,7-12) fields keep by (auto simp: proc_ok_def start_frame_def idle_def)
  qed
qed

lemma idle_inv_mono: "idle_inv this k rest b c w0 p0 tbl v \<Longrightarrow> b' \<le> b \<Longrightarrow> c \<le> c' \<Longrightarrow> idle_inv this k rest b' c' w0 p0 tbl v"
  using attempt_inv_mono by (auto simp: idle_inv_def)

text \<open>Nothing is held after a failed attempt.\<close>

definition nothing_held :: "SERVER_PROCESS \<Rightarrow> bool" where
  "nothing_held p \<longleftrightarrow> owned p = filter_mset real_handle {#m_hStdoutHandle p, m_hShutdownHandle p#} \<and> \<not> m_pForwarderConnection p \<and> \<not> m_fReady p"

lemma start_failure_spec:
  assumes "attempt_inv this k rest b c w0 p0 v"
  shows "returns (start_failure v) (\<lambda>v'. idle_inv this k rest b c w0 p0 False v' \<and> nothing_held (sv_proc v') \<and> sv_hr v' = sv_hr v \<and>
    sv_failed v' = sv_failed v)"
proof -
  note A = assms [unfolded attempt_inv_def]
  let ?F = "filter_mset real_handle" and ?w = "sv_world v" and ?p = "sv_proc v"
  have o: "mset (pw_open ?w) = ?F {#sv_thread v#} + (owned ?p + rest)" using A by (simp add: proc_ok_def ledger_def ac_simps)
  have thread: "(if sv_thread v \<noteq> NULL_HANDLE then CloseHandle (sv_thread v) ?w else Some ?w) = close_real (sv_thread v) ?w"
    using A by (simp add: close_real_def)
  obtain w1 where w1: "close_real (sv_thread v) ?w = Some w1" "closes ?w w1" "mset (pw_open w1) = owned ?p + rest"
    using close_real_spec [OF o] by (elim returnsE conjE) (rule that)
  note C = closes_frame [OF w1(2)]
  obtain T where T: "sv_table v \<Longrightarrow> Clear (et_table (pw_env w1)) = Some T"
  proof (cases "sv_table v")
    case True
    then obtain refs where "refs_ok refs (pw_env w1)" using A C(5) by (auto simp: table_ok_def)
    from Clear_spec [OF refs_okD(2) [OF this]] show ?thesis using that by (elim returnsE)
  next
    case False
    then show ?thesis using that [of "et_table (pw_env w1)"] by simp
  qed
  define w2 where "w2 = (if sv_table v then w1\<lparr>pw_env := (pw_env w1)\<lparr>et_table := T\<rparr>\<rparr> else w1)"
  have W: "pw_open w2 = pw_open w1" "pw_waits w2 = pw_waits ?w" "pw_next w2 = pw_next ?w" "pw_clock w2 = pw_clock ?w"
    "pw_connections w2 = pw_connections ?w" "set (pw_killed ?w) \<subseteq> set (pw_killed w2)" "proc_world.more w2 = proc_world.more ?w"
    using C by (auto simp: w2_def)
  obtain T' where W8: "pw_env w2 = (pw_env ?w)\<lparr>et_table := T'\<rparr>"
  proof (cases "sv_table v")
    case False
    then show ?thesis using that [of "et_table (pw_env ?w)"] C(5) by (simp add: w2_def)
  qed (use that C(5) in \<open>simp add: w2_def\<close>)
  have ok: "proc_ok this k rest w2 ?p"
    using A w1(3) W by (auto simp: proc_ok_def ledger_def waits_ok_def waits_of_def old_handle_def)
  obtain w3 p' where c: "CleanUp w2 ?p = Some (w3, p')" "proc_ok this k rest w3 p'" "start_frame this w2 ?p w3 p'" "idle p'"
    "owned p' = ?F {#m_hStdoutHandle p', m_hShutdownHandle p'#}" "m_cChildProcess p' = m_cChildProcess ?p" "m_fReady p' = m_fReady ?p"
    "\<not> m_pForwarderConnection p'" "pw_env w3 = pw_env w2"
    by (rule returns_pairE [OF CleanUp_proc_ok [OF ok]]) (elim conjE, rule that)
  have "start_frame this ?w ?p w2 ?p" using W W8 by (auto simp: start_frame_def)
  then have f: "start_frame this w0 p0 w3 p'" using A c(3) start_frame_trans by blast
  have T0: "m_pEnvironmentVarTable p' = m_pEnvironmentVarTable p0" "m_pEnvironmentVarTable ?p = m_pEnvironmentVarTable p0"
    using f A by (simp_all add: start_frame_def identity_def)
  have "config_ok b (pw_env w3) (m_pEnvironmentVarTable p')"
    using A W8 c(9) T0 by (auto simp: config_ok_def)
  then have "idle_inv this k rest b c w0 p0 False (v\<lparr>sv_thread := NULL_HANDLE, sv_table := False, sv_world := w3, sv_proc := p'\<rparr>)"
    using A c f by (simp add: idle_inv_def attempt_inv_def)
  moreover have "nothing_held p'" using A c by (simp add: nothing_held_def)
  moreover have "start_failure v = Some (v\<lparr>sv_thread := NULL_HANDLE, sv_table := False, sv_world := w3, sv_proc := p'\<rparr>)"
    using thread w1(1) T c(1) by (cases "sv_table v") (simp_all add: start_failure_def w2_def)
  ultimately show ?thesis by simp
qed

text \<open>The loop: it ends with the backend started or with nothing held.\<close>

definition loop_post where
  "loop_post this k rest b c w0 p0 v \<longleftrightarrow>
     (if sv_failed v then idle_inv this k rest b c w0 p0 False v \<and> nothing_held (sv_proc v)
      else started_inv this k rest b c w0 p0 v)"

lemma start_loop_spec:
  assumes "services_ok os conv" "tcp_table_ok (po_net os)" "ends \<Longrightarrow> start_limits os ms"
    "ends \<Longrightarrow> unat (m_dwStartupTimeLimitInMS p0) \<le> start_limit"
    "idle_inv this k rest (n * (Count (m_pEnvironmentVarTable p0) + 6) + b) c w0 p0 False v"
    "c \<le> MAX_ACTIVE_CHILD_PROCESSES" "ends \<Longrightarrow> c + 8 * n \<le> 16" "n = 0 \<Longrightarrow> sv_failed v \<and> nothing_held (sv_proc v)"
  shows "returns_if ends (start_loop os this n v) (loop_post this k rest b MAX_ACTIVE_CHILD_PROCESSES w0 p0)"
  using assms(5-)
proof (induction n arbitrary: c v)
  case 0
  then show ?case using idle_inv_mono [of this k rest b c w0 p0 False v b MAX_ACTIVE_CHILD_PROCESSES] by (simp add: loop_post_def)
next
  case (Suc n)
  let ?C = "Count (m_pEnvironmentVarTable p0)" and ?c = "more_children ends c"
  have c8: "c \<le> 8" if ends using Suc.prems(3) that by simp
  have c16: "?c \<le> MAX_ACTIVE_CHILD_PROCESSES" using more_children_max [OF Suc.prems(2) c8] .
  have "idle_inv this k rest (n * (?C + 6) + b + (?C + 6)) c w0 p0 False v" using Suc.prems(1) by (simp add: algebra_simps)
  note at = attempt_spec [OF assms(1-3) Suc.prems(2) c8 assms(4) this, unfolded stage_post_def]
  have rest: "returns_if ends (if \<not> sv_failed v1 then Some v1
      else start_failure v1 \<bind> (\<lambda>v2. start_loop os this (if sv_critical v1 then 0 else n) v2))
      (loop_post this k rest b MAX_ACTIVE_CHILD_PROCESSES w0 p0)"
    if v1: "if sv_failed v1 then attempt_inv this k rest (n * (?C + 6) + b) ?c w0 p0 v1
      else started_inv this k rest (n * (?C + 6) + b) ?c w0 p0 v1" for v1
  proof (cases "sv_failed v1")
    case False
    have "started_inv this k rest b MAX_ACTIVE_CHILD_PROCESSES w0 p0 v1"
      using v1 False c16 attempt_inv_mono [of this k rest "n * (?C + 6) + b" ?c w0 p0 "v1\<lparr>sv_proc := sv_proc v1\<lparr>m_fReady := False\<rparr>\<rparr>" b MAX_ACTIVE_CHILD_PROCESSES]
      by (simp add: started_inv_def)
    then show ?thesis using False by (simp add: loop_post_def)
  next
    case True
    then obtain v2 where v2: "start_failure v1 = Some v2" "idle_inv this k rest (n * (?C + 6) + b) ?c w0 p0 False v2"
      "nothing_held (sv_proc v2)" "sv_failed v2"
      using start_failure_spec v1 by (fastforce elim: returnsE)
    show ?thesis
    proof (cases "sv_critical v1")
      case crit: True
      have "loop_post this k rest b MAX_ACTIVE_CHILD_PROCESSES w0 p0 v2"
        using v2 c16 idle_inv_mono [OF v2(2), of b MAX_ACTIVE_CHILD_PROCESSES] by (simp add: loop_post_def)
      then show ?thesis using True crit v2(1) by simp
    next
      case False
      have "?c + 8 * n \<le> 16" if ends using Suc.prems(3) that by (simp add: more_children_def)
      from Suc.IH [OF v2(2) c16 this] v2(3,4) show ?thesis using True False v2(1) by simp
    qed
  qed
  show ?case
    unfolding start_loop.simps returns_if_bind [of ends "attempt os this v"]
    by (rule returns_if_mono [OF at]) (assumption | rule rest)+
qed

lemma relative_prefix_total:
  assumes "heap_ok 2 heap" "0 \<notin> set root"
  shows "returns (relative_prefix heap rel path root) (\<lambda>(hr, s). stru_inv s)"
proof -
  obtain hr s where s: "STRU_Copy heap root STRU_new = Some (hr, s)" "stru_inv s"
    by (rule returns_pairE [OF STRU_Copy_spec [OF assms(1) stru_inv_new(1) assms(2)]]) (elim conjE, rule that)
  have "0 \<notin> set [BACKSLASH]" by (simp add: BACKSLASH_def)
  from STRU_Append_spec [OF assms(1) s(2) this]
  have "returns (STRU_Append heap [BACKSLASH] s) (\<lambda>(hr, s). stru_inv s)" by (auto elim!: returns_mono)
  then show ?thesis using s by (simp add: relative_prefix_def stru_inv_new(1))
qed

lemma ConvertPathToFullPath_total:
  assumes "heap_ok 2 heap" "0 \<notin> set root" "0 \<notin> set path" "\<forall>q n r. full q n = Some r \<longrightarrow> 0 \<notin> set r" "stru_inv t"
  shows "returns (ConvertPathToFullPath heap rel full can_new path root t) (\<lambda>(hr, t'). stru_inv t')"
proof -
  obtain hr s where s: "relative_prefix heap rel path root = Some (hr, s)" "stru_inv s"
    by (rule returns_pairE [OF relative_prefix_total [OF assms(1,2)]]) (rule that)
  obtain hr' s' where s': "STRU_Append heap path s = Some (hr', s')" "stru_inv s'"
    by (rule returns_pairE [OF STRU_Append_spec [OF assms(1) s(2) assms(3)]]) (elim conjE, rule that)
  have "returns (MakePathCanonicalizationProof heap r t) (\<lambda>(hr, t'). stru_inv t')" if "full q n = Some r" for q n r
  proof -
    have "0 \<notin> set r" using assms(4) that by blast
    from MakePathCanonicalizationProof_spec [OF assms(1,5) this] show ?thesis by (auto elim!: returns_mono)
  qed
  then show ?thesis using s s' assms(5) by (auto simp: ConvertPathToFullPath_def split: option.split)
qed

lemma create_all_clock:
  fixes mk :: "wstr \<Rightarrow> nat \<Rightarrow> DWORD option \<times> nat"
  assumes "\<forall>p t. t \<le> snd (mk p t)"
  shows "t \<le> snd (create_all mk hr ps t)"
proof (induction ps arbitrary: t)
  case (Cons p ps)
  obtain e t' where m: "mk p t = (e, t')" by force
  have "t \<le> t'" using assms [rule_format, of t p] m by simp
  also have "\<dots> \<le> snd (create_all mk hr ps t')" by (rule Cons.IH)
  finally show ?case using m \<open>t \<le> t'\<close> by simp
qed simp

lemma EnsureDirectoryPathExist_clock:
  fixes mk :: "wstr \<Rightarrow> nat \<Rightarrow> DWORD option \<times> nat"
  assumes "heap_ok 2 heap" "0 \<notin> set path" "\<forall>p t. t \<le> snd (mk p t)"
  shows "returns (EnsureDirectoryPathExist heap mk path t) (\<lambda>(hr, t'). t \<le> t')"
proof -
  obtain hr1 s where s: "STRU_Copy heap path STRU_new = Some (hr1, s)" "stru_inv s"
    "if SUCCEEDED hr1 then str_text s = path else s = STRU_new"
    by (rule returns_pairE [OF STRU_Copy_spec [OF assms(1) stru_inv_new(1) assms(2)]]) (elim conjE, rule that)
  obtain hr u where u: "IsPathUnc heap (Some path) (Some False) = Some (hr, u)"
    by (rule returns_pairE [OF IsPathUnc_spec [OF assms(1,2), of False]]) (elim conjE, rule that)
  have z: "0 \<notin> set (str_text s)" using s(3) assms(2) by (auto split: if_splits)
  have "returns (Some (create_all mk hr ps t)) (\<lambda>(hr, t'). t \<le> t')" for ps
    using create_all_clock [OF assms(3)] by (auto simp: case_prod_beta')
  then show ?thesis using s(1) u by (simp add: EnsureDirectoryPathExist_def ensure_loop_spec [OF s(2) z])
qed

text \<open>What preparing the log changes: the handle, the name of the file, the open handles and the time.\<close>

definition std_frame :: "nat \<Rightarrow> int \<Rightarrow> handle multiset \<Rightarrow> 'a proc_world_scheme \<Rightarrow> SERVER_PROCESS \<Rightarrow> 'a proc_world_scheme \<Rightarrow> SERVER_PROCESS \<Rightarrow> bool" where
  "std_frame this k rest w p w' p' \<longleftrightarrow> proc_ok this k rest w' p' \<and> start_frame this w p w' p' \<and>
     idle p' = idle p \<and> m_cChildProcess p' = m_cChildProcess p \<and> m_fReady p' = m_fReady p \<and>
     m_pEnvironmentVarTable p' = m_pEnvironmentVarTable p \<and> m_pForwarderConnection p' = m_pForwarderConnection p \<and> pw_env w' = pw_env w"

lemma std_frame_trans: "std_frame this k rest w p w1 p1 \<Longrightarrow> std_frame this k rest w1 p1 w2 p2 \<Longrightarrow> std_frame this k rest w p w2 p2"
  using start_frame_trans unfolding std_frame_def by metis

lemma owned_stdout:
  "owned (p\<lparr>m_hStdoutHandle := h\<rparr>) = filter_mset real_handle {#h#} + owned (p\<lparr>m_hStdoutHandle := NULL_HANDLE\<rparr>)"
  "owned p = filter_mset real_handle {#m_hStdoutHandle p#} + owned (p\<lparr>m_hStdoutHandle := NULL_HANDLE\<rparr>)"
  by (simp_all add: owned_def)

lemma std_frameI:
  assumes "proc_ok this k rest w p" "mset (pw_open w) = filter_mset real_handle {#m_hStdoutHandle p#} + M"
    "mset (pw_open w') = filter_mset real_handle {#h#} + M" "opens (w\<lparr>pw_killed := pw_killed w'\<rparr>) w'" "set (pw_killed w) \<subseteq> set (pw_killed w')" "stru_inv s"
  shows "std_frame this k rest w p w' (p\<lparr>m_hStdoutHandle := h, m_struFullLogFile := s\<rparr>)"
proof -
  let ?p = "p\<lparr>m_hStdoutHandle := h, m_struFullLogFile := s\<rparr>"
  have o: "pw_waits w' = pw_waits w" "pw_next w \<le> pw_next w'" "pw_clock w \<le> pw_clock w'" "pw_connections w' = pw_connections w"
    "pw_env w' = pw_env w" "proc_world.more w' = proc_world.more w" using assms(4) by (simp_all add: opens_def)
  have wh: "wait_handles ?p = wait_handles p" by (simp add: wait_handles_def)
  have "waits_ok this k w' ?p"
    using assms(1) old_handle_mono [OF o(2)] unfolding proc_ok_def waits_ok_def waits_of_def wh o(1) by auto
  moreover have "ledger rest w' ?p"
  proof -
    have "M = owned (p\<lparr>m_hStdoutHandle := NULL_HANDLE\<rparr>) + rest"
      using assms(1,2) owned_stdout(2) [of p] by (simp add: proc_ok_def ledger_def del: filter_mset_add_mset)
    moreover have "owned ?p = owned (p\<lparr>m_hStdoutHandle := h\<rparr>)" by (simp add: owned_def)
    ultimately show ?thesis using assms(3) owned_stdout(1) [of h p] by (simp add: ledger_def)
  qed
  ultimately have "proc_ok this k rest w' ?p"
    using assms(1,6) by (simp add: proc_ok_def server_wf_def children_ok_def)
  then show ?thesis using o assms(5) by (simp add: std_frame_def start_frame_def identity_def idle_def wait_handles_def env_grows_refl)
qed


text \<open>Hypotheses on what the standard handles need.\<close>

definition log_ok :: "proc_os \<Rightarrow> bool" where
  "log_ok os \<longleftrightarrow> (\<forall>p t. t \<le> snd (po_create_directory os p t)) \<and> (\<forall>t q r. po_log_name os t q = Some r \<longrightarrow> 0 \<notin> set r)"

lemma std_frame_file:
  assumes "proc_ok this k rest w p" "opens w w'" "pw_open w' = pw_open w" "stru_inv s"
  shows "std_frame this k rest w p w' (p\<lparr>m_struFullLogFile := s\<rparr>)"
proof -
  have m: "mset (pw_open w) = filter_mset real_handle {#m_hStdoutHandle p#} + (owned (p\<lparr>m_hStdoutHandle := NULL_HANDLE\<rparr>) + rest)"
    using assms(1) owned_stdout(2) [of p] by (simp add: proc_ok_def ledger_def ac_simps del: filter_mset_add_mset)
  have "opens (w\<lparr>pw_killed := pw_killed w'\<rparr>) w'" "set (pw_killed w) \<subseteq> set (pw_killed w')" using assms(2) by (auto simp: opens_def)
  from std_frameI [OF assms(1) m _ this assms(4), of "m_hStdoutHandle p"] m assms(3) show ?thesis by simp
qed

lemma SetupStdHandles_spec:
  assumes "proc_ok this k rest w p" "services_ok os conv" "log_ok os"
  shows "returns (SetupStdHandles os w p) (\<lambda>(hr, w', p'). std_frame this k rest w p w' p')"
proof (cases "m_fStdoutLogEnabled p")
  case False
  have "std_frame this k rest w p w p"
    using assms(1) by (simp add: std_frame_def)
  then show ?thesis using False by (simp add: SetupStdHandles_def)
next
  case True
  let ?heap = "os_heap (po_env os)"
  note S = services_okD [OF assms(2)]
  let ?M = "owned (p\<lparr>m_hStdoutHandle := NULL_HANDLE\<rparr>) + rest"
  have wf: "stru_inv (m_struFullLogFile p)" using assms(1) by (simp add: proc_ok_def server_wf_def)
  have m: "mset (pw_open w) = filter_mset real_handle {#m_hStdoutHandle p#} + ?M"
    using assms(1) owned_stdout(2) [of p] by (simp add: proc_ok_def ledger_def ac_simps del: filter_mset_add_mset)
  obtain w0 where w0: "close_real (m_hStdoutHandle p) w = Some w0" "closes w w0" "mset (pw_open w0) = ?M"
    using close_real_spec [OF m] by (elim returnsE conjE) (rule that)
  define p0 where "p0 = (if m_hStdoutHandle p \<noteq> INVALID_HANDLE_VALUE then p\<lparr>m_hStdoutHandle := NULL_HANDLE\<rparr> else p)"
  define h0 where "h0 = m_hStdoutHandle p0"
  have h0: "\<not> real_handle h0" "p0 = p\<lparr>m_hStdoutHandle := h0, m_struFullLogFile := m_struFullLogFile p\<rparr>"
    by (auto simp: h0_def p0_def)
  have F0: "std_frame this k rest w p w0 p0"
    unfolding h0(2) by (rule std_frameI [OF assms(1) m]) (use w0 h0(1) closes_frame [OF w0(2)] wf in \<open>simp_all add: opens_def\<close>)
  then have ok0: "proc_ok this k rest w0 p0" by (simp add: std_frame_def)
  have wf0: "stru_inv (m_struFullLogFile p0)" using wf by (simp add: p0_def)
  have fail: "returns (map_option (\<lambda>s. (hr, w', p'\<lparr>m_struFullLogFile := s\<rparr>)) (STRU_Reset (m_struFullLogFile p'))) (\<lambda>(hr, w', p'). std_frame this k rest w p w' p')"
    if "std_frame this k rest w p w' p'" for hr :: HRESULT and w' p'
  proof -
    have ok': "proc_ok this k rest w' p'" using that by (simp add: std_frame_def)
    then have "stru_inv (m_struFullLogFile p')" by (simp add: proc_ok_def server_wf_def)
    then have "buffer_inv 2 (m_Buff (m_struFullLogFile p'))" "QueryStr (m_struFullLogFile p') \<noteq> []"
      using stru_invD(3) by (auto simp: stru_inv_def)
    then obtain s where s: "STRU_Reset (m_struFullLogFile p') = Some s" "stru_inv s"
      using STRU_Reset_spec by (fastforce elim: returnsE)
    show ?thesis using s std_frame_trans [OF that std_frame_file [OF ok' opens_refl refl s(2)]] by simp
  qed
  obtain hr1 q where c: "ConvertPathToFullPath ?heap (po_path_is_relative os) (po_fullpath os) (po_new os (pw_clock w0))
      (c_text (m_struLogFile p)) (c_text (m_struPhysicalPath p)) STRU_new = Some (hr1, q)"
  proof (rule returns_pairE [OF ConvertPathToFullPath_total [OF S(2) c_text_nul_free c_text_nul_free _ stru_inv_new(1)]])
    show "\<forall>q n r. po_fullpath os q n = Some r \<longrightarrow> 0 \<notin> set r" using S(8) by blast
  qed (rule that)
  have so: "stru_ok ?heap (m_struFullLogFile p0)" using wf0 S(2) by (simp add: stru_ok_def)
  have lo: "0 \<notin> set t" if "po_log_name os (pw_clock w0) (c_text q) = Some t" for t using assms(3) that by (auto simp: log_ok_def)
  obtain hr2 s where s: "SafeVsnwprintf ?heap (po_log_name os (pw_clock w0) (c_text q)) (m_struFullLogFile p0) = Some (hr2, s)" "stru_inv s"
    by (rule returns_pairE [OF SafeVsnwprintf_spec [where out = "po_log_name os (pw_clock w0) (c_text q)", OF so lo]], assumption) (unfold stru_ok_def, elim conjE, rule that)
  let ?p1 = "p0\<lparr>m_struFullLogFile := s\<rparr>"
  have F1: "std_frame this k rest w p w0 ?p1" using std_frame_trans [OF F0 std_frame_file [OF ok0 opens_refl refl s(2)]] .
  obtain hr3 t where d: "EnsureDirectoryPathExist ?heap (po_create_directory os) (c_text q) (pw_clock w0) = Some (hr3, t)" "pw_clock w0 \<le> t"
  proof (rule returns_pairE [OF EnsureDirectoryPathExist_clock [OF S(2) c_text_nul_free]])
    show "\<forall>p t. t \<le> snd (po_create_directory os p t)" using assms(3) by (simp add: log_ok_def)
  qed (rule that)
  let ?w1 = "w0\<lparr>pw_clock := t\<rparr>"
  have F2: "std_frame this k rest w p ?w1 ?p1"
    using std_frame_trans [OF F0 std_frame_file [OF ok0 opens_clock [OF d(2)] _ s(2)]] by simp
  have swap: "?p1\<lparr>m_hStdoutHandle := h\<rparr> = p0\<lparr>m_hStdoutHandle := h, m_struFullLogFile := s\<rparr>" for h by simp
  have m0: "mset (pw_open w0) = filter_mset real_handle {#m_hStdoutHandle p0#} + ?M" using w0(3) h0(1) by (simp add: h0_def)
  have F3: "std_frame this k rest w p (later ?w1) (?p1\<lparr>m_hStdoutHandle := INVALID_HANDLE_VALUE\<rparr>)"
  proof -
    have "std_frame this k rest w0 p0 (later ?w1) (p0\<lparr>m_hStdoutHandle := INVALID_HANDLE_VALUE, m_struFullLogFile := s\<rparr>)"
      by (rule std_frameI [OF ok0 m0]) (use w0(3) s(2) d(2) in \<open>simp_all add: opens_def later_def\<close>)
    from std_frame_trans [OF F0 this] show ?thesis unfolding swap .
  qed
  have F4: "std_frame this k rest w p w2 (?p1\<lparr>m_hStdoutHandle := h\<rparr>)" if n: "new_handle (later ?w1) = (h, w2)" for h w2
  proof -
    note N = new_handle_spec [OF n]
    have "std_frame this k rest w0 p0 w2 (p0\<lparr>m_hStdoutHandle := h, m_struFullLogFile := s\<rparr>)"
      by (rule std_frameI [OF ok0 m0]) (use w0(3) s(2) d(2) N in \<open>simp_all add: opens_def later_def\<close>)
    from std_frame_trans [OF F0 this] show ?thesis unfolding swap .
  qed
  let ?fail = "\<lambda>hr w' p'. map_option (\<lambda>s. (hr :: HRESULT, w' :: 'a proc_world_scheme, p'\<lparr>m_struFullLogFile := s\<rparr>)) (STRU_Reset (m_struFullLogFile p'))"
  have run: "SetupStdHandles os w p =
      (if FAILED hr1 then ?fail hr1 w0 p0 else if FAILED hr2 then ?fail hr2 w0 ?p1 else if FAILED hr3 then ?fail hr3 ?w1 ?p1
       else case po_create_file os t of
         Some err \<Rightarrow> (if FAILED (HRESULT_FROM_WIN32 err)
           then ?fail (HRESULT_FROM_WIN32 err) (later ?w1) (?p1\<lparr>m_hStdoutHandle := INVALID_HANDLE_VALUE\<rparr>)
           else Some (HRESULT_FROM_WIN32 err, later ?w1, ?p1\<lparr>m_hStdoutHandle := INVALID_HANDLE_VALUE\<rparr>))
       | None \<Rightarrow> Some (hr3, snd (new_handle (later ?w1)), ?p1\<lparr>m_hStdoutHandle := fst (new_handle (later ?w1))\<rparr>))"
    using True w0(1) c s(1) d(1) by (simp add: SetupStdHandles_def Let_def p0_def [symmetric] case_prod_beta' cong: if_cong option.case_cong split del: if_split)
  show ?thesis
  proof (cases "po_create_file os t")
    case None
    show ?thesis unfolding run None using fail [OF F0] fail [OF F1] fail [OF F2] F4 [OF surjective_pairing] by simp
  next
    case (Some err)
    show ?thesis unfolding run Some using fail [OF F0] fail [OF F1] fail [OF F2] fail [OF F3] F3 by simp
  qed
qed

text \<open>The whole start.\<close>

lemma StartProcess_spec:
  assumes "proc_ok this k rest w p" "idle p" "\<not> m_fReady p" "m_cChildProcess p = 0" "services_ok os conv" "tcp_table_ok (po_net os)" "log_ok os"
    "config_ok (2 * (Count (m_pEnvironmentVarTable p) + 6)) (pw_env w) (m_pEnvironmentVarTable p)"
    "ends \<Longrightarrow> start_limits os ms" "ends \<Longrightarrow> unat (m_dwStartupTimeLimitInMS p) \<le> start_limit"
  shows "returns_if ends (StartProcess os this w p) (\<lambda>(hr, w', p'). \<exists>leaked. size leaked \<le> 1 \<and> proc_ok this k (rest + leaked) w' p' \<and>
    start_frame this w p w' p' \<and> (m_fReady p' \<longrightarrow> SUCCEEDED hr \<and> m_pForwarderConnection p') \<and>
    (FAILED hr \<longrightarrow> leaked = {#} \<and> owned p' = filter_mset real_handle {#m_hShutdownHandle p'#} \<and> \<not> m_pForwarderConnection p' \<and> idle p'))"
proof -
  obtain hr0 w0 p0 where s: "SetupStdHandles os w p = Some (hr0, w0, p0)" "std_frame this k rest w p w0 p0"
    by (rule returns_tripleE [OF SetupStdHandles_spec [OF assms(1,5,7)]]) (rule that)
  note F = s(2) [unfolded std_frame_def]
  let ?st = "os_stack (po_env os) (INLINED_BUFFER_LEN div 2)"
  obtain M where M: "MULTISZ_new 2 ?st = Some M" "multisz_ok M"
  proof -
    let ?M = "\<lparr>mz_Buff = \<lparr>m_cbBuffer = INLINED_BUFFER_LEN, m_fHeapAllocated = False, m_pBuffer = ?st\<rparr>, mz_cchLen = 0, mz_cStrings = 0\<rparr>"
    have "length ?st = 16" using services_okD(1) [OF assms(5)] by (simp add: env_os_ok_def INLINED_BUFFER_LEN_def)
    then have "buffer_inv 2 (mz_Buff ?M)" "2 \<le> length (mz_str ?M)"
      by (simp_all add: buffer_inv_def INLINED_BUFFER_LEN_def MAXDWORD_def)
    from MULTISZ_Reset_spec [OF this] show ?thesis using that msz_live_ok(2) by (auto simp: MULTISZ_new_def elim!: returnsE)
  qed
  let ?v = "\<lparr>sv_hr = S_OK, sv_failed = False, sv_critical = False, sv_table = False, sv_thread = NULL_HANDLE,
            sv_env = M, sv_world = w0, sv_proc = p0\<rparr>"
  let ?C = "Count (m_pEnvironmentVarTable p0)"
  have "attempt_inv this k rest (2 * (?C + 6)) 0 w0 p0 ?v"
    using F M(2) assms(3,4,8) by (simp add: attempt_inv_def)
  then have I: "idle_inv this k rest (2 * (?C + 6) + 0) 0 w0 p0 False ?v" using F assms(2) by (simp add: idle_inv_def)
  have lim: "unat (m_dwStartupTimeLimitInMS p0) \<le> start_limit" if ends using F assms(10) that by (simp add: start_frame_def identity_def)
  have loop: "returns_if ends (start_loop os this 2 ?v) (loop_post this k rest 0 MAX_ACTIVE_CHILD_PROCESSES w0 p0)"
    by (rule start_loop_spec [OF assms(5,6,9) lim I]) simp_all
  show ?thesis
  proof (cases "start_loop os this 2 ?v")
    case None
    then have "\<not> ends" using loop by simp
    moreover have "StartProcess os this w p = None" using s(1) M(1) None by (simp add: StartProcess_def)
    ultimately show ?thesis by simp
  next
    case (Some v)
    have v: "start_loop os this 2 ?v = Some v" "loop_post this k rest 0 MAX_ACTIVE_CHILD_PROCESSES w0 p0 v" using Some loop by simp_all
  let ?p = "sv_proc v" and ?w = "sv_world v"
  define leaked where "leaked = filter_mset real_handle {#sv_thread v#}"
  have one: "size leaked \<le> 1" by (simp add: leaked_def)
  have ok: "proc_ok this k (rest + leaked) ?w ?p" "start_frame this w0 p0 ?w ?p"
    using v(2) by (auto simp: loop_post_def idle_inv_def attempt_inv_def started_inv_def leaked_def start_frame_def identity_def split: if_splits)
  have f: "start_frame this w p ?w ?p" using F ok(2) start_frame_trans by blast
  have ready: "m_fReady ?p \<Longrightarrow> SUCCEEDED (sv_hr v) \<and> m_pForwarderConnection ?p"
    using v(2) by (auto simp: loop_post_def started_inv_def nothing_held_def split: if_splits)
  have failed: "FAILED (sv_hr v) \<Longrightarrow> leaked = {#} \<and> nothing_held ?p \<and> idle ?p"
    using v(2) by (auto simp: loop_post_def started_inv_def idle_inv_def leaked_def split: if_splits)
  show ?thesis
  proof (cases "FAILED (sv_hr v) \<or> \<not> m_fReady ?p")
    case False
    then show ?thesis using s(1) M(1) v(1) one ok(1) f ready by (auto simp: StartProcess_def)
  next
    case True
    have m: "mset (pw_open ?w) = filter_mset real_handle {#m_hStdoutHandle ?p#} + (owned (?p\<lparr>m_hStdoutHandle := NULL_HANDLE\<rparr>) + (rest + leaked))"
      using ok(1) owned_stdout(2) [of ?p] by (simp add: proc_ok_def ledger_def ac_simps del: filter_mset_add_mset)
    obtain w1 where w1: "close_real (m_hStdoutHandle ?p) ?w = Some w1" "closes ?w w1"
      "mset (pw_open w1) = owned (?p\<lparr>m_hStdoutHandle := NULL_HANDLE\<rparr>) + (rest + leaked)"
      using close_real_spec [OF m] by (elim returnsE conjE) (rule that)
    have "stru_inv (m_struFullLogFile ?p)" using ok(1) by (simp add: proc_ok_def server_wf_def)
    then have "std_frame this k (rest + leaked) ?w ?p w1 (?p\<lparr>m_hStdoutHandle := NULL_HANDLE, m_struFullLogFile := m_struFullLogFile ?p\<rparr>)"
      by (intro std_frameI [OF ok(1) m]) (use w1 closes_frame [OF w1(2)] in \<open>simp_all add: opens_def\<close>)
    then have G: "std_frame this k (rest + leaked) ?w ?p w1 (?p\<lparr>m_hStdoutHandle := NULL_HANDLE\<rparr>)" by simp
    have "start_frame this w p w1 (?p\<lparr>m_hStdoutHandle := NULL_HANDLE\<rparr>)" using G f start_frame_trans by (auto simp: std_frame_def)
    moreover have "owned (?p\<lparr>m_hStdoutHandle := NULL_HANDLE\<rparr>) = filter_mset real_handle {#m_hShutdownHandle ?p#}" if "FAILED (sv_hr v)"
      using failed [OF that] owned_stdout(2) [of ?p] by (simp add: nothing_held_def split: if_splits)
    ultimately show ?thesis
      using True s(1) M(1) v(1) w1(1) one G ready failed
      by (auto simp: StartProcess_def std_frame_def nothing_held_def idle_def wait_handles_def)
  qed
  qed
qed

section \<open>Properties\<close>

text \<open>
  C3: \<open>StartProcess\<close> returns when the conditions \<open>start_limits\<close> hold (time goes on and no check of the port takes
  more than ten minutes, no debugger is ever attached, at most eight processes in the job) and the startup time limit is at
  most 46 days: the loops over ports, lines, children and attempts and the wait for the backend all
  end. Whenever it returns, under these conditions or not: after a failure no handle but the shutdown event, no
  registered wait and no connection is left; when the object is ready the start has succeeded and a
  connection is held. All handles are accounted for but the thread handle of a successful start.
  The references cover the registered waits and those of the callers; waits that were
  unregistered have left theirs behind.
\<close>

theorem StartProcess_returns:
  assumes "proc_ok this k rest w p" "idle p" "\<not> m_fReady p" "m_cChildProcess p = 0" "services_ok os conv" "tcp_table_ok (po_net os)" "log_ok os"
    "config_ok (2 * (Count (m_pEnvironmentVarTable p) + 6)) (pw_env w) (m_pEnvironmentVarTable p)"
  shows "(start_limits os ms \<and> unat (m_dwStartupTimeLimitInMS p) \<le> start_limit \<longrightarrow> StartProcess os this w p \<noteq> None) \<and>
   (\<forall>hr w' p'. StartProcess os this w p = Some (hr, w', p') \<longrightarrow> (\<exists>leaked. size leaked \<le> 1 \<and>
      mset (pw_open w') = owned p' + (rest + leaked) \<and> int (length (waits_of this w')) + k \<le> m_cRefs p' \<and>
      (m_fReady p' \<longrightarrow> SUCCEEDED hr \<and> m_pForwarderConnection p') \<and>
      (FAILED hr \<longrightarrow> leaked = {#} \<and> owned p' = filter_mset real_handle {#m_hShutdownHandle p'#} \<and> \<not> m_pForwarderConnection p' \<and>
         m_hProcessHandle p' = NULL_HANDLE \<and> wait_handles p' = {} \<and> waits_of this w' = [])))"
proof -
  let ?ends = "start_limits os ms \<and> unat (m_dwStartupTimeLimitInMS p) \<le> start_limit"
  have S: "returns_if ?ends (StartProcess os this w p) (\<lambda>(hr, w', p'). \<exists>leaked. size leaked \<le> 1 \<and> proc_ok this k (rest + leaked) w' p' \<and>
    start_frame this w p w' p' \<and> (m_fReady p' \<longrightarrow> SUCCEEDED hr \<and> m_pForwarderConnection p') \<and>
    (FAILED hr \<longrightarrow> leaked = {#} \<and> owned p' = filter_mset real_handle {#m_hShutdownHandle p'#} \<and> \<not> m_pForwarderConnection p' \<and> idle p'))"
    by (rule StartProcess_spec [OF assms]) auto
  have none: "waits_of this w' = []" if "waits_ok this k w' p'" "wait_handles p' = {}" for w' :: "'a proc_world_scheme" and p'
    using that by (auto simp: waits_ok_def waits_of_def filter_empty_conv)
  show ?thesis
  proof (intro conjI allI impI)
    assume "?ends"
    then show "StartProcess os this w p \<noteq> None" using S by (cases "StartProcess os this w p") simp_all
  next
    fix hr w' p'
    assume "StartProcess os this w p = Some (hr, w', p')"
    then obtain leaked where l: "size leaked \<le> 1" "proc_ok this k (rest + leaked) w' p'" "m_fReady p' \<longrightarrow> SUCCEEDED hr \<and> m_pForwarderConnection p'"
      "FAILED hr \<longrightarrow> leaked = {#} \<and> owned p' = filter_mset real_handle {#m_hShutdownHandle p'#} \<and> \<not> m_pForwarderConnection p' \<and> idle p'"
      using S by auto
    have now: "mset (pw_open w') = owned p' + (rest + leaked)" "int (length (waits_of this w')) + k \<le> m_cRefs p'"
      "waits_ok this k w' p'"
      using l(2) by (simp_all add: proc_ok_def ledger_def waits_ok_def)
    have empty: "waits_of this w' = []" if "FAILED hr" using none [OF now(3)] l(4) that by (simp add: idle_def)
    show "\<exists>leaked. size leaked \<le> 1 \<and>
      mset (pw_open w') = owned p' + (rest + leaked) \<and> int (length (waits_of this w')) + k \<le> m_cRefs p' \<and>
      (m_fReady p' \<longrightarrow> SUCCEEDED hr \<and> m_pForwarderConnection p') \<and>
      (FAILED hr \<longrightarrow> leaked = {#} \<and> owned p' = filter_mset real_handle {#m_hShutdownHandle p'#} \<and> \<not> m_pForwarderConnection p' \<and>
         m_hProcessHandle p' = NULL_HANDLE \<and> wait_handles p' = {} \<and> waits_of this w' = [])"
      by (rule exI [of _ leaked]) (use l(1,3,4) now empty in \<open>auto simp: idle_def\<close>)
  qed
qed

definition short_cp :: wide_cp where
  "short_cp = \<lparr>wc_convert = (\<lambda>src room. if 1000 < length src then Inl (87, []) else if length src \<le> room then Inr (map ucast src)
       else Inl (ERROR_INSUFFICIENT_BUFFER, [])), wc_size = (\<lambda>src. if 1000 < length src then Inl 87 else Inr (length src))\<rparr>"

definition calm_proc_os :: proc_os where
  "calm_proc_os = \<lparr>po_env = calm_os, po_net = busy_net, po_aheap = byte_heap, po_utf8 = short_cp,
     po_acp = (\<lambda>s n. if s = [] \<or> n < length s then Inl 87 else Inr (map ucast s)), po_uuid = (\<lambda>_. Inr (replicate 36 48)),
     po_env_strings = (\<lambda>_. Some [L ''PATH=C:'']), po_new = (\<lambda>_. True), po_path_is_relative = (\<lambda>_. False),
     po_fullpath = (\<lambda>q n. if length q < n \<and> 0 \<notin> set q then Some q else None), po_can_open = (\<lambda>_. True),
     po_create_directory = (\<lambda>_ t. (None, Suc t)), po_log_name = (\<lambda>_ _. Some (L ''log'')), po_create_file = (\<lambda>_. None),
     po_create_job = (\<lambda>_. True), po_job_limits = (\<lambda>_. None), po_create_process = (\<lambda>_. Inr 7), po_assign = (\<lambda>_. None),
     po_resume = (\<lambda>_. None), po_exit_code = (\<lambda>_. Some STILL_ACTIVE), po_debugger = (\<lambda>_. Some False), po_tick = word_of_nat,
     po_job_alloc = (\<lambda>_. True), po_job_query = (\<lambda>_ _. (None, 1, [7])), po_worker = 1, po_open_process = (\<lambda>_ _. True),
     po_terminate = (\<lambda>_. None), po_register = (\<lambda>_. True), po_connection = (\<lambda>_. None)\<rparr>"

lemma calm_proc_os_ok:
  "services_ok calm_proc_os (\<lambda>src. if 1000 < length src then None else Some (map ucast src))"
  "tcp_table_ok (po_net calm_proc_os)" "log_ok calm_proc_os"
proof -
  have "wide_cp_ok short_cp (\<lambda>src. if 1000 < length src then None else Some (map ucast src))"
    by (auto simp: wide_cp_ok_def short_cp_def ERROR_INSUFFICIENT_BUFFER_def FAILED_def HRESULT_FROM_WIN32_def)
  then show "services_ok calm_proc_os (\<lambda>src. if 1000 < length src then None else Some (map ucast src))"
    by (auto simp: services_ok_def calm_proc_os_def code_page_ok_def line_fits_def MAXDWORD_def split: if_splits)
  show "tcp_table_ok (po_net calm_proc_os)" using busy_net_ok by (simp add: calm_proc_os_def)
  show "log_ok calm_proc_os" by (simp add: log_ok_def calm_proc_os_def)
qed

lemma calm_limits: "start_limits calm_proc_os (\<lambda>t. t)"
proof -
  have net: "po_net calm_proc_os = busy_net" by (simp add: calm_proc_os_def)
  have c: "tcp_listeners busy_net 1000 t = Some (Inr [(0x0204, 7)], Suc (Suc t))" for t
    by (simp add: tcp_listeners.simps busy_net_def ERROR_INSUFFICIENT_BUFFER_def)
  have nsi: "\<not> net_nsi_missing busy_net" by (simp add: busy_net_def)
  have "case CheckIfServerIsUp busy_net port t of None \<Rightarrow> True | Some (_, _, _, t') \<Rightarrow> t' \<le> t + 600000" for port t
    using nsi by (simp add: CheckIfServerIsUp_def c del: listener_on.simps split: option.split)
  then show ?thesis unfolding start_limits_def net by (auto simp: calm_proc_os_def time_passes_def)
qed

definition calm_world :: proc_world where
  "calm_world = \<lparr>pw_clock = 0, pw_next = 0, pw_open = [], pw_waits = [], pw_killed = [], pw_connections = 0, pw_env = no_entries\<rparr>"

definition fresh_server :: SERVER_PROCESS where
  "fresh_server = (SERVER_PROCESS_new 5000 False)\<lparr>m_pEnvironmentVarTable := et_table no_entries\<rparr>"

lemma fresh_server_ok: "proc_ok 1 1 {#} calm_world fresh_server" "idle fresh_server"
  by (auto simp: fresh_server_def SERVER_PROCESS_new_def calm_world_def proc_ok_def ledger_def owned_def server_wf_def children_ok_def waits_ok_def
      waits_of_def wait_handles_def idle_def stru_inv_new stra_inv_new MAX_ACTIVE_CHILD_PROCESSES_def)

lemma StartProcess_returns_witness:
  "case StartProcess calm_proc_os 1 calm_world fresh_server of None \<Rightarrow> False
   | Some (hr, w', p') \<Rightarrow> \<exists>leaked. size leaked \<le> 1 \<and>
    mset (pw_open w') = owned p' + leaked \<and> int (length (waits_of 1 w')) + 1 \<le> m_cRefs p'"
proof -
  have et: "et_next no_entries = 0" by (simp add: no_entries_def)
  have "config_ok (2 * (Count (m_pEnvironmentVarTable fresh_server) + 6)) (pw_env calm_world) (m_pEnvironmentVarTable fresh_server)"
    using no_entries_ok(1-3) et by (simp add: config_ok_def fresh_server_def SERVER_PROCESS_new_def calm_world_def MAXDWORD_def)
  from StartProcess_returns [OF fresh_server_ok _ _ calm_proc_os_ok this, of "\<lambda>t. t"] calm_limits
  show ?thesis by (fastforce simp: fresh_server_def SERVER_PROCESS_new_def start_limit_def)
qed

lemma child_loop_fits:
  assumes "m_cChildProcess p \<le> MAX_ACTIVE_CHILD_PROCESSES"
  shows "(child_loop os ids w p \<noteq> None) = (m_cChildProcess p +
    length (filter (\<lambda>pid. pid \<noteq> m_dwProcessId p \<and> pid \<noteq> po_worker os) ids) \<le> MAX_ACTIVE_CHILD_PROCESSES)"
  using assms
proof (induction os ids w p rule: child_loop.induct)
  case (2 os pid ids w p)
  show ?case
  proof (cases "pid \<noteq> m_dwProcessId p \<and> pid \<noteq> po_worker os")
    case True
    obtain h w1 where o: "open_process os pid w = (h, w1)" by force
    show ?thesis
    proof (cases "m_cChildProcess p < MAX_ACTIVE_CHILD_PROCESSES")
      case fits: True
      then show ?thesis
        using True o "2.IH"(1) [OF True refl o [symmetric] refl] by (simp add: Let_def)
    qed (use True o "2.prems" in \<open>simp add: Let_def\<close>)
  next
    case False
    then show ?thesis using "2.IH"(2) [OF False] "2.prems" by auto
  qed
qed simp

text \<open>
  C18: the arrays for the child processes: the list of ids is checked against their size, but each
  start check appends to the children already counted, so \<open>GetChildProcessHandles\<close> stays inside the arrays
  exactly when the earlier children and the new ones together fit; a second attempt with more than
  eight children writes behind the array.
\<close>

theorem GetChildProcessHandles_bounds:
  assumes "job_processes os (pw_clock w) = (Inr ids, t')" "m_cChildProcess p \<le> MAX_ACTIVE_CHILD_PROCESSES"
  shows "length ids \<le> MAX_ACTIVE_CHILD_PROCESSES \<and>
    (GetChildProcessHandles os w p \<noteq> None) = (m_cChildProcess p +
       length (filter (\<lambda>pid. pid \<noteq> m_dwProcessId p \<and> pid \<noteq> po_worker os) ids) \<le> MAX_ACTIVE_CHILD_PROCESSES)"
  using job_processes_spec(3) [OF assms(1)] child_loop_fits [OF assms(2)] assms(1)
  by (simp_all add: GetChildProcessHandles_def)

definition crowded_os :: proc_os where
  "crowded_os = calm_proc_os\<lparr>po_job_query := (\<lambda>_ _. (None, 10, [7, 8, 9, 10, 11, 12, 13, 14, 15, 16]))\<rparr>"

lemma GetChildProcessHandles_bounds_witness:
  "GetChildProcessHandles crowded_os calm_world (fresh_server\<lparr>m_dwProcessId := 7\<rparr>) \<noteq> None \<and>
   GetChildProcessHandles crowded_os calm_world (fresh_server\<lparr>m_dwProcessId := 7, m_cChildProcess := 9\<rparr>) = None"
proof -
  have j: "job_processes crowded_os (pw_clock calm_world) = (Inr [7, 8, 9, 10, 11, 12, 13, 14, 15, 16], 1)"
    by (simp add: job_processes_def job_list_loop.simps crowded_os_def calm_proc_os_def calm_world_def MAX_ACTIVE_CHILD_PROCESSES_def)
  have w: "po_worker crowded_os = 1" "m_cChildProcess fresh_server = 0"
    by (simp_all add: crowded_os_def calm_proc_os_def fresh_server_def SERVER_PROCESS_new_def)
  have "GetChildProcessHandles crowded_os calm_world (fresh_server\<lparr>m_dwProcessId := 7\<rparr>) \<noteq> None"
    using GetChildProcessHandles_bounds [OF j, of "fresh_server\<lparr>m_dwProcessId := 7\<rparr>"] by (simp add: w MAX_ACTIVE_CHILD_PROCESSES_def del: not_None_eq)
  moreover have "GetChildProcessHandles crowded_os calm_world (fresh_server\<lparr>m_dwProcessId := 7, m_cChildProcess := 9\<rparr>) = None"
    using GetChildProcessHandles_bounds [OF j, of "fresh_server\<lparr>m_dwProcessId := 7, m_cChildProcess := 9\<rparr>"] by (simp add: w MAX_ACTIVE_CHILD_PROCESSES_def del: not_None_eq)
  ultimately show ?thesis by simp
qed

end
