(* ===== verification/ProcManager.thy ===== *)
theory ProcManager
  imports ServerStart
begin

section \<open>The manager of the backend processes (RequestHandler/outofprocess)\<close>

text \<open>
  \<open>PROCESS_MANAGER\<close>, the shared part of \<open>SERVER_PROCESS\<close> (references, destructor, the end of a process,
  the shutdown signal) and the use of the manager by \<open>OUT_OF_PROCESS_APPLICATION\<close>. The objects live
  in a store: using an object that has been deleted is a fault (\<open>None\<close>).
\<close>

subsection \<open>State\<close>

text \<open>
  \<open>pm_objects\<close> maps addresses to the live objects. \<open>pm_exits\<close> are the callbacks between their test of
  \<open>m_lStopping\<close> and the lock of the manager, \<open>pm_signals\<close> the threads of \<open>SendSignal\<close> that outlive it;
  both hold a reference to their object. \<open>pm_cRefs\<close> is the count of the manager, which is freed at 0;
  \<open>pm_app\<close> says that the application still points to it. \<open>pm_carries\<close> counts what \<open>InterlockedIncrement64\<close>
  adds to the memory behind the 32 bits of \<open>m_dwRouteToProcessIndex\<close>.
\<close>

record pm_world = proc_world +
  pm_objects :: "nat \<Rightarrow> SERVER_PROCESS option"
  pm_next_object :: nat
  pm_exits :: "nat list"
  pm_signals :: "nat list"
  m_cRapidFailCount :: "32 word"
  m_dwRapidFailTickStart :: DWORD
  m_dwProcessesPerApplication :: DWORD
  m_dwRouteToProcessIndex :: DWORD
  pm_carries :: nat
  m_ppServerProcessList :: "nat option list option"
  m_hNULHandle :: handle
  pm_cRefs :: int
  sm_fWSAStartupDone :: bool
  m_fServerProcessListReady :: bool
  pm_app :: bool

text \<open>The configuration, as far as the manager uses it.\<close>

record ASPNETCORE_CONFIG =
  QueryProcessesPerApplication :: DWORD
  QueryRapidFailsPerMinute :: DWORD
  QueryStartupTimeLimitInMS :: DWORD
  QueryShutdownTimeLimitInMS :: DWORD
  QueryWindowsAuthEnabled :: bool
  QueryBasicAuthEnabled :: bool
  QueryAnonymousAuthEnabled :: bool
  QueryStdoutLogEnabled :: bool
  QueryWebSocketEnabled :: bool
  QueryProcessPath :: STRU
  QueryArguments :: STRU
  QueryStdoutLogFile :: STRU
  QueryApplicationPhysicalPath :: STRU
  QueryApplicationPath :: STRU
  QueryApplicationVirtualPath :: STRU
  QueryEnvironmentVariables :: "nat HASH_TABLE"

text \<open>The services in addition to those of a single process; an error code is what \<open>GetLastError\<close> returns.\<close>

record pm_os =
  pm_proc :: proc_os
  pm_garbage :: DWORD
  pm_wsa_startup :: "nat \<Rightarrow> DWORD"
  pm_create_nul :: "nat \<Rightarrow> DWORD option"
  pm_new_list :: "nat \<Rightarrow> bool"
  pm_new_process :: "nat \<Rightarrow> bool"
  http_open :: "nat \<Rightarrow> DWORD option"
  http_connect :: "nat \<Rightarrow> DWORD \<Rightarrow> DWORD option"
  http_request :: "nat \<Rightarrow> wstr \<Rightarrow> DWORD option"
  http_timeouts :: "nat \<Rightarrow> DWORD \<Rightarrow> DWORD option"
  http_send :: "nat \<Rightarrow> wstr \<Rightarrow> DWORD option"
  http_receive :: "nat \<Rightarrow> DWORD option"
  http_status :: "nat \<Rightarrow> DWORD + DWORD"
  sg_open_process :: "nat \<Rightarrow> bool"
  sg_create_thread :: "nat \<Rightarrow> bool"
  sg_thread_stuck :: "nat \<Rightarrow> bool"
  sg_exited :: "nat \<Rightarrow> bool"
  sg_attach_console :: "nat \<Rightarrow> bool"
  sg_ctrl_event :: "nat \<Rightarrow> bool"

definition ERROR_SERVER_DISABLED :: DWORD where "ERROR_SERVER_DISABLED = 1341"
definition ERROR_TIMEOUT :: DWORD where "ERROR_TIMEOUT = 1460"
definition ONE_MINUTE_IN_MILLISECONDS :: DWORD where "ONE_MINUTE_IN_MILLISECONDS = 60000"

subsection \<open>References\<close>

definition put_object :: "nat \<Rightarrow> SERVER_PROCESS \<Rightarrow> 'a pm_world_scheme \<Rightarrow> 'a pm_world_scheme" where
  "put_object a p w = w\<lparr>pm_objects := (pm_objects w)(a \<mapsto> p)\<rparr>"

definition ReferenceProcessManager :: "'a pm_world_scheme \<Rightarrow> 'a pm_world_scheme option" where
  "ReferenceProcessManager w = (if 0 < pm_cRefs w then Some (w\<lparr>pm_cRefs := pm_cRefs w + 1\<rparr>) else None)"

definition DereferenceProcessManager :: "'a pm_world_scheme \<Rightarrow> 'a pm_world_scheme option" where
  "DereferenceProcessManager w = (if 0 < pm_cRefs w then Some (w\<lparr>pm_cRefs := pm_cRefs w - 1\<rparr>) else None)"

text \<open>The destructor; the memory is free afterwards.\<close>

definition delete_process :: "nat \<Rightarrow> 'a pm_world_scheme \<Rightarrow> 'a pm_world_scheme option" where
  "delete_process a w = do {
     p \<leftarrow> pm_objects w a;
     (w1, _) \<leftarrow> destroy_handles w p;
     w2 \<leftarrow> DereferenceProcessManager w1;
     Some (w2\<lparr>pm_objects := (pm_objects w2)(a := None)\<rparr>)
   }"

definition ReferenceServerProcess :: "nat \<Rightarrow> 'a pm_world_scheme \<Rightarrow> 'a pm_world_scheme option" where
  "ReferenceServerProcess a w = do {
     p \<leftarrow> pm_objects w a;
     Some (put_object a (p\<lparr>m_cRefs := m_cRefs p + 1\<rparr>) w)
   }"

definition DereferenceServerProcess :: "nat \<Rightarrow> 'a pm_world_scheme \<Rightarrow> 'a pm_world_scheme option" where
  "DereferenceServerProcess a w = do {
     p \<leftarrow> pm_objects w a;
     (let w1 = put_object a (p\<lparr>m_cRefs := m_cRefs p - 1\<rparr>) w
      in if m_cRefs p = 1 then delete_process a w1 else Some w1)
   }"

subsection \<open>Stopping a process\<close>

definition IncrementRapidFailCount :: "'a pm_world_scheme \<Rightarrow> 'a pm_world_scheme option" where
  "IncrementRapidFailCount w = (if 0 < pm_cRefs w then Some (w\<lparr>m_cRapidFailCount := m_cRapidFailCount w + 1\<rparr>) else None)"

definition StopProcess :: "nat \<Rightarrow> 'a pm_world_scheme \<Rightarrow> 'a pm_world_scheme option" where
  "StopProcess a w = do {
     p \<leftarrow> pm_objects w a;
     w1 \<leftarrow> IncrementRapidFailCount w;
     (w2, p') \<leftarrow> stop_handles w1 p;
     Some (put_object a p' w2)
   }"

text \<open>The process handle is dropped without being closed.\<close>

definition drop_process :: "nat \<Rightarrow> 'a pm_world_scheme \<Rightarrow> 'a pm_world_scheme option" where
  "drop_process a w = do {
     p \<leftarrow> pm_objects w a;
     (if m_hProcessHandle p \<noteq> NULL_HANDLE \<and> m_hProcessHandle p \<noteq> INVALID_HANDLE_VALUE
      then Some (put_object a (p\<lparr>m_hProcessHandle := NULL_HANDLE\<rparr>) (TerminateProcess (m_hProcessHandle p) w))
      else Some w)
   }"

definition drop_wait :: "nat \<Rightarrow> 'a pm_world_scheme \<Rightarrow> 'a pm_world_scheme option" where
  "drop_wait a w = do {
     p \<leftarrow> pm_objects w a;
     (if m_hProcessWaitHandle p = NULL_HANDLE then Some w
      else do {
        w1 \<leftarrow> DereferenceServerProcess a (UnregisterWait (m_hProcessWaitHandle p) w);
        p1 \<leftarrow> pm_objects w1 a;
        Some (put_object a (p1\<lparr>m_hProcessWaitHandle := NULL_HANDLE\<rparr>) w1)
      })
   }"

definition TerminateBackendProcess :: "nat \<Rightarrow> 'a pm_world_scheme \<Rightarrow> 'a pm_world_scheme option" where
  "TerminateBackendProcess a w = do {
     p \<leftarrow> pm_objects w a;
     (if m_lStopping p \<noteq> 0 then Some w
      else do {
        w1 \<leftarrow> drop_wait a (put_object a (p\<lparr>m_lStopping := 1\<rparr>) w);
        drop_process a w1
      })
   }"

subsection \<open>The shutdown signal\<close>

text \<open>The result carries the request that was sent, when one was sent.\<close>

definition shutdown_url :: "wheap \<Rightarrow> STRU \<Rightarrow> STRU option" where
  "shutdown_url heap vpath = do {
     (_, s) \<leftarrow> (if 1 < QueryCCH vpath then STRU_CopyS heap vpath STRU_new else Some (S_OK, STRU_new));
     (_, s) \<leftarrow> STRU_Append heap (L ''/iisintegration'') s;
     Some s
   }"

definition shutdown_headers :: "env_os \<Rightarrow> code_page \<Rightarrow> STRA \<Rightarrow> (HRESULT \<times> STRU) option" where
  "shutdown_headers os acp g = do {
     (hr, strHeaders) \<leftarrow> STRU_Append (os_heap os) (L ''MS-ASPNETCORE-EVENT:shutdown '' @ [13, 10]) (stack_stru os 256);
     (if FAILED hr then Some (hr, strHeaders)
      else do {
        (hr, strAppToken) \<leftarrow> STRU_Append (os_heap os) (L ''MS-ASPNETCORE-TOKEN:'') STRU_new;
        (if FAILED hr then Some (hr, strHeaders)
         else do {
           guid \<leftarrow> cstr (a_str g);
           (hr, strAppToken) \<leftarrow> STRU_AppendA (os_heap os) acp (Some guid) strAppToken;
           (if FAILED hr then Some (hr, strHeaders) else STRU_Append (os_heap os) (c_text strAppToken) strHeaders)
         })
      })
   }"

definition SendShutdownHttpMessage :: "pm_os \<Rightarrow> nat \<Rightarrow> SERVER_PROCESS \<Rightarrow> (HRESULT \<times> (wstr \<times> wstr) option) option" where
  "SendShutdownHttpMessage os t p =
     (case http_open os t of
        Some err \<Rightarrow> Some (HRESULT_FROM_WIN32 err, None)
      | None \<Rightarrow>
     case http_connect os t (m_dwPort p AND 0xFFFF) of
        Some err \<Rightarrow> Some (HRESULT_FROM_WIN32 err, None)
      | None \<Rightarrow> do {
     strUrl \<leftarrow> shutdown_url (os_heap (po_env (pm_proc os))) (m_struAppVirtualPath p);
     (case http_request os t (c_text strUrl) of
        Some err \<Rightarrow> Some (HRESULT_FROM_WIN32 err, None)
      | None \<Rightarrow>
     case http_timeouts os t (m_dwShutdownTimeLimitInMS p) of
        Some err \<Rightarrow> Some (HRESULT_FROM_WIN32 err, None)
      | None \<Rightarrow> do {
     (hr, strHeaders) \<leftarrow> shutdown_headers (po_env (pm_proc os)) (po_acp (pm_proc os)) (m_straGuid p);
     (if FAILED hr then Some (hr, None)
      else case http_send os t (take (QueryCCH strHeaders) (QueryStr strHeaders)) of
        Some err \<Rightarrow> Some (HRESULT_FROM_WIN32 err, None)
      | None \<Rightarrow>
          (let sent = Some (c_text strUrl, take (QueryCCH strHeaders) (QueryStr strHeaders))
           in case http_receive os t of
                Some err \<Rightarrow> Some (HRESULT_FROM_WIN32 err, sent)
              | None \<Rightarrow>
             case http_status os t of
                Inl err \<Rightarrow> Some (HRESULT_FROM_WIN32 err, sent)
              | Inr dwStatusCode \<Rightarrow> Some (if dwStatusCode \<noteq> 202 then E_FAIL else hr, sent)))
     })
     })"

text \<open>
  \<open>SendShutDownSignalInternal\<close> after it has taken its reference: the message, and when it fails the
  control event, and when that fails the end of the process.
\<close>

definition signal_rest :: "pm_os \<Rightarrow> nat \<Rightarrow> 'a pm_world_scheme \<Rightarrow> 'a pm_world_scheme option" where
  "signal_rest os a w = do {
     p \<leftarrow> pm_objects w a;
     (let t = pw_clock w
      in do {
        (hr, _) \<leftarrow> SendShutdownHttpMessage os t p;
        w1 \<leftarrow> (if FAILED hr \<and> \<not> (sg_attach_console os t \<and> sg_ctrl_event os t) then TerminateBackendProcess a (later w)
               else Some (later w));
        DereferenceServerProcess a w1
      })
   }"

definition SendShutDownSignalInternal :: "pm_os \<Rightarrow> nat \<Rightarrow> 'a pm_world_scheme \<Rightarrow> 'a pm_world_scheme option" where
  "SendShutDownSignalInternal os a w = ReferenceServerProcess a w \<bind> signal_rest os a"

text \<open>
  The thread either has done its work when the wait of \<open>SendSignal\<close> ends, or it hangs in the message
  holding its reference: then it is terminated when the process has not exited in time, and goes on
  by itself otherwise. The boolean says whether \<open>SendSignal\<close> has failed.
\<close>

definition signal_thread :: "pm_os \<Rightarrow> nat \<Rightarrow> 'a pm_world_scheme \<Rightarrow> (bool \<times> 'a pm_world_scheme) option" where
  "signal_thread os a w =
     (if \<not> sg_create_thread os (pw_clock w) then Some (True, later w)
      else let (hThread, w1) = new_handle (later w); stuck = sg_thread_stuck os (pw_clock w1)
           in do {
             w2 \<leftarrow> (if stuck then ReferenceServerProcess a w1 else SendShutDownSignalInternal os a w1);
             (let exited = sg_exited os (pw_clock w2)
              in do {
                w3 \<leftarrow> CloseHandle hThread (later w2);
                Some (\<not> exited, if exited \<and> stuck then w3\<lparr>pm_signals := a # pm_signals w3\<rparr> else w3)
              })
           })"

definition open_shutdown :: "pm_os \<Rightarrow> nat \<Rightarrow> 'a pm_world_scheme \<Rightarrow> (bool \<times> 'a pm_world_scheme) option" where
  "open_shutdown os a w = do {
     p \<leftarrow> pm_objects w a;
     (let (h, w1) = (if sg_open_process os (pw_clock w) then new_handle (later w) else (NULL_HANDLE, later w))
      in Some (h \<noteq> NULL_HANDLE, put_object a (p\<lparr>m_hShutdownHandle := h\<rparr>) w1))
   }"

definition close_shutdown :: "nat \<Rightarrow> 'a pm_world_scheme \<Rightarrow> 'a pm_world_scheme option" where
  "close_shutdown a w = do {
     p \<leftarrow> pm_objects w a;
     (if m_hShutdownHandle p \<noteq> NULL_HANDLE \<and> m_hShutdownHandle p \<noteq> INVALID_HANDLE_VALUE
      then do {
        w1 \<leftarrow> CloseHandle (m_hShutdownHandle p) w;
        Some (put_object a (p\<lparr>m_hShutdownHandle := NULL_HANDLE\<rparr>) w1)
      }
      else Some w)
   }"

definition SendSignal :: "pm_os \<Rightarrow> nat \<Rightarrow> 'a pm_world_scheme \<Rightarrow> 'a pm_world_scheme option" where
  "SendSignal os a w = do {
     w1 \<leftarrow> ReferenceServerProcess a w;
     (opened, w2) \<leftarrow> open_shutdown os a w1;
     (failed, w3) \<leftarrow> (if opened then signal_thread os a w2 else Some (True, w2));
     w4 \<leftarrow> (if failed then TerminateBackendProcess a w3 else Some w3);
     w5 \<leftarrow> close_shutdown a w4;
     DereferenceServerProcess a w5
   }"

subsection \<open>The list of processes\<close>

text \<open>The entry of a slot, when there is a list; an index outside the list is a fault.\<close>

definition list_entry :: "'a pm_world_scheme \<Rightarrow> nat \<Rightarrow> nat option option" where
  "list_entry w i = (case m_ppServerProcessList w of None \<Rightarrow> Some None | Some ps \<Rightarrow> load_at ps i)"

definition clear_entry :: "nat \<Rightarrow> 'a pm_world_scheme \<Rightarrow> 'a pm_world_scheme" where
  "clear_entry i w = w\<lparr>m_ppServerProcessList := map_option (\<lambda>ps. ps[i := None]) (m_ppServerProcessList w)\<rparr>"

fun each_slot :: "(nat \<Rightarrow> 'w \<Rightarrow> 'w option) \<Rightarrow> nat list \<Rightarrow> 'w \<Rightarrow> 'w option" where
  "each_slot f [] w = Some w"
| "each_slot f (i # is) w = f i w \<bind> each_slot f is"

definition shutdown_slot :: "nat \<Rightarrow> nat \<Rightarrow> 'a pm_world_scheme \<Rightarrow> 'a pm_world_scheme option" where
  "shutdown_slot pServerProcess i w = do {
     e \<leftarrow> list_entry w i;
     (case e of
        None \<Rightarrow> Some w
      | Some a \<Rightarrow> do {
          p \<leftarrow> pm_objects w a;
          q \<leftarrow> pm_objects w pServerProcess;
          (if m_dwPort p \<noteq> m_dwPort q then Some w
           else do {
             w1 \<leftarrow> StopProcess a w;
             w2 \<leftarrow> DereferenceServerProcess a w1;
             Some (clear_entry i w2)
           })
        })
   }"

definition ShutdownProcessNoLock :: "nat \<Rightarrow> 'a pm_world_scheme \<Rightarrow> 'a pm_world_scheme option" where
  "ShutdownProcessNoLock pServerProcess w =
     each_slot (shutdown_slot pServerProcess) [0..<unat (m_dwProcessesPerApplication w)] w"

definition ShutdownProcess :: "nat \<Rightarrow> 'a pm_world_scheme \<Rightarrow> 'a pm_world_scheme option" where
  "ShutdownProcess pServerProcess w = (if 0 < pm_cRefs w then ShutdownProcessNoLock pServerProcess w else None)"

definition signal_slot :: "pm_os \<Rightarrow> nat \<Rightarrow> 'a pm_world_scheme \<Rightarrow> 'a pm_world_scheme option" where
  "signal_slot os i w = do {
     e \<leftarrow> list_entry w i;
     (case e of
        None \<Rightarrow> Some w
      | Some a \<Rightarrow> do {
          w1 \<leftarrow> SendSignal os a w;
          w2 \<leftarrow> DereferenceServerProcess a w1;
          Some (clear_entry i w2)
        })
   }"

definition ShutdownAllProcessesNoLock :: "pm_os \<Rightarrow> 'a pm_world_scheme \<Rightarrow> 'a pm_world_scheme option" where
  "ShutdownAllProcessesNoLock os w = each_slot (signal_slot os) [0..<unat (m_dwProcessesPerApplication w)] w"

definition ShutdownAllProcesses :: "pm_os \<Rightarrow> 'a pm_world_scheme \<Rightarrow> 'a pm_world_scheme option" where
  "ShutdownAllProcesses os w = (if 0 < pm_cRefs w then ShutdownAllProcessesNoLock os w else None)"

text \<open>\<open>SendShutdownSignal\<close> has the same body as \<open>ShutdownAllProcesses\<close>.\<close>

definition SendShutdownSignal :: "pm_os \<Rightarrow> 'a pm_world_scheme \<Rightarrow> 'a pm_world_scheme option" where
  "SendShutdownSignal os w =
     (if 0 < pm_cRefs w then each_slot (signal_slot os) [0..<unat (m_dwProcessesPerApplication w)] w else None)"

subsection \<open>The end of a process\<close>

text \<open>
  The callback of a wait, in two steps: the wait is over and \<open>m_lStopping\<close> is taken; then the manager shuts
  the process down and the reference of the callback is released.
\<close>

definition exit_begins :: "handle \<Rightarrow> nat \<Rightarrow> 'a pm_world_scheme \<Rightarrow> 'a pm_world_scheme option" where
  "exit_begins h a w = do {
     p \<leftarrow> pm_objects w a;
     (let w1 = w\<lparr>pw_waits := remove1 (h, a) (pw_waits w)\<rparr>
      in Some (if m_lStopping p = 0 then (put_object a (p\<lparr>m_lStopping := 1\<rparr>) w1)\<lparr>pm_exits := a # pm_exits w\<rparr> else w1))
   }"

definition exit_ends :: "pm_os \<Rightarrow> nat \<Rightarrow> 'a pm_world_scheme \<Rightarrow> 'a pm_world_scheme option" where
  "exit_ends os a w = do {
     p \<leftarrow> pm_objects w a;
     (hr, dwProcessId, fReady, t) \<leftarrow> CheckIfServerIsUp (po_net (pm_proc os)) (m_dwPort p) (pw_clock w);
     w1 \<leftarrow> (if \<not> fReady then ShutdownProcess a (w\<lparr>pw_clock := t\<rparr>) else Some (w\<lparr>pw_clock := t\<rparr>));
     DereferenceServerProcess a (w1\<lparr>pm_exits := remove1 a (pm_exits w1)\<rparr>)
   }"

definition HandleProcessExit :: "pm_os \<Rightarrow> handle \<Rightarrow> nat \<Rightarrow> 'a pm_world_scheme \<Rightarrow> 'a pm_world_scheme option" where
  "HandleProcessExit os h a w = do {
     p \<leftarrow> pm_objects w a;
     w1 \<leftarrow> exit_begins h a w;
     (if m_lStopping p = 0 then exit_ends os a w1 else Some w1)
   }"

subsection \<open>Getting a process\<close>

text \<open>The count of failures starts again every minute; the comparison is one of signed numbers.\<close>

definition RapidFailsPerMinuteExceeded :: "pm_os \<Rightarrow> DWORD \<Rightarrow> 'a pm_world_scheme \<Rightarrow> bool \<times> 'a pm_world_scheme" where
  "RapidFailsPerMinuteExceeded os dwRapidFailsPerMinute w =
     (let dwCurrentTickCount = po_tick (pm_proc os) (pw_clock w);
          w1 = (if ONE_MINUTE_IN_MILLISECONDS \<le> dwCurrentTickCount - m_dwRapidFailTickStart w
                then w\<lparr>m_cRapidFailCount := 0, m_dwRapidFailTickStart := dwCurrentTickCount\<rparr> else w)
      in (sint dwRapidFailsPerMinute < sint (m_cRapidFailCount w1), later w1))"

text \<open>\<open>SERVER_PROCESS::Initialize\<close>.\<close>

fun copy_settings :: "wheap \<Rightarrow> (STRU \<times> (STRU \<Rightarrow> SERVER_PROCESS \<Rightarrow> SERVER_PROCESS) \<times> (SERVER_PROCESS \<Rightarrow> STRU)) list \<Rightarrow> SERVER_PROCESS \<Rightarrow>
    (HRESULT \<times> SERVER_PROCESS) option" where
  "copy_settings heap [] p = Some (S_OK, p)"
| "copy_settings heap ((src, upd, get) # rest) p = do {
     (hr, s) \<leftarrow> STRU_CopyS heap src (get p);
     (if FAILED hr then Some (hr, upd s p) else copy_settings heap rest (upd s p))
   }"

definition initialize_strings :: "wheap \<Rightarrow> ASPNETCORE_CONFIG \<Rightarrow> SERVER_PROCESS \<Rightarrow> (HRESULT \<times> SERVER_PROCESS) option" where
  "initialize_strings heap cfg = copy_settings heap
     [(QueryProcessPath cfg, \<lambda>s p. p\<lparr>m_ProcessPath := s\<rparr>, m_ProcessPath),
      (QueryStdoutLogFile cfg, \<lambda>s p. p\<lparr>m_struLogFile := s\<rparr>, m_struLogFile),
      (QueryApplicationPhysicalPath cfg, \<lambda>s p. p\<lparr>m_struPhysicalPath := s\<rparr>, m_struPhysicalPath),
      (QueryApplicationPath cfg, \<lambda>s p. p\<lparr>m_struAppFullPath := s\<rparr>, m_struAppFullPath),
      (QueryApplicationVirtualPath cfg, \<lambda>s p. p\<lparr>m_struAppVirtualPath := s\<rparr>, m_struAppVirtualPath),
      (QueryArguments cfg, \<lambda>s p. p\<lparr>m_Arguments := s\<rparr>, m_Arguments)]"

definition SERVER_PROCESS_Initialize :: "pm_os \<Rightarrow> ASPNETCORE_CONFIG \<Rightarrow> 'a pm_world_scheme \<Rightarrow> SERVER_PROCESS \<Rightarrow>
    (HRESULT \<times> 'a pm_world_scheme \<times> SERVER_PROCESS) option" where
  "SERVER_PROCESS_Initialize os cfg w p =
     (let p1 = p\<lparr>m_dwStartupTimeLimitInMS := QueryStartupTimeLimitInMS cfg, m_dwShutdownTimeLimitInMS := QueryShutdownTimeLimitInMS cfg,
                 m_fStdoutLogEnabled := QueryStdoutLogEnabled cfg, m_fWindowsAuthEnabled := QueryWindowsAuthEnabled cfg,
                 m_fBasicAuthEnabled := QueryBasicAuthEnabled cfg, m_fAnonymousAuthEnabled := QueryAnonymousAuthEnabled cfg,
                 m_fWebsocketsEnabled := QueryWebSocketEnabled cfg, m_fDebuggerAttached := False\<rparr>
      in do {
        w1 \<leftarrow> ReferenceProcessManager w;
        (hr, p2) \<leftarrow> initialize_strings (os_heap (po_env (pm_proc os))) cfg p1;
        (if FAILED hr then Some (hr, w1, p2)
         else let (hr, w2, p3) = SetupJobObject (pm_proc os) w1 p2
              in Some (hr, w2, if FAILED hr then p3 else p3\<lparr>m_pEnvironmentVarTable := QueryEnvironmentVariables cfg\<rparr>))
      })"

text \<open>The list is made once; its length is the number of processes at that time.\<close>

definition make_list :: "pm_os \<Rightarrow> ASPNETCORE_CONFIG \<Rightarrow> 'a pm_world_scheme \<Rightarrow> HRESULT \<times> 'a pm_world_scheme" where
  "make_list os cfg w =
     (if m_fServerProcessListReady w then (S_OK, w)
      else let n = QueryProcessesPerApplication cfg; w1 = w\<lparr>m_dwProcessesPerApplication := n\<rparr>
           in if \<not> pm_new_list os (pw_clock w) then (E_OUTOFMEMORY, later w1)
              else (S_OK, later (w1\<lparr>m_ppServerProcessList := Some (replicate (unat n) None), m_fServerProcessListReady := True\<rparr>)))"

text \<open>Round robin: the increment is one of 64 bits on a field of 32 bits.\<close>

definition next_route :: "'a pm_world_scheme \<Rightarrow> DWORD \<times> 'a pm_world_scheme" where
  "next_route w =
     (let r = m_dwRouteToProcessIndex w + 1
      in (r, w\<lparr>m_dwRouteToProcessIndex := r, pm_carries := pm_carries w + (if r = 0 then 1 else 0)\<rparr>))"

text \<open>
  A new process: it is published only when it has been started and is ready; otherwise it is deleted.
  The result is the code, the address when it is published, and the state.
\<close>

definition start_new :: "pm_os \<Rightarrow> ASPNETCORE_CONFIG \<Rightarrow> 'a pm_world_scheme \<Rightarrow> (HRESULT \<times> nat option \<times> 'a pm_world_scheme) option" where
  "start_new os cfg w =
     (if \<not> pm_new_process os (pw_clock w) then Some (E_OUTOFMEMORY, None, later w)
      else let a = pm_next_object w; w1 = (later w)\<lparr>pm_next_object := Suc a\<rparr>
           in do {
             (hr, w2, p) \<leftarrow> SERVER_PROCESS_Initialize os cfg w1 (SERVER_PROCESS_new (pm_garbage os) False);
             (if FAILED hr then map_option (\<lambda>w. (hr, None, w)) (delete_process a (put_object a p w2))
              else do {
                (hr, w3, p') \<leftarrow> StartProcess (pm_proc os) a w2 p;
                (if FAILED hr then map_option (\<lambda>w. (hr, None, w)) (delete_process a (put_object a p' w3))
                 else if \<not> m_fReady p'
                 then map_option (\<lambda>w. (HRESULT_FROM_WIN32 ERROR_CREATE_FAILED, None, w)) (delete_process a (put_object a p' w3))
                 else Some (hr, Some a, put_object a p' w3))
              })
           })"

text \<open>
  A process for the slot \<open>i\<close>, when not too many have failed. An entry that is still there makes the code
  ask a null pointer whether it is ready.
\<close>

definition start_in_slot :: "pm_os \<Rightarrow> ASPNETCORE_CONFIG \<Rightarrow> nat \<Rightarrow> 'a pm_world_scheme \<Rightarrow>
    (HRESULT \<times> nat option \<times> 'a pm_world_scheme) option" where
  "start_in_slot os cfg i w =
     (case RapidFailsPerMinuteExceeded os (QueryRapidFailsPerMinute cfg) w of
        (True, w1) \<Rightarrow> Some (HRESULT_FROM_WIN32 ERROR_SERVER_DISABLED, None, w1)
      | (False, w1) \<Rightarrow> do {
          e \<leftarrow> list_entry w1 i;
          (if e \<noteq> None then None
           else do {
             (hr, r, w2) \<leftarrow> start_new os cfg w1;
             (case r of
                None \<Rightarrow> Some (hr, None, w2)
              | Some a \<Rightarrow> Some (hr, Some a, w2\<lparr>m_ppServerProcessList := map_option (\<lambda>ps. ps[i := Some a]) (m_ppServerProcessList w2)\<rparr>))
           })
        })"

text \<open>The part of \<open>GetProcess\<close> under the exclusive lock: an entry is looked at again, and shut down when it is not ready.\<close>

definition replace_process :: "pm_os \<Rightarrow> ASPNETCORE_CONFIG \<Rightarrow> nat \<Rightarrow> 'a pm_world_scheme \<Rightarrow>
    (HRESULT \<times> nat option \<times> 'a pm_world_scheme) option" where
  "replace_process os cfg i w = do {
     e \<leftarrow> list_entry w i;
     (case e of
        None \<Rightarrow> start_in_slot os cfg i w
      | Some a \<Rightarrow> do {
          p \<leftarrow> pm_objects w a;
          (if m_fReady p then Some (S_OK, Some a, w) else ShutdownProcessNoLock a w \<bind> start_in_slot os cfg i)
        })
   }"

text \<open>The two locked parts and the look in between are one step here.\<close>

definition GetProcess :: "pm_os \<Rightarrow> ASPNETCORE_CONFIG \<Rightarrow> 'a pm_world_scheme \<Rightarrow> (HRESULT \<times> nat option \<times> 'a pm_world_scheme) option" where
  "GetProcess os cfg w =
     (if pm_cRefs w \<le> 0 then None
      else let (hr, w1) = make_list os cfg w
           in if FAILED hr then Some (hr, None, w1)
              else let (dwProcessIndex, w2) = next_route w1
                   in if m_dwProcessesPerApplication w2 = 0 then None
                      else let i = unat (dwProcessIndex mod m_dwProcessesPerApplication w2)
                           in do {
                             e \<leftarrow> list_entry w2 i;
                             (case e of
                                None \<Rightarrow> replace_process os cfg i w2
                              | Some a \<Rightarrow> do {
                                  p \<leftarrow> pm_objects w2 a;
                                  (if m_fReady p then Some (S_OK, Some a, w2) else replace_process os cfg i w2)
                                })
                           })"

subsection \<open>The manager and the application\<close>

definition PROCESS_MANAGER_Initialize :: "pm_os \<Rightarrow> 'a pm_world_scheme \<Rightarrow> HRESULT \<times> 'a pm_world_scheme" where
  "PROCESS_MANAGER_Initialize os w =
     (let err = (if sm_fWSAStartupDone w then 0 else pm_wsa_startup os (pw_clock w))
      in if err \<noteq> 0 then (HRESULT_FROM_WIN32 err, later w)
         else let w1 = (later w)\<lparr>sm_fWSAStartupDone := True, m_dwRapidFailTickStart := po_tick (pm_proc os) (pw_clock w)\<rparr>
              in if m_hNULHandle w \<noteq> NULL_HANDLE then (S_OK, w1)
                 else case pm_create_nul os (pw_clock w) of
                   Some err \<Rightarrow> (HRESULT_FROM_WIN32 err, w1\<lparr>m_hNULHandle := INVALID_HANDLE_VALUE\<rparr>)
                 | None \<Rightarrow> (let (h, w2) = new_handle w1 in (S_OK, w2\<lparr>m_hNULHandle := h\<rparr>)))"

text \<open>The constructor of the manager, which \<open>OUT_OF_PROCESS_APPLICATION::Initialize\<close> runs.\<close>

definition PROCESS_MANAGER_new :: "proc_world \<Rightarrow> DWORD \<Rightarrow> bool \<Rightarrow> pm_world" where
  "PROCESS_MANAGER_new w garbage started = proc_world.extend w
     \<lparr>pm_objects = (\<lambda>_. None), pm_next_object = 0, pm_exits = [], pm_signals = [], m_cRapidFailCount = 0,
      m_dwRapidFailTickStart = garbage, m_dwProcessesPerApplication = 1, m_dwRouteToProcessIndex = 0, pm_carries = 0,
      m_ppServerProcessList = None, m_hNULHandle = NULL_HANDLE, pm_cRefs = 1, sm_fWSAStartupDone = started,
      m_fServerProcessListReady = False, pm_app = True\<rparr>"

text \<open>The application: after \<open>ShutDown\<close> its pointer to the manager is null, which \<open>GetProcess\<close> does not test.\<close>

definition APPLICATION_GetProcess :: "pm_os \<Rightarrow> ASPNETCORE_CONFIG \<Rightarrow> 'a pm_world_scheme \<Rightarrow> (HRESULT \<times> nat option \<times> 'a pm_world_scheme) option" where
  "APPLICATION_GetProcess os cfg w = (if pm_app w then GetProcess os cfg w else None)"

definition APPLICATION_ShutDown :: "pm_os \<Rightarrow> 'a pm_world_scheme \<Rightarrow> 'a pm_world_scheme option" where
  "APPLICATION_ShutDown os w =
     (if pm_app w
      then do {
        w1 \<leftarrow> ShutdownAllProcesses os w;
        w2 \<leftarrow> DereferenceProcessManager w1;
        Some (w2\<lparr>pm_app := False\<rparr>)
      }
      else Some w)"

end
