(* ===== verification/ManagerSafety.thy ===== *)
theory ManagerSafety
  imports ProcManager
begin

section \<open>Safety of the manager\<close>

text \<open>
  The invariant of the store of process objects: how the references, the registered waits, the open
  handles and the list of the manager fit together; every operation of the manager preserves it and
  therefore never uses a deleted object or a closed handle. The events that reach the manager are a
  step relation, and the invariant is lifted to all reachable states.
\<close>

subsection \<open>The invariant of the store\<close>

text \<open>
  \<open>K a\<close> is the number of references to the object at \<open>a\<close> that somebody still has to release, besides the
  ones of the registered waits; \<open>S\<close> are the objects whose shutdown handle is in use, and \<open>R\<close> the handles that
  an operation in progress still has to close.
\<close>

definition object_ok :: "nat set \<Rightarrow> nat \<Rightarrow> nat \<Rightarrow> 'a proc_world_scheme \<Rightarrow> SERVER_PROCESS \<Rightarrow> bool" where
  "object_ok S a k w p \<longleftrightarrow> server_wf p \<and> children_ok p \<and> waits_ok a (int k) w p \<and>
     m_hShutdownHandle p \<noteq> INVALID_HANDLE_VALUE \<and> (a \<notin> S \<longrightarrow> m_hShutdownHandle p = NULL_HANDLE)"

definition owned_by :: "nat set \<Rightarrow> 'a pm_world_scheme \<Rightarrow> handle multiset" where
  "owned_by A w = (\<Sum>a\<in>A. owned (the (pm_objects w a)))"

definition pm_inv :: "handle multiset \<Rightarrow> (nat \<Rightarrow> nat) \<Rightarrow> nat set \<Rightarrow> 'a pm_world_scheme \<Rightarrow> bool" where
  "pm_inv R K S w \<longleftrightarrow> finite (dom (pm_objects w)) \<and> (\<forall>a \<in> dom (pm_objects w). a < pm_next_object w) \<and>
     (\<forall>a. 0 < K a \<longrightarrow> a \<in> dom (pm_objects w)) \<and> (\<forall>(h, a) \<in> set (pw_waits w). a \<in> dom (pm_objects w)) \<and>
     (\<exists>leaked. mset (pw_open w) = owned_by (dom (pm_objects w)) w + leaked \<and> R \<subseteq># leaked) \<and>
     (\<forall>a p. pm_objects w a = Some p \<longrightarrow> object_ok S a (K a) w p) \<and>
     pm_cRefs w = int (card (dom (pm_objects w))) + of_bool (pm_app w)"

lemma pm_invD:
  assumes "pm_inv R K S w"
  shows "finite (dom (pm_objects w))" "pm_objects w a = Some p \<Longrightarrow> a < pm_next_object w" "0 < K a \<Longrightarrow> \<exists>p. pm_objects w a = Some p"
    "(h, a) \<in> set (pw_waits w) \<Longrightarrow> \<exists>p. pm_objects w a = Some p" "pm_objects w a = Some p \<Longrightarrow> object_ok S a (K a) w p"
    "\<exists>leaked. mset (pw_open w) = owned_by (dom (pm_objects w)) w + leaked \<and> R \<subseteq># leaked"
    "pm_cRefs w = int (card (dom (pm_objects w))) + of_bool (pm_app w)"
  using assms by (auto simp: pm_inv_def)

lemma pm_invI:
  assumes "finite (dom (pm_objects w))" "\<And>a p. pm_objects w a = Some p \<Longrightarrow> a < pm_next_object w"
    "\<And>a. 0 < K a \<Longrightarrow> a \<in> dom (pm_objects w)" "\<And>h a. (h, a) \<in> set (pw_waits w) \<Longrightarrow> a \<in> dom (pm_objects w)"
    "mset (pw_open w) = owned_by (dom (pm_objects w)) w + leaked" "R \<subseteq># leaked" "\<And>a p. pm_objects w a = Some p \<Longrightarrow> object_ok S a (K a) w p"
    "pm_cRefs w = int (card (dom (pm_objects w))) + of_bool (pm_app w)"
  shows "pm_inv R K S w"
  using assms unfolding pm_inv_def by blast

text \<open>The handles of one object and the rest.\<close>

lemma owned_by_split:
  assumes "finite (dom (pm_objects w))" "pm_objects w a = Some p"
  shows "owned_by (dom (pm_objects w)) w = owned p + owned_by (dom (pm_objects w) - {a}) w"
  using assms by (simp add: owned_by_def sum.remove [of _ a] domI)

lemma owned_by_cong: "(\<And>b. b \<in> A \<Longrightarrow> pm_objects w' b = pm_objects w b) \<Longrightarrow> owned_by A w' = owned_by A w"
  by (simp add: owned_by_def)

lemma pm_inv_object:
  assumes "pm_inv R K S w" "pm_objects w a = Some p"
  obtains rest where "proc_ok a (int (K a)) rest w p" "a \<notin> S \<longrightarrow> m_hShutdownHandle p = NULL_HANDLE"
    "m_hShutdownHandle p \<noteq> INVALID_HANDLE_VALUE"
    "\<exists>leaked. rest = owned_by (dom (pm_objects w) - {a}) w + leaked \<and> R \<subseteq># leaked"
proof -
  obtain leaked where l: "mset (pw_open w) = owned p + (owned_by (dom (pm_objects w) - {a}) w + leaked)" "R \<subseteq># leaked"
    using pm_invD(6) [OF assms(1)] owned_by_split [OF pm_invD(1) [OF assms(1)] assms(2)] by (auto simp: ac_simps)
  show ?thesis
    by (rule that [of "owned_by (dom (pm_objects w) - {a}) w + leaked"])
      (use l pm_invD(5) [OF assms] in \<open>auto simp: proc_ok_def ledger_def object_ok_def\<close>)
qed

text \<open>What a step on behalf of the object \<open>a\<close> must keep so that it concerns no other object.\<close>

definition local_step :: "nat \<Rightarrow> 'a proc_world_scheme \<Rightarrow> 'a proc_world_scheme \<Rightarrow> bool" where
  "local_step a w w' \<longleftrightarrow> filter (\<lambda>(_, q). q \<noteq> a) (pw_waits w') = filter (\<lambda>(_, q). q \<noteq> a) (pw_waits w) \<and>
     pw_next w \<le> pw_next w' \<and> waits_fresh w w'"

lemma local_step_refl [simp]: "pw_waits w' = pw_waits w \<Longrightarrow> pw_next w \<le> pw_next w' \<Longrightarrow> local_step a w w'"
  by (simp add: local_step_def)

lemma start_frame_local: "start_frame a w p w' p' \<Longrightarrow> local_step a w w'"
  by (simp add: start_frame_def local_step_def)

lemma waits_of_filter: "waits_of b w = filter (\<lambda>(_, q). q = b) (filter (\<lambda>(_, q). q \<noteq> a) (pw_waits w))" if "b \<noteq> a"
proof -
  have "(case x of (_ :: handle, q) \<Rightarrow> q \<noteq> a) \<and> (case x of (_, q) \<Rightarrow> q = b) \<longleftrightarrow> (case x of (_, q) \<Rightarrow> q = b)" for x
    using that by (cases x) auto
  then show ?thesis by (simp add: waits_of_def)
qed

lemma waits_ok_other:
  assumes "waits_ok b k w q" "local_step a w w'" "b \<noteq> a" "\<forall>(h, r) \<in> set (pw_waits w'). old_handle w' h"
  shows "waits_ok b k w' q"
proof -
  note L = assms(2) [unfolded local_step_def]
  have mem: "(h, r) \<in> set (pw_waits w') \<longleftrightarrow> (h, r) \<in> set (pw_waits w)" if "r \<noteq> a" for h r
  proof -
    have "(h, r) \<in> set (filter (\<lambda>(_, q). q \<noteq> a) (pw_waits w')) \<longleftrightarrow> (h, r) \<in> set (filter (\<lambda>(_, q). q \<noteq> a) (pw_waits w))"
      using L by presburger
    then show ?thesis using that by simp
  qed
  have old: "\<forall>h \<in> wait_handles q. old_handle w h" using assms(1) by (simp add: waits_ok_def)
  have iff: "h \<in> wait_handles q \<longleftrightarrow> r = b" if hr: "(h, r) \<in> set (pw_waits w')" for h r
  proof (cases "(h, r) \<in> set (pw_waits w)")
    case True
    then show ?thesis using assms(1) by (auto simp: waits_ok_def)
  next
    case False
    then have "r = a" using mem hr by blast
    moreover have "\<not> old_handle w h" using L hr False by (auto simp: waits_fresh_def)
    ultimately show ?thesis using old assms(3) by blast
  qed
  have len: "length (waits_of b w') = length (waits_of b w)"
    using waits_of_filter [OF assms(3), of w] waits_of_filter [OF assms(3), of w'] L by simp
  have next_le: "pw_next w \<le> pw_next w'" using L by simp
  have "\<forall>(h, r) \<in> set (pw_waits w'). old_handle w' h \<and> (h \<in> wait_handles q \<longleftrightarrow> r = b)"
    using assms(4) iff by auto
  moreover have "\<forall>h \<in> wait_handles q. old_handle w' h" using old old_handle_mono [OF next_le] by blast
  moreover have "m_lStopping q = 0 \<and> m_hProcessWaitHandle q \<noteq> NULL_HANDLE \<longrightarrow> (m_hProcessWaitHandle q, b) \<in> set (pw_waits w')"
    using assms(1) mem [OF assms(3)] by (simp add: waits_ok_def)
  moreover have "int (length (waits_of b w')) + k \<le> m_cRefs q" using assms(1) len by (simp add: waits_ok_def)
  ultimately show ?thesis by (simp add: waits_ok_def)
qed

text \<open>Fields of the manager that no operation on a process touches.\<close>

lemma put_object_sel [simp]:
  "pm_objects (put_object a p w) = (pm_objects w)(a \<mapsto> p)" "pw_open (put_object a p w) = pw_open w"
  "pw_waits (put_object a p w) = pw_waits w" "pw_next (put_object a p w) = pw_next w" "pw_clock (put_object a p w) = pw_clock w"
  "pw_env (put_object a p w) = pw_env w" "pw_killed (put_object a p w) = pw_killed w"
  "pm_next_object (put_object a p w) = pm_next_object w" "pm_cRefs (put_object a p w) = pm_cRefs w" "pm_app (put_object a p w) = pm_app w"
  "pm_exits (put_object a p w) = pm_exits w" "pm_signals (put_object a p w) = pm_signals w"
  "m_ppServerProcessList (put_object a p w) = m_ppServerProcessList w"
  "m_fServerProcessListReady (put_object a p w) = m_fServerProcessListReady w"
  "m_dwProcessesPerApplication (put_object a p w) = m_dwProcessesPerApplication w"
  by (simp_all add: put_object_def)

lemma same_waits_ok: "pw_waits w' = pw_waits w \<Longrightarrow> pw_next w' = pw_next w \<Longrightarrow> waits_ok a k w' p = waits_ok a k w p"
  by (simp add: waits_ok_def waits_of_def old_handle_def)

lemma put_object_waits [simp]: "waits_ok a k (put_object b q w) p = waits_ok a k w p"
  by (rule same_waits_ok) simp_all

lemma pm_inv_update:
  assumes inv: "pm_inv R K S w" and step: "local_step a w w'" and ok: "proc_ok a (int k) (owned_by (dom (pm_objects w) - {a}) w + leaked) w' p'"
    and res: "R \<subseteq># leaked" and objs: "pm_objects w' = pm_objects w" "a < pm_next_object w'" "pm_next_object w \<le> pm_next_object w'" "pm_app w' = pm_app w"
    and shut: "m_hShutdownHandle p' \<noteq> INVALID_HANDLE_VALUE" "a \<notin> S' \<longrightarrow> m_hShutdownHandle p' = NULL_HANDLE" and S: "S - {a} \<subseteq> S'"
    and refs: "pm_cRefs w' = int (card (insert a (dom (pm_objects w)))) + of_bool (pm_app w)"
  shows "pm_inv R (K(a := k)) S' (put_object a p' w')"
proof -
  let ?w = "put_object a p' w'"
  have D: "dom (pm_objects ?w) = insert a (dom (pm_objects w))" using objs(1) by simp
  have old: "\<forall>(h, r) \<in> set (pw_waits w'). old_handle w' h" using ok by (auto simp: proc_ok_def waits_ok_def)
  have mem: "r = a \<or> (h, r) \<in> set (pw_waits w)" if "(h, r) \<in> set (pw_waits w')" for h r
  proof -
    have "filter (\<lambda>(_, q). q \<noteq> a) (pw_waits w') = filter (\<lambda>(_, q). q \<noteq> a) (pw_waits w)" using step by (simp add: local_step_def)
    then have "set (filter (\<lambda>(_, q). q \<noteq> a) (pw_waits w')) = set (filter (\<lambda>(_, q). q \<noteq> a) (pw_waits w))" by (rule arg_cong)
    then show ?thesis using that by auto
  qed
  have obj: "object_ok S' b ((K(a := k)) b) ?w q" if "pm_objects ?w b = Some q" for b q
  proof (cases "b = a")
    case True
    then show ?thesis
      using that ok shut by (auto simp: proc_ok_def object_ok_def)
  next
    case False
    then have "object_ok S b (K b) w q" using that objs(1) pm_invD(5) [OF inv] by simp
    then show ?thesis
      using False S waits_ok_other [OF _ step False old] by (auto simp: object_ok_def)
  qed
  have "owned_by (insert a (dom (pm_objects w))) ?w = owned p' + owned_by (dom (pm_objects w) - {a}) ?w"
    using pm_invD(1) [OF inv] by (simp add: owned_by_def sum.insert_remove)
  also have "owned_by (dom (pm_objects w) - {a}) ?w = owned_by (dom (pm_objects w) - {a}) w"
    by (rule owned_by_cong) (use objs(1) in simp)
  finally have led: "mset (pw_open ?w) = owned_by (dom (pm_objects ?w)) ?w + leaked"
    unfolding D using ok by (simp add: proc_ok_def ledger_def ac_simps)
  show ?thesis
  proof (rule pm_invI [OF _ _ _ _ led res obj])
    show "finite (dom (pm_objects ?w))" unfolding D using pm_invD(1) [OF inv] by simp
    show "b < pm_next_object ?w" if "pm_objects ?w b = Some q" for b q
      using that objs pm_invD(2) [OF inv, of b] by (auto split: if_splits intro: less_le_trans)
    show "b \<in> dom (pm_objects ?w)" if "0 < (K(a := k)) b" for b
      unfolding D using that pm_invD(3) [OF inv, of b] by (auto split: if_splits)
    show "b \<in> dom (pm_objects ?w)" if "(h, b) \<in> set (pw_waits ?w)" for h b
      unfolding D using that mem [of h b] pm_invD(4) [OF inv, of h b] by auto
    show "pm_cRefs ?w = int (card (dom (pm_objects ?w))) + of_bool (pm_app ?w)" unfolding D using refs objs(4) by simp
  qed
qed

lemma pm_inv_delete:
  assumes inv: "pm_inv R K S w" and a: "pm_objects w a = Some p" "K a \<le> 1" and step: "local_step a w w'"
    and open': "mset (pw_open w') = owned_by (dom (pm_objects w) - {a}) w + leaked" and res: "R \<subseteq># leaked"
    and objs: "pm_objects w' = (pm_objects w)(a := None)" "pm_next_object w' = pm_next_object w" "pm_app w' = pm_app w"
    and waits: "\<forall>(h, r) \<in> set (pw_waits w'). r \<noteq> a \<and> (h, r) \<in> set (pw_waits w)" and refs: "pm_cRefs w' = pm_cRefs w - 1"
  shows "pm_inv R (K(a := 0)) S w'"
proof -
  have D: "dom (pm_objects w') = dom (pm_objects w) - {a}" using objs(1) by auto
  have next_le: "pw_next w \<le> pw_next w'" using step by (simp add: local_step_def)
  have "\<forall>(h, r) \<in> set (pw_waits w). old_handle w h" using pm_invD(5) [OF inv a(1)] by (auto simp: object_ok_def waits_ok_def)
  then have old: "\<forall>(h, r) \<in> set (pw_waits w'). old_handle w' h" using waits old_handle_mono [OF next_le] by blast
  have obj: "object_ok S b ((K(a := 0)) b) w' q" if "pm_objects w' b = Some q" for b q
  proof -
    have ba: "b \<noteq> a" "object_ok S b (K b) w q" using that objs(1) pm_invD(5) [OF inv] by (auto split: if_splits)
    then show ?thesis using waits_ok_other [OF _ step ba(1) old] by (auto simp: object_ok_def)
  qed
  have "owned_by (dom (pm_objects w')) w' = owned_by (dom (pm_objects w) - {a}) w"
    unfolding D by (rule owned_by_cong) (use objs(1) in simp)
  then have led: "mset (pw_open w') = owned_by (dom (pm_objects w')) w' + leaked" using open' by simp
  show ?thesis
  proof (rule pm_invI [OF _ _ _ _ led res obj])
    show "finite (dom (pm_objects w'))" unfolding D using pm_invD(1) [OF inv] by simp
    show "b < pm_next_object w'" if "pm_objects w' b = Some q" for b q
      using that objs pm_invD(2) [OF inv, of b] by (auto split: if_splits)
    show "b \<in> dom (pm_objects w')" if "0 < (K(a := 0)) b" for b
      unfolding D using that pm_invD(3) [OF inv, of b] by (auto split: if_splits)
    show "b \<in> dom (pm_objects w')" if "(h, b) \<in> set (pw_waits w')" for h b
      unfolding D using that waits pm_invD(4) [OF inv, of h b] by auto
    have "card (dom (pm_objects w)) = Suc (card (dom (pm_objects w) - {a}))"
      by (rule card.remove) (use pm_invD(1) [OF inv] a(1) in auto)
    then show "pm_cRefs w' = int (card (dom (pm_objects w'))) + of_bool (pm_app w')"
      using refs pm_invD(7) [OF inv] unfolding D objs(3) by linarith
  qed
qed

lemma pm_inv_mono: "pm_inv R K S w \<Longrightarrow> (\<And>a. K' a \<le> K a) \<Longrightarrow> pm_inv R K' S w"
proof -
  assume a: "pm_inv R K S w" "\<And>a. K' a \<le> K a"
  have "object_ok S b (K b) w p \<Longrightarrow> object_ok S b (K' b) w p" for b p
    using a(2) [of b] by (auto simp: object_ok_def waits_ok_def)
  moreover have "0 < K' b \<Longrightarrow> 0 < K b" for b using a(2) [of b] by linarith
  ultimately show ?thesis using a(1) unfolding pm_inv_def by blast
qed

subsection \<open>References\<close>

text \<open>What an operation leaves alone; only the objects in \<open>A\<close> may change their state of readiness.\<close>

definition manager_state where
  "manager_state (w :: 'a pm_world_scheme) = (m_ppServerProcessList w, m_fServerProcessListReady w, m_dwProcessesPerApplication w,
     pm_app w, pm_exits w, pm_signals w, pm_next_object w)"

definition keeps :: "nat set \<Rightarrow> 'a pm_world_scheme \<Rightarrow> 'a pm_world_scheme \<Rightarrow> bool" where
  "keeps A w w' \<longleftrightarrow> manager_state w' = manager_state w \<and> pw_env w' = pw_env w \<and> pw_clock w \<le> pw_clock w' \<and>
     (\<forall>b q'. b \<notin> A \<longrightarrow> pm_objects w' b = Some q' \<longrightarrow> (\<exists>q. pm_objects w b = Some q \<and> m_fReady q' = m_fReady q))"

lemma keeps_refl [simp]: "keeps A w w"
  by (simp add: keeps_def)

lemma keeps_trans: "keeps A w w' \<Longrightarrow> keeps A w' w'' \<Longrightarrow> keeps A w w''"
  unfolding keeps_def by (metis le_trans)

lemma keeps_sub: "keeps A w w' \<Longrightarrow> A \<subseteq> B \<Longrightarrow> keeps B w w'"
  unfolding keeps_def by blast

lemma manager_state_put [simp]: "manager_state (put_object a p w) = manager_state w"
  by (simp add: manager_state_def)

lemma more_frame:
  assumes "proc_world.more w' = proc_world.more (w :: 'a pm_world_scheme)"
  shows "pm_objects w' = pm_objects w" "pm_cRefs w' = pm_cRefs w" "manager_state w' = manager_state w" "m_cRapidFailCount w' = m_cRapidFailCount w"
    "pm_next_object w' = pm_next_object w" "pm_app w' = pm_app w"
  using assms by (cases w, cases w', simp add: manager_state_def)+

text \<open>The step on an object \<open>a\<close> that exists, in the form the operations use.\<close>

lemma object_step:
  assumes inv: "pm_inv R K S w" and a: "pm_objects w a = Some p" and step: "local_step a w w'"
    and ok: "proc_ok a (int k) (owned_by (dom (pm_objects w) - {a}) w + leaked) w' p'" and res: "R \<subseteq># leaked"
    and more: "pm_objects w' = pm_objects w" "pm_cRefs w' = pm_cRefs w" "manager_state w' = manager_state w"
    and env: "pw_env w' = pw_env w" "pw_clock w \<le> pw_clock w'" and ready: "a \<notin> A \<longrightarrow> m_fReady p' = m_fReady p"
    and shut: "m_hShutdownHandle p' \<noteq> INVALID_HANDLE_VALUE" "a \<notin> S' \<longrightarrow> m_hShutdownHandle p' = NULL_HANDLE" "S - {a} \<subseteq> S'"
  shows "pm_inv R (K(a := k)) S' (put_object a p' w')" "keeps A w (put_object a p' w')"
proof -
  have M: "pm_next_object w' = pm_next_object w" "pm_app w' = pm_app w" using more(3) by (simp_all add: manager_state_def)
  have i: "insert a (dom (pm_objects w)) = dom (pm_objects w)" using a by auto
  show "pm_inv R (K(a := k)) S' (put_object a p' w')"
    by (rule pm_inv_update [OF inv step ok res]) (use M more shut i pm_invD(2) [OF inv a] pm_invD(7) [OF inv] in simp_all)
  show "keeps A w (put_object a p' w')"
    using more env ready a by (auto simp: keeps_def)
qed

lemma pm_inv_split:
  assumes "pm_inv R K S w" "pm_objects w a = Some p"
  obtains leaked where "proc_ok a (int (K a)) (owned_by (dom (pm_objects w) - {a}) w + leaked) w p"
    "a \<notin> S \<longrightarrow> m_hShutdownHandle p = NULL_HANDLE" "m_hShutdownHandle p \<noteq> INVALID_HANDLE_VALUE" "R \<subseteq># leaked"
  using pm_inv_object [OF assms] by metis

lemma ReferenceServerProcess_spec:
  assumes "pm_inv R K S w" "0 < K a"
  shows "returns (ReferenceServerProcess a w) (\<lambda>w'. pm_inv R (K(a := Suc (K a))) S w' \<and> keeps {} w w')"
proof -
  obtain p where a: "pm_objects w a = Some p" using pm_invD(3) [OF assms] by blast
  obtain leaked where P: "proc_ok a (int (K a)) (owned_by (dom (pm_objects w) - {a}) w + leaked) w p"
    "a \<notin> S \<longrightarrow> m_hShutdownHandle p = NULL_HANDLE" "m_hShutdownHandle p \<noteq> INVALID_HANDLE_VALUE" "R \<subseteq># leaked"
    by (rule pm_inv_split [OF assms(1) a])
  have ok: "proc_ok a (int (Suc (K a))) (owned_by (dom (pm_objects w) - {a}) w + leaked) w (p\<lparr>m_cRefs := m_cRefs p + 1\<rparr>)"
    using P(1) by (simp add: proc_ok_def ledger_def waits_ok_def)
  show ?thesis
    using object_step [OF assms(1) a local_step_refl ok P(4), of "{}" S] P(2,3) a by (simp add: ReferenceServerProcess_def)
qed

text \<open>With a second reference in somebody's hands the object is not deleted.\<close>

lemma DereferenceServerProcess_eq:
  assumes "pm_inv R K S w" "pm_objects w a = Some p" "1 < K a"
  shows "DereferenceServerProcess a w = Some (put_object a (p\<lparr>m_cRefs := m_cRefs p - 1\<rparr>) w)"
  using pm_invD(5) [OF assms(1,2)] assms(2,3) by (simp add: DereferenceServerProcess_def object_ok_def waits_ok_def)

lemma owner_pos:
  assumes "pm_inv R K S w" "pm_objects w a = Some p"
  shows "0 < pm_cRefs w"
proof -
  have "0 < card (dom (pm_objects w))" using pm_invD(1) [OF assms(1)] assms(2) by (auto simp: card_gt_0_iff)
  then show ?thesis using pm_invD(7) [OF assms(1)] by simp
qed

text \<open>The destructor unregisters the waits of the object that are still registered.\<close>

lemma delete_process_spec:
  assumes "pm_inv R K S w" "pm_objects w a = Some p" "a \<notin> S" "K a \<le> 1"
  shows "returns (delete_process a w) (\<lambda>w'. pm_inv R (K(a := 0)) S w' \<and> keeps {} w w')"
proof -
  obtain leaked where P: "proc_ok a (int (K a)) (owned_by (dom (pm_objects w) - {a}) w + leaked) w p"
    "a \<notin> S \<longrightarrow> m_hShutdownHandle p = NULL_HANDLE" "m_hShutdownHandle p \<noteq> INVALID_HANDLE_VALUE" "R \<subseteq># leaked"
    by (rule pm_inv_split [OF assms(1,2)])
  let ?rest = "owned_by (dom (pm_objects w) - {a}) w + leaked"
  have null: "m_hShutdownHandle p = NULL_HANDLE" using P(2) assms(3) by simp
  have l: "ledger ?rest w p" "server_wf p" using P(1) by (simp_all add: proc_ok_def)
  obtain w1 p1 where D: "destroy_handles w p = Some (w1, p1)" "mset (pw_open w1) = ?rest"
    "pw_waits w1 = filter (\<lambda>(h, _). h \<notin> wait_handles p) (pw_waits w)" "pw_clock w1 = pw_clock w" "pw_next w1 = pw_next w"
    "pw_env w1 = pw_env w" "proc_world.more w1 = proc_world.more w"
    by (rule returns_pairE [OF destroy_handles_spec [OF l null]]) (elim conjE, rule that)
  have mine: "h \<in> wait_handles p \<longleftrightarrow> r = a" if "(h, r) \<in> set (pw_waits w)" for h r
    using P(1) that by (auto simp: proc_ok_def waits_ok_def)
  have W: "\<forall>(h, r) \<in> set (pw_waits w1). r \<noteq> a \<and> (h, r) \<in> set (pw_waits w)" unfolding D(3) using mine by auto
  have F: "filter (\<lambda>(_, q). q \<noteq> a) (pw_waits w1) = filter (\<lambda>(_, q). q \<noteq> a) (pw_waits w)"
    unfolding D(3) by simp (rule filter_cong, use mine in auto)
  note M = more_frame [OF D(7)]
  let ?w' = "w1\<lparr>pm_cRefs := pm_cRefs w1 - 1, pm_objects := (pm_objects w1)(a := None)\<rparr>"
  have run: "delete_process a w = Some ?w'"
    using assms(2) D(1) M(2) owner_pos [OF assms(1,2)] by (simp add: delete_process_def DereferenceProcessManager_def)
  have "local_step a w ?w'" using F D(5) W by (auto simp: local_step_def waits_fresh_def)
  from pm_inv_delete [OF assms(1,2,4) this _ P(4)]
  have "pm_inv R (K(a := 0)) S ?w'" using D(2) M W by simp
  moreover have "keeps {} w ?w'"
    using D(4,6) M(1,3) by (auto simp: keeps_def manager_state_def split: if_splits)
  ultimately show ?thesis unfolding run by simp
qed

lemma DereferenceServerProcess_spec:
  assumes "pm_inv R K S w" "0 < K a" "K a = 1 \<longrightarrow> a \<notin> S"
  shows "returns (DereferenceServerProcess a w) (\<lambda>w'. pm_inv R (K(a := K a - 1)) S w' \<and> keeps {} w w')"
proof -
  obtain p where a: "pm_objects w a = Some p" using pm_invD(3) [OF assms(1,2)] by blast
  obtain leaked where P: "proc_ok a (int (K a)) (owned_by (dom (pm_objects w) - {a}) w + leaked) w p"
    "a \<notin> S \<longrightarrow> m_hShutdownHandle p = NULL_HANDLE" "m_hShutdownHandle p \<noteq> INVALID_HANDLE_VALUE" "R \<subseteq># leaked"
    by (rule pm_inv_split [OF assms(1) a])
  let ?p = "p\<lparr>m_cRefs := m_cRefs p - 1\<rparr>" and ?rest = "owned_by (dom (pm_objects w) - {a}) w + leaked"
  have ok: "proc_ok a (int (K a - 1)) ?rest w ?p"
    using P(1) assms(2) by (auto simp: proc_ok_def ledger_def waits_ok_def)
  note S = object_step [OF assms(1) a local_step_refl ok P(4), of "{}" S, simplified]
  show ?thesis
  proof (cases "m_cRefs p = 1")
    case False
    then show ?thesis using S P(2,3) a by (simp add: DereferenceServerProcess_def)
  next
    case True
    have "int (length (waits_of a w)) + int (K a) \<le> 1" using P(1) True by (simp add: proc_ok_def waits_ok_def)
    then have one: "K a = 1" using assms(2) by linarith
    let ?w = "put_object a ?p w"
    have inv: "pm_inv R (K(a := 0)) S ?w" "keeps {} w ?w" using S P(2,3) one by simp_all
    have "pm_objects ?w a = Some ?p" "a \<notin> S" "(K(a := 0)) a \<le> 1" using one assms(3) by simp_all
    from delete_process_spec [OF inv(1) this, unfolded fun_upd_upd] show ?thesis
      using a True one keeps_trans [OF inv(2)] by (auto simp: DereferenceServerProcess_def elim!: returns_mono)
  qed
qed

subsection \<open>Stopping and terminating\<close>

lemma StopProcess_spec:
  assumes "pm_inv R K S w" "pm_objects w a = Some p"
  shows "returns (StopProcess a w) (\<lambda>w'. pm_inv R K S w' \<and> keeps {a} w w')"
proof -
  obtain leaked where P: "proc_ok a (int (K a)) (owned_by (dom (pm_objects w) - {a}) w + leaked) w p"
    "a \<notin> S \<longrightarrow> m_hShutdownHandle p = NULL_HANDLE" "m_hShutdownHandle p \<noteq> INVALID_HANDLE_VALUE" "R \<subseteq># leaked"
    by (rule pm_inv_split [OF assms])
  let ?rest = "owned_by (dom (pm_objects w) - {a}) w + leaked"
  let ?w = "w\<lparr>m_cRapidFailCount := m_cRapidFailCount w + 1\<rparr>"
  have l: "ledger ?rest ?w p" "server_wf p" using P(1) by (simp_all add: proc_ok_def ledger_def)
  obtain w2 p2 where s: "stop_handles ?w p = Some (w2, p2)" "ledger ?rest w2 p2" "server_wf p2" "closes ?w w2"
    "p2 = p\<lparr>m_fReady := False, m_dwChildProcessIds := reset_ids (m_hChildProcessHandles p) (m_dwChildProcessIds p),
            m_hChildProcessHandles := map (\<lambda>_. NULL_HANDLE) (m_hChildProcessHandles p), m_hProcessHandle := NULL_HANDLE\<rparr>"
    by (rule returns_pairE [OF stop_handles_spec [OF l]]) (elim conjE, rule that)
  note C = closes_frame [OF s(4)]
  have len: "length (m_hChildProcessHandles p) = MAX_ACTIVE_CHILD_PROCESSES" using P(1) by (simp add: proc_ok_def server_wf_def)
  have kids: "children_ok p2" unfolding children_ok_def s(5) by (simp add: len)
  have W: "pw_waits w2 = pw_waits w" "pw_next w2 = pw_next w" "pw_clock w2 = pw_clock w" "pw_env w2 = pw_env w" using C by simp_all
  have "waits_ok a (int (K a)) w2 p2"
    using P(1) same_waits_ok [OF W(1,2)] unfolding s(5) by (simp add: proc_ok_def waits_ok_def wait_handles_def)
  then have ok: "proc_ok a (int (K a)) ?rest w2 p2" using s(2,3) kids by (simp add: proc_ok_def)
  have L: "local_step a w w2" by (rule local_step_refl) (use W in simp_all)
  note M = more_frame [OF C(7)]
  have N: "pm_objects w2 = pm_objects w" "pm_cRefs w2 = pm_cRefs w" "manager_state w2 = manager_state w"
    using M by (simp_all add: manager_state_def)
  have sh: "m_hShutdownHandle p2 = m_hShutdownHandle p" unfolding s(5) by simp
  note S = object_step [OF assms L ok P(4) N, of "{a}" S]
  have "pm_inv R (K(a := K a)) S (put_object a p2 w2)" by (rule S(1)) (use W P sh in simp_all)
  moreover have "keeps {a} w (put_object a p2 w2)" by (rule S(2)) (use W P sh in simp_all)
  ultimately show ?thesis
    using assms(2) s(1) owner_pos [OF assms] by (simp add: StopProcess_def IncrementRapidFailCount_def)
qed

lemma put_object_put [simp]: "put_object a p (put_object a q w) = put_object a p w"
  by (simp add: put_object_def)

lemma put_object_commute [simp]:
  "UnregisterWait h (put_object a p w) = put_object a p (UnregisterWait h w)"
  "TerminateProcess h (put_object a p w) = put_object a p (TerminateProcess h w)"
  by (simp_all add: put_object_def UnregisterWait_def TerminateProcess_def)

text \<open>Unregistering the wait for the process of an object releases the reference of that wait.\<close>

lemma drop_wait_spec:
  assumes "pm_inv R K S w" "0 < K a" "pm_objects w a = Some p" "m_lStopping p = 0"
  shows "returns (drop_wait a (put_object a (p\<lparr>m_lStopping := 1\<rparr>) w)) (\<lambda>w'. pm_inv R K S w' \<and> keeps {} w w')"
proof -
  obtain leaked where P: "proc_ok a (int (K a)) (owned_by (dom (pm_objects w) - {a}) w + leaked) w p"
    "a \<notin> S \<longrightarrow> m_hShutdownHandle p = NULL_HANDLE" "m_hShutdownHandle p \<noteq> INVALID_HANDLE_VALUE" "R \<subseteq># leaked"
    by (rule pm_inv_split [OF assms(1,3)])
  let ?rest = "owned_by (dom (pm_objects w) - {a}) w + leaked" and ?h = "m_hProcessWaitHandle p"
  have wo: "waits_ok a (int (K a)) w p" using P(1) by (simp add: proc_ok_def)
  show ?thesis
  proof (cases "?h = NULL_HANDLE")
    case True
    have ok: "proc_ok a (int (K a)) ?rest w (p\<lparr>m_lStopping := 1\<rparr>)"
      using P(1) by (simp add: proc_ok_def ledger_def waits_ok_def)
    show ?thesis
      using object_step [OF assms(1,3) local_step_refl ok P(4), of "{}" S] P(2,3) True by (simp add: drop_wait_def)
  next
    case False
    let ?w = "UnregisterWait ?h w"
    let ?p = "p\<lparr>m_lStopping := 1, m_cRefs := m_cRefs p - 1, m_hProcessWaitHandle := NULL_HANDLE\<rparr>"
    have here: "(?h, a) \<in> set (pw_waits w)" using wo assms(4) False by (simp add: waits_ok_def)
    have mine: "r = a" if "(?h, r) \<in> set (pw_waits w)" for r
      using wo that False by (auto simp: waits_ok_def wait_handles_def)
    have refs: "m_cRefs p \<noteq> 1"
    proof -
      have "waits_of a w \<noteq> []" using here by (auto simp: waits_of_def filter_empty_conv)
      then have "0 < length (waits_of a w)" by simp
      moreover have "int (length (waits_of a w)) + int (K a) \<le> m_cRefs p" using wo by (simp add: waits_ok_def)
      ultimately show ?thesis using assms(2) by linarith
    qed
    have run: "drop_wait a (put_object a (p\<lparr>m_lStopping := 1\<rparr>) w) = Some (put_object a ?p ?w)"
      using False refs by (simp add: drop_wait_def DereferenceServerProcess_def)
    have L: "local_step a w ?w"
    proof -
      have "filter (\<lambda>(_, q). q \<noteq> a) (pw_waits ?w) = filter (\<lambda>(_, q). q \<noteq> a) (pw_waits w)"
        unfolding UnregisterWait_def by simp (rule filter_cong, use mine in auto)
      then show ?thesis by (auto simp: local_step_def waits_fresh_def UnregisterWait_def)
    qed
    have shorter: "length (waits_of a ?w) < length (waits_of a w)"
    proof -
      have "waits_of a ?w = filter (\<lambda>(h', _). h' \<noteq> ?h) (waits_of a w)"
        by (simp add: waits_of_def UnregisterWait_def conj_commute case_prod_beta')
      moreover have "(?h, a) \<in> set (waits_of a w)" using here by (simp add: waits_of_def)
      ultimately show ?thesis by (auto intro!: length_filter_less)
    qed
    have "waits_ok a (int (K a)) ?w ?p"
    proof -
      have "int (length (waits_of a ?w)) + int (K a) \<le> m_cRefs p - 1" using wo shorter by (simp add: waits_ok_def)
      then show ?thesis using wo unfolding waits_ok_def
        by (auto simp: UnregisterWait_def wait_handles_def old_handle_def)
    qed
    then have ok: "proc_ok a (int (K a)) ?rest ?w ?p"
      using P(1) by (simp add: proc_ok_def ledger_def UnregisterWait_def)
    show ?thesis
      using object_step [OF assms(1,3) L ok P(4), of "{}" S] P(2,3) unfolding run
      by (simp add: UnregisterWait_def manager_state_def)
  qed
qed

lemma drop_process_spec:
  assumes "pm_inv R K S w" "pm_objects w a = Some p"
  shows "returns (drop_process a w) (\<lambda>w'. pm_inv R K S w' \<and> keeps {} w w')"
proof (cases "real_handle (m_hProcessHandle p)")
  case True
  obtain leaked where P: "proc_ok a (int (K a)) (owned_by (dom (pm_objects w) - {a}) w + leaked) w p"
    "a \<notin> S \<longrightarrow> m_hShutdownHandle p = NULL_HANDLE" "m_hShutdownHandle p \<noteq> INVALID_HANDLE_VALUE" "R \<subseteq># leaked"
    by (rule pm_inv_split [OF assms])
  let ?h = "m_hProcessHandle p" and ?p = "p\<lparr>m_hProcessHandle := NULL_HANDLE\<rparr>"
  have "owned p = add_mset ?h (owned ?p)" using True by (simp add: owned_def)
  then have ok: "proc_ok a (int (K a)) (owned_by (dom (pm_objects w) - {a}) w + (leaked + {#?h#})) (TerminateProcess ?h w) ?p"
    using P(1) by (simp add: proc_ok_def ledger_def TerminateProcess_def waits_ok_def waits_of_def old_handle_def)
  have R': "R \<subseteq># leaked + {#?h#}" by (rule subset_mset.order_trans [OF P(4) mset_subset_eq_add_left])
  note S = object_step [OF assms local_step_refl ok R', of "{}" S]
  show ?thesis
    using S P(2,3) True assms(2) by (simp add: drop_process_def real_handle_def TerminateProcess_def manager_state_def)
qed (use assms in \<open>auto simp: drop_process_def real_handle_def\<close>)

lemma TerminateBackendProcess_spec:
  assumes "pm_inv R K S w" "0 < K a"
  shows "returns (TerminateBackendProcess a w) (\<lambda>w'. pm_inv R K S w' \<and> keeps {} w w')"
proof -
  obtain p where a: "pm_objects w a = Some p" using pm_invD(3) [OF assms] by blast
  show ?thesis
  proof (cases "m_lStopping p = 0")
    case True
    obtain w1 where w1: "drop_wait a (put_object a (p\<lparr>m_lStopping := 1\<rparr>) w) = Some w1" "pm_inv R K S w1" "keeps {} w w1"
      using drop_wait_spec [OF assms a True] by (elim returnsE conjE) (rule that)
    obtain q where q: "pm_objects w1 a = Some q" using pm_invD(3) [OF w1(2) assms(2)] by blast
    show ?thesis
      using drop_process_spec [OF w1(2) q] a True w1(1) keeps_trans [OF w1(3)]
      by (auto simp: TerminateBackendProcess_def elim!: returns_mono)
  qed (use assms a in \<open>simp add: TerminateBackendProcess_def\<close>)
qed

subsection \<open>The shutdown signal\<close>

lemma STRU_CopyS_spec:
  assumes "heap_ok 2 heap" "stru_inv s" "stru_inv src"
  shows "returns (STRU_CopyS heap src s) (\<lambda>(hr, s'). stru_inv s' \<and> (if SUCCEEDED hr then str_text s' = str_text src else s' = s))"
proof -
  note r = stru_invD [OF assms(3)]
  have n: "QueryCCH src \<le> length (QueryStr src)" "QueryCCH src < 4294967296"
    using r by (auto simp: QueryCCH_def MAXDWORD_def)
  have "take (QueryCCH src) (QueryStr src) = str_text src" by (simp add: str_text_def QueryCCH_def)
  then show ?thesis
    using STRU_CopyN_spec [OF assms(1,2) n] by (auto simp: STRU_CopyS_def elim!: returns_mono)
qed

lemma STRU_AppendA_total:
  assumes "heap_ok 2 heap" "stru_inv s" "code_page_ok acp" "length x < 4611686018427387904"
  shows "returns (STRU_AppendA heap acp (Some x) s) (\<lambda>(hr, s'). stru_inv s')"
proof -
  have ok: "stru_ok heap s" using assms by (simp add: stru_ok_def)
  have cb: "QueryCB s = 2 * m_cchLen s" using stru_invD [OF assms(2)] by (simp add: QueryCB_def)
  from AuxAppendA_spec [OF ok assms(3) order_refl assms(4)]
  have "returns (AuxAppendA heap acp (Some x) (QueryCB s) s) (\<lambda>(hr, s'). stru_inv s')"
    unfolding cb by (auto simp: stru_ok_def elim!: returns_mono)
  then show ?thesis using assms(2) by (simp add: STRU_AppendA_def)
qed

lemma shutdown_url_total:
  assumes "heap_ok 2 heap" "stru_inv vpath"
  shows "returns (shutdown_url heap vpath) stru_inv"
proof -
  have n: "0 \<notin> set (L ''/iisintegration'')" by simp
  have c: "returns (if 1 < QueryCCH vpath then STRU_CopyS heap vpath STRU_new else Some (S_OK, STRU_new)) (\<lambda>(hr, s). stru_inv s)"
    using STRU_CopyS_spec [OF assms(1) stru_inv_new(1) assms(2)] by (auto simp: stru_inv_new(1) elim!: returns_mono)
  then obtain hr s where s: "(if 1 < QueryCCH vpath then STRU_CopyS heap vpath STRU_new else Some (S_OK, STRU_new)) = Some (hr, s)" "stru_inv s"
    by (rule returns_pairE)
  obtain hr' s' where s': "STRU_Append heap (L ''/iisintegration'') s = Some (hr', s')" "stru_inv s'"
    by (rule returns_pairE [OF STRU_Append_spec [OF assms(1) s(2) n]]) (elim conjE, rule that)
  show ?thesis unfolding shutdown_url_def using s s' by simp
qed

lemma shutdown_headers_total:
  assumes "env_os_ok os" "code_page_ok acp" "stra_inv g"
  shows "returns (shutdown_headers os acp g) (\<lambda>(hr, s). stru_inv s)"
proof -
  have heap: "heap_ok 2 (os_heap os)" using assms(1) by (simp add: env_os_ok_def)
  have n: "0 \<notin> set (L ''MS-ASPNETCORE-EVENT:shutdown '' @ [13, 10])" "0 \<notin> set (L ''MS-ASPNETCORE-TOKEN:'')" by simp_all
  have st: "stru_inv (stack_stru os 256)" using stack_stru_inv(1) [OF assms(1)] by simp
  obtain hr1 s1 where s1: "STRU_Append (os_heap os) (L ''MS-ASPNETCORE-EVENT:shutdown '' @ [13, 10]) (stack_stru os 256) = Some (hr1, s1)" "stru_inv s1"
    by (rule returns_pairE [OF STRU_Append_spec [OF heap st n(1)]]) (elim conjE, rule that)
  obtain hr2 s2 where s2: "STRU_Append (os_heap os) (L ''MS-ASPNETCORE-TOKEN:'') STRU_new = Some (hr2, s2)" "stru_inv s2"
    by (rule returns_pairE [OF STRU_Append_spec [OF heap stru_inv_new(1) n(2)]]) (elim conjE, rule that)
  obtain guid where guid: "cstr (a_str g) = Some guid"
    using cstr_takeWhile [of "a_text g"] a_str_split [OF assms(3)] by metis
  have gl: "length guid < 4611686018427387904"
    using cstr_length [OF guid] stra_invD(1,2) [OF assms(3)] by (simp add: MAXDWORD_def)
  obtain hr3 s3 where s3: "STRU_AppendA (os_heap os) acp (Some guid) s2 = Some (hr3, s3)" "stru_inv s3"
    by (rule returns_pairE [OF STRU_AppendA_total [OF heap s2(2) assms(2) gl]]) (rule that)
  obtain hr4 s4 where s4: "STRU_Append (os_heap os) (c_text s3) s1 = Some (hr4, s4)" "stru_inv s4"
    by (rule returns_pairE [OF STRU_Append_spec [OF heap s1(2) c_text_nul_free]]) (elim conjE, rule that)
  show ?thesis unfolding shutdown_headers_def using s1 s2 guid s3 s4 by (simp del: append_Cons append_assoc)
qed

lemma SendShutdownHttpMessage_total:
  assumes "services_ok (pm_proc os) conv" "server_wf p"
  shows "\<exists>r. SendShutdownHttpMessage os t p = Some r"
proof -
  note S = services_okD [OF assms(1)]
  obtain u where u: "shutdown_url (os_heap (po_env (pm_proc os))) (m_struAppVirtualPath p) = Some u"
    using shutdown_url_total [OF S(2), of "m_struAppVirtualPath p"] assms(2) by (auto simp: server_wf_def elim: returnsE)
  obtain hr s where h: "shutdown_headers (po_env (pm_proc os)) (po_acp (pm_proc os)) (m_straGuid p) = Some (hr, s)"
    using shutdown_headers_total [OF S(1,5), of "m_straGuid p"] assms(2) by (auto simp: server_wf_def elim: returnsE)
  show ?thesis unfolding SendShutdownHttpMessage_def using u h by (auto simp: Let_def split: option.split sum.split)
qed


lemma pm_inv_clock [simp]: "pm_inv R K S (later w) = pm_inv R K S w" "pm_inv R K S (w\<lparr>pw_clock := t\<rparr>) = pm_inv R K S w"
  by (simp_all add: pm_inv_def object_ok_def later_def waits_ok_def waits_of_def old_handle_def owned_by_def)

lemma pm_inv_fields [simp]:
  "pm_inv R K S (w\<lparr>pm_signals := xs\<rparr>) = pm_inv R K S w" "pm_inv R K S (w\<lparr>pm_exits := xs\<rparr>) = pm_inv R K S w"
  "pm_inv R K S (w\<lparr>m_ppServerProcessList := l\<rparr>) = pm_inv R K S w" "pm_inv R K S (w\<lparr>m_fServerProcessListReady := b\<rparr>) = pm_inv R K S w"
  "pm_inv R K S (w\<lparr>m_dwProcessesPerApplication := d\<rparr>) = pm_inv R K S w" "pm_inv R K S (w\<lparr>m_dwRouteToProcessIndex := d\<rparr>) = pm_inv R K S w"
  "pm_inv R K S (w\<lparr>pm_carries := n\<rparr>) = pm_inv R K S w" "pm_inv R K S (w\<lparr>m_cRapidFailCount := d\<rparr>) = pm_inv R K S w"
  "pm_inv R K S (w\<lparr>m_dwRapidFailTickStart := d\<rparr>) = pm_inv R K S w"
  by (simp_all add: pm_inv_def object_ok_def waits_ok_def waits_of_def old_handle_def owned_by_def)

lemma later_sel [simp]:
  "pm_objects (later w) = pm_objects w" "manager_state (later w) = manager_state w" "pw_env (later w) = pw_env w"
  "pw_clock (later w) = Suc (pw_clock w)" "pw_waits (later w) = pw_waits w" "pw_next (later w) = pw_next w"
  by (simp_all add: later_def manager_state_def)

lemma keeps_later [simp]: "keeps A w (later w)"
  by (simp add: keeps_def)

lemma signal_rest_spec:
  assumes "pm_inv R K S w" "0 < K a" "K a = 1 \<longrightarrow> a \<notin> S" "services_ok (pm_proc os) conv"
  shows "returns (signal_rest os a w) (\<lambda>w'. pm_inv R (K(a := K a - 1)) S w' \<and> keeps {} w w')"
proof -
  obtain p where a: "pm_objects w a = Some p" using pm_invD(3) [OF assms(1,2)] by blast
  have "server_wf p" using pm_invD(5) [OF assms(1) a] by (simp add: object_ok_def)
  from SendShutdownHttpMessage_total [OF assms(4) this] obtain hr sent
    where m: "SendShutdownHttpMessage os (pw_clock w) p = Some (hr, sent)" by fastforce
  have l: "pm_inv R K S (later w)" using assms(1) by simp
  let ?c = "FAILED hr \<and> \<not> (sg_attach_console os (pw_clock w) \<and> sg_ctrl_event os (pw_clock w))"
  have "returns (if ?c then TerminateBackendProcess a (later w) else Some (later w)) (\<lambda>w'. pm_inv R K S w' \<and> keeps {} w w')"
    using TerminateBackendProcess_spec [OF l assms(2)] l keeps_trans [OF keeps_later, of _ w]
    by (auto elim!: returns_mono)
  then obtain w1 where w1: "(if ?c then TerminateBackendProcess a (later w) else Some (later w)) = Some w1" "pm_inv R K S w1" "keeps {} w w1"
    by (elim returnsE conjE) (rule that)
  show ?thesis
    using DereferenceServerProcess_spec [OF w1(2) assms(2,3)] a m w1(1) keeps_trans [OF w1(3)]
    by (auto simp: signal_rest_def Let_def elim!: returns_mono)
qed

lemma SendShutDownSignalInternal_spec:
  assumes "pm_inv R K S w" "0 < K a" "services_ok (pm_proc os) conv"
  shows "returns (SendShutDownSignalInternal os a w) (\<lambda>w'. pm_inv R K S w' \<and> keeps {} w w')"
proof -
  obtain w1 where w1: "ReferenceServerProcess a w = Some w1" "pm_inv R (K(a := Suc (K a))) S w1" "keeps {} w w1"
    using ReferenceServerProcess_spec [OF assms(1,2)] by (elim returnsE conjE) (rule that)
  show ?thesis
    using signal_rest_spec [OF w1(2) _ _ assms(3), of a] assms(2) w1(1) keeps_trans [OF w1(3)]
    by (auto simp: SendShutDownSignalInternal_def elim!: returns_mono)
qed

lemma open_shutdown_spec:
  assumes "pm_inv R K S w" "0 < K a" "a \<notin> S"
  shows "returns (open_shutdown os a w) (\<lambda>(opened, w'). pm_inv R K (insert a S) w' \<and> keeps {} w w')"
proof -
  obtain p where a: "pm_objects w a = Some p" using pm_invD(3) [OF assms(1,2)] by blast
  obtain leaked where P: "proc_ok a (int (K a)) (owned_by (dom (pm_objects w) - {a}) w + leaked) w p"
    "a \<notin> S \<longrightarrow> m_hShutdownHandle p = NULL_HANDLE" "m_hShutdownHandle p \<noteq> INVALID_HANDLE_VALUE" "R \<subseteq># leaked"
    by (rule pm_inv_split [OF assms(1) a])
  let ?rest = "owned_by (dom (pm_objects w) - {a}) w + leaked"
  obtain h w1 where h: "(if sg_open_process os (pw_clock w) then new_handle (later w) else (NULL_HANDLE, later w)) = (h, w1)" by force
  have o: "opens w w1" "mset (pw_open w1) = filter_mset real_handle {#h#} + mset (pw_open w)" "h \<noteq> INVALID_HANDLE_VALUE"
    using h new_handle_spec [of "later w" h w1] opens_trans [OF later_opens(1), of w w1]
    by (auto simp: real_handle_def later_def split: if_splits)
  note O = o(1) [unfolded opens_def]
  let ?p = "p\<lparr>m_hShutdownHandle := h\<rparr>"
  have null: "m_hShutdownHandle p = NULL_HANDLE" using P(2) assms(3) by simp
  have "waits_ok a (int (K a)) w1 ?p" by (rule waits_ok_opens [OF _ o(1)]) (use P(1) in \<open>simp_all add: proc_ok_def\<close>)
  moreover have "ledger ?rest w1 ?p" using P(1) o(2) null by (simp add: proc_ok_def ledger_def owned_def)
  moreover have "server_wf ?p" "children_ok ?p" using P(1) by (simp_all add: proc_ok_def children_ok_def)
  ultimately have ok: "proc_ok a (int (K a)) ?rest w1 ?p" by (simp add: proc_ok_def)
  have L: "local_step a w w1" by (rule local_step_refl) (use O in simp_all)
  have more: "proc_world.more w1 = proc_world.more w" using O by simp
  note S = object_step [OF assms(1) a L ok P(4) more_frame(1-3) [OF more], of "{}" "insert a S"]
  have "pm_inv R (K(a := K a)) (insert a S) (put_object a ?p w1)" by (rule S(1)) (use O o(3) in auto)
  moreover have "keeps {} w (put_object a ?p w1)" by (rule S(2)) (use O o(3) in auto)
  ultimately show ?thesis using h a by (simp add: open_shutdown_def)
qed

lemma close_shutdown_spec:
  assumes "pm_inv R K (insert a S) w" "0 < K a"
  shows "returns (close_shutdown a w) (\<lambda>w'. pm_inv R K (S - {a}) w' \<and> keeps {} w w')"
proof -
  obtain p where a: "pm_objects w a = Some p" using pm_invD(3) [OF assms] by blast
  obtain leaked where P: "proc_ok a (int (K a)) (owned_by (dom (pm_objects w) - {a}) w + leaked) w p"
    "a \<notin> insert a S \<longrightarrow> m_hShutdownHandle p = NULL_HANDLE" "m_hShutdownHandle p \<noteq> INVALID_HANDLE_VALUE" "R \<subseteq># leaked"
    by (rule pm_inv_split [OF assms(1) a])
  let ?rest = "owned_by (dom (pm_objects w) - {a}) w + leaked" and ?p = "p\<lparr>m_hShutdownHandle := NULL_HANDLE\<rparr>"
  have m: "mset (pw_open w) = filter_mset real_handle {#m_hShutdownHandle p#} + (owned ?p + ?rest)"
    using P(1) by (simp add: proc_ok_def ledger_def owned_def)
  obtain w1 where w1: "close_real (m_hShutdownHandle p) w = Some w1" "closes w w1" "mset (pw_open w1) = owned ?p + ?rest"
    using close_real_spec [OF m] by (elim returnsE conjE) (rule that)
  note C = closes_frame [OF w1(2)]
  have "waits_ok a (int (K a)) w1 ?p"
    using P(1) same_waits_ok [OF C(3,2)] by (simp add: proc_ok_def waits_ok_def)
  then have ok: "proc_ok a (int (K a)) ?rest w1 ?p" using P(1) w1(3) by (simp add: proc_ok_def ledger_def children_ok_def)
  have L: "local_step a w w1" by (rule local_step_refl) (use C in simp_all)
  note S = object_step [OF assms(1) a L ok P(4) more_frame(1-3) [OF C(7)], of "{}" "S - {a}"]
  have inv: "pm_inv R (K(a := K a)) (S - {a}) (put_object a ?p w1)" by (rule S(1)) (use C in auto)
  have kp: "keeps {} w (put_object a ?p w1)" by (rule S(2)) (use C in auto)
  show ?thesis
  proof (cases "real_handle (m_hShutdownHandle p)")
    case True
    then show ?thesis using inv kp w1(1) a by (simp add: close_shutdown_def real_handle_def close_real_def)
  next
    case False
    then have "m_hShutdownHandle p = NULL_HANDLE" using P(3) by (simp add: real_handle_def)
    then have "put_object a ?p w1 = w" using w1(1) a by (simp add: close_real_def put_object_def fun_upd_idem)
    then show ?thesis using False inv kp a by (auto simp: close_shutdown_def real_handle_def)
  qed
qed


text \<open>A handle an operation opens for itself.\<close>

lemma waits_ok_more_handles: "waits_ok a k w p \<Longrightarrow> pw_waits w' = pw_waits w \<Longrightarrow> pw_next w \<le> pw_next w' \<Longrightarrow> waits_ok a k w' p"
  using old_handle_mono [of w w'] unfolding waits_ok_def waits_of_def by fastforce

lemma pm_inv_world:
  assumes "pm_inv R K S w" "mset (pw_open w') = owned_by (dom (pm_objects w)) w + leaked" "R' \<subseteq># leaked"
    "pw_waits w' = pw_waits w" "pw_next w \<le> pw_next w'" "proc_world.more w' = proc_world.more w"
  shows "pm_inv R' K S w'"
proof -
  note M = more_frame [OF assms(6)]
  have o: "owned_by A w' = owned_by A w" for A by (rule owned_by_cong) (use M in simp)
  have ob: "object_ok S a (K a) w' p" if "pm_objects w' a = Some p" for a p
    using that pm_invD(5) [OF assms(1), of a p] waits_ok_more_handles [OF _ assms(4,5)] M(1) by (auto simp: object_ok_def)
  show ?thesis
    by (rule pm_invI [OF _ _ _ _ _ assms(3) ob])
      (use M o assms(2,4) pm_invD(1-4,7) [OF assms(1)] in \<open>auto dest!: pm_invD(3,4) [OF assms(1)]\<close>)
qed

lemma new_handle_reserved:
  assumes "pm_inv R K S w" "new_handle w = (h, w')"
  shows "pm_inv (add_mset h R) K S w'" "keeps {} w w'"
proof -
  note N = new_handle_spec [OF assms(2)]
  note O = N(1) [unfolded opens_def]
  obtain leaked where l: "mset (pw_open w) = owned_by (dom (pm_objects w)) w + leaked" "R \<subseteq># leaked"
    using pm_invD(6) [OF assms(1)] by blast
  show "pm_inv (add_mset h R) K S w'"
    by (rule pm_inv_world [OF assms(1), of _ "add_mset h leaked"]) (use N(2) O l in simp_all)
  have more: "proc_world.more w' = proc_world.more w" using O by simp
  show "keeps {} w w'" using O more_frame [OF more] by (simp add: keeps_def)
qed

lemma CloseHandle_reserved:
  assumes "pm_inv (add_mset h R) K S w"
  shows "returns (CloseHandle h w) (\<lambda>w'. pm_inv R K S w' \<and> keeps {} w w')"
proof -
  obtain leaked where l: "mset (pw_open w) = owned_by (dom (pm_objects w)) w + leaked" "add_mset h R \<subseteq># leaked"
    using pm_invD(6) [OF assms] by blast
  obtain rest where r: "leaked = add_mset h rest" "R \<subseteq># rest"
    using l(2) by (metis add_mset_add_single insert_DiffM mset_subset_eq_insertD subset_mset.le_diff_conv2 mset_subset_eq_single single_subset_iff insert_subset_eq_iff)
  have o: "mset (pw_open w) = add_mset h (owned_by (dom (pm_objects w)) w + rest)" using l(1) r(1) by simp
  obtain w1 where w1: "CloseHandle h w = Some w1" "closes w w1" "mset (pw_open w1) = owned_by (dom (pm_objects w)) w + rest"
    using CloseHandle_spec [OF o] by (elim returnsE conjE) (rule that)
  note C = closes_frame [OF w1(2)]
  have "pm_inv R K S w1"
    by (rule pm_inv_world [OF assms w1(3) r(2)]) (use C in simp_all)
  moreover have "keeps {} w w1" using C more_frame [OF C(7)] by (simp add: keeps_def)
  ultimately show ?thesis using w1(1) by simp
qed

definition signalled :: "nat \<Rightarrow> bool \<Rightarrow> 'a pm_world_scheme \<Rightarrow> 'a pm_world_scheme \<Rightarrow> bool" where
  "signalled a stuck w w' \<longleftrightarrow> keeps {} w (w'\<lparr>pm_signals := pm_signals w\<rparr>) \<and> pm_signals w' = (if stuck then a # pm_signals w else pm_signals w)"

lemma signalled_keeps:
  assumes "keeps {} u w" "signalled a stuck w w'" "keeps {} w' w''"
  shows "signalled a stuck u w''"
proof -
  have w: "keeps {} w (w'\<lparr>pm_signals := pm_signals w\<rparr>)" using assms(2) by (simp add: signalled_def)
  have obj: "\<exists>p. pm_objects u b = Some p \<and> m_fReady q' = m_fReady p" if b: "pm_objects w'' b = Some q'" for b q'
  proof -
    obtain q where q: "pm_objects w' b = Some q" "m_fReady q' = m_fReady q" using assms(3) b unfolding keeps_def by blast
    have "pm_objects (w'\<lparr>pm_signals := pm_signals w\<rparr>) b = Some q" using q(1) by simp
    then obtain r where r: "pm_objects w b = Some r" "m_fReady q = m_fReady r" using w unfolding keeps_def by blast
    obtain p where "pm_objects u b = Some p" "m_fReady r = m_fReady p" using assms(1) r(1) unfolding keeps_def by blast
    then show ?thesis using q(2) r(2) by simp
  qed
  have st: "manager_state w = manager_state u" "manager_state (w'\<lparr>pm_signals := pm_signals w\<rparr>) = manager_state w" "manager_state w'' = manager_state w'"
    using assms w by (simp_all add: keeps_def)
  have "pw_clock u \<le> pw_clock w''" "pw_env w'' = pw_env u" using assms w by (simp_all add: keeps_def)
  moreover have "manager_state (w''\<lparr>pm_signals := pm_signals u\<rparr>) = manager_state u"
    using st by (simp add: manager_state_def)
  moreover have "pm_signals w'' = pm_signals w'" "pm_signals w = pm_signals u" using st by (simp_all add: manager_state_def)
  ultimately show ?thesis using obj assms(2) by (simp add: signalled_def keeps_def)
qed

lemma pm_inv_if_signals: "pm_inv R K S (if c then w\<lparr>pm_signals := xs\<rparr> else w) = pm_inv R K S w"
  by simp

lemma signal_thread_spec:
  assumes "pm_inv R K S w" "0 < K a" "services_ok (pm_proc os) conv"
  shows "returns (signal_thread os a w) (\<lambda>(failed, w'). \<exists>stuck. pm_inv R (K(a := K a + of_bool stuck)) S w' \<and> signalled a stuck w w')"
proof (cases "sg_create_thread os (pw_clock w)")
  case False
  then show ?thesis using assms(1) keeps_later [of "{}" w]
    by (auto simp: signal_thread_def signalled_def keeps_def manager_state_def later_def intro!: exI [of _ False])
next
  case True
  have l: "pm_inv R K S (later w)" using assms(1) by simp
  obtain h w1 where h: "new_handle (later w) = (h, w1)" by force
  note N = new_handle_reserved [OF l h]
  let ?stuck = "sg_thread_stuck os (pw_clock w1)"
  let ?K = "K(a := K a + of_bool ?stuck)"
  have "returns (if ?stuck then ReferenceServerProcess a w1 else SendShutDownSignalInternal os a w1)
      (\<lambda>w2. pm_inv (add_mset h R) ?K S w2 \<and> keeps {} w1 w2)"
    using ReferenceServerProcess_spec [OF N(1) assms(2)] SendShutDownSignalInternal_spec [OF N(1) assms(2,3)] by simp
  then obtain w2 where w2: "(if ?stuck then ReferenceServerProcess a w1 else SendShutDownSignalInternal os a w1) = Some w2"
    "pm_inv (add_mset h R) ?K S w2" "keeps {} w1 w2" by (elim returnsE conjE) (rule that)
  have l2: "pm_inv (add_mset h R) ?K S (later w2)" using w2(2) by simp
  obtain w3 where w3: "CloseHandle h (later w2) = Some w3" "pm_inv R ?K S w3" "keeps {} (later w2) w3"
    using CloseHandle_reserved [OF l2] by (elim returnsE conjE) (rule that)
  have kp: "keeps {} w w3" using N(2) w2(3) w3(3) keeps_later keeps_trans by metis
  have sg: "pm_signals w3 = pm_signals w" using kp by (simp add: keeps_def manager_state_def)
  let ?exited = "sg_exited os (pw_clock w2)"
  let ?w' = "if ?exited \<and> ?stuck then w3\<lparr>pm_signals := a # pm_signals w3\<rparr> else w3"
  have run: "signal_thread os a w = Some (\<not> ?exited, ?w')"
    using True h w2(1) w3(1) by (simp add: signal_thread_def Let_def)
  have "pm_inv R (K(a := K a + of_bool (?exited \<and> ?stuck))) S ?w'"
  proof -
    have "pm_inv R (K(a := K a + of_bool (?exited \<and> ?stuck))) S w3" by (rule pm_inv_mono [OF w3(2)]) simp
    then show ?thesis unfolding pm_inv_if_signals .
  qed
  moreover have "signalled a (?exited \<and> ?stuck) w ?w'"
    using kp sg by (auto simp: signalled_def keeps_def manager_state_def)
  ultimately show ?thesis unfolding run returns_simps prod.case by (intro exI conjI)
qed

lemma SendSignal_spec:
  assumes "pm_inv R K {} w" "0 < K a" "services_ok (pm_proc os) conv"
  shows "returns (SendSignal os a w) (\<lambda>w'. \<exists>stuck. pm_inv R (K(a := K a + of_bool stuck)) {} w' \<and> signalled a stuck w w')"
proof -
  let ?K = "\<lambda>n. K(a := n)"
  obtain w1 where w1: "ReferenceServerProcess a w = Some w1" "pm_inv R (?K (Suc (K a))) {} w1" "keeps {} w w1"
    using ReferenceServerProcess_spec [OF assms(1,2)] by (elim returnsE conjE) (rule that)
  obtain opened w2 where w2: "open_shutdown os a w1 = Some (opened, w2)" "pm_inv R (?K (Suc (K a))) {a} w2" "keeps {} w1 w2"
    by (rule returns_pairE [OF open_shutdown_spec [OF w1(2), of a os]]) (simp_all add: that)
  have "returns (if opened then signal_thread os a w2 else Some (True, w2))
      (\<lambda>(failed, w'). \<exists>stuck. pm_inv R (?K (Suc (K a) + of_bool stuck)) {a} w' \<and> signalled a stuck w2 w')"
    using signal_thread_spec [OF w2(2) _ assms(3), of a] w2(2) by (auto simp: signalled_def intro!: exI [of _ False] elim!: returns_mono)
  then obtain failed w3 stuck where w3: "(if opened then signal_thread os a w2 else Some (True, w2)) = Some (failed, w3)"
    "pm_inv R (?K (Suc (K a) + of_bool stuck)) {a} w3" "signalled a stuck w2 w3" by (elim returns_pairE exE conjE) (rule that)
  have "returns (if failed then TerminateBackendProcess a w3 else Some w3)
      (\<lambda>w'. pm_inv R (?K (Suc (K a) + of_bool stuck)) {a} w' \<and> keeps {} w3 w')"
    using TerminateBackendProcess_spec [OF w3(2), of a] w3(2) by simp
  then obtain w4 where w4: "(if failed then TerminateBackendProcess a w3 else Some w3) = Some w4"
    "pm_inv R (?K (Suc (K a) + of_bool stuck)) {a} w4" "keeps {} w3 w4" by (elim returnsE conjE) (rule that)
  obtain w5 where w5: "close_shutdown a w4 = Some w5" "pm_inv R (?K (Suc (K a) + of_bool stuck)) {} w5" "keeps {} w4 w5"
    using close_shutdown_spec [OF w4(2)] that by (auto elim!: returnsE)
  obtain w6 where w6: "DereferenceServerProcess a w5 = Some w6" "pm_inv R (?K (K a + of_bool stuck)) {} w6" "keeps {} w5 w6"
    using DereferenceServerProcess_spec [OF w5(2), of a] that by (auto elim!: returnsE)
  have sig: "signalled a stuck w w6"
    by (rule signalled_keeps [OF keeps_trans [OF w1(3) w2(3)] w3(3) keeps_trans [OF w4(3) keeps_trans [OF w5(3) w6(3)]]])
  have run: "SendSignal os a w = Some w6"
    unfolding SendSignal_def by (simp only: w1(1) w2(1) w3(1) w4(1) w5(1) w6(1) bind.bind_lunit prod.case)
  show ?thesis unfolding run returns_simps using w6(2) sig by (intro exI conjI)
qed

subsection \<open>The list of processes\<close>

text \<open>Who holds a reference to an object: the list, callbacks in progress and threads in progress.\<close>

definition entries :: "'a pm_world_scheme \<Rightarrow> nat option list" where
  "entries w = (case m_ppServerProcessList w of None \<Rightarrow> [] | Some ps \<Rightarrow> ps)"

definition holders :: "'a pm_world_scheme \<Rightarrow> nat \<Rightarrow> nat" where
  "holders w a = count (mset (entries w)) (Some a) + count (mset (pm_exits w)) a + count (mset (pm_signals w)) a"

definition ready_at :: "'a pm_world_scheme \<Rightarrow> nat \<Rightarrow> bool" where
  "ready_at w a \<longleftrightarrow> (\<exists>p. pm_objects w a = Some p \<and> m_fReady p)"

definition list_ok :: "'a pm_world_scheme \<Rightarrow> bool" where
  "list_ok w \<longleftrightarrow> m_fServerProcessListReady w = (m_ppServerProcessList w \<noteq> None) \<and>
     (\<forall>ps. m_ppServerProcessList w = Some ps \<longrightarrow> length ps = unat (m_dwProcessesPerApplication w) \<and> ps \<noteq> []) \<and>
     (\<forall>a. count (mset (entries w)) (Some a) \<le> 1) \<and> (\<forall>a. Some a \<in> set (entries w) \<longrightarrow> ready_at w a)"

definition pm_ok :: "'a pm_world_scheme \<Rightarrow> bool" where
  "pm_ok w \<longleftrightarrow> pm_inv {#} (holders w) {} w \<and> list_ok w"

text \<open>The fields that an operation on the list leaves alone besides the list.\<close>

definition same_manager :: "'a pm_world_scheme \<Rightarrow> 'a pm_world_scheme \<Rightarrow> bool" where
  "same_manager w w' \<longleftrightarrow> m_fServerProcessListReady w' = m_fServerProcessListReady w \<and>
     m_dwProcessesPerApplication w' = m_dwProcessesPerApplication w \<and> pm_app w' = pm_app w \<and> pm_exits w' = pm_exits w \<and>
     pm_next_object w' = pm_next_object w \<and> pw_env w' = pw_env w \<and> pw_clock w \<le> pw_clock w' \<and> length (entries w') = length (entries w)"

text \<open>The size of the list, and whether it has been made.\<close>

definition same_list :: "'a pm_world_scheme \<Rightarrow> 'a pm_world_scheme \<Rightarrow> bool" where
  "same_list w w' \<longleftrightarrow> m_fServerProcessListReady w' = m_fServerProcessListReady w \<and>
     m_dwProcessesPerApplication w' = m_dwProcessesPerApplication w"

lemma same_manager_list: "same_manager w w' \<Longrightarrow> same_list w w'"
  by (simp add: same_manager_def same_list_def)

lemma same_manager_refl [simp]: "same_manager w w"
  by (simp add: same_manager_def)

lemma same_manager_trans: "same_manager w w' \<Longrightarrow> same_manager w' w'' \<Longrightarrow> same_manager w w''"
  by (auto simp: same_manager_def)

lemma keeps_holders:
  assumes "keeps A w w'"
  shows "holders w' = holders w" "entries w' = entries w" "same_manager w w'"
  using assms by (auto simp: keeps_def manager_state_def holders_def entries_def same_manager_def)

text \<open>Readiness of the objects of the list, when the operation may only touch those in \<open>A\<close>.\<close>

lemma keeps_ready:
  assumes "keeps A w w'" "pm_inv R K S w'" "0 < K b" "b \<notin> A" "ready_at w b"
  shows "ready_at w' b"
proof -
  obtain q' where q': "pm_objects w' b = Some q'" using pm_invD(3) [OF assms(2,3)] by blast
  then obtain q where "pm_objects w b = Some q" "m_fReady q' = m_fReady q" using assms(1,4) unfolding keeps_def by blast
  then show ?thesis using assms(5) q' by (simp add: ready_at_def)
qed

lemma each_slot_inv:
  assumes "\<And>i w. i \<in> set is \<Longrightarrow> I w \<Longrightarrow> returns (f i w) I" "I w"
  shows "returns (each_slot f is w) I"
  using assms
proof (induction "is" arbitrary: w)
  case (Cons i "is")
  obtain w1 where w1: "f i w = Some w1" "I w1" using Cons.prems(1) [of i w] Cons.prems(2) by (auto elim: returnsE)
  show ?case using Cons.IH [OF Cons.prems(1) w1(2)] w1(1) by simp
qed simp

lemma count_clear:
  assumes "i < length ps" "ps ! i = Some a"
  shows "count (mset (ps[i := None])) (Some b) = count (mset ps) (Some b) - of_bool (b = a)"
  using assms by (simp add: mset_update)

text \<open>Clearing the slot of an object whose reference of the list has been released.\<close>

lemma clear_slot:
  assumes ok: "pm_ok w" and slot: "m_ppServerProcessList w = Some ps" "i < length ps" "ps ! i = Some a"
    and inv: "pm_inv {#} ((holders w)(a := holders w a - 1 + of_bool stuck)) {} w'"
    and frame: "keeps {a} w (w'\<lparr>pm_signals := pm_signals w\<rparr>)" "pm_signals w' = (if stuck then a # pm_signals w else pm_signals w)"
  shows "pm_ok (clear_entry i w')" "same_manager w (clear_entry i w')" "entries (clear_entry i w') = (entries w)[i := None]"
proof -
  let ?w = "clear_entry i w'"
  have f: "m_ppServerProcessList w' = Some ps" "pm_exits w' = pm_exits w" "m_fServerProcessListReady w' = m_fServerProcessListReady w"
    "m_dwProcessesPerApplication w' = m_dwProcessesPerApplication w" "pm_app w' = pm_app w" "pm_next_object w' = pm_next_object w"
    "pw_env w' = pw_env w" "pw_clock w \<le> pw_clock w'"
    using frame(1) slot(1) by (simp_all add: keeps_def manager_state_def)
  have e: "entries ?w = ps[i := None]" "entries w = ps" using f slot(1) by (simp_all add: entries_def clear_entry_def)
  have pos: "0 < count (mset ps) (Some a)" using slot(2,3) by (metis count_greater_zero_iff nth_mem set_mset_mset)
  have h: "holders ?w b = ((holders w)(a := holders w a - 1 + of_bool stuck)) b" for b
  proof -
    obtain n where n: "count (mset ps) (Some a) = Suc n" using pos gr0_implies_Suc by blast
    show ?thesis using count_clear [OF slot(2,3), of b] n f(2) frame(2) unfolding holders_def e by (auto simp: clear_entry_def)
  qed
  have inv': "pm_inv {#} (holders ?w) {} ?w"
  proof -
    have "holders ?w = (holders w)(a := holders w a - 1 + of_bool stuck)" using h by (rule ext)
    then show ?thesis using inv by (simp add: clear_entry_def)
  qed
  have lo: "length ps = unat (m_dwProcessesPerApplication w)" "ps \<noteq> []" "\<And>b. count (mset ps) (Some b) \<le> 1"
    "\<And>b. Some b \<in> set ps \<Longrightarrow> ready_at w b" "m_fServerProcessListReady w"
    using ok slot(1) e(2) by (simp_all add: pm_ok_def list_ok_def)
  have ready: "ready_at ?w b" if b: "Some b \<in> set (entries ?w)" for b
  proof -
    have "0 < count (mset (ps[i := None])) (Some b)" using b e(1) by (metis count_greater_zero_iff set_mset_mset)
    then have c: "0 < count (mset ps) (Some b) - of_bool (b = a)" using count_clear [OF slot(2,3), of b] by simp
    have ba: "b \<noteq> a" using c lo(3) [of b] by auto
    have "Some b \<in> set ps" using c by (metis count_greater_zero_iff diff_is_0_eq' gr_zeroI less_numeral_extra(3) set_mset_mset zero_le)
    then have r: "ready_at w b" by (rule lo(4))
    have p: "0 < ((holders w)(a := holders w a - 1 + of_bool stuck)) b"
      using ba c by (simp add: holders_def e(2))
    have "pm_inv {#} ((holders w)(a := holders w a - 1 + of_bool stuck)) {} (w'\<lparr>pm_signals := pm_signals w\<rparr>)" using inv by simp
    from keeps_ready [OF frame(1) this p _ r] ba have "ready_at (w'\<lparr>pm_signals := pm_signals w\<rparr>) b" by simp
    then show ?thesis by (simp add: ready_at_def clear_entry_def)
  qed
  have cnt: "count (mset (entries ?w)) (Some b) \<le> 1" for b
    using count_clear [OF slot(2,3), of b] lo(3) [of b] e(1) by (simp only: le_diff_conv)
  have lst: "m_ppServerProcessList ?w = Some (ps[i := None])" using f(1) by (simp add: clear_entry_def)
  show "pm_ok ?w"
    unfolding pm_ok_def list_ok_def using inv' ready cnt lo f lst by (auto simp: clear_entry_def)
  show "same_manager w ?w" using f e by (simp add: same_manager_def clear_entry_def)
  show "entries ?w = (entries w)[i := None]" using e by simp
qed


lemma entry_live:
  assumes "pm_ok w" "m_ppServerProcessList w = Some ps" "i < length ps" "ps ! i = Some a"
  shows "0 < holders w a" "ready_at w a"
proof -
  have e: "Some a \<in> set ps" using assms(3,4) by (metis nth_mem)
  then show "0 < holders w a" using assms(2) by (simp add: holders_def entries_def count_greater_zero_iff)
  show "ready_at w a" using e assms(1,2) by (simp add: pm_ok_def list_ok_def entries_def)
qed

lemma list_entry_spec:
  assumes "pm_ok w" "i < unat (m_dwProcessesPerApplication w)"
  obtains "list_entry w i = Some None"
  | a ps where "list_entry w i = Some (Some a)" "m_ppServerProcessList w = Some ps" "i < length ps" "ps ! i = Some a"
proof (cases "m_ppServerProcessList w")
  case None
  then show ?thesis using that(1) by (simp add: list_entry_def)
next
  case (Some ps)
  then have "i < length ps" using assms by (simp add: pm_ok_def list_ok_def)
  then show ?thesis using that Some by (cases "ps ! i") (auto simp: list_entry_def load_at_def)
qed

lemma list_entry_None: "list_entry w i = Some None \<Longrightarrow> (entries w)[i := None] = entries w"
  by (auto simp: list_entry_def entries_def load_at_def split: option.splits if_splits) (metis list_update_id)

lemma shutdown_slot_spec:
  assumes "pm_ok w" "i < unat (m_dwProcessesPerApplication w)" "x \<in> set (pm_exits w)"
  shows "returns (shutdown_slot x i w) (\<lambda>w'. pm_ok w' \<and> same_manager w w')"
  using assms(1,2)
proof (rule list_entry_spec)
  assume "list_entry w i = Some None"
  then show ?thesis using assms(1) by (simp add: shutdown_slot_def)
next
  fix a ps
  assume e: "list_entry w i = Some (Some a)" and slot: "m_ppServerProcessList w = Some ps" "i < length ps" "ps ! i = Some a"
  have inv: "pm_inv {#} (holders w) {} w" using assms(1) by (simp add: pm_ok_def)
  note live = entry_live [OF assms(1) slot]
  obtain p where p: "pm_objects w a = Some p" using pm_invD(3) [OF inv live(1)] by blast
  have "0 < holders w x" using assms(3) by (simp add: holders_def count_greater_zero_iff)
  then obtain q where q: "pm_objects w x = Some q" using pm_invD(3) [OF inv] by blast
  obtain w1 where w1: "StopProcess a w = Some w1" "pm_inv {#} (holders w) {} w1" "keeps {a} w w1"
    using StopProcess_spec [OF inv p] by (elim returnsE conjE) (rule that)
  obtain w2 where w2: "DereferenceServerProcess a w1 = Some w2" "pm_inv {#} ((holders w)(a := holders w a - 1)) {} w2" "keeps {} w1 w2"
    using DereferenceServerProcess_spec [OF w1(2) live(1)] by (auto elim: returnsE)
  have k: "keeps {a} w w2" by (rule keeps_trans [OF w1(3) keeps_sub [OF w2(3)]]) simp
  then have "pm_signals w2 = pm_signals w" by (simp add: keeps_def manager_state_def)
  then have "keeps {a} w (w2\<lparr>pm_signals := pm_signals w\<rparr>)" "pm_signals w2 = (if False then a # pm_signals w else pm_signals w)"
    using k by (simp_all add: keeps_def manager_state_def)
  from clear_slot [OF assms(1) slot _ this] have "pm_ok (clear_entry i w2)" "same_manager w (clear_entry i w2)"
    using w2(2) by simp_all
  then show ?thesis using e p q w1(1) w2(1) assms(1) by (simp add: shutdown_slot_def)
qed

lemma ShutdownProcess_spec:
  assumes "pm_ok w" "x \<in> set (pm_exits w)"
  shows "returns (ShutdownProcess x w) (\<lambda>w'. pm_ok w' \<and> same_manager w w')"
proof -
  have inv: "pm_inv {#} (holders w) {} w" using assms(1) by (simp add: pm_ok_def)
  have "0 < holders w x" using assms(2) by (simp add: holders_def count_greater_zero_iff)
  then obtain q where "pm_objects w x = Some q" using pm_invD(3) [OF inv] by blast
  then have pos: "0 < pm_cRefs w" by (rule owner_pos [OF inv])
  have "returns (each_slot (shutdown_slot x) [0..<unat (m_dwProcessesPerApplication w)] w) (\<lambda>w'. pm_ok w' \<and> same_manager w w')"
  proof (rule each_slot_inv)
    fix i v
    assume i: "i \<in> set [0..<unat (m_dwProcessesPerApplication w)]" and v: "pm_ok v \<and> same_manager w v"
    then have "i < unat (m_dwProcessesPerApplication v)" "x \<in> set (pm_exits v)" using assms(2) by (simp_all add: same_manager_def)
    from shutdown_slot_spec [OF _ this] v show "returns (shutdown_slot x i v) (\<lambda>w'. pm_ok w' \<and> same_manager w w')"
      using same_manager_trans by (auto elim!: returns_mono)
  qed (use assms in simp)
  then show ?thesis using pos by (simp add: ShutdownProcess_def ShutdownProcessNoLock_def)
qed

lemma signal_slot_spec:
  assumes "pm_ok w" "i < unat (m_dwProcessesPerApplication w)" "services_ok (pm_proc os) conv"
  shows "returns (signal_slot os i w) (\<lambda>w'. pm_ok w' \<and> same_manager w w' \<and> entries w' = (entries w)[i := None])"
  using assms(1,2)
proof (rule list_entry_spec)
  assume "list_entry w i = Some None"
  then show ?thesis using assms(1) list_entry_None [of w i] by (simp add: signal_slot_def)
next
  fix a ps
  assume e: "list_entry w i = Some (Some a)" and slot: "m_ppServerProcessList w = Some ps" "i < length ps" "ps ! i = Some a"
  have inv: "pm_inv {#} (holders w) {} w" using assms(1) by (simp add: pm_ok_def)
  note live = entry_live [OF assms(1) slot]
  obtain w1 stuck where w1: "SendSignal os a w = Some w1" "pm_inv {#} ((holders w)(a := holders w a + of_bool stuck)) {} w1"
    "signalled a stuck w w1"
    using SendSignal_spec [OF inv live(1) assms(3)] by (elim returnsE exE conjE) (rule that)
  have h: "holders w a + of_bool stuck - 1 = holders w a - 1 + of_bool stuck" using live(1) by simp
  obtain w2 where w2: "DereferenceServerProcess a w1 = Some w2"
    "pm_inv {#} ((holders w)(a := holders w a - 1 + of_bool stuck)) {} w2" "keeps {} w1 w2"
    using DereferenceServerProcess_spec [OF w1(2), of a] live(1) h by (auto elim: returnsE)
  have s: "signalled a stuck w w2" by (rule signalled_keeps [OF keeps_refl w1(3) w2(3)])
  then have "keeps {a} w (w2\<lparr>pm_signals := pm_signals w\<rparr>)" "pm_signals w2 = (if stuck then a # pm_signals w else pm_signals w)"
    unfolding signalled_def using keeps_sub by blast+
  from clear_slot [OF assms(1) slot w2(2) this]
  have "pm_ok (clear_entry i w2)" "same_manager w (clear_entry i w2)" "entries (clear_entry i w2) = (entries w)[i := None]" .
  then show ?thesis using e w1(1) w2(1) by (simp add: signal_slot_def)
qed

text \<open>After the loop over all slots every entry is empty.\<close>

lemma clear_all:
  "fold (\<lambda>i es. es[i := None]) [0..<n] es = replicate (min n (length es)) None @ drop n es"
proof (induction n)
  case (Suc n)
  show ?case
  proof (cases "n < length es")
    case True
    have "es ! n # drop (Suc n) es = drop n es" using True by (rule Cons_nth_drop_Suc)
    then show ?thesis using Suc True by (simp add: list_update_append min_def upd_conv_take_nth_drop replicate_append_same [symmetric] flip: Cons_nth_drop_Suc)
  qed (use Suc in \<open>simp add: min_def list_update_beyond\<close>)
qed simp

lemma each_slot_clears:
  assumes "\<And>i w. i \<in> set is \<Longrightarrow> I w \<Longrightarrow> returns (f i w) (\<lambda>w'. I w' \<and> entries w' = (entries w)[i := None])" "I w"
  shows "returns (each_slot f is w) (\<lambda>w'. I w' \<and> entries w' = fold (\<lambda>i es. es[i := None]) is (entries w))"
  using assms
proof (induction "is" arbitrary: w)
  case (Cons i "is")
  obtain w1 where w1: "f i w = Some w1" "I w1" "entries w1 = (entries w)[i := None]"
    using Cons.prems(1) [of i w] Cons.prems(2) by (auto elim: returnsE)
  show ?case using Cons.IH [OF Cons.prems(1) w1(2)] w1(1,3) by simp
qed simp

lemma ShutdownAllProcesses_spec:
  assumes "pm_ok w" "services_ok (pm_proc os) conv" "0 < pm_cRefs w"
  shows "returns (ShutdownAllProcesses os w) (\<lambda>w'. pm_ok w' \<and> same_manager w w' \<and> set (entries w') \<subseteq> {None})"
proof -
  let ?n = "unat (m_dwProcessesPerApplication w)"
  have "returns (each_slot (signal_slot os) [0..<?n] w) (\<lambda>w'. (pm_ok w' \<and> same_manager w w') \<and>
      entries w' = fold (\<lambda>i es. es[i := None]) [0..<?n] (entries w))"
  proof (rule each_slot_clears)
    fix i v
    assume i: "i \<in> set [0..<?n]" and v: "pm_ok v \<and> same_manager w v"
    then have "i < unat (m_dwProcessesPerApplication v)" by (simp add: same_manager_def)
    from signal_slot_spec [OF _ this assms(2)] v
    show "returns (signal_slot os i v) (\<lambda>w'. (pm_ok w' \<and> same_manager w w') \<and> entries w' = (entries v)[i := None])"
      using same_manager_trans by (auto elim!: returns_mono)
  qed (use assms in simp)
  moreover have "length (entries w) \<le> ?n" using assms(1) by (auto simp: pm_ok_def list_ok_def entries_def split: option.splits)
  ultimately show ?thesis
    using assms(3) by (auto simp: ShutdownAllProcesses_def ShutdownAllProcessesNoLock_def clear_all elim!: returns_mono)
qed

subsection \<open>The end of a process\<close>

lemma filter_remove1_other: "\<not> P x \<Longrightarrow> filter P (remove1 x xs) = filter P xs"
  by (induction xs) auto

lemma filter_remove1_same: "P x \<Longrightarrow> filter P (remove1 x xs) = remove1 x (filter P xs)"
  by (induction xs) auto

lemma pm_inv_if_exits: "pm_inv R K S (if c then w\<lparr>pm_exits := xs\<rparr> else w) = pm_inv R K S w"
  by simp

text \<open>The wait is over; the reference of the wait becomes the one of the callback, if that takes the process.\<close>

lemma exit_begins_spec:
  assumes "pm_ok w" "(h, a) \<in> set (pw_waits w)"
  shows "returns (exit_begins h a w) (\<lambda>w'. pm_ok w' \<and> same_list w w' \<and>
    pm_app w' = pm_app w \<and> pw_env w' = pw_env w)"
proof -
  have inv: "pm_inv {#} (holders w) {} w" using assms(1) by (simp add: pm_ok_def)
  obtain p where p: "pm_objects w a = Some p" using pm_invD(4) [OF inv assms(2)] by blast
  obtain leaked where P: "proc_ok a (int (holders w a)) (owned_by (dom (pm_objects w) - {a}) w + leaked) w p"
    "a \<notin> {} \<longrightarrow> m_hShutdownHandle p = NULL_HANDLE" "m_hShutdownHandle p \<noteq> INVALID_HANDLE_VALUE" "{#} \<subseteq># leaked"
    by (rule pm_inv_split [OF inv p])
  let ?rest = "owned_by (dom (pm_objects w) - {a}) w + leaked" and ?w = "w\<lparr>pw_waits := remove1 (h, a) (pw_waits w)\<rparr>"
  let ?taken = "m_lStopping p = 0" and ?p = "p\<lparr>m_lStopping := 1\<rparr>"
  define q where "q = (if ?taken then ?p else p)"
  have wo: "waits_ok a (int (holders w a)) w p" using P(1) by (simp add: proc_ok_def)
  have sub: "set (pw_waits ?w) \<subseteq> set (pw_waits w)" by (simp add: set_remove1_subset)
  have mem: "(h, a) \<in> set (waits_of a w)" using assms(2) by (simp add: waits_of_def)
  have len: "length (waits_of a ?w) = length (waits_of a w) - 1" "0 < length (waits_of a w)"
    using mem length_pos_if_in_set [OF mem] by (simp_all add: waits_of_def filter_remove1_same length_remove1)
  have q: "wait_handles q = wait_handles p" "m_cRefs q = m_cRefs p" "m_lStopping q \<noteq> 0" "owned q = owned p" "server_wf q = server_wf p"
    "children_ok q = children_ok p" "m_hShutdownHandle q = m_hShutdownHandle p" "m_fReady q = m_fReady p" by (simp_all add: q_def)
  have refs: "int (length (waits_of a ?w)) + int (holders w a + of_bool ?taken) \<le> m_cRefs p"
  proof -
    have "length (waits_of a w) = Suc (length (waits_of a ?w))" using len by linarith
    moreover have "int (length (waits_of a w)) + int (holders w a) \<le> m_cRefs p" using wo by (simp add: waits_ok_def)
    ultimately show ?thesis by (cases ?taken) simp_all
  qed
  have "waits_ok a (int (holders w a + of_bool ?taken)) ?w q"
    unfolding waits_ok_def q(1,2) using wo sub refs q(3) by (auto simp: waits_ok_def old_handle_def)
  then have ok: "proc_ok a (int (holders w a + of_bool ?taken)) ?rest ?w q"
    using P(1) unfolding proc_ok_def ledger_def q(4-6) by simp
  have L: "local_step a w ?w" using sub by (auto simp: local_step_def waits_fresh_def filter_remove1_other)
  have N: "pm_objects ?w = pm_objects w" "pm_cRefs ?w = pm_cRefs w" "manager_state ?w = manager_state w" by (simp_all add: manager_state_def)
  note S = object_step [OF inv p L ok P(4) N, of "{}" "{}"]
  have I: "pm_inv {#} ((holders w)(a := holders w a + of_bool ?taken)) {} (put_object a q ?w)" by (rule S(1)) (use q P in simp_all)
  have k: "keeps {} w (put_object a q ?w)" by (rule S(2)) (use q P in simp_all)
  let ?w' = "if ?taken then (put_object a q ?w)\<lparr>pm_exits := a # pm_exits w\<rparr> else put_object a q ?w"
  have "put_object a p ?w = ?w" using p by (simp add: put_object_def fun_upd_idem)
  then have run: "exit_begins h a w = Some ?w'"
    using p by (simp add: exit_begins_def Let_def q_def)
  have e: "entries ?w' = entries w" by (simp add: entries_def)
  have hold: "holders ?w' = (holders w)(a := holders w a + of_bool ?taken)"
    by (rule ext) (simp add: holders_def entries_def)
  have I': "pm_inv {#} (holders ?w') {} ?w'" unfolding hold pm_inv_if_exits by (rule I)
  have "ready_at ?w' b" if b: "Some b \<in> set (entries ?w')" for b
  proof -
    have r: "ready_at w b" "0 < ((holders w)(a := holders w a + of_bool ?taken)) b"
      using b assms(1) by (auto simp: pm_ok_def list_ok_def holders_def e count_greater_zero_iff)
    from keeps_ready [OF k I r(2) _ r(1)] have "ready_at (put_object a q ?w) b" by simp
    then show ?thesis by (simp add: ready_at_def)
  qed
  then have "list_ok ?w'" using assms(1) e by (simp add: pm_ok_def list_ok_def)
  then show ?thesis unfolding run using I' by (simp add: pm_ok_def same_list_def)
qed

text \<open>The readiness of the objects in the list survives what keeps the other objects.\<close>

lemma keeps_list_ok:
  assumes "keeps {} w w'" "list_ok w" "pm_inv R (holders w) {} w'"
  shows "list_ok w'"
proof -
  note k = keeps_holders [OF assms(1)]
  have "ready_at w' b" if b: "Some b \<in> set (entries w')" for b
  proof -
    have "0 < holders w b" "ready_at w b" using b assms(2) by (simp_all add: k(2) holders_def list_ok_def count_greater_zero_iff)
    then show ?thesis using keeps_ready [OF assms(1,3)] by simp
  qed
  moreover have "m_ppServerProcessList w' = m_ppServerProcessList w" "m_fServerProcessListReady w' = m_fServerProcessListReady w"
    "m_dwProcessesPerApplication w' = m_dwProcessesPerApplication w" using assms(1) by (simp_all add: keeps_def manager_state_def)
  ultimately show ?thesis using assms(2) k(2) by (simp add: list_ok_def)
qed

text \<open>The reference of a callback or of a thread is released when it ends.\<close>

lemma deref_ok:
  assumes "pm_inv {#} ((holders w)(a := Suc (holders w a))) {} w" "list_ok w"
  shows "returns (DereferenceServerProcess a w) (\<lambda>w'. pm_ok w' \<and> same_manager w w')"
proof -
  have "(holders w)(a := Suc (holders w a) - 1) = holders w" by simp
  then obtain w' where w': "DereferenceServerProcess a w = Some w'" "pm_inv {#} (holders w) {} w'" "keeps {} w w'"
    using DereferenceServerProcess_spec [OF assms(1), of a] by (auto elim!: returnsE)
  note k = keeps_holders [OF w'(3)]
  have "list_ok w'" by (rule keeps_list_ok [OF w'(3) assms(2) w'(2)])
  then show ?thesis using w'(1,2) k(1,3) by (simp add: pm_ok_def)
qed

lemma pm_ok_clock [simp]: "pm_ok (w\<lparr>pw_clock := t\<rparr>) = pm_ok w" "pm_ok (later w) = pm_ok w"
  "list_ok (w\<lparr>pm_exits := xs\<rparr>) = list_ok w" "list_ok (w\<lparr>pm_signals := xs\<rparr>) = list_ok w"
proof -
  have h: "holders (w\<lparr>pw_clock := t\<rparr>) = holders w" "holders (later w) = holders w" by (auto simp: holders_def entries_def later_def)
  show "pm_ok (w\<lparr>pw_clock := t\<rparr>) = pm_ok w" "pm_ok (later w) = pm_ok w"
    unfolding pm_ok_def h by (simp_all add: list_ok_def entries_def ready_at_def later_def)
  show "list_ok (w\<lparr>pm_exits := xs\<rparr>) = list_ok w" "list_ok (w\<lparr>pm_signals := xs\<rparr>) = list_ok w"
    by (simp_all add: list_ok_def entries_def ready_at_def)
qed

lemma exit_ends_spec:
  assumes "pm_ok w" "a \<in> set (pm_exits w)" "tcp_table_ok (po_net (pm_proc os))"
  shows "returns (exit_ends os a w) (\<lambda>w'. pm_ok w' \<and> same_list w w' \<and>
    pm_app w' = pm_app w \<and> pw_env w' = pw_env w)"
proof -
  have inv: "pm_inv {#} (holders w) {} w" using assms(1) by (simp add: pm_ok_def)
  have "0 < holders w a" using assms(2) by (simp add: holders_def count_greater_zero_iff)
  then obtain p where p: "pm_objects w a = Some p" using pm_invD(3) [OF inv] by blast
  obtain hr pid up t where c: "CheckIfServerIsUp (po_net (pm_proc os)) (m_dwPort p) (pw_clock w) = Some (hr, pid, up, t)" "pw_clock w \<le> t"
    using CheckIfServerIsUp_spec [OF assms(3), of "m_dwPort p" "pw_clock w"] by (auto elim!: returnsE)
  let ?w = "w\<lparr>pw_clock := t\<rparr>"
  have ok: "pm_ok ?w" "a \<in> set (pm_exits ?w)" using assms by simp_all
  have "returns (if \<not> up then ShutdownProcess a ?w else Some ?w) (\<lambda>w'. pm_ok w' \<and> same_manager ?w w')"
    using ShutdownProcess_spec [OF ok] ok by simp
  then obtain w1 where w1: "(if \<not> up then ShutdownProcess a ?w else Some ?w) = Some w1" "pm_ok w1" "same_manager ?w w1"
    by (elim returnsE conjE) (rule that)
  let ?v = "w1\<lparr>pm_exits := remove1 a (pm_exits w1)\<rparr>"
  have mem: "a \<in> set (pm_exits w1)" using w1(3) assms(2) by (simp add: same_manager_def)
  have "holders w1 = (holders ?v)(a := Suc (holders ?v a))"
  proof (rule ext)
    fix b
    obtain n where "count (mset (pm_exits w1)) a = Suc n" using mem by (metis count_greater_zero_iff gr0_implies_Suc set_mset_mset)
    then show "holders w1 b = ((holders ?v)(a := Suc (holders ?v a))) b"
      by (simp add: holders_def entries_def mset_remove1)
  qed
  then have "pm_inv {#} ((holders ?v)(a := Suc (holders ?v a))) {} ?v" "list_ok ?v"
    using w1(2) by (simp_all add: pm_ok_def)
  from deref_ok [OF this] obtain w2 where w2: "DereferenceServerProcess a ?v = Some w2" "pm_ok w2" "same_manager ?v w2"
    by (elim returnsE conjE) (rule that)
  have "exit_ends os a w = Some w2"
    unfolding exit_ends_def by (simp only: p c(1) w1(1) w2(1) bind.bind_lunit prod.case)
  then show ?thesis using w2(2,3) w1(3) by (simp add: same_manager_def same_list_def)
qed

lemma signal_ends_spec:
  assumes "pm_ok w" "a \<in> set (pm_signals w)" "services_ok (pm_proc os) conv"
  shows "returns (signal_rest os a (w\<lparr>pm_signals := remove1 a (pm_signals w)\<rparr>)) (\<lambda>w'. pm_ok w' \<and>
    same_list w w' \<and> pm_app w' = pm_app w \<and> pw_env w' = pw_env w)"
proof -
  let ?v = "w\<lparr>pm_signals := remove1 a (pm_signals w)\<rparr>"
  have h: "holders w = (holders ?v)(a := Suc (holders ?v a))"
  proof (rule ext)
    fix b
    obtain n where "count (mset (pm_signals w)) a = Suc n" using assms(2) by (metis count_greater_zero_iff gr0_implies_Suc set_mset_mset)
    then show "holders w b = ((holders ?v)(a := Suc (holders ?v a))) b"
      by (simp add: holders_def entries_def mset_remove1)
  qed
  have "pm_inv {#} ((holders ?v)(a := Suc (holders ?v a))) {} ?v"
    using assms(1) unfolding pm_ok_def h by simp
  from signal_rest_spec [OF this _ _ assms(3), of a]
  obtain w' where w': "signal_rest os a ?v = Some w'" "pm_inv {#} (holders ?v) {} w'" "keeps {} ?v w'"
    by (auto elim!: returnsE)
  note k = keeps_holders [OF w'(3)]
  have l: "list_ok ?v" using assms(1) by (simp add: pm_ok_def)
  have "list_ok w'" by (rule keeps_list_ok [OF w'(3) l w'(2)])
  then show ?thesis using w'(1,2) k(1,3) by (simp add: pm_ok_def same_manager_def same_list_def)
qed

subsection \<open>Getting a process\<close>

text \<open>What the manager relies on: the services of a start, a configuration with valid strings and at least one process.\<close>

definition manager_os_ok where
  "manager_os_ok os conv \<longleftrightarrow> services_ok (pm_proc os) conv \<and> tcp_table_ok (po_net (pm_proc os)) \<and> log_ok (pm_proc os)"

definition cfg_ok :: "ASPNETCORE_CONFIG \<Rightarrow> bool" where
  "cfg_ok cfg \<longleftrightarrow> QueryProcessesPerApplication cfg \<noteq> 0 \<and>
     (\<forall>s \<in> {QueryProcessPath cfg, QueryStdoutLogFile cfg, QueryApplicationPhysicalPath cfg, QueryApplicationPath cfg,
        QueryApplicationVirtualPath cfg, QueryArguments cfg}. stru_inv s)"

text \<open>The conditions under which every start ends.\<close>

definition request_limits :: "pm_os \<Rightarrow> ASPNETCORE_CONFIG \<Rightarrow> (nat \<Rightarrow> nat) \<Rightarrow> bool" where
  "request_limits os cfg ms \<longleftrightarrow> start_limits (pm_proc os) ms \<and> unat (QueryStartupTimeLimitInMS cfg) \<le> start_limit"

text \<open>
  \<open>StartProcess\<close> does not return for the next object, prepared from the configuration in a world with the objects, open handles and
  environment entries of \<open>w\<close>.
\<close>

definition start_fails :: "pm_os \<Rightarrow> ASPNETCORE_CONFIG \<Rightarrow> 'a pm_world_scheme \<Rightarrow> bool" where
  "start_fails os cfg w \<longleftrightarrow> (\<exists>(w1 :: 'a pm_world_scheme) hr w2 p. pm_objects w1 = pm_objects w \<and> pm_next_object w1 = Suc (pm_next_object w) \<and>
     pw_open w1 = pw_open w \<and> pw_env w1 = pw_env w \<and>
     SERVER_PROCESS_Initialize os cfg w1 (SERVER_PROCESS_new (pm_garbage os) False) = Some (hr, w2, p) \<and> SUCCEEDED hr \<and>
     StartProcess (pm_proc os) (pm_next_object w) w2 p = None)"

lemma start_fails_cong:
  fixes w v :: "'a pm_world_scheme"
  shows "pm_objects w = pm_objects v \<Longrightarrow> pm_next_object w = pm_next_object v \<Longrightarrow> pw_open w = pw_open v \<Longrightarrow> pw_env w = pw_env v \<Longrightarrow>
   start_fails os cfg w = start_fails os cfg v"
  by (simp add: start_fails_def)

text \<open>When a request returns.\<close>

definition request_ends :: "pm_os \<Rightarrow> ASPNETCORE_CONFIG \<Rightarrow> (nat \<Rightarrow> nat) \<Rightarrow> 'a pm_world_scheme \<Rightarrow> bool" where
  "request_ends os cfg ms w \<longleftrightarrow> request_limits os cfg ms \<or> \<not> start_fails os cfg w"

text \<open>The number of environment entries a start may need.\<close>

definition start_budget :: "ASPNETCORE_CONFIG \<Rightarrow> nat" where
  "start_budget cfg = 2 * (Count (QueryEnvironmentVariables cfg) + 6)"

lemma copy_settings_spec:
  assumes "heap_ok 2 heap" "\<And>src upd get. (src, upd, get) \<in> set cs \<Longrightarrow> stru_inv src \<and> (\<forall>p. Q p \<longrightarrow> stru_inv (get p)) \<and> (\<forall>p s. Q p \<longrightarrow> stru_inv s \<longrightarrow> Q (upd s p))"
    "Q p"
  shows "returns (copy_settings heap cs p) (\<lambda>(hr, p'). Q p')"
  using assms(2,3)
proof (induction cs arbitrary: p)
  case (Cons c cs)
  obtain src upd get where c: "c = (src, upd, get)" by (cases c) auto
  have Q: "stru_inv src" "stru_inv (get p)" "\<And>s. stru_inv s \<Longrightarrow> Q (upd s p)"
    using Cons.prems(1) [of src upd get] Cons.prems(2) by (simp_all add: c)
  obtain hr s where s: "STRU_CopyS heap src (get p) = Some (hr, s)" "stru_inv s"
    by (rule returns_pairE [OF STRU_CopyS_spec [OF assms(1) Q(2,1)]]) (elim conjE, rule that)
  have "stru_inv src \<and> (\<forall>p. Q p \<longrightarrow> stru_inv (get p)) \<and> (\<forall>p s. Q p \<longrightarrow> stru_inv s \<longrightarrow> Q (upd s p))" if "(src, upd, get) \<in> set cs"
    for src upd get by (rule Cons.prems(1)) (use that in simp)
  from Cons.IH [OF this Q(3) [OF s(2)]] show ?case using s Q(3) [OF s(2)] by (simp add: c)
qed simp

definition no_strings :: "SERVER_PROCESS \<Rightarrow> SERVER_PROCESS" where
  "no_strings p = p\<lparr>m_ProcessPath := STRU_new, m_struLogFile := STRU_new, m_struPhysicalPath := STRU_new,
     m_struAppFullPath := STRU_new, m_struAppVirtualPath := STRU_new, m_Arguments := STRU_new\<rparr>"

lemma no_strings_simps [simp]:
  "no_strings (p\<lparr>m_ProcessPath := s\<rparr>) = no_strings p" "no_strings (p\<lparr>m_struLogFile := s\<rparr>) = no_strings p"
  "no_strings (p\<lparr>m_struPhysicalPath := s\<rparr>) = no_strings p" "no_strings (p\<lparr>m_struAppFullPath := s\<rparr>) = no_strings p"
  "no_strings (p\<lparr>m_struAppVirtualPath := s\<rparr>) = no_strings p" "no_strings (p\<lparr>m_Arguments := s\<rparr>) = no_strings p"
  by (simp_all add: no_strings_def)

lemma initialize_strings_spec:
  assumes "heap_ok 2 heap" "cfg_ok cfg" "server_wf p"
  shows "returns (initialize_strings heap cfg p) (\<lambda>(hr, p'). server_wf p' \<and> no_strings p' = no_strings p)"
proof -
  have "returns (initialize_strings heap cfg p) (\<lambda>(hr, p'). (\<lambda>q. server_wf q \<and> no_strings q = no_strings p) p')"
    unfolding initialize_strings_def
    by (rule copy_settings_spec [OF assms(1)]) (use assms(2,3) in \<open>auto simp: cfg_ok_def server_wf_def\<close>)
  then show ?thesis .
qed

text \<open>An object that has nothing yet; its address is new.\<close>

definition blank :: "SERVER_PROCESS \<Rightarrow> bool" where
  "blank p \<longleftrightarrow> m_cRefs p = 1 \<and> m_lStopping p = 0 \<and> \<not> m_fReady p \<and> m_cChildProcess p = 0 \<and> owned p = {#} \<and> wait_handles p = {} \<and>
     m_hProcessHandle p = NULL_HANDLE \<and> m_hListeningProcessHandle p = NULL_HANDLE \<and> m_hShutdownHandle p = NULL_HANDLE \<and> children_ok p"

lemma blank_no_strings: "blank (no_strings p) = blank p"
  by (simp add: blank_def no_strings_def owned_def wait_handles_def children_ok_def)

lemma blank_new: "blank (SERVER_PROCESS_new d b)" "server_wf (SERVER_PROCESS_new d b)"
  by (auto simp: blank_def SERVER_PROCESS_new_def owned_def wait_handles_def children_ok_def server_wf_def stru_inv_new stra_inv_new
      MAX_ACTIVE_CHILD_PROCESSES_def)

lemma pm_inv_old_waits: "pm_inv R K S w \<Longrightarrow> (h, a) \<in> set (pw_waits w) \<Longrightarrow> old_handle w h"
  using pm_invD(4,5) [of R K S w] by (fastforce simp: object_ok_def waits_ok_def)

lemma blank_proc_ok:
  assumes "pm_inv R K S w" "pm_objects w a = None" "blank p" "server_wf p" "mset (pw_open w) = rest"
  shows "proc_ok a 1 rest w p"
proof -
  have q: "q \<noteq> a" if "(h, q) \<in> set (pw_waits w)" for h q using pm_invD(4) [OF assms(1) that] assms(2) by auto
  then have none: "waits_of a w = []" by (auto simp: waits_of_def filter_empty_conv)
  have nw: "m_hProcessWaitHandle p = NULL_HANDLE" using assms(3) by (auto simp: blank_def wait_handles_def)
  show ?thesis
    using assms(3-5) none q nw pm_inv_old_waits [OF assms(1)]
    by (auto simp: proc_ok_def ledger_def waits_ok_def blank_def)
qed

lemma SERVER_PROCESS_Initialize_spec:
  assumes inv: "pm_inv R K S w" and a: "pm_objects w a = None" and app: "pm_app w" and os: "services_ok (pm_proc os) conv" and cfg: "cfg_ok cfg"
    and p: "blank p" "server_wf p"
  shows "returns (SERVER_PROCESS_Initialize os cfg w p) (\<lambda>(hr, w', p'). proc_ok a 1 (mset (pw_open w)) w' p' \<and>
    local_step a w w' \<and> pm_cRefs w' = pm_cRefs w + 1 \<and> pm_objects w' = pm_objects w \<and> manager_state w' = manager_state w \<and> pw_env w' = pw_env w \<and>
    pw_clock w \<le> pw_clock w' \<and> m_hShutdownHandle p' = NULL_HANDLE \<and> (SUCCEEDED hr \<longrightarrow> idle p' \<and> \<not> m_fReady p' \<and> m_cChildProcess p' = 0 \<and>
      m_pEnvironmentVarTable p' = QueryEnvironmentVariables cfg \<and> m_dwStartupTimeLimitInMS p' = QueryStartupTimeLimitInMS cfg))"
proof -
  let ?w = "w\<lparr>pm_cRefs := pm_cRefs w + 1\<rparr>"
  let ?p = "p\<lparr>m_dwStartupTimeLimitInMS := QueryStartupTimeLimitInMS cfg, m_dwShutdownTimeLimitInMS := QueryShutdownTimeLimitInMS cfg,
                 m_fStdoutLogEnabled := QueryStdoutLogEnabled cfg, m_fWindowsAuthEnabled := QueryWindowsAuthEnabled cfg,
                 m_fBasicAuthEnabled := QueryBasicAuthEnabled cfg, m_fAnonymousAuthEnabled := QueryAnonymousAuthEnabled cfg,
                 m_fWebsocketsEnabled := QueryWebSocketEnabled cfg, m_fDebuggerAttached := False\<rparr>"
  have pos: "0 < pm_cRefs w" using pm_invD(7) [OF inv] app by simp
  have same: "owned ?p = owned p" "wait_handles ?p = wait_handles p" "children_ok ?p = children_ok p"
    by (simp_all add: owned_def wait_handles_def children_ok_def)
  have b: "blank ?p" using p(1) same by (simp add: blank_def)
  have wf: "server_wf ?p" using p(2) by (simp add: server_wf_def)
  obtain hr p2 where s: "initialize_strings (os_heap (po_env (pm_proc os))) cfg ?p = Some (hr, p2)" "server_wf p2" "no_strings p2 = no_strings ?p"
    by (rule returns_pairE [OF initialize_strings_spec [OF services_okD(2) [OF os] cfg wf]]) (elim conjE, rule that)
  have bl: "blank p2" using b s(3) blank_no_strings by metis
  have lim: "m_dwStartupTimeLimitInMS p2 = QueryStartupTimeLimitInMS cfg"
    using arg_cong [OF s(3), of m_dwStartupTimeLimitInMS] by (simp add: no_strings_def)
  have "proc_ok a 1 (mset (pw_open w)) w p2" by (rule blank_proc_ok [OF inv a bl s(2) refl])
  then have ok: "proc_ok a 1 (mset (pw_open w)) ?w p2"
    by (simp add: proc_ok_def ledger_def waits_ok_def waits_of_def old_handle_def)
  have B: "m_hShutdownHandle p2 = NULL_HANDLE" "idle p2" "\<not> m_fReady p2" "m_cChildProcess p2 = 0"
    using bl by (simp_all add: blank_def idle_def)
  show ?thesis
  proof (cases "FAILED hr")
    case True
    then have "SERVER_PROCESS_Initialize os cfg w p = Some (hr, ?w, p2)"
      using pos s(1) by (simp add: SERVER_PROCESS_Initialize_def ReferenceProcessManager_def)
    then show ?thesis using ok B True by (simp add: manager_state_def)
  next
    case False
    obtain hr' w2 p3 where j: "SetupJobObject (pm_proc os) ?w p2 = (hr', w2, p3)" by (cases "SetupJobObject (pm_proc os) ?w p2") auto
    note J = SetupJobObject_spec [OF ok j]
    note F = J(2) [unfolded proc_frame_def]
    let ?p3 = "if FAILED hr' then p3 else p3\<lparr>m_pEnvironmentVarTable := QueryEnvironmentVariables cfg\<rparr>"
    have run: "SERVER_PROCESS_Initialize os cfg w p = Some (hr', w2, ?p3)"
      using pos s(1) False j by (simp add: SERVER_PROCESS_Initialize_def ReferenceProcessManager_def)
    have ok3: "proc_ok a 1 (mset (pw_open w)) w2 ?p3"
      using J(1) by (simp add: proc_ok_def ledger_def owned_def server_wf_def children_ok_def waits_ok_def wait_handles_def)
    have more: "proc_world.more w2 = proc_world.more ?w" using F by simp
    have L: "local_step a w w2" using F by (simp add: local_step_def waits_fresh_def old_handle_def)
    have set: "settings p3 = settings p2" using F by simp
    have h: "m_hProcessHandle p3 = m_hProcessHandle p2"
      using j by (auto simp: SetupJobObject_def split: if_splits prod.splits)
    have mw: "manager_state ?w = manager_state w" by (simp add: manager_state_def)
    have M: "pm_cRefs w2 = pm_cRefs w + 1" "pm_objects w2 = pm_objects w" "manager_state w2 = manager_state w"
      using more_frame [OF more] mw by simp_all
    have E: "pw_env w2 = pw_env w" "pw_clock w \<le> pw_clock w2" using F by simp_all
    have sd: "m_hShutdownHandle ?p3 = NULL_HANDLE" using set B(1) by (simp add: settings_def)
    have "idle ?p3 = idle p3" by (simp add: idle_def wait_handles_def)
    then have good: "idle ?p3 \<and> \<not> m_fReady ?p3 \<and> m_cChildProcess ?p3 = 0 \<and> m_dwStartupTimeLimitInMS ?p3 = QueryStartupTimeLimitInMS cfg"
      using set lim h J(3-6) B(2-4) by (simp add: settings_def idle_def)
    show ?thesis
      unfolding run returns_simps prod.case using ok3 L M E sd good by (intro conjI impI) (simp_all split del: if_split)
  qed
qed


text \<open>
  The new object at the address \<open>a\<close> in the state \<open>w'\<close>, before it is published or deleted.
\<close>

lemma new_object_inv:
  assumes inv: "pm_inv {#} K {} w" and a: "a = pm_next_object w" and ok: "proc_ok a 1 (mset (pw_open w) + leaked) w' p'"
    and step: "local_step a w w'" and more: "pm_objects w' = pm_objects w" "pm_cRefs w' = pm_cRefs w + 1" "pm_next_object w' = Suc a"
      "pm_app w' = pm_app w" and shut: "m_hShutdownHandle p' = NULL_HANDLE"
  shows "pm_inv {#} (K(a := 1)) {} (put_object a p' w')" "K a = 0"
proof -
  have none: "pm_objects w a = None" using pm_invD(2) [OF inv, of a] a by (cases "pm_objects w a") auto
  then show K: "K a = 0" using pm_invD(3) [OF inv, of a] by (cases "K a") auto
  obtain l where l: "mset (pw_open w) = owned_by (dom (pm_objects w)) w + l" using pm_invD(6) [OF inv] by blast
  have d: "dom (pm_objects w) - {a} = dom (pm_objects w)" using none by auto
  have "proc_ok a (int 1) (owned_by (dom (pm_objects w) - {a}) w + (l + leaked)) w' p'"
    using ok unfolding d l by (simp add: ac_simps)
  then show "pm_inv {#} (K(a := 1)) {} (put_object a p' w')"
    by (rule pm_inv_update [OF inv step])
      (use more a shut none pm_invD(1,7) [OF inv] in \<open>simp_all add: card_insert_if domIff\<close>)
qed

lemma new_object_deleted:
  assumes inv: "pm_inv {#} K {} w" and a: "a = pm_next_object w" and ok: "proc_ok a 1 (mset (pw_open w) + leaked) w' p'"
    and step: "local_step a w w'" and more: "pm_objects w' = pm_objects w" "pm_cRefs w' = pm_cRefs w + 1" "pm_next_object w' = Suc a"
      "pm_app w' = pm_app w" and shut: "m_hShutdownHandle p' = NULL_HANDLE"
  shows "returns (delete_process a (put_object a p' w')) (\<lambda>w''. pm_inv {#} K {} w'' \<and> keeps {} (put_object a p' w') w'')"
proof -
  note N = new_object_inv [OF assms]
  have "(K(a := 1))(a := 0) = K" using N(2) by auto
  then show ?thesis using delete_process_spec [OF N(1), of a p'] by simp
qed

text \<open>
  A start returns; its object is published only when it is ready, and otherwise nothing of it is left.
\<close>

definition start_post where
  "start_post K w hr r w' \<longleftrightarrow> (\<exists>n. env_grows n (pw_env w) (pw_env w')) \<and>
    (\<exists>m. manager_state w' = manager_state (w\<lparr>pm_next_object := m\<rparr>)) \<and>
    (\<forall>b q'. b \<noteq> pm_next_object w \<longrightarrow> pm_objects w' b = Some q' \<longrightarrow> (\<exists>q. pm_objects w b = Some q \<and> m_fReady q' = m_fReady q)) \<and>
    (case r of None \<Rightarrow> FAILED hr \<and> pm_inv {#} K {} w'
     | Some a \<Rightarrow> SUCCEEDED hr \<and> a = pm_next_object w \<and> pm_inv {#} (K(a := 1)) {} w' \<and> ready_at w' a)"

text \<open>The object between its creation and its publication.\<close>

definition pending where
  "pending a w w' p' \<longleftrightarrow> (\<exists>leaked. proc_ok a 1 (mset (pw_open w) + leaked) w' p') \<and> local_step a w w' \<and>
     pm_objects w' = pm_objects w \<and> pm_cRefs w' = pm_cRefs w + 1 \<and> manager_state w' = manager_state (w\<lparr>pm_next_object := Suc a\<rparr>) \<and>
     (\<exists>n. env_grows n (pw_env w) (pw_env w')) \<and> m_hShutdownHandle p' = NULL_HANDLE"

lemma manager_state_sel:
  assumes "manager_state w' = manager_state v"
  shows "pm_next_object w' = pm_next_object v" "pm_app w' = pm_app v"
  using assms by (simp_all add: manager_state_def)

lemma pending_failed:
  assumes "pm_inv {#} K {} w" "a = pm_next_object w" "pending a w w' p'" "FAILED hr"
  shows "returns (map_option (\<lambda>w. (hr, None, w)) (delete_process a (put_object a p' w'))) (\<lambda>(hr, r, w''). start_post K w hr r w'')"
proof -
  note P = assms(3) [unfolded pending_def]
  obtain leaked where ok: "proc_ok a 1 (mset (pw_open w) + leaked) w' p'" using P by blast
  have n: "pm_next_object w' = Suc a" "pm_app w' = pm_app w" using P manager_state_sel [of w'] by fastforce+
  obtain w'' where w'': "delete_process a (put_object a p' w') = Some w''" "pm_inv {#} K {} w''" "keeps {} (put_object a p' w') w''"
  proof -
    have "returns (delete_process a (put_object a p' w')) (\<lambda>w''. pm_inv {#} K {} w'' \<and> keeps {} (put_object a p' w') w'')"
      by (rule new_object_deleted [OF assms(1,2) ok _ _ _ n]) (use P in simp_all)
    then show thesis by (elim returnsE conjE) (rule that)
  qed
  note k = w''(3) [unfolded keeps_def]
  have m: "manager_state w'' = manager_state (w\<lparr>pm_next_object := Suc a\<rparr>)" using k P by simp
  have e: "\<exists>n. env_grows n (pw_env w) (pw_env w'')" using k P by simp
  have ob: "\<exists>q. pm_objects w b = Some q \<and> m_fReady q' = m_fReady q" if "b \<noteq> a" "pm_objects w'' b = Some q'" for b q'
    using k P that by fastforce
  show ?thesis using w''(1,2) assms(2,4) m e ob unfolding start_post_def by auto
qed

lemma pending_published:
  assumes "pm_inv {#} K {} w" "a = pm_next_object w" "pending a w w' p'" "SUCCEEDED hr" "m_fReady p'"
  shows "start_post K w hr (Some a) (put_object a p' w')"
proof -
  note P = assms(3) [unfolded pending_def]
  obtain leaked where ok: "proc_ok a 1 (mset (pw_open w) + leaked) w' p'" using P by blast
  have n: "pm_next_object w' = Suc a" "pm_app w' = pm_app w" using P manager_state_sel [of w'] by fastforce+
  have I: "pm_inv {#} (K(a := 1)) {} (put_object a p' w')" by (rule new_object_inv [OF assms(1,2) ok _ _ _ n]) (use P in simp_all)
  show ?thesis using I assms(2,4,5) P unfolding start_post_def by (auto simp: ready_at_def)
qed

lemma start_new_spec:
  assumes inv: "pm_inv {#} K {} w" and app: "pm_app w" and os: "manager_os_ok os conv" and cfg: "cfg_ok cfg"
    and env: "config_ok (start_budget cfg) (pw_env w) (QueryEnvironmentVariables cfg)"
  shows "returns_if (request_ends os cfg ms w) (start_new os cfg w) (\<lambda>(hr, r, w'). start_post K w hr r w')"
proof (cases "pm_new_process os (pw_clock w)")
  case False
  have "\<exists>m. manager_state (later w) = manager_state (w\<lparr>pm_next_object := m\<rparr>)" by (rule exI [of _ "pm_next_object w"]) simp
  moreover have "\<exists>n. env_grows n (pw_env w) (pw_env (later w))" by (rule exI [of _ 0]) simp
  ultimately have "start_post K w E_OUTOFMEMORY None (later w)" using inv unfolding start_post_def by simp
  then show ?thesis using False by (simp add: start_new_def)
next
  case True
  define a where "a = pm_next_object w"
  let ?w = "(later w)\<lparr>pm_next_object := Suc a\<rparr>"
  have S: "services_ok (pm_proc os) conv" "tcp_table_ok (po_net (pm_proc os))" "log_ok (pm_proc os)"
    using os by (simp_all add: manager_os_ok_def)
  have none: "pm_objects w a = None" using pm_invD(2) [OF inv, of a] a_def by (cases "pm_objects w a") auto
  have inv1: "pm_inv {#} K {} ?w"
  proof -
    have o: "owned_by A ?w = owned_by A w" for A by (rule owned_by_cong) simp
    show ?thesis
      using inv unfolding pm_inv_def o
      by (auto simp: a_def later_def object_ok_def waits_ok_def waits_of_def old_handle_def less_Suc_eq)
  qed
  have here: "pm_objects ?w a = None" "pm_app ?w" using none app by (simp_all add: later_def)
  obtain hr w2 p where I: "SERVER_PROCESS_Initialize os cfg ?w (SERVER_PROCESS_new (pm_garbage os) False) = Some (hr, w2, p)"
    "proc_ok a 1 (mset (pw_open ?w)) w2 p" "local_step a ?w w2" "pm_cRefs w2 = pm_cRefs ?w + 1" "pm_objects w2 = pm_objects ?w"
    "manager_state w2 = manager_state ?w" "pw_env w2 = pw_env ?w" "pw_clock ?w \<le> pw_clock w2" "m_hShutdownHandle p = NULL_HANDLE"
    "SUCCEEDED hr \<longrightarrow> idle p \<and> \<not> m_fReady p \<and> m_cChildProcess p = 0 \<and> m_pEnvironmentVarTable p = QueryEnvironmentVariables cfg \<and>
      m_dwStartupTimeLimitInMS p = QueryStartupTimeLimitInMS cfg"
    by (rule returns_tripleE [OF SERVER_PROCESS_Initialize_spec [OF inv1 here S(1) cfg blank_new]]) (elim conjE, rule that)
  have same: "pw_open ?w = pw_open w" "pw_env ?w = pw_env w" "pm_cRefs ?w = pm_cRefs w" "pm_objects ?w = pm_objects w"
    "manager_state ?w = manager_state (w\<lparr>pm_next_object := Suc a\<rparr>)" by (simp_all add: later_def manager_state_def)
  have L: "local_step a w w2" using I(3) by (simp add: local_step_def waits_fresh_def old_handle_def later_def)
  have pend: "pending a w w2 p"
    unfolding pending_def using I(2,4-7,9) L same by (auto intro: exI [of _ "{#}"] exI [of _ 0])
  have run: "start_new os cfg w = (if FAILED hr then map_option (\<lambda>w. (hr, None, w)) (delete_process a (put_object a p w2))
              else StartProcess (pm_proc os) a w2 p \<bind> (\<lambda>(hr, w3, p').
                (if FAILED hr then map_option (\<lambda>w. (hr, None, w)) (delete_process a (put_object a p' w3))
                 else if \<not> m_fReady p'
                 then map_option (\<lambda>w. (HRESULT_FROM_WIN32 ERROR_CREATE_FAILED, None, w)) (delete_process a (put_object a p' w3))
                 else Some (hr, Some a, put_object a p' w3))))"
    using True I(1) by (simp add: start_new_def a_def [symmetric])
  show ?thesis
  proof (cases "FAILED hr")
    case True
    then show ?thesis using returns_returns_if [OF pending_failed [OF inv a_def pend True]] unfolding run by simp
  next
    case False
    then have G: "idle p" "\<not> m_fReady p" "m_cChildProcess p = 0" "m_pEnvironmentVarTable p = QueryEnvironmentVariables cfg"
      "m_dwStartupTimeLimitInMS p = QueryStartupTimeLimitInMS cfg" using I(10) by simp_all
    have C: "config_ok (2 * (Count (m_pEnvironmentVarTable p) + 6)) (pw_env w2) (m_pEnvironmentVarTable p)"
      using env I(7) same(2) G(4) by (simp add: start_budget_def)
    let ?lim = "request_limits os cfg ms"
    have lim: "start_limits (pm_proc os) ms" "unat (m_dwStartupTimeLimitInMS p) \<le> start_limit" if ?lim
      using that G(5) by (simp_all add: request_limits_def)
    note T0 = StartProcess_spec [OF I(2) G(1-3) S C, of ?lim ms, OF lim]
    show ?thesis
    proof (cases "StartProcess (pm_proc os) a w2 p")
      case None
      then have "\<not> ?lim" using T0 by auto
      moreover have "start_fails os cfg w"
        unfolding start_fails_def
        by (rule exI [of _ ?w], rule exI [of _ hr], rule exI [of _ w2], rule exI [of _ p]) (use I(1) None False in \<open>simp add: later_def a_def\<close>)
      ultimately show ?thesis using None False unfolding run by (simp add: request_ends_def)
    next
      case (Some y)
      obtain hr' w3 p' where y: "y = (hr', w3, p')" by (cases y)
      obtain leaked where T: "proc_ok a 1 (mset (pw_open ?w) + leaked) w3 p'" "start_frame a w2 p w3 p'" "m_fReady p' \<longrightarrow> SUCCEEDED hr'"
        using T0 Some y by auto
      note F = T(2) [unfolded start_frame_def]
      have L3: "local_step a w w3"
      proof -
        have "waits_fresh w w3" by (rule waits_fresh_trans) (use L F in \<open>auto simp: local_step_def\<close>)
        then show ?thesis using L F by (auto simp: local_step_def)
      qed
      have more: "proc_world.more w3 = proc_world.more w2" using F by simp
      have sd: "m_hShutdownHandle p' = NULL_HANDLE" using F I(9) by (simp add: identity_def)
      obtain n where "env_grows n (pw_env w2) (pw_env w3)" using F by blast
      then have en: "\<exists>n. env_grows n (pw_env w) (pw_env w3)" using I(7) same(2) by auto
      have pend3: "pending a w w3 p'"
        unfolding pending_def using T(1) L3 more_frame [OF more] I(4-6) same sd en by auto
      note fin = returns_returns_if [OF pending_failed [OF inv a_def pend3]] pending_published [OF inv a_def pend3]
      show ?thesis using False Some y T(3) fin unfolding run by simp
    qed
  qed
qed

lemma pm_inv_K: "pm_inv R K S w \<Longrightarrow> K' = K \<Longrightarrow> pm_inv R K' S w"
  by simp

text \<open>The counter of failures and the routing index concern nothing else.\<close>

lemma pm_ok_fields [simp]:
  "pm_ok (w\<lparr>m_cRapidFailCount := c\<rparr>) = pm_ok w" "pm_ok (w\<lparr>m_dwRapidFailTickStart := d\<rparr>) = pm_ok w"
  "pm_ok (w\<lparr>m_dwRouteToProcessIndex := d\<rparr>) = pm_ok w" "pm_ok (w\<lparr>pm_carries := n\<rparr>) = pm_ok w"
proof -
  have h: "holders (w\<lparr>m_cRapidFailCount := c\<rparr>) = holders w" "holders (w\<lparr>m_dwRapidFailTickStart := d\<rparr>) = holders w"
    "holders (w\<lparr>m_dwRouteToProcessIndex := d\<rparr>) = holders w" "holders (w\<lparr>pm_carries := n\<rparr>) = holders w"
    by (auto simp: holders_def entries_def)
  show "pm_ok (w\<lparr>m_cRapidFailCount := c\<rparr>) = pm_ok w" "pm_ok (w\<lparr>m_dwRapidFailTickStart := d\<rparr>) = pm_ok w"
    "pm_ok (w\<lparr>m_dwRouteToProcessIndex := d\<rparr>) = pm_ok w" "pm_ok (w\<lparr>pm_carries := n\<rparr>) = pm_ok w"
    unfolding pm_ok_def h by (simp_all add: list_ok_def entries_def ready_at_def)
qed

text \<open>The part of the state that the environment of the next start depends on.\<close>

definition grows :: "'a pm_world_scheme \<Rightarrow> 'a pm_world_scheme \<Rightarrow> bool" where
  "grows w w' \<longleftrightarrow> pm_app w' = pm_app w \<and> (\<exists>n. env_grows n (pw_env w) (pw_env w'))"

lemma grows_same: "pm_app w' = pm_app w \<Longrightarrow> pw_env w' = pw_env w \<Longrightarrow> grows w w'"
  by (auto simp: grows_def intro: exI [of _ 0])

lemma grows_trans: "grows w w' \<Longrightarrow> grows w' w'' \<Longrightarrow> grows w w''"
  unfolding grows_def using env_grows_trans [OF _ _ order_refl] by metis

lemma manager_sel [simp]: "m_fServerProcessListReady (later w) = m_fServerProcessListReady w" "pm_app (later w) = pm_app w"
    "m_ppServerProcessList (later w) = m_ppServerProcessList w" "m_dwProcessesPerApplication (later w) = m_dwProcessesPerApplication w"
    "m_cRapidFailCount (later w) = m_cRapidFailCount w" "pm_cRefs (later w) = pm_cRefs w"
  by (simp_all add: later_def)

text \<open>The list, once made, has the length that the configuration asks for.\<close>

definition configured :: "ASPNETCORE_CONFIG \<Rightarrow> 'a pm_world_scheme \<Rightarrow> bool" where
  "configured cfg w \<longleftrightarrow> (m_fServerProcessListReady w \<longrightarrow> m_dwProcessesPerApplication w = QueryProcessesPerApplication cfg)"

lemma configured_same: "same_list w w' \<Longrightarrow> configured cfg w' = configured cfg w"
  by (simp add: same_list_def configured_def)

lemma make_list_spec:
  assumes "pm_ok w" "QueryProcessesPerApplication cfg \<noteq> 0" "make_list os cfg w = (hr, w')"
  shows "pm_ok w'" "grows w w'" "SUCCEEDED hr \<Longrightarrow> m_fServerProcessListReady w'" "pm_cRefs w' = pm_cRefs w" "m_fServerProcessListReady w \<Longrightarrow> w' = w"
    "m_cRapidFailCount w' = m_cRapidFailCount w" "pm_objects w' = pm_objects w"
    "pm_next_object w' = pm_next_object w" "pw_open w' = pw_open w" "pw_env w' = pw_env w"
    "configured cfg w \<Longrightarrow> configured cfg w'" "pm_new_list os (pw_clock w) \<Longrightarrow> SUCCEEDED hr"
proof -
  let ?n = "QueryProcessesPerApplication cfg"
  have "pm_ok w' \<and> (SUCCEEDED hr \<longrightarrow> m_fServerProcessListReady w') \<and> (m_fServerProcessListReady w \<longrightarrow> w' = w)"
  proof (cases "m_fServerProcessListReady w")
    case True
    then show ?thesis using assms by (simp add: make_list_def)
  next
    case False
    have none: "m_ppServerProcessList w = None" using assms(1) False by (auto simp: pm_ok_def list_ok_def)
    let ?w1 = "w\<lparr>m_dwProcessesPerApplication := ?n\<rparr>"
    let ?w2 = "?w1\<lparr>m_ppServerProcessList := Some (replicate (unat ?n) None), m_fServerProcessListReady := True\<rparr>"
    have h: "holders ?w1 = holders w" "holders ?w2 = holders w"
      using none by (auto simp: holders_def entries_def fun_eq_iff)
    have pos: "unat ?n \<noteq> 0" using assms(2) by (simp add: unat_eq_0)
    have "list_ok ?w1" using assms(1) none by (simp add: pm_ok_def list_ok_def entries_def)
    then have 1: "pm_ok ?w1" using assms(1) unfolding pm_ok_def h by simp
    have "list_ok ?w2" using pos by (simp add: list_ok_def entries_def)
    then have 2: "pm_ok ?w2" using assms(1) unfolding pm_ok_def h by simp
    show ?thesis using assms(3) False 1 2 by (auto simp: make_list_def Let_def later_sel(1) manager_sel split: if_splits)
  qed
  then show "pm_ok w'" "SUCCEEDED hr \<Longrightarrow> m_fServerProcessListReady w'" "m_fServerProcessListReady w \<Longrightarrow> w' = w" by simp_all
  show "grows w w'" "pm_cRefs w' = pm_cRefs w" "m_cRapidFailCount w' = m_cRapidFailCount w" "pm_objects w' = pm_objects w"
    "pm_next_object w' = pm_next_object w" "pw_open w' = pw_open w" "pw_env w' = pw_env w"
    "configured cfg w \<Longrightarrow> configured cfg w'" "pm_new_list os (pw_clock w) \<Longrightarrow> SUCCEEDED hr"
    using assms(3) by (auto simp: make_list_def Let_def later_def configured_def intro!: grows_same split: if_splits)
qed

text \<open>Publishing a started object in an empty slot.\<close>

lemma publish:
  assumes ok: "list_ok w" and post: "start_post (holders w) w hr (Some a) w'" and inv: "pm_inv {#} (holders w) {} w"
    and slot: "m_ppServerProcessList w = Some ps" "i < length ps" "ps ! i = None"
  shows "pm_ok (w'\<lparr>m_ppServerProcessList := Some (ps[i := Some a])\<rparr>)" "m_ppServerProcessList w' = Some ps" "ready_at w' a"
proof -
  let ?w = "w'\<lparr>m_ppServerProcessList := Some (ps[i := Some a])\<rparr>"
  note P = post [unfolded start_post_def option.case]
  obtain m where m: "manager_state w' = manager_state (w\<lparr>pm_next_object := m\<rparr>)" using P by blast
  then have f: "m_ppServerProcessList w' = Some ps" "m_fServerProcessListReady w' = m_fServerProcessListReady w"
    "m_dwProcessesPerApplication w' = m_dwProcessesPerApplication w" "pm_exits w' = pm_exits w" "pm_signals w' = pm_signals w"
    using slot(1) by (simp_all add: manager_state_def)
  have a: "a = pm_next_object w" "pm_inv {#} ((holders w)(a := 1)) {} w'" using P by blast+
  have none: "pm_objects w a = None" using pm_invD(2) [OF inv, of a] a(1) by (cases "pm_objects w a") auto
  have K: "holders w a = 0" using pm_invD(3) [OF inv, of a] none by (cases "holders w a") auto
  have c: "count (mset (ps[i := Some a])) (Some b) = count (mset ps) (Some b) + of_bool (b = a)" for b
    using slot(2,3) by (simp add: mset_update)
  have e: "entries ?w = ps[i := Some a]" "entries w = ps" using slot(1) by (simp_all add: entries_def)
  have "holders ?w b = ((holders w)(a := 1)) b" for b
    using c [of b] K f(4,5) by (simp add: holders_def e)
  then have h: "holders ?w = (holders w)(a := 1)" by (rule ext)
  have c0: "count (mset ps) (Some a) = 0" using K by (simp add: holders_def e)
  have lo: "length ps = unat (m_dwProcessesPerApplication w)" "ps \<noteq> []" "m_fServerProcessListReady w"
    "\<And>b. count (mset ps) (Some b) \<le> 1" "\<And>b. Some b \<in> set ps \<Longrightarrow> ready_at w b"
    using ok slot(1) e(2) by (simp_all add: list_ok_def)
  have ready: "ready_at ?w b" if b: "Some b \<in> set (ps[i := Some a])" for b
  proof (cases "b = a")
    case True
    have "ready_at w' a" using P by blast
    then show ?thesis using True by (simp add: ready_at_def)
  next
    case False
    have "Some b \<in> set ps" using set_update_subset_insert [of ps i "Some a"] b False by auto
    then have r: "ready_at w b" "0 < holders w b" using lo(5) by (simp_all add: holders_def e count_greater_zero_iff)
    then obtain q' where q': "pm_objects w' b = Some q'" using pm_invD(3) [OF a(2), of b] False by auto
    then obtain q where "pm_objects w b = Some q" "m_fReady q' = m_fReady q" using P a(1) False by blast
    then show ?thesis using r(1) q' by (simp add: ready_at_def)
  qed
  have "count (mset (entries ?w)) (Some b) \<le> 1" for b
    using c [of b] c0 lo(4) [of b] e(1) by (cases "b = a") simp_all
  moreover have "list_ok ?w = ((\<forall>b. count (mset (entries ?w)) (Some b) \<le> 1) \<and> (\<forall>b. Some b \<in> set (entries ?w) \<longrightarrow> ready_at ?w b))"
    using f lo(1-3) by (auto simp: list_ok_def)
  ultimately have "list_ok ?w" using ready e(1) by simp
  then show "pm_ok ?w" using a(2) unfolding pm_ok_def h by simp
  show "m_ppServerProcessList w' = Some ps" by (rule f(1))
  show "ready_at w' a" using P by blast
qed

text \<open>The outcome of a request: a process that is ready and in the list, or an error.\<close>

definition get_post where
  "get_post w hr r w' \<longleftrightarrow> pm_ok w' \<and> grows w w' \<and>
     (case r of None \<Rightarrow> FAILED hr | Some a \<Rightarrow> SUCCEEDED hr \<and> ready_at w' a \<and> Some a \<in> set (entries w'))"

lemma start_post_failed:
  assumes "pm_ok w" "start_post (holders w) w hr None w'"
  shows "get_post w hr None w'"
proof -
  note P = assms(2) [unfolded start_post_def option.case]
  have inv: "pm_inv {#} (holders w) {} w" using assms(1) by (simp add: pm_ok_def)
  obtain m where m: "manager_state w' = manager_state (w\<lparr>pm_next_object := m\<rparr>)" using P by blast
  then have f: "m_ppServerProcessList w' = m_ppServerProcessList w" "m_fServerProcessListReady w' = m_fServerProcessListReady w"
    "m_dwProcessesPerApplication w' = m_dwProcessesPerApplication w" "pm_exits w' = pm_exits w" "pm_signals w' = pm_signals w"
    "pm_app w' = pm_app w"
    by (simp_all add: manager_state_def)
  have e: "entries w' = entries w" using f by (simp add: entries_def)
  have h: "holders w' = holders w" using f e by (auto simp: holders_def)
  have ready: "ready_at w' b" if b: "Some b \<in> set (entries w)" for b
  proof -
    have r: "ready_at w b" "0 < holders w b" using assms(1) b by (simp_all add: pm_ok_def list_ok_def holders_def count_greater_zero_iff)
    obtain p where "pm_objects w b = Some p" using r(1) by (auto simp: ready_at_def)
    then have "b \<noteq> pm_next_object w" using pm_invD(2) [OF inv] by blast
    moreover obtain q' where q': "pm_objects w' b = Some q'" using pm_invD(3) [of "{#}" "holders w" "{}" w' b] P r(2) by blast
    ultimately obtain q where "pm_objects w b = Some q" "m_fReady q' = m_fReady q" using P by blast
    then show ?thesis using r(1) q' by (simp add: ready_at_def)
  qed
  have "list_ok w'" using assms(1) f e ready by (simp add: pm_ok_def list_ok_def)
  then show ?thesis using P f(6) by (simp add: get_post_def pm_ok_def h grows_def)
qed


lemma RapidFailsPerMinuteExceeded_spec:
  assumes "RapidFailsPerMinuteExceeded os n w = (b, w')"
  shows "pm_ok w' = pm_ok w" "grows w w'" "m_ppServerProcessList w' = m_ppServerProcessList w" "pm_app w' = pm_app w" "pw_env w' = pw_env w"
    "m_dwProcessesPerApplication w' = m_dwProcessesPerApplication w" "pm_objects w' = pm_objects w"
    "m_fServerProcessListReady w' = m_fServerProcessListReady w" "pm_next_object w' = pm_next_object w" "pw_open w' = pw_open w"
  using assms by (auto simp: RapidFailsPerMinuteExceeded_def Let_def later_def intro!: grows_same split: if_splits)

lemma start_in_slot_spec:
  assumes ok: "pm_ok w" and app: "pm_app w" and os: "manager_os_ok os conv" and cfg: "cfg_ok cfg"
    and env: "config_ok (start_budget cfg) (pw_env w) (QueryEnvironmentVariables cfg)"
    and slot: "m_ppServerProcessList w = Some ps" "i < length ps" "ps ! i = None"
  shows "returns_if (request_ends os cfg ms w) (start_in_slot os cfg i w) (\<lambda>(hr, r, w'). get_post w hr r w' \<and> same_list w w')"
proof -
  obtain b w1 where R: "RapidFailsPerMinuteExceeded os (QueryRapidFailsPerMinute cfg) w = (b, w1)" by force
  note F = RapidFailsPerMinuteExceeded_spec [OF R]
  show ?thesis
  proof (cases b)
    case True
    then show ?thesis
      using R F(1,2,6,8) ok by (simp add: start_in_slot_def get_post_def same_list_def ERROR_SERVER_DISABLED_def FAILED_def HRESULT_FROM_WIN32_def)
  next
    case False
    have ok1: "pm_ok w1" "pm_inv {#} (holders w1) {} w1" "list_ok w1" using F(1) ok by (simp_all add: pm_ok_def)
    have slot1: "m_ppServerProcessList w1 = Some ps" using F(3) slot(1) by simp
    have e1: "list_entry w1 i = Some None" using slot1 slot(2,3) by (simp add: list_entry_def load_at_def)
    have app1: "pm_app w1" using F(4) app by simp
    have env1: "config_ok (start_budget cfg) (pw_env w1) (QueryEnvironmentVariables cfg)" using F(5) env by simp
    have ends: "request_ends os cfg ms w1 = request_ends os cfg ms w"
      unfolding request_ends_def using start_fails_cong [of w1 w os cfg] F(5,7,9,10) by simp
    have run: "start_in_slot os cfg i w = start_new os cfg w1 \<bind> (\<lambda>(hr, r, w2). case r of None \<Rightarrow> Some (hr, None, w2)
        | Some a \<Rightarrow> Some (hr, Some a, w2\<lparr>m_ppServerProcessList := map_option (\<lambda>ps. ps[i := Some a]) (m_ppServerProcessList w2)\<rparr>))"
      using R False e1 by (simp add: start_in_slot_def)
    have fin: "case (case r of None \<Rightarrow> (hr, None, w2)
        | Some a \<Rightarrow> (hr, Some a, w2\<lparr>m_ppServerProcessList := map_option (\<lambda>ps. ps[i := Some a]) (m_ppServerProcessList w2)\<rparr>)) of
        (hr, r, w') \<Rightarrow> get_post w hr r w' \<and> same_list w w'" if s: "start_post (holders w1) w1 hr r w2" for hr r w2
    proof -
      have sl: "same_list w w2" using s F(6,8) by (auto simp: start_post_def same_list_def manager_state_def)
      show ?thesis
      proof (cases r)
        case None
        have "get_post w1 hr None w2" by (rule start_post_failed [OF ok1(1)]) (use s None in simp)
        then show ?thesis using None grows_trans [OF F(2)] sl by (simp add: get_post_def)
      next
        case (Some a)
        let ?w = "w2\<lparr>m_ppServerProcessList := Some (ps[i := Some a])\<rparr>"
        note P = publish [OF ok1(3) s [unfolded Some] ok1(2) slot1 slot(2,3)]
        have "grows w1 w2"
          using s unfolding start_post_def grows_def by (auto simp: manager_state_def)
        then have g: "grows w ?w" using grows_trans [OF F(2)] by (simp add: grows_def)
        have sc: "SUCCEEDED hr" using s Some by (simp add: start_post_def)
        have "Some a \<in> set (entries ?w)" using slot(2) by (simp add: entries_def set_update_memI)
        moreover have "ready_at ?w a" using P(3) by (simp add: ready_at_def)
        ultimately have "get_post w hr (Some a) ?w" using P(1) g sc by (simp add: get_post_def)
        then show ?thesis using Some P(2) sl by (simp add: same_list_def)
      qed
    qed
    show ?thesis
      unfolding run returns_if_bind
      by (rule returns_if_mono [OF start_new_spec [OF ok1(2) app1 os cfg env1, of ms, unfolded ends]])
        (use fin in \<open>fastforce split: option.splits\<close>)
  qed
qed

text \<open>In the states that are reached, an entry of the list is ready.\<close>

lemma replace_process_spec:
  assumes ok: "pm_ok w" and app: "pm_app w" and os: "manager_os_ok os conv" and cfg: "cfg_ok cfg"
    and env: "config_ok (start_budget cfg) (pw_env w) (QueryEnvironmentVariables cfg)"
    and slot: "m_ppServerProcessList w = Some ps" "i < length ps"
  shows "returns_if (request_ends os cfg ms w) (replace_process os cfg i w) (\<lambda>(hr, r, w'). get_post w hr r w' \<and> same_list w w')"
proof (cases "ps ! i")
  case None
  then show ?thesis
    using start_in_slot_spec [OF ok app os cfg env slot None, of ms] slot
    by (simp add: replace_process_def list_entry_def load_at_def)
next
  case (Some a)
  obtain p where p: "pm_objects w a = Some p" "m_fReady p" using entry_live(2) [OF ok slot Some] by (auto simp: ready_at_def)
  have "Some a \<in> set (entries w)" using slot Some by (metis entries_def nth_mem option.case(2))
  then have "get_post w S_OK (Some a) w" using ok p grows_same [of w w] by (simp add: get_post_def ready_at_def)
  then show ?thesis using slot Some p by (simp add: replace_process_def list_entry_def load_at_def same_list_def)
qed

lemma next_route_spec:
  assumes "next_route w = (r, w')"
  shows "pm_ok w' = pm_ok w" "grows w w'" "pm_app w' = pm_app w" "pw_env w' = pw_env w" "pm_objects w' = pm_objects w"
    "m_ppServerProcessList w' = m_ppServerProcessList w" "m_dwProcessesPerApplication w' = m_dwProcessesPerApplication w"
    "r = m_dwRouteToProcessIndex w + 1" "m_dwRouteToProcessIndex w' = r"
    "m_fServerProcessListReady w' = m_fServerProcessListReady w" "pm_next_object w' = pm_next_object w" "pw_open w' = pw_open w"
  using assms by (auto simp: next_route_def Let_def intro!: grows_same)

lemma GetProcess_spec:
  assumes ok: "pm_ok w" and app: "pm_app w" and os: "manager_os_ok os conv" and cfg: "cfg_ok cfg"
    and env: "config_ok (start_budget cfg) (pw_env w) (QueryEnvironmentVariables cfg)"
  shows "returns_if (request_ends os cfg ms w) (GetProcess os cfg w) (\<lambda>(hr, r, w'). get_post w hr r w' \<and>
    (configured cfg w \<longrightarrow> configured cfg w') \<and> (pm_new_list os (pw_clock w) \<longrightarrow> m_fServerProcessListReady w'))"
proof -
  have pos: "0 < pm_cRefs w" using pm_invD(7) [of "{#}" "holders w" "{}" w] ok app by (simp add: pm_ok_def)
  obtain hr w1 where l: "make_list os cfg w = (hr, w1)" by force
  have n: "QueryProcessesPerApplication cfg \<noteq> 0" using cfg by (simp add: cfg_ok_def)
  note M = make_list_spec [OF ok n l]
  show ?thesis
  proof (cases "FAILED hr")
    case True
    then show ?thesis using pos l M(1,2,11,12) by (auto simp: GetProcess_def get_post_def)
  next
    case False
    obtain r w2 where x: "next_route w1 = (r, w2)" by force
    note N = next_route_spec [OF x]
    have ok2: "pm_ok w2" using N(1) M(1) by simp
    have made: "m_fServerProcessListReady w2" using M(3) False N(10) by simp
    obtain ps where ps: "m_ppServerProcessList w2 = Some ps" "length ps = unat (m_dwProcessesPerApplication w2)" "ps \<noteq> []"
      using made ok2 by (auto simp: pm_ok_def list_ok_def)
    have nz: "m_dwProcessesPerApplication w2 \<noteq> 0" using ps(2,3) by auto
    let ?i = "unat (r mod m_dwProcessesPerApplication w2)"
    have i: "?i < length ps" unfolding ps(2) using nz by (simp add: unat_mod unat_gt_0)
    have g: "grows w w2" by (rule grows_trans [OF M(2) N(2)])
    have app2: "pm_app w2" using g app by (simp add: grows_def)
    have env2: "config_ok (start_budget cfg) (pw_env w2) (QueryEnvironmentVariables cfg)" using env N(4) M(10) by simp
    have conf: "configured cfg w \<Longrightarrow> configured cfg w2" using M(11) N(7,10) by (simp add: configured_def)
    have ends: "request_ends os cfg ms w2 = request_ends os cfg ms w"
      unfolding request_ends_def using start_fails_cong [of w2 w os cfg] M(7-10) N(4,5,11,12) by simp
    have e: "list_entry w2 ?i = Some (ps ! ?i)" using ps(1) i by (simp add: list_entry_def load_at_def)
    have rest: "returns_if (request_ends os cfg ms w) (replace_process os cfg ?i w2) (\<lambda>(hr, r, w'). get_post w hr r w' \<and>
        (configured cfg w \<longrightarrow> configured cfg w') \<and> (pm_new_list os (pw_clock w) \<longrightarrow> m_fServerProcessListReady w'))"
      by (rule returns_if_mono [OF replace_process_spec [OF ok2 app2 os cfg env2 ps(1) i, of ms, unfolded ends]])
        (use grows_trans [OF g] conf made in \<open>auto simp: get_post_def configured_same same_list_def configured_def\<close>)
    show ?thesis
    proof (cases "ps ! ?i")
      case None
      then show ?thesis using rest pos l False x nz e by (simp add: GetProcess_def)
    next
      case (Some a)
      have "ready_at w2 a" by (rule entry_live(2) [OF ok2 ps(1) i Some])
      then obtain p where p: "pm_objects w2 a = Some p" "m_fReady p" by (auto simp: ready_at_def)
      have "Some a \<in> set (entries w2)" using ps(1) i Some by (metis entries_def nth_mem option.case(2))
      then have "get_post w S_OK (Some a) w2" using ok2 g p by (simp add: get_post_def ready_at_def)
      then show ?thesis using pos l False x nz e Some p conf made by (simp add: GetProcess_def)
    qed
  qed
qed

subsection \<open>The application\<close>

text \<open>
  What a shutdown is to do, without indices: each object of the list in turn is sent the signal, loses the
  reference of the list and leaves it.
\<close>

definition listed :: "'a pm_world_scheme \<Rightarrow> nat list" where
  "listed w = map the (filter (\<lambda>e. e \<noteq> None) (entries w))"

definition forget :: "nat \<Rightarrow> 'a pm_world_scheme \<Rightarrow> 'a pm_world_scheme" where
  "forget a w = w\<lparr>m_ppServerProcessList := map_option (map (\<lambda>e. if e = Some a then None else e)) (m_ppServerProcessList w)\<rparr>"

fun release_objects :: "pm_os \<Rightarrow> nat list \<Rightarrow> 'a pm_world_scheme \<Rightarrow> 'a pm_world_scheme option" where
  "release_objects os [] w = Some w"
| "release_objects os (a # as) w = do {
     w1 \<leftarrow> SendSignal os a w;
     w2 \<leftarrow> DereferenceServerProcess a w1;
     release_objects os as (forget a w2)
   }"

lemma forget_clear:
  assumes "m_ppServerProcessList w = Some ps" "i < length ps" "ps ! i = Some a" "count (mset ps) (Some a) \<le> 1"
  shows "forget a w = clear_entry i w"
proof -
  define xs where "xs = take i ps"
  define ys where "ys = drop (Suc i) ps"
  have s: "ps = xs @ Some a # ys" "length xs = i"
    using id_take_nth_drop [OF assms(2)] assms(2,3) by (simp_all add: xs_def ys_def)
  have "count (mset xs) (Some a) + Suc (count (mset ys) (Some a)) \<le> 1" using assms(4) unfolding s(1) by simp
  then have "count (mset xs) (Some a) = 0" "count (mset ys) (Some a) = 0" by simp_all
  then have n: "Some a \<notin> set xs" "Some a \<notin> set ys" by (simp_all only: count_mset_0_iff not_False_eq_True)
  let ?f = "\<lambda>e. if e = Some a then None else e"
  have "map ?f xs = xs" "map ?f ys = ys" using n by (intro map_idI; force)+
  then have "map ?f ps = ps[i := None]" by (simp add: s(1) list_update_append s(2) [symmetric])
  then show ?thesis using assms(1) by (simp add: forget_def clear_entry_def)
qed

lemma release_slots:
  assumes "pm_ok w" "services_ok (pm_proc os) conv" "i \<le> unat (m_dwProcessesPerApplication w)"
  shows "each_slot (signal_slot os) [i..<unat (m_dwProcessesPerApplication w)] w =
    release_objects os (map the (filter (\<lambda>e. e \<noteq> None) (drop i (entries w)))) w"
  using assms(1,3)
proof (induction "unat (m_dwProcessesPerApplication w) - i" arbitrary: i w)
  case 0
  have "length (entries w) \<le> unat (m_dwProcessesPerApplication w)"
    using 0(2) by (auto simp: pm_ok_def list_ok_def entries_def split: option.splits)
  then show ?case using 0 by simp
next
  case (Suc n)
  let ?n = "unat (m_dwProcessesPerApplication w)"
  have i: "i < ?n" using Suc.hyps(2) by simp
  obtain w' where w': "signal_slot os i w = Some w'" "pm_ok w'" "same_manager w w'" "entries w' = (entries w)[i := None]"
    using signal_slot_spec [OF Suc.prems(1) i assms(2)] by (elim returnsE conjE) (rule that)
  have m: "m_dwProcessesPerApplication w' = m_dwProcessesPerApplication w" using w'(3) by (simp add: same_manager_def)
  have n: "n = unat (m_dwProcessesPerApplication w') - Suc i" "Suc i \<le> unat (m_dwProcessesPerApplication w')"
    using Suc.hyps(2) i m by auto
  have d: "drop (Suc i) ((entries w)[i := None]) = drop (Suc i) (entries w)" by simp
  have IH: "each_slot (signal_slot os) [Suc i..<?n] w' = release_objects os (map the (filter (\<lambda>e. e \<noteq> None) (drop (Suc i) (entries w)))) w'"
    using Suc.hyps(1) [OF n(1) w'(2) n(2)] unfolding m w'(4) d .
  have run: "each_slot (signal_slot os) [i..<?n] w = each_slot (signal_slot os) [Suc i..<?n] w'"
    using i w'(1) by (simp add: upt_conv_Cons)
  show ?case
    using Suc.prems(1) i
  proof (rule list_entry_spec)
    assume e: "list_entry w i = Some None"
    then have same: "w' = w" using w'(1) by (simp add: signal_slot_def)
    have "filter (\<lambda>e. e \<noteq> None) (drop i (entries w)) = filter (\<lambda>e. e \<noteq> None) (drop (Suc i) (entries w))"
    proof (cases "i < length (entries w)")
      case True
      then have "entries w ! i = None"
        using e by (auto simp: list_entry_def entries_def load_at_def split: option.splits)
      then show ?thesis using True by (simp flip: Cons_nth_drop_Suc)
    qed simp
    then show ?thesis using run IH same by simp
  next
    fix a ps
    assume e: "list_entry w i = Some (Some a)" and slot: "m_ppServerProcessList w = Some ps" "i < length ps" "ps ! i = Some a"
    have inv: "pm_inv {#} (holders w) {} w" "list_ok w" using Suc.prems(1) by (simp_all add: pm_ok_def)
    note live = entry_live [OF Suc.prems(1) slot]
    obtain w1 stuck where w1: "SendSignal os a w = Some w1" "pm_inv {#} ((holders w)(a := holders w a + of_bool stuck)) {} w1"
      "signalled a stuck w w1"
      using SendSignal_spec [OF inv(1) live(1) assms(2)] by (elim returnsE exE conjE) (rule that)
    obtain w2 where w2: "DereferenceServerProcess a w1 = Some w2" "keeps {} w1 w2"
      using DereferenceServerProcess_spec [OF w1(2), of a] live(1) by (auto elim: returnsE)
    have "m_ppServerProcessList w2 = Some ps"
      using w1(3) w2(2) slot(1) by (simp add: signalled_def keeps_def manager_state_def)
    moreover have "count (mset ps) (Some a) \<le> 1" using inv(2) slot(1) by (simp add: list_ok_def entries_def)
    ultimately have "forget a w2 = clear_entry i w2" using forget_clear slot(2,3) by blast
    then have "w' = forget a w2" using w'(1) e w1(1) w2(1) by (simp add: signal_slot_def)
    moreover have "drop i (entries w) = Some a # drop (Suc i) (entries w)" using slot Cons_nth_drop_Suc [OF slot(2)] by (simp add: entries_def)
    ultimately show ?thesis using run IH w1(1) w2(1) by simp
  qed
qed

lemma APPLICATION_ShutDown_spec:
  assumes "pm_ok w" "services_ok (pm_proc os) conv"
  shows "returns (APPLICATION_ShutDown os w) (\<lambda>w'. pm_ok w' \<and> \<not> pm_app w' \<and> pw_env w' = pw_env w \<and> same_list w w' \<and>
    (pm_app w \<longrightarrow> set (entries w') \<subseteq> {None} \<and>
      (\<exists>w1. release_objects os (listed w) w = Some w1 \<and> w' = w1\<lparr>pm_cRefs := pm_cRefs w1 - 1, pm_app := False\<rparr>)))"
proof (cases "pm_app w")
  case False
  then show ?thesis using assms by (simp add: APPLICATION_ShutDown_def same_list_def)
next
  case True
  have pos: "0 < pm_cRefs w" using pm_invD(7) [of "{#}" "holders w" "{}" w] assms(1) True by (simp add: pm_ok_def)
  obtain w1 where w1: "ShutdownAllProcesses os w = Some w1" "pm_ok w1" "same_manager w w1" "set (entries w1) \<subseteq> {None}"
    using ShutdownAllProcesses_spec [OF assms pos] by (elim returnsE conjE) (rule that)
  have app: "pm_app w1" using w1(3) True by (simp add: same_manager_def)
  have inv: "pm_inv {#} (holders w1) {} w1" "list_ok w1" using w1(2) by (simp_all add: pm_ok_def)
  have refs: "pm_cRefs w1 = int (card (dom (pm_objects w1))) + 1" using pm_invD(7) [OF inv(1)] app by simp
  let ?w = "w1\<lparr>pm_cRefs := pm_cRefs w1 - 1, pm_app := False\<rparr>"
  have run: "APPLICATION_ShutDown os w = Some ?w"
    using True w1(1) refs by (simp add: APPLICATION_ShutDown_def DereferenceProcessManager_def)
  have rel: "release_objects os (listed w) w = Some w1"
    using release_slots [OF assms, of 0] w1(1) pos by (simp add: ShutdownAllProcesses_def ShutdownAllProcessesNoLock_def listed_def)
  have h: "holders ?w = holders w1" by (auto simp: holders_def entries_def)
  have o: "owned_by A ?w = owned_by A w1" for A by (rule owned_by_cong) simp
  have "pm_inv {#} (holders w1) {} ?w"
    using inv(1) refs unfolding pm_inv_def o by (simp add: object_ok_def waits_ok_def waits_of_def old_handle_def)
  then have "pm_ok ?w" using inv(2) unfolding pm_ok_def h by (simp add: list_ok_def entries_def ready_at_def)
  moreover have "entries ?w = entries w1" by (simp add: entries_def)
  ultimately show ?thesis unfolding run using w1(3,4) rel by (simp add: same_manager_def same_list_def)
qed

subsection \<open>Events\<close>

text \<open>
  What reaches the manager: a request of the application, the end of a wait for a process (the callback
  up to the lock of the manager), the rest of such a callback, the end of a thread of \<open>SendSignal\<close> and the
  shutdown of the application. Events are enabled by what is registered and in progress, and a request by room for the
  environment entries of a start: fewer than \<open>MAXDWORD\<close> have been created so far.
\<close>

datatype manager_event = Request | WaitOver handle nat | CallbackEnds nat | SignalEnds nat | ShutDown

fun enabled :: "ASPNETCORE_CONFIG \<Rightarrow> manager_event \<Rightarrow> pm_world \<Rightarrow> bool" where
  "enabled cfg Request w = (et_next (pw_env w) + start_budget cfg < MAXDWORD)"
| "enabled cfg (WaitOver h a) w = ((h, a) \<in> set (pw_waits w))"
| "enabled cfg (CallbackEnds a) w = (a \<in> set (pm_exits w))"
| "enabled cfg (SignalEnds a) w = (a \<in> set (pm_signals w))"
| "enabled cfg ShutDown w = True"

fun handle_event :: "pm_os \<Rightarrow> ASPNETCORE_CONFIG \<Rightarrow> manager_event \<Rightarrow> pm_world \<Rightarrow> pm_world option" where
  "handle_event os cfg Request w = map_option (\<lambda>(hr, r, w'). w') (APPLICATION_GetProcess os cfg w)"
| "handle_event os cfg (WaitOver h a) w = exit_begins h a w"
| "handle_event os cfg (CallbackEnds a) w = exit_ends os a w"
| "handle_event os cfg (SignalEnds a) w = signal_rest os a (w\<lparr>pm_signals := remove1 a (pm_signals w)\<rparr>)"
| "handle_event os cfg ShutDown w = APPLICATION_ShutDown os w"

text \<open>The table of the configuration is a valid table of the store of entries.\<close>

definition table_in_store :: "env_table \<Rightarrow> nat HASH_TABLE \<Rightarrow> bool" where
  "table_in_store st T \<longleftrightarrow> ht_inv (et_vt st) T \<and> (\<forall>q \<in> set (ht_records T). q < et_next st)"

inductive reachable :: "pm_os \<Rightarrow> ASPNETCORE_CONFIG \<Rightarrow> pm_world \<Rightarrow> bool" for os cfg where
  reachable_start: "pw_waits w = [] \<Longrightarrow> table_in_store (pw_env w) (QueryEnvironmentVariables cfg) \<Longrightarrow>
    PROCESS_MANAGER_Initialize os (PROCESS_MANAGER_new w garbage started) = (hr, w') \<Longrightarrow> SUCCEEDED hr \<Longrightarrow> reachable os cfg w'"
| reachable_step: "reachable os cfg w \<Longrightarrow> enabled cfg e w \<Longrightarrow> handle_event os cfg e w = Some w' \<Longrightarrow> reachable os cfg w'"

lemma table_in_store_grows: "table_in_store st T \<Longrightarrow> env_grows n st st' \<Longrightarrow> table_in_store st' T"
proof -
  assume a: "table_in_store st T" "env_grows n st st'"
  have "ht_inv (et_vt st') T = ht_inv (et_vt st) T"
    by (rule env_ht_inv_cong) (use a in \<open>auto simp: table_in_store_def env_grows_def\<close>)
  then show ?thesis using a by (auto simp: table_in_store_def env_grows_def intro: order.strict_trans2)
qed

lemma PROCESS_MANAGER_new_ok:
  assumes "pw_waits w = []"
  shows "pm_ok (PROCESS_MANAGER_new w garbage started)" "pw_env (PROCESS_MANAGER_new w garbage started) = pw_env w"
    "\<not> m_fServerProcessListReady (PROCESS_MANAGER_new w garbage started)"
proof -
  let ?w = "PROCESS_MANAGER_new w garbage started"
  have sel: "pm_objects ?w = (\<lambda>_. None)" "pw_waits ?w = []" "pm_cRefs ?w = 1" "pm_app ?w" "m_ppServerProcessList ?w = None"
    "pm_exits ?w = []" "pm_signals ?w = []" "\<not> m_fServerProcessListReady ?w"
    using assms by (simp_all add: PROCESS_MANAGER_new_def proc_world.extend_def)
  have "pm_inv {#} (holders ?w) {} ?w"
    by (rule pm_invI [where leaked = "mset (pw_open ?w)"]) (simp_all add: sel holders_def entries_def owned_by_def)
  then show "pm_ok ?w" using sel by (simp add: pm_ok_def list_ok_def entries_def)
  show "pw_env ?w = pw_env w" "\<not> m_fServerProcessListReady ?w" by (simp_all add: PROCESS_MANAGER_new_def proc_world.extend_def)
qed

lemma PROCESS_MANAGER_Initialize_ok:
  assumes "pm_ok w" "PROCESS_MANAGER_Initialize os w = (hr, w')"
  shows "pm_ok w'" "pw_env w' = pw_env w" "m_fServerProcessListReady w' = m_fServerProcessListReady w"
proof -
  have f: "pm_ok (v\<lparr>sm_fWSAStartupDone := b\<rparr>) = pm_ok v" "pm_ok (v\<lparr>m_hNULHandle := h\<rparr>) = pm_ok v" for v :: "'a pm_world_scheme" and b h
  proof -
    have "holders (v\<lparr>sm_fWSAStartupDone := b\<rparr>) = holders v" "holders (v\<lparr>m_hNULHandle := h\<rparr>) = holders v"
      by (auto simp: holders_def entries_def)
    then show "pm_ok (v\<lparr>sm_fWSAStartupDone := b\<rparr>) = pm_ok v" "pm_ok (v\<lparr>m_hNULHandle := h\<rparr>) = pm_ok v"
      by (simp_all add: pm_ok_def list_ok_def entries_def ready_at_def pm_inv_def object_ok_def waits_ok_def waits_of_def old_handle_def
          owned_by_def)
  qed
  have n: "pm_ok v'" "pw_env v' = pw_env v" if v: "pm_ok v" "new_handle v = (h, v')" for v v' :: "'a pm_world_scheme" and h
  proof -
    have inv: "pm_inv {#} (holders v) {} v" "list_ok v" using v(1) by (simp_all add: pm_ok_def)
    note N = new_handle_reserved [OF inv(1) v(2)]
    obtain leaked where l: "mset (pw_open v') = owned_by (dom (pm_objects v')) v' + leaked" using pm_invD(6) [OF N(1)] by blast
    have "pm_inv {#} (holders v) {} v'" by (rule pm_inv_world [OF N(1) l]) simp_all
    then show "pm_ok v'" using keeps_list_ok [OF N(2) inv(2)] keeps_holders(1) [OF N(2)] by (simp add: pm_ok_def)
    show "pw_env v' = pw_env v" using N(2) by (simp add: keeps_def)
  qed
  let ?w1 = "(later w)\<lparr>sm_fWSAStartupDone := True, m_dwRapidFailTickStart := po_tick (pm_proc os) (pw_clock w)\<rparr>"
  have 1: "pm_ok ?w1" "pw_env ?w1 = pw_env w" "pm_ok (later w)" using assms(1) by (simp_all add: f)
  obtain h w2 where w2: "new_handle ?w1 = (h, w2)" by force
  note 2 = n [OF 1(1) w2]
  show "pm_ok w'" "pw_env w' = pw_env w"
    using assms(2) 1 2 w2 f by (auto simp: PROCESS_MANAGER_Initialize_def Let_def split: if_splits option.splits)
  show "m_fServerProcessListReady w' = m_fServerProcessListReady w"
    using assms(2) by (auto simp: PROCESS_MANAGER_Initialize_def Let_def later_def new_handle_def split: if_splits option.splits)
qed

text \<open>
  Every event preserves the invariant, and none faults but a request after the shutdown of the application or one whose start
  does not return.
\<close>

definition manager_inv :: "ASPNETCORE_CONFIG \<Rightarrow> pm_world \<Rightarrow> bool" where
  "manager_inv cfg w \<longleftrightarrow> pm_ok w \<and> table_in_store (pw_env w) (QueryEnvironmentVariables cfg) \<and> configured cfg w"

lemma handle_event_spec:
  assumes "manager_inv cfg w" "enabled cfg e w" "manager_os_ok os conv" "cfg_ok cfg"
  shows "returns_if (e = Request \<longrightarrow> pm_app w \<and> request_ends os cfg ms w) (handle_event os cfg e w) (manager_inv cfg)"
proof -
  have S: "services_ok (pm_proc os) conv" "tcp_table_ok (po_net (pm_proc os))" using assms(3) by (simp_all add: manager_os_ok_def)
  have ok: "pm_ok w" and T: "table_in_store (pw_env w) (QueryEnvironmentVariables cfg)" and C: "configured cfg w"
    using assms(1) by (simp_all add: manager_inv_def)
  have other: "returns_if c r (manager_inv cfg)"
    if "returns r (\<lambda>w'. pm_ok w' \<and> same_list w w' \<and> pm_app w' = pm_app w \<and> pw_env w' = pw_env w)" for r c
    by (rule returns_returns_if, rule returns_mono [OF that]) (use T C configured_same in \<open>auto simp: manager_inv_def\<close>)
  show ?thesis
  proof (cases e)
    case Request
    show ?thesis
    proof (cases "pm_app w")
      case True
      have "config_ok (start_budget cfg) (pw_env w) (QueryEnvironmentVariables cfg)"
        using assms(2) T Request by (simp add: config_ok_def table_in_store_def)
      from GetProcess_spec [OF ok True assms(3,4) this, of ms]
      have "returns_if (request_ends os cfg ms w) (map_option (\<lambda>(hr, r, w'). w') (GetProcess os cfg w)) (manager_inv cfg)"
        unfolding returns_if_map_option
        by (rule returns_if_mono) (use T C table_in_store_grows in \<open>auto simp: get_post_def grows_def manager_inv_def\<close>)
      then show ?thesis using Request True by (simp add: APPLICATION_GetProcess_def)
    qed (use Request in \<open>simp add: APPLICATION_GetProcess_def\<close>)
  next
    case (WaitOver h a)
    then show ?thesis using other [OF exit_begins_spec [OF ok, of h a]] assms(2) by simp
  next
    case (CallbackEnds a)
    then show ?thesis using other [OF exit_ends_spec [OF ok _ S(2), of a]] assms(2) by simp
  next
    case (SignalEnds a)
    then show ?thesis using other [OF signal_ends_spec [OF ok _ S(1), of a]] assms(2) by simp
  next
    case ShutDown
    have "returns (APPLICATION_ShutDown os w) (manager_inv cfg)"
      by (rule returns_mono [OF APPLICATION_ShutDown_spec [OF ok S(1)]]) (use T C configured_same in \<open>auto simp: manager_inv_def\<close>)
    then show ?thesis using ShutDown by (simp add: returns_returns_if)
  qed
qed

lemma reachable_inv:
  assumes "reachable os cfg w" "manager_os_ok os conv" "cfg_ok cfg"
  shows "manager_inv cfg w"
  using assms(1)
proof (induction rule: reachable.induct)
  case (reachable_start w garbage started hr w')
  note N = PROCESS_MANAGER_new_ok [OF reachable_start(1), of garbage started]
  show ?case
    using PROCESS_MANAGER_Initialize_ok [OF N(1) reachable_start(3)] N(2,3) reachable_start(2) by (simp add: manager_inv_def configured_def)
next
  case (reachable_step w e w')
  then show ?case using handle_event_spec [OF reachable_step.IH reachable_step.hyps(2) assms(2,3), of undefined] by simp
qed

text \<open>A request to a manager that has not been shut down.\<close>

lemma request_spec:
  assumes "reachable os cfg w" "pm_app w" "enabled cfg Request w" "manager_os_ok os conv" "cfg_ok cfg"
  shows "returns_if (request_ends os cfg ms w) (APPLICATION_GetProcess os cfg w) (\<lambda>(hr, r, w'). get_post w hr r w' \<and>
    (pm_new_list os (pw_clock w) \<longrightarrow> m_fServerProcessListReady w'))"
proof -
  have inv: "pm_ok w" "table_in_store (pw_env w) (QueryEnvironmentVariables cfg)"
    using reachable_inv [OF assms(1,4,5)] by (simp_all add: manager_inv_def)
  have "config_ok (start_budget cfg) (pw_env w) (QueryEnvironmentVariables cfg)"
    using assms(3) inv(2) by (simp add: config_ok_def table_in_store_def)
  from GetProcess_spec [OF inv(1) assms(2,4,5) this, of ms] show ?thesis
    using assms(2) by (auto simp: APPLICATION_GetProcess_def elim!: returns_if_mono)
qed

section \<open>Properties\<close>

text \<open>
  C1: the events of the manager in every state it can reach, whatever processes have ended and in whatever order
  their callbacks, the threads of the shutdown signal, requests and the shutdown come. The end of a wait, of a
  callback and of a thread and the shutdown of the application are always handled: no object is used after it has
  been deleted, no handle is closed twice and no index is outside the list. A request is handled, too, when the
  limits of a start hold (\<open>request_limits\<close>: time goes on, no debugger is attached, at most eight processes in the
  job, a startup time limit of at most 46 days); without them it can fail in one place only, when
  \<open>StartProcess\<close> of the new object does not return. After the shutdown of the application a request
  follows a null pointer. Each event is one step of the model.
\<close>

theorem manager_never_faults:
  assumes "reachable os cfg w" "enabled cfg e w" "manager_os_ok os conv" "cfg_ok cfg"
  shows "(e \<noteq> Request \<longrightarrow> handle_event os cfg e w \<noteq> None) \<and>
    (e = Request \<and> pm_app w \<and> request_limits os cfg ms \<longrightarrow> handle_event os cfg e w \<noteq> None) \<and>
    (e = Request \<and> pm_app w \<and> handle_event os cfg e w = None \<longrightarrow> start_fails os cfg w) \<and>
    (e = Request \<and> \<not> pm_app w \<longrightarrow> handle_event os cfg e w = None)"
proof -
  have s: "returns_if (e = Request \<longrightarrow> pm_app w \<and> request_ends os cfg ms w) (handle_event os cfg e w) (manager_inv cfg)"
    by (rule handle_event_spec [OF reachable_inv [OF assms(1,3,4)] assms(2-4)])
  have n: "handle_event os cfg e w = None \<Longrightarrow> e = Request \<and> (\<not> pm_app w \<or> \<not> request_ends os cfg ms w)"
    using s by auto
  have "e = Request \<Longrightarrow> \<not> pm_app w \<Longrightarrow> handle_event os cfg e w = None" by (simp add: APPLICATION_GetProcess_def)
  then show ?thesis
    using n unfolding request_ends_def by (cases "e = Request"; cases "pm_app w"; cases "handle_event os cfg e w") auto
qed

definition calm_pm_os :: pm_os where
  "calm_pm_os = \<lparr>pm_proc = calm_proc_os, pm_garbage = 5, pm_wsa_startup = (\<lambda>_. 0), pm_create_nul = (\<lambda>_. None), pm_new_list = (\<lambda>_. True),
     pm_new_process = (\<lambda>_. True), http_open = (\<lambda>_. None), http_connect = (\<lambda>_ _. None), http_request = (\<lambda>_ _. None),
     http_timeouts = (\<lambda>_ _. None), http_send = (\<lambda>_ _. None), http_receive = (\<lambda>_. None), http_status = (\<lambda>_. Inr 202),
     sg_open_process = (\<lambda>_. True), sg_create_thread = (\<lambda>_. True), sg_thread_stuck = (\<lambda>_. False), sg_exited = (\<lambda>_. True),
     sg_attach_console = (\<lambda>_. True), sg_ctrl_event = (\<lambda>_. True)\<rparr>"

definition calm_cfg :: ASPNETCORE_CONFIG where
  "calm_cfg = \<lparr>QueryProcessesPerApplication = 2, QueryRapidFailsPerMinute = 10, QueryStartupTimeLimitInMS = 5000,
     QueryShutdownTimeLimitInMS = 10000, QueryWindowsAuthEnabled = False, QueryBasicAuthEnabled = False,
     QueryAnonymousAuthEnabled = True, QueryStdoutLogEnabled = False, QueryWebSocketEnabled = True,
     QueryProcessPath = STRU_new, QueryArguments = STRU_new, QueryStdoutLogFile = STRU_new, QueryApplicationPhysicalPath = STRU_new,
     QueryApplicationPath = STRU_new, QueryApplicationVirtualPath = STRU_new,
     QueryEnvironmentVariables = et_table no_entries\<rparr>"

definition calm_manager :: pm_world where
  "calm_manager = snd (PROCESS_MANAGER_Initialize calm_pm_os (PROCESS_MANAGER_new calm_world 7 False))"

lemma calm_manager_ok:
  "manager_os_ok calm_pm_os (\<lambda>src. if 1000 < length src then None else Some (map ucast src))"
  "cfg_ok calm_cfg" "reachable calm_pm_os calm_cfg calm_manager" "enabled calm_cfg Request calm_manager"
  "pm_app calm_manager" "request_limits calm_pm_os calm_cfg (\<lambda>t. t)"
proof -
  show "manager_os_ok calm_pm_os (\<lambda>src. if 1000 < length src then None else Some (map ucast src))"
    using calm_proc_os_ok by (simp add: manager_os_ok_def calm_pm_os_def)
  show "cfg_ok calm_cfg" by (simp add: cfg_ok_def calm_cfg_def stru_inv_new)
  show "request_limits calm_pm_os calm_cfg (\<lambda>t. t)"
    using calm_limits by (simp add: request_limits_def calm_pm_os_def calm_cfg_def start_limit_def)
  have T: "table_in_store (pw_env calm_world) (QueryEnvironmentVariables calm_cfg)"
    using no_entries_ok by (simp add: table_in_store_def calm_world_def calm_cfg_def)
  have e: "PROCESS_MANAGER_Initialize calm_pm_os (PROCESS_MANAGER_new calm_world 7 False) = (S_OK, calm_manager)"
    by (simp add: calm_manager_def PROCESS_MANAGER_Initialize_def calm_pm_os_def PROCESS_MANAGER_new_def proc_world.extend_def later_def
        new_handle_def Let_def)
  show "reachable calm_pm_os calm_cfg calm_manager"
    by (rule reachable_start [OF _ T e]) (simp_all add: calm_world_def)
  show "pm_app calm_manager"
    by (simp add: calm_manager_def PROCESS_MANAGER_Initialize_def calm_pm_os_def PROCESS_MANAGER_new_def proc_world.extend_def
        later_def new_handle_def Let_def)
  have "pw_env calm_manager = no_entries"
    by (simp add: calm_manager_def PROCESS_MANAGER_Initialize_def calm_pm_os_def PROCESS_MANAGER_new_def proc_world.extend_def
        later_def new_handle_def Let_def calm_world_def)
  then show "enabled calm_cfg Request calm_manager"
    using no_entries_ok by (simp add: start_budget_def calm_cfg_def MAXDWORD_def no_entries_def)
qed

lemma manager_never_faults_witness:
  "handle_event calm_pm_os calm_cfg Request calm_manager \<noteq> None"
  using manager_never_faults [OF calm_manager_ok(3,4,1,2), of "\<lambda>t. t"] calm_manager_ok(5,6) by blast

text \<open>A state that can be reached and has a list.\<close>

lemma calm_list: "\<exists>w ps. reachable calm_pm_os calm_cfg w \<and> pm_app w \<and> m_ppServerProcessList w = Some ps"
proof -
  have ends: "request_ends calm_pm_os calm_cfg (\<lambda>t. t) calm_manager" using calm_manager_ok(6) by (simp add: request_ends_def)
  from returns_ifD [OF request_spec [OF calm_manager_ok(3,5,4,1,2)] ends]
  obtain hr r w where g: "APPLICATION_GetProcess calm_pm_os calm_cfg calm_manager = Some (hr, r, w)" "get_post calm_manager hr r w"
    "pm_new_list calm_pm_os (pw_clock calm_manager) \<longrightarrow> m_fServerProcessListReady w"
    by (rule returns_tripleE) (elim conjE, rule that)
  have "m_fServerProcessListReady w" using g(3) by (simp add: calm_pm_os_def)
  then have "\<exists>ps. m_ppServerProcessList w = Some ps" using g(2) by (auto simp: get_post_def pm_ok_def list_ok_def)
  moreover have "pm_app w" using g(2) calm_manager_ok(5) by (simp add: get_post_def grows_def)
  moreover have "reachable calm_pm_os calm_cfg w"
    by (rule reachable_step [OF calm_manager_ok(3,4)]) (simp add: g(1))
  ultimately show ?thesis by blast
qed

text \<open>
  C12: the references in every state the manager can reach: the manager is referenced by each live object
  and by the application; an object has at least as many references as the list, the callbacks and
  threads in progress and its registered waits hold together; the waits belong to live objects, and the
  handles of different objects are open and distinct.
\<close>

theorem manager_references:
  assumes "reachable os cfg w" "manager_os_ok os conv" "cfg_ok cfg"
  shows "pm_cRefs w = int (card (dom (pm_objects w))) + of_bool (pm_app w) \<and>
    (\<forall>a p. pm_objects w a = Some p \<longrightarrow> int (holders w a + length (waits_of a w)) \<le> m_cRefs p) \<and>
    (\<forall>a. 0 < holders w a + length (waits_of a w) \<longrightarrow> pm_objects w a \<noteq> None) \<and>
    owned_by (dom (pm_objects w)) w \<subseteq># mset (pw_open w)"
proof -
  have inv: "pm_inv {#} (holders w) {} w" using reachable_inv [OF assms] by (simp add: manager_inv_def pm_ok_def)
  have "int (holders w a + length (waits_of a w)) \<le> m_cRefs p" if "pm_objects w a = Some p" for a p
    using pm_invD(5) [OF inv that] by (simp add: object_ok_def waits_ok_def)
  moreover have "pm_objects w a \<noteq> None" if "0 < holders w a + length (waits_of a w)" for a
  proof (cases "0 < holders w a")
    case False
    then have "waits_of a w \<noteq> []" using that by auto
    then obtain x where x: "x \<in> set (waits_of a w)" using last_in_set by blast
    have "(fst x, a) \<in> set (pw_waits w)" using x by (auto simp: waits_of_def)
    then show ?thesis using pm_invD(4) [OF inv] by blast
  qed (use pm_invD(3) [OF inv, of a] in auto)
  moreover have "owned_by (dom (pm_objects w)) w \<subseteq># mset (pw_open w)" using pm_invD(6) [OF inv] by auto
  ultimately show ?thesis using pm_invD(7) [OF inv] by blast
qed

lemma manager_references_witness:
  "pm_cRefs calm_manager = int (card (dom (pm_objects calm_manager))) + of_bool (pm_app calm_manager)"
  using manager_references [OF calm_manager_ok(3,1,2)] by (rule conjunct1)

text \<open>
  C13: the data of the manager stays well formed: every live object has arrays of 16 children, valid strings and
  empty slots behind its children; the list, once made, has as many entries as the configuration asks for
  processes, which is also what the manager counts, at least one, and every entry is a live object that is ready.
\<close>

theorem manager_well_formed:
  assumes "reachable os cfg w" "manager_os_ok os conv" "cfg_ok cfg"
  shows "(\<forall>a p. pm_objects w a = Some p \<longrightarrow> server_wf p \<and> children_ok p) \<and>
    (\<forall>ps. m_ppServerProcessList w = Some ps \<longrightarrow> length ps = unat (QueryProcessesPerApplication cfg) \<and>
       m_dwProcessesPerApplication w = QueryProcessesPerApplication cfg \<and> ps \<noteq> [] \<and>
       (\<forall>a. Some a \<in> set ps \<longrightarrow> (\<exists>p. pm_objects w a = Some p \<and> m_fReady p)))"
proof -
  have ok: "pm_inv {#} (holders w) {} w" "list_ok w" "configured cfg w"
    using reachable_inv [OF assms] by (simp_all add: manager_inv_def pm_ok_def)
  have "server_wf p \<and> children_ok p" if "pm_objects w a = Some p" for a p
    using pm_invD(5) [OF ok(1) that] by (simp add: object_ok_def)
  moreover have "length ps = unat (QueryProcessesPerApplication cfg) \<and> m_dwProcessesPerApplication w = QueryProcessesPerApplication cfg \<and>
      ps \<noteq> [] \<and> (\<forall>a. Some a \<in> set ps \<longrightarrow> (\<exists>p. pm_objects w a = Some p \<and> m_fReady p))" if "m_ppServerProcessList w = Some ps" for ps
    using ok(2,3) that by (simp add: list_ok_def entries_def ready_at_def configured_def)
  ultimately show ?thesis by blast
qed

lemma manager_well_formed_witness:
  "\<exists>w ps. reachable calm_pm_os calm_cfg w \<and> m_ppServerProcessList w = Some ps \<and> length ps = 2 \<and> m_dwProcessesPerApplication w = 2"
proof -
  obtain w ps where w: "reachable calm_pm_os calm_cfg w" "m_ppServerProcessList w = Some ps" using calm_list by blast
  have "QueryProcessesPerApplication calm_cfg = 2" by (simp add: calm_cfg_def)
  then have "length ps = 2 \<and> m_dwProcessesPerApplication w = 2"
    using manager_well_formed [OF w(1) calm_manager_ok(1,2)] w(2) by auto
  then show ?thesis using w by blast
qed

text \<open>
  C11: a request that reaches the manager before the application has been shut down, in a state the manager can
  reach: it returns when the limits of a start hold (\<open>request_limits\<close>, as in C1). Whenever it returns, under these limits or not,
  it gets an address of the list whose process has been started and is ready, or an error code and no process.
\<close>

theorem GetProcess_result:
  assumes "reachable os cfg w" "pm_app w" "enabled cfg Request w" "manager_os_ok os conv" "cfg_ok cfg"
  shows "(request_limits os cfg ms \<longrightarrow> APPLICATION_GetProcess os cfg w \<noteq> None) \<and>
    (\<forall>hr r w'. APPLICATION_GetProcess os cfg w = Some (hr, r, w') \<longrightarrow>
      (case r of None \<Rightarrow> FAILED hr
       | Some a \<Rightarrow> SUCCEEDED hr \<and> Some a \<in> set (entries w') \<and> (\<exists>p. pm_objects w' a = Some p \<and> m_fReady p)))"
proof -
  note s = request_spec [OF assms, of ms]
  have "APPLICATION_GetProcess os cfg w \<noteq> None" if "request_limits os cfg ms"
    using s that by (cases "APPLICATION_GetProcess os cfg w") (simp_all add: request_ends_def)
  moreover have "case r of None \<Rightarrow> FAILED hr
       | Some a \<Rightarrow> SUCCEEDED hr \<and> Some a \<in> set (entries w') \<and> (\<exists>p. pm_objects w' a = Some p \<and> m_fReady p)"
    if "APPLICATION_GetProcess os cfg w = Some (hr, r, w')" for hr r w'
    using s that by (auto simp: get_post_def ready_at_def split: option.splits)
  ultimately show ?thesis by blast
qed

lemma GetProcess_result_witness:
  "case APPLICATION_GetProcess calm_pm_os calm_cfg calm_manager of None \<Rightarrow> False | Some (hr, r, w') \<Rightarrow> (r = None) = FAILED hr"
  using GetProcess_result [OF calm_manager_ok(3,5,4,1,2), of "\<lambda>t. t"] calm_manager_ok(6)
  by (fastforce split: option.splits)

text \<open>
  C19: the protection against processes that keep failing: within a minute of the last reset, when
  more processes have been stopped than the configuration allows, a request that would have to start
  one fails with \<open>ERROR_SERVER_DISABLED\<close> and starts nothing.
\<close>

theorem GetProcess_rapid_fails:
  assumes "0 < pm_cRefs w" "m_fServerProcessListReady w" "m_ppServerProcessList w = Some ps" "length ps = unat (m_dwProcessesPerApplication w)"
    "ps \<noteq> []" "ps ! unat ((m_dwRouteToProcessIndex w + 1) mod m_dwProcessesPerApplication w) = None"
    "po_tick (pm_proc os) (pw_clock w) - m_dwRapidFailTickStart w < ONE_MINUTE_IN_MILLISECONDS"
    "sint (QueryRapidFailsPerMinute cfg) < sint (m_cRapidFailCount w)"
  shows "\<exists>w'. GetProcess os cfg w = Some (HRESULT_FROM_WIN32 ERROR_SERVER_DISABLED, None, w') \<and> pm_objects w' = pm_objects w \<and>
    pw_open w' = pw_open w \<and> m_ppServerProcessList w' = m_ppServerProcessList w"
proof -
  have l: "make_list os cfg w = (S_OK, w)" using assms(2) by (simp add: make_list_def)
  obtain r w2 where x: "next_route w = (r, w2)" by force
  have X: "r = m_dwRouteToProcessIndex w + 1" "m_ppServerProcessList w2 = Some ps" "m_dwProcessesPerApplication w2 = m_dwProcessesPerApplication w"
    "pm_objects w2 = pm_objects w" "pw_open w2 = pw_open w" "pw_clock w2 = pw_clock w" "m_dwRapidFailTickStart w2 = m_dwRapidFailTickStart w"
    "m_cRapidFailCount w2 = m_cRapidFailCount w"
    using x assms(3) by (auto simp: next_route_def Let_def)
  have nz: "m_dwProcessesPerApplication w \<noteq> 0" using assms(4,5) by auto
  let ?i = "unat (r mod m_dwProcessesPerApplication w)"
  have i: "?i < length ps" unfolding assms(4) using nz by (simp add: unat_mod unat_gt_0)
  have e: "list_entry w2 ?i = Some None" using X(1,2) i assms(6) by (simp add: list_entry_def load_at_def)
  have R: "RapidFailsPerMinuteExceeded os (QueryRapidFailsPerMinute cfg) w2 = (True, later w2)"
  proof -
    have "\<not> ONE_MINUTE_IN_MILLISECONDS \<le> po_tick (pm_proc os) (pw_clock w) - m_dwRapidFailTickStart w" using assms(7) by (simp only: not_le)
    then show ?thesis using assms(8) X(6-8) by (simp add: RapidFailsPerMinuteExceeded_def Let_def)
  qed
  have "GetProcess os cfg w = Some (HRESULT_FROM_WIN32 ERROR_SERVER_DISABLED, None, later w2)"
    using assms(1) l x X(3) nz e R by (simp add: GetProcess_def replace_process_def start_in_slot_def)
  then show ?thesis using X(2,4,5) assms(3) by (simp add: later_def)
qed

definition failing_manager :: pm_world where
  "failing_manager = (calm_manager\<lparr>m_fServerProcessListReady := True, m_ppServerProcessList := Some [None, None],
     m_dwProcessesPerApplication := 2, m_cRapidFailCount := 11\<rparr>)"

lemma GetProcess_rapid_fails_witness:
  "\<exists>w'. GetProcess calm_pm_os calm_cfg failing_manager = Some (HRESULT_FROM_WIN32 ERROR_SERVER_DISABLED, None, w')"
proof -
  have f: "pm_cRefs calm_manager = 1" "m_dwRouteToProcessIndex calm_manager = 0" "m_dwRapidFailTickStart calm_manager = 0" "pw_clock calm_manager = 1"
    by (simp_all add: calm_manager_def PROCESS_MANAGER_Initialize_def calm_pm_os_def PROCESS_MANAGER_new_def proc_world.extend_def
        later_def new_handle_def Let_def calm_world_def calm_proc_os_def)
  have u: "unat ((1 :: 32 word) mod 2) = 1" by simp
  show ?thesis
    using GetProcess_rapid_fails [of failing_manager "[None, None]" calm_pm_os calm_cfg]
    by (simp add: failing_manager_def f calm_pm_os_def calm_proc_os_def calm_cfg_def ONE_MINUTE_IN_MILLISECONDS_def) blast
qed

text \<open>
  C17: the shutdown of the application in a state the manager can reach: it returns and does for each process of the list, in
  order, the same three things: it sends the process the shutdown signal, releases the reference of the list and removes the entry;
  then it releases the application's reference to the manager. Afterwards the list is empty and the manager is
  referenced by the live objects only.
\<close>

theorem ShutDown_releases_all:
  assumes "reachable os cfg w" "pm_app w" "manager_os_ok os conv" "cfg_ok cfg"
  shows "\<exists>w1 w'. release_objects os (listed w) w = Some w1 \<and> APPLICATION_ShutDown os w = Some w' \<and>
    w' = w1\<lparr>pm_cRefs := pm_cRefs w1 - 1, pm_app := False\<rparr> \<and> set (entries w') \<subseteq> {None} \<and>
    pm_cRefs w' = int (card (dom (pm_objects w')))"
proof -
  have ok: "pm_ok w" using reachable_inv [OF assms(1,3,4)] by (simp add: manager_inv_def)
  have "services_ok (pm_proc os) conv" using assms(3) by (simp add: manager_os_ok_def)
  from APPLICATION_ShutDown_spec [OF ok this] assms(2)
  obtain w1 w' where w': "APPLICATION_ShutDown os w = Some w'" "pm_ok w'" "\<not> pm_app w'" "set (entries w') \<subseteq> {None}"
    "release_objects os (listed w) w = Some w1" "w' = w1\<lparr>pm_cRefs := pm_cRefs w1 - 1, pm_app := False\<rparr>"
    by (elim returnsE) blast
  have "pm_inv {#} (holders w') {} w'" using w'(2) by (simp add: pm_ok_def)
  from pm_invD(7) [OF this] have "pm_cRefs w' = int (card (dom (pm_objects w')))" using w'(3) by simp
  then show ?thesis using w' by blast
qed

lemma ShutDown_releases_all_witness:
  "\<exists>w ps w1. reachable calm_pm_os calm_cfg w \<and> m_ppServerProcessList w = Some ps \<and>
    release_objects calm_pm_os (listed w) w = Some w1 \<and>
    APPLICATION_ShutDown calm_pm_os w = Some (w1\<lparr>pm_cRefs := pm_cRefs w1 - 1, pm_app := False\<rparr>)"
proof -
  obtain w ps where w: "reachable calm_pm_os calm_cfg w" "pm_app w" "m_ppServerProcessList w = Some ps" using calm_list by blast
  from ShutDown_releases_all [OF w(1,2) calm_manager_ok(1,2)] show ?thesis using w(1,3) by blast
qed

end
