(* ===== verification/Spec2Isabelle.thy ===== *)
theory Spec2Isabelle
  imports Base64 MultiSz HashConc EnvVars Utility StrA ProcEnv ManagerSafety
begin

text \<open>
  A model of the ASP.NET Core Module for IIS, version 2 (\<open>src/src/AspNetCoreModuleV2\<close>): the library \<open>IISLib\<close>
  it is written over, the shared code of \<open>CommonLib\<close>, and the part of the request handler that starts, keeps and
  ends the backend processes (\<open>RequestHandler/outofprocess\<close>).

  \<^bold>\<open>The program.\<close> IIS hands a request to the module, the module forwards it to a backend process on
  the same machine. \<open>OUT_OF_PROCESS_APPLICATION\<close> asks its \<open>PROCESS_MANAGER\<close> for a \<open>SERVER_PROCESS\<close>; the manager keeps a
  list of them, hands them out round robin and starts the missing ones. A start chooses a port and a
  token, completes a table of environment variables (a \<open>HASH_TABLE\<close> of entries, whose strings are
  \<open>STRU\<close>s), merges it with the environment of the worker process into a \<open>MULTISZ\<close>, creates the process in
  a job and waits until a process of the job listens on the port. Callbacks of registered waits tell
  the manager that a process has ended; at a shutdown the processes are signalled by an HTTP message,
  then by a control event, then terminated.

  \<^bold>\<open>Conventions\<close> (\<open>IIS_Prelude\<close>). A function of type \<open>'a option\<close> returns \<open>None\<close> exactly when the code it models
  would read or write outside a block, use an object that has been deleted, close a handle that is
  not open, divide by zero or call through a null pointer; errors the code reports are \<open>HRESULT\<close>s in its
  result. Integers are words of the width of the source wherever they can wrap. A block of memory is
  the list of its cells. \<open>returns r P\<close> says that \<open>r\<close> does not fault and its result satisfies \<open>P\<close>; the lemmas
  about operations are stated with it, so none of them is vacuous for a run that does not return.
  \<open>returns_if c r P\<close> keeps the two halves apart: a result satisfies \<open>P\<close> whenever there is one, and there is one
  when \<open>c\<close> holds; the start of a process and the requests, which can wait forever or overrun an array, are
  stated with it. The allocator of the strings answers by the requested size alone; the C locale, the conversions
  of code pages and the services of Windows are parameters, the latter functions of the number of questions asked so
  far (the clock of a state). A call of Windows is taken to return: \<open>SendSignal\<close> waits without a limit when a debugger is
  attached, and the model has only the answer of that wait.

  \<^bold>\<open>Hypotheses.\<close> \<open>heap_ok\<close>, \<open>code_page_ok\<close>, \<open>wide_cp_ok\<close>, \<open>env_os_ok\<close>, \<open>services_ok\<close> and \<open>log_ok\<close> state what the documentation of
  the services promises; \<open>tcp_table_ok\<close> says that a refused query of the table of listeners has an error code, and names a
  larger size when the buffer is too small, and bounds these sizes by 4 GB (the query and its allocation may
  fail, and the table may change between queries). \<open>start_limits\<close> is documented nowhere: it collects the conditions under
  which a start ends (time goes on and no check of the port takes more than ten minutes, no debugger is ever
  attached, the job holds at most eight processes). It is never assumed for the results of a start or of a request,
  only for their existence. \<open>heap_total\<close> (memory does not run out) is a hypothesis of the properties that name it in
  their text. The witnesses instantiate all of them.

  \<^bold>\<open>IISLib.\<close> \<open>Base64\<close>: \<open>base64.cpp\<close>, both widths; encoding and decoding stay inside their blocks, report the needed
  size and invert each other; the wrap-around of the size computation. \<open>StrBuf\<close>: \<open>buffer.h\<close>, \<open>stringu.cpp\<close>;
  \<open>stru_inv\<close> (capacity, length, terminator) is kept by every method, sequences of calls never fault, and
  copies, appends and trimming have their effect on the text. \<open>StrA\<close>: \<open>stringa.cpp\<close>, \<open>stringa.h\<close>, the same for bytes,
  with conversion, escaping and unescaping (equivalence with a specification on lists, round trip).
  \<open>MultiSz\<close>: \<open>multisz.cpp\<close> and \<open>multisza.cpp\<close>, once for both widths; a multi-string denotes a list of strings.
  \<open>HashFn\<close>: \<open>hashfn.h\<close>, \<open>prime.h\<close>. \<open>HashTable\<close>: \<open>hashtable.h\<close>; a table refines a map, rehashing keeps it,
  deletion and iteration follow their predicates. \<open>HashConc\<close>: the lock-free insertion as a step relation
  of several threads that search and compare-and-exchange; every interleaving inserts each key once.

  \<^bold>\<open>CommonLib.\<close> \<open>FxVer\<close>: \<open>fx_ver.cxx\<close>, printing and parsing of versions. \<open>Utility\<close>: \<open>utility.cxx\<close>, \<open>util.cxx\<close>; URLs, paths,
  directories, version folders. \<open>EnvVars\<close>: \<open>environmentvariablehash.h\<close>, \<open>environmentvariablehelpers.h\<close>;
  entries are heap objects with reference counts (\<open>env_table\<close>), and the completed table equals the
  specified map.

  \<^bold>\<open>Backend processes.\<close> \<open>ProcEnv\<close>: the preparation in \<open>serverprocess.cxx\<close> (\<open>GetRandomPort\<close>, \<open>SetupListenPort\<close>,
  \<open>SetupAppPath\<close>, \<open>SetupAppToken\<close>, \<open>OutputEnvironmentVariables\<close>, \<open>SetupCommandLine\<close>). \<open>ServerProc\<close>: the record
  \<open>SERVER_PROCESS\<close> and its handles over \<open>proc_world\<close>, the open handles, registered waits and terminated
  processes; a ledger accounts for every handle. \<open>ServerStart\<close>: \<open>StartProcess\<close> as stages over its local
  variables, and \<open>StdHandles\<close>. \<open>ProcManager\<close>: \<open>processmanager.cxx\<close>, \<open>processmanager.h\<close>, \<open>outprocessapplication.cpp\<close> and the shared
  part of \<open>SERVER_PROCESS\<close>; the objects live in a store by address. \<open>ManagerSafety\<close>: the invariant of that
  store and the events (request, end of a wait, end of its callback, end of a signalling thread,
  shutdown) as a step relation; the invariant holds in every reachable state, and no event faults but a request
  whose start does not return or that comes after the shutdown.

  \<^bold>\<open>Bounds and fuel.\<close> Loops over data are structural or have a measure. The loops over the system are bounded by the
  code: ten draws of a port; six reads of the job with a doubled buffer; two attempts of a start. Two are not:
  the table of listeners is read again until it fits, which ends because the size named grows; the wait for
  readiness ends, under \<open>start_limits\<close>, because the tick counter advances and the limit is at most \<open>start_limit\<close>
  (4,000,000,000 ms, below the period of the counter, so that differences do not wrap). \<open>start_limits\<close> bounds the job
  to eight processes: two attempts then fit the arrays of sixteen children, which the code does not check
  (\<open>GetChildProcessHandles_bounds\<close>). The counts \<open>m_cRefs\<close>, \<open>m_lStopping\<close> and the count of the manager are \<open>int\<close> where the code
  has \<open>LONG\<close>: that 2,147,483,647 references are held at once is not modelled. \<open>config_ok\<close> reserves room for the entries of two attempts in the store
  of entries, whose addresses and counts are 32-bit numbers in the code.

  \<^bold>\<open>Threads.\<close> A critical section is one step. Modelled interleavings are those of the insertions into a
  hash table (\<open>HashConc\<close>) and of the events of the manager, where the callback of a wait is split between the
  test of \<open>m_lStopping\<close> and the lock of the manager, and a signalling thread may outlive the call that
  created it. Races inside a step are not modelled; they are listed with the findings of the manifest. \<open>GetProcess\<close> is one
  step, although it looks at the list under the shared lock, again without a lock, and a third time under the
  exclusive lock, and although the callback of a wait that \<open>StartProcess\<close> has registered may run before it returns
  (\<open>start_new\<close> deletes an object that is not ready whatever its references). A callback fires and tests
  \<open>m_lStopping\<close> in one step (\<open>exit_begins\<close>), so that it cannot be overtaken by \<open>TerminateBackendProcess\<close> in between. In
  \<open>HashConc\<close> the allocation of the node comes before the first step and the rehashing of a grown table after
  the last.

  \<^bold>\<open>Not modelled.\<close> The forwarding and web socket handlers, the in-process application, the global module and
  the search for \<open>hostfxr\<close>: their steps are calls into IIS, WinHTTP, COM and Windows objects and their
  callbacks, of which only the headers would be known. The configuration reader and \<open>ahutil.cpp\<close>: sequences of COM calls.
  Locks, interlocked lists, tracing and debug output of \<open>IISLib\<close>. The event log and the timer that
  flushes the log file. Version 1 of the module, whose \<open>IISLib\<close> is a copy of the modelled one.
  The managed code, tests, samples and build files.
\<close>

end
